(* ===== verification/Prelude.thy ===== *)
theory Prelude
  imports Main "HOL-Library.Word" "HOL-Library.Sublist"
begin

text \<open>
  Shared vocabulary of the development: machine integer types, the result type of
  operations that throw, the memory representation of unsigned integers, and generic
  lemmas on lists that several components use.
\<close>

named_theorems codec_intros \<open>introduction rules of the encode/decode logic\<close>
named_theorems mem_simps \<open>memory representation of integers\<close>

type_synonym u8 = "8 word"
type_synonym u16 = "16 word"
type_synonym u32 = "32 word"
type_synonym u64 = "64 word"

text \<open>A \<^verbatim>\<open>std::string\<close> used as a container of bytes.\<close>
type_synonym octets = "u8 list"

subsection \<open>Results of operations that may throw\<close>

text \<open>\<open>Inl\<close> carries the exception, \<open>Inr\<close> the value; \<open>sbind\<close> is sequencing.\<close>

definition sbind :: "'e + 'a \<Rightarrow> ('a \<Rightarrow> 'e + 'b) \<Rightarrow> 'e + 'b" where
  "sbind m f = (case m of Inl e \<Rightarrow> Inl e | Inr a \<Rightarrow> f a)"

lemma sbind_simps [simp]:
  "sbind (Inl e) f = Inl e"
  "sbind (Inr a) f = f a"
  by (simp_all add: sbind_def)

lemma sbind_eq_Inr_iff [simp]:
  "sbind m f = Inr b \<longleftrightarrow> (\<exists>a. m = Inr a \<and> f a = Inr b)"
  by (cases m) auto

lemma sbind_assoc: "sbind (sbind m f) g = sbind m (\<lambda>a. sbind (f a) g)"
  by (cases m) auto

subsection \<open>Characters as bytes\<close>

text \<open>A character literal of the source as the byte it is stored as.\<close>

definition oct :: "string \<Rightarrow> octets" where
  "oct s = map of_char s"

lemma length_oct [simp]: "length (oct s) = length s"
  by (simp add: oct_def)

lemma oct_append [simp]: "oct (s @ t) = oct s @ oct t"
  by (simp add: oct_def)

subsection \<open>Unsigned integers in memory\<close>

text \<open>
  \<open>mem_repr le n v\<close> is the object representation of the \<open>n\<close>-byte unsigned integer \<open>v\<close>
  on a machine that is little-endian iff \<open>le\<close>; \<open>mem_value\<close> reads it back.
\<close>

fun le_bytes :: "nat \<Rightarrow> nat \<Rightarrow> octets" where
  "le_bytes 0 v = []"
| "le_bytes (Suc n) v = of_nat v # le_bytes n (v div 256)"

fun le_val :: "octets \<Rightarrow> nat" where
  "le_val [] = 0"
| "le_val (b # bs) = unat b + 256 * le_val bs"

definition mem_repr :: "bool \<Rightarrow> nat \<Rightarrow> nat \<Rightarrow> octets" where
  "mem_repr le n v = (if le then le_bytes n v else rev (le_bytes n v))"

definition mem_value :: "bool \<Rightarrow> octets \<Rightarrow> nat" where
  "mem_value le bs = le_val (if le then bs else rev bs)"

lemma length_le_bytes [simp]: "length (le_bytes n v) = n"
  by (induction n arbitrary: v) auto

lemma length_mem_repr [simp]: "length (mem_repr le n v) = n"
  by (simp add: mem_repr_def)

lemma le_val_le_bytes: "le_val (le_bytes n v) = v mod 256 ^ n"
proof (induction n arbitrary: v)
  case 0
  then show ?case by simp
next
  case (Suc n)
  have "unat (of_nat v :: u8) = v mod 256"
    by (simp add: unat_of_nat)
  moreover have "v mod 256 ^ Suc n = 256 * (v div 256 mod 256 ^ n) + v mod 256"
    by (simp only: power_Suc mod_mult2_eq)
  ultimately show ?case by (simp only: le_bytes.simps le_val.simps Suc.IH)
qed

lemma mem_value_repr [mem_simps]: "mem_value le (mem_repr le n v) = v mod 256 ^ n"
  by (simp add: mem_value_def mem_repr_def le_val_le_bytes)

lemma mem_value_repr_swapped [mem_simps]:
  "mem_value (\<not> le) (rev (mem_repr le n v)) = v mod 256 ^ n"
  by (simp add: mem_value_def mem_repr_def le_val_le_bytes)

lemma unat_u8_less: "unat (b :: u8) < 256"
  using unsigned_less [of b] by simp

lemma unat_u32_less: "unat (w :: u32) < 2 ^ 32"
  using unsigned_less [of w] by simp

lemma ucast_ucast_u32: "(w :: u64) < 2 ^ 32 \<Longrightarrow> ucast (ucast w :: u32) = w"
proof -
  assume "w < 2 ^ 32"
  then have "unat w < 2 ^ 32" by (simp add: word_less_nat_alt)
  then have "unat (ucast (ucast w :: u32) :: u64) = unat w"
    by (simp add: unsigned_ucast_eq unsigned_take_bit_eq take_bit_nat_eq_self)
  then show ?thesis by (rule unsigned_word_eqI)
qed

lemma u8_256: "(256 :: u8) = 0"
  by simp

lemma le_val_bound: "le_val bs < 256 ^ length bs"
proof (induction bs)
  case Nil
  then show ?case by simp
next
  case (Cons b bs)
  have "unat b < 256" by (rule unat_u8_less)
  with Cons show ?case by simp
qed

lemma le_bytes_le_val: "le_bytes (length bs) (le_val bs) = bs"
proof (induction bs)
  case Nil
  then show ?case by simp
next
  case (Cons b bs)
  have b: "unat b < 256" by (rule unat_u8_less)
  have "(of_nat (unat b + 256 * le_val bs) :: u8) = b"
    by (simp add: u8_256)
  with b Cons show ?case by simp
qed

lemma mem_repr_value: "length bs = n \<Longrightarrow> mem_repr le n (mem_value le bs) = bs"
  using le_bytes_le_val [of bs] le_bytes_le_val [of "rev bs"]
  by (auto simp: mem_repr_def mem_value_def)

text \<open>A word whose width is \<open>8 * n\<close> bits survives the trip through memory.\<close>

lemma unat_mod_256_power:
  fixes w :: "'a::len word"
  assumes "LENGTH('a) \<le> 8 * n"
  shows "unat w mod 256 ^ n = unat w"
proof -
  have "unat w < 2 ^ LENGTH('a)" by (rule unsigned_less)
  also have "\<dots> \<le> 2 ^ (8 * n)" using assms by (intro power_increasing) auto
  also have "\<dots> = (256 :: nat) ^ n" by (simp add: power_mult)
  finally show ?thesis by simp
qed

lemma unat_of_nat_u32: "n < 2 ^ 32 \<Longrightarrow> unat (of_nat n :: u32) = n"
  by (simp add: unat_of_nat take_bit_nat_eq_self)

lemma unat_minus_one_u32: "unat (- 1 :: u32) = 2 ^ 32 - 1"
  by (simp add: unsigned_minus_1_eq_mask mask_eq_exp_minus_1)

subsection \<open>Lists\<close>

lemma take_drop_append_mid [simp]:
  "take (length ys) (drop (length xs) (xs @ ys @ zs)) = ys"
  by simp

lemma prefix_take_drop:
  assumes "prefix (xs @ ys) zs"
  shows "take (length ys) (drop (length xs) zs) = ys"
  using assms by (auto simp: prefix_def)

lemma prefix_length_le_nat: "prefix xs ys \<Longrightarrow> length xs \<le> length ys"
  by (rule prefix_length_le)

lemma prefix_cut: "prefix xs (ys @ zs) \<Longrightarrow> length xs \<le> length ys \<Longrightarrow> prefix xs ys"
  by (rule prefix_length_prefix [of _ "ys @ zs"]) simp_all

lemma prefix_cover: "prefix xs (ys @ zs) \<Longrightarrow> length ys \<le> length xs \<Longrightarrow> prefix ys xs"
  by (rule prefix_length_prefix [of _ "ys @ zs"]) simp_all

lemma prefix_nth:
  assumes "prefix (xs @ y # ys) zs"
  shows "zs ! length xs = y"
  using assms by (auto simp: prefix_def nth_append)

end
