(* ===== verification/CLib.thy ===== *)
theory CLib
  imports Prelude
begin

text \<open>
  The functions of the C library that the sources use on text: character classes of the C locale,
  the conversions \<^verbatim>\<open>strtoull\<close>, \<^verbatim>\<open>strtoll\<close> and \<^verbatim>\<open>strtoul\<close>, and decimal printing. A text is
  a \<open>string\<close> without its terminator; the conversions take the text from the position they start at
  and return the value, the number of characters they consume (the distance from the start to
  \<^verbatim>\<open>endptr\<close>) and whether \<^verbatim>\<open>errno\<close> is set to \<^verbatim>\<open>ERANGE\<close>.
\<close>

subsection \<open>Character classes\<close>

abbreviation code :: "char \<Rightarrow> nat" where "code c \<equiv> of_char c"

definition isspace :: "char \<Rightarrow> bool" where
  "isspace c \<longleftrightarrow> code c = 32 \<or> 9 \<le> code c \<and> code c \<le> 13"

definition isdigit :: "char \<Rightarrow> bool" where
  "isdigit c \<longleftrightarrow> 48 \<le> code c \<and> code c \<le> 57"

definition isupper :: "char \<Rightarrow> bool" where
  "isupper c \<longleftrightarrow> 65 \<le> code c \<and> code c \<le> 90"

definition isalpha :: "char \<Rightarrow> bool" where
  "isalpha c \<longleftrightarrow> isupper c \<or> 97 \<le> code c \<and> code c \<le> 122"

definition isprint :: "char \<Rightarrow> bool" where
  "isprint c \<longleftrightarrow> 32 \<le> code c \<and> code c \<le> 126"

definition tolower :: "char \<Rightarrow> char" where
  "tolower c = (if isupper c then char_of (code c + 32) else c)"

definition isxdigit :: "char \<Rightarrow> bool" where
  "isxdigit c \<longleftrightarrow> isdigit c \<or> 65 \<le> code c \<and> code c \<le> 70 \<or> 97 \<le> code c \<and> code c \<le> 102"

lemma code_bound: "code c < 256"
  using of_char_mod_256 [of c] by (metis mod_less_divisor zero_less_numeral)

lemma code_inject: "code c = code d \<longleftrightarrow> c = d"
  by (rule of_char_eq_iff)

subsection \<open>Conversion of text to numbers\<close>

text \<open>The value of a digit in a base up to 36; a character that is no digit has a value above.\<close>

definition digit_value :: "char \<Rightarrow> nat" where
  "digit_value c =
     (if isdigit c then code c - 48
      else if isalpha c then code (tolower c) - 87
      else 99)"

fun scan_digits :: "nat \<Rightarrow> nat \<Rightarrow> string \<Rightarrow> nat \<times> nat" where
  "scan_digits base acc [] = (acc, 0)"
| "scan_digits base acc (c # cs) =
     (if digit_value c < base
      then (case scan_digits base (acc * base + digit_value c) cs of (v, n) \<Rightarrow> (v, Suc n))
      else (acc, 0))"

text \<open>The base prefix: the base that applies and the number of characters of the prefix.\<close>

definition scan_prefix :: "nat \<Rightarrow> string \<Rightarrow> nat \<times> nat" where
  "scan_prefix base s =
     (if (base = 0 \<or> base = 16) \<and> 3 \<le> length s \<and> s ! 0 = CHR ''0'' \<and> tolower (s ! 1) = CHR ''x''
         \<and> isxdigit (s ! 2) then (16, 2)
      else if base = 0 then (if s \<noteq> [] \<and> hd s = CHR ''0'' then 8 else 10, 0)
      else (base, 0))"

definition scan_number :: "nat \<Rightarrow> string \<Rightarrow> bool \<times> nat \<times> nat" where
  "scan_number base s =
     (let ws = length (takeWhile isspace s);
          t = drop ws s;
          neg = (t \<noteq> [] \<and> hd t = CHR ''-'');
          sg = (if t \<noteq> [] \<and> (hd t = CHR ''-'' \<or> hd t = CHR ''+'') then 1 else 0);
          u = drop sg t
      in case scan_prefix base u of (b, pre) \<Rightarrow>
         case scan_digits b 0 (drop pre u) of (v, n) \<Rightarrow>
           if n = 0 then (False, 0, 0) else (neg, v, ws + sg + pre + n))"

definition strtoull :: "nat \<Rightarrow> string \<Rightarrow> u64 \<times> nat \<times> bool" where
  "strtoull base s =
     (case scan_number base s of (neg, v, n) \<Rightarrow>
        if int v \<ge> 2 ^ 64 then (- 1, n, True)
        else (if neg then - of_nat v else of_nat v, n, False))"

definition strtoll :: "nat \<Rightarrow> string \<Rightarrow> int \<times> nat \<times> bool" where
  "strtoll base s =
     (case scan_number base s of (neg, v, n) \<Rightarrow>
        if \<not> neg \<and> int v \<ge> 2 ^ 63 then (2 ^ 63 - 1, n, True)
        else if neg \<and> int v > 2 ^ 63 then (- (2 ^ 63), n, True)
        else (if neg then - int v else int v, n, False))"

subsection \<open>Decimal printing\<close>

fun dec_digits :: "nat \<Rightarrow> string" where
  "dec_digits n = (if n < 10 then [char_of (48 + n)] else dec_digits (n div 10) @ [char_of (48 + n mod 10)])"

declare dec_digits.simps [simp del]

definition print_int :: "int \<Rightarrow> string" where
  "print_int i = (if i < 0 then CHR ''-'' # dec_digits (nat (- i)) else dec_digits (nat i))"

lemma digit_value_char: "(d :: nat) < 10 \<Longrightarrow> digit_value (char_of (48 + d)) = d"
  by (simp add: digit_value_def isdigit_def)

lemma isdigit_char: "(d :: nat) < 10 \<Longrightarrow> isdigit (char_of (48 + d))"
  by (simp add: isdigit_def)

lemma dec_digits_isdigit: "\<forall>c\<in>set (dec_digits n). isdigit c"
proof (induction n rule: dec_digits.induct)
  case (1 n)
  then show ?case by (subst dec_digits.simps) (auto simp: isdigit_char)
qed

lemma dec_digits_nonempty [simp]: "dec_digits n \<noteq> []"
  by (subst dec_digits.simps) simp

lemma scan_digits_append:
  "(\<forall>c\<in>set s. digit_value c < base) \<Longrightarrow>
   scan_digits base acc (s @ t) =
     (case scan_digits base (fst (scan_digits base acc s)) t of (v, n) \<Rightarrow> (v, length s + n))"
proof (induction s arbitrary: acc)
  case Nil
  then show ?case by (cases "scan_digits base acc t") simp
next
  case (Cons c s)
  then show ?case
    by (cases "scan_digits base (fst (scan_digits base (acc * base + digit_value c) s)) t")
      (auto split: prod.splits)
qed

lemma digit_value_isdigit: "isdigit c \<Longrightarrow> digit_value c < 10"
  by (auto simp: digit_value_def isdigit_def)

lemma scan_digits_dec: "fst (scan_digits 10 0 (dec_digits n)) = n"
proof (induction n rule: dec_digits.induct)
  case (1 n)
  show ?case
  proof (cases "n < 10")
    case True
    then show ?thesis by (subst dec_digits.simps) (simp add: digit_value_char)
  next
    case False
    have "\<forall>c\<in>set (dec_digits (n div 10)). digit_value c < 10"
      using dec_digits_isdigit digit_value_isdigit by blast
    moreover have "fst (scan_digits 10 0 (dec_digits (n div 10))) = n div 10" using 1 False by simp
    ultimately show ?thesis using False
      by (subst dec_digits.simps) (simp add: scan_digits_append digit_value_char)
  qed
qed

text \<open>A printed number that is followed by anything but a digit is scanned completely.\<close>

definition no_digit :: "string \<Rightarrow> bool" where
  "no_digit t \<longleftrightarrow> t = [] \<or> \<not> 10 > digit_value (hd t)"

lemma scan_digits_dec_rest:
  assumes "no_digit t"
  shows "scan_digits 10 0 (dec_digits n @ t) = (n, length (dec_digits n))"
proof -
  have "\<forall>c\<in>set (dec_digits n). digit_value c < 10"
    using dec_digits_isdigit digit_value_isdigit by blast
  moreover have "scan_digits 10 n t = (n, 0)" using assms by (cases t) (auto simp: no_digit_def)
  ultimately show ?thesis by (simp add: scan_digits_append scan_digits_dec)
qed

lemma dec_digits_0: "dec_digits 0 = ''0''"
  by (subst dec_digits.simps) (simp add: code_inject [symmetric])

lemma hd_dec_digits: "hd (dec_digits n) = CHR ''0'' \<longleftrightarrow> n = 0"
proof (induction n rule: dec_digits.induct)
  case (1 n)
  show ?case
  proof (cases "n < 10")
    case True
    then have "char_of (48 + n) = CHR ''0'' \<longleftrightarrow> n = 0"
      by (simp add: code_inject [symmetric])
    then show ?thesis using True by (subst dec_digits.simps) simp
  next
    case False
    then show ?thesis using 1 by (subst dec_digits.simps) simp
  qed
qed

lemma dec_digits_isdigit_hd: "isdigit (hd (dec_digits n))"
  using dec_digits_isdigit [of n] dec_digits_nonempty [of n] by (cases "dec_digits n") auto

text \<open>What may follow a number: no digit and no \<^verbatim>\<open>x\<close>.\<close>

definition ends_number :: "string \<Rightarrow> bool" where
  "ends_number r \<longleftrightarrow> r = [] \<or> 16 \<le> digit_value (hd r) \<and> tolower (hd r) \<noteq> CHR ''x''"

lemma ends_no_digit: "ends_number r \<Longrightarrow> no_digit r"
  by (auto simp: ends_number_def no_digit_def)

lemma scan_prefix_dec:
  assumes "ends_number r"
  shows "scan_prefix 0 (dec_digits n @ r) = (if n = 0 then 8 else 10, 0)"
proof (cases "n = 0")
  case True
  have "\<not> (3 \<le> length (CHR ''0'' # r) \<and> tolower ((CHR ''0'' # r) ! 1) = CHR ''x'')"
    using assms by (cases r) (auto simp: ends_number_def)
  then show ?thesis using True by (auto simp: scan_prefix_def dec_digits_0)
next
  case False
  have "hd (dec_digits n @ r) \<noteq> CHR ''0''" "(dec_digits n @ r) ! 0 \<noteq> CHR ''0''"
    using hd_dec_digits [of n] False by (simp_all add: hd_append nth_append hd_conv_nth)
  then show ?thesis using False by (simp add: scan_prefix_def)
qed

lemma scan_digits_prefix:
  assumes "ends_number r"
  shows "scan_digits (if n = 0 then 8 else 10) 0 (dec_digits n @ r) = (n, length (dec_digits n))"
proof (cases "n = 0")
  case True
  have "scan_digits 8 0 r = (0, 0)"
    using assms by (cases r) (auto simp: ends_number_def)
  then show ?thesis using True by (simp add: dec_digits_0 digit_value_def isdigit_def)
next
  case False
  then show ?thesis using scan_digits_dec_rest [OF ends_no_digit [OF assms]] by simp
qed

lemma scan_number_print:
  assumes "ends_number r"
  shows "scan_number 0 (print_int i @ r) = (i < 0, nat \<bar>i\<bar>, length (print_int i))"
proof (cases "i < 0")
  case True
  let ?n = "nat (- i)"
  have "scan_number 0 (CHR ''-'' # dec_digits ?n @ r) = (True, ?n, Suc (length (dec_digits ?n)))"
    using scan_prefix_dec [OF assms, of ?n] scan_digits_prefix [OF assms, of ?n]
    by (simp add: scan_number_def isspace_def)
  then show ?thesis using True by (simp add: print_int_def)
next
  case False
  let ?n = "nat i"
  have h: "isdigit (hd (dec_digits ?n @ r))" using dec_digits_isdigit_hd by (simp add: hd_append)
  obtain c cs where c: "dec_digits ?n @ r = c # cs" using dec_digits_nonempty by (metis append_is_Nil_conv list.exhaust)
  have "takeWhile isspace (dec_digits ?n @ r) = []" using h c by (auto simp: isspace_def isdigit_def)
  moreover have "hd (dec_digits ?n @ r) \<noteq> CHR ''-''" "hd (dec_digits ?n @ r) \<noteq> CHR ''+''"
    using h by (auto simp: isdigit_def)
  ultimately have "scan_number 0 (dec_digits ?n @ r) = (False, ?n, length (dec_digits ?n))"
    using scan_prefix_dec [OF assms, of ?n] scan_digits_prefix [OF assms, of ?n]
    by (simp add: scan_number_def)
  then show ?thesis using False by (simp add: print_int_def)
qed

end
