(* ===== verification/UtilMisc.thy ===== *)
theory UtilMisc
  imports CLib
begin

text \<open>
  The utility functions of \<^verbatim>\<open>core/local/util/misc\<close> (\<^verbatim>\<open>OcpiUtilMisc.cxx\<close>, \<^verbatim>\<open>OcpiUtilMisc.h\<close>): rounding,
  conversions between numbers and text, case-insensitive comparison and glob patterns. The strings
  these functions throw are the texts of \<open>Inl\<close>.
\<close>

subsection \<open>Rounding\<close>

definition roundUp :: "u64 \<Rightarrow> u64 \<Rightarrow> u64" where
  "roundUp value align = ((value + (align - 1)) div align) * align"

lemma unat_roundUp:
  assumes "0 < unat (a :: u64)" "unat v + unat a \<le> 2 ^ 64"
  shows "unat (roundUp v a) = (unat v + unat a - 1) div unat a * unat a"
proof -
  have "1 \<le> a" using assms(1) by (simp add: word_le_nat_alt)
  then have a: "unat (a - 1) = unat a - 1" by (simp add: unat_sub)
  have s: "unat (v + (a - 1)) = unat v + unat a - 1"
    using assms by (simp add: unat_word_ariths a)
  have "(unat v + unat a - 1) div unat a * unat a \<le> unat v + unat a - 1" by simp
  then have "(unat v + unat a - 1) div unat a * unat a < 2 ^ 64" using assms by linarith
  moreover have "unat (x * a) = (unat x * unat a) mod 2 ^ 64" for x by (simp add: unat_word_ariths)
  ultimately show ?thesis by (simp only: roundUp_def unat_div_distrib s mod_less)
qed

lemma round_bounds:
  fixes v a :: nat
  assumes "0 < a"
  shows "v \<le> (v + a - 1) div a * a" "(v + a - 1) div a * a < v + a" "a dvd (v + a - 1) div a * a"
proof -
  have d: "(v + a - 1) div a * a + (v + a - 1) mod a = v + a - 1" by simp
  have "(v + a - 1) mod a < a" using assms by simp
  then show "v \<le> (v + a - 1) div a * a" using d assms by linarith
  show "(v + a - 1) div a * a < v + a" using d assms by linarith
qed simp

subsection \<open>Numbers to text\<close>

definition i2sDigits :: string where "i2sDigits = ''0123456789abcdef''"

text \<open>
  The two overloads of \<^verbatim>\<open>unsignedToString\<close> have the same body on 32 and 64 bits; nothing in it
  can overflow, so one definition on natural numbers stands for both.
\<close>

function count_digits :: "nat \<Rightarrow> nat \<Rightarrow> nat \<Rightarrow> nat" where
  "count_digits base tmp cnt =
     (if base < 2 \<or> tmp < base then cnt else count_digits base (tmp div base) (cnt + 1))"
  by auto
termination
  by (relation "measure (\<lambda>(b, t, c). t)") (auto intro: div_less_dividend)

function fill_digits :: "nat \<Rightarrow> nat \<Rightarrow> nat \<Rightarrow> nat \<Rightarrow> string \<Rightarrow> string" where
  "fill_digits base padLen value cnt result =
     (if base < 2 \<or> value < base then result[cnt - 1 + padLen := i2sDigits ! (value mod base)]
      else fill_digits base padLen (value div base) (cnt - 1)
             (result[cnt - 1 + padLen := i2sDigits ! (value mod base)]))"
  by auto
termination
  by (relation "measure (\<lambda>(b, p, v, c, r). v)") (auto intro: div_less_dividend)

declare count_digits.simps [simp del] fill_digits.simps [simp del]

definition unsignedToString :: "nat \<Rightarrow> nat \<Rightarrow> nat \<Rightarrow> char \<Rightarrow> string + string" where
  "unsignedToString value base mindigits pad =
     (if base < 2 \<or> base > 16 then Inl ''invalid base''
      else let cnt = count_digits base value 1;
               padLen = (if mindigits > cnt then mindigits - cnt else 0);
               result = (if mindigits > cnt then replicate mindigits pad else replicate cnt (CHR 0x00))
           in Inr (fill_digits base padLen value cnt result))"

text \<open>
  \<^verbatim>\<open>integerToString\<close> negates a negative argument; for the least \<^verbatim>\<open>int\<close> this overflows, the value
  stays negative and the digit table is indexed with a negative number.
\<close>

definition integerToString :: "int \<Rightarrow> string + string" where
  "integerToString value =
     (if value = - (2 ^ 31) then Inl ''digit index out of range''
      else let positive = (value \<ge> 0);
               v = nat (if positive then value else - value);
               cnt = count_digits 10 v (if positive then 1 else 2);
               result = replicate cnt (CHR 0x00);
               result = (if positive then result else result[0 := CHR ''-''])
           in Inr (fill_digits 10 0 v cnt result))"

subsection \<open>Text to numbers\<close>

definition stringToInteger :: "string \<Rightarrow> string + int" where
  "stringToInteger str =
     (case strtoll 10 str of (value, n, erange) \<Rightarrow>
        if (value = 0 \<and> n = 0) \<or> erange \<or> n < length str then Inl ''not an integer''
        else let res = sint (of_int value :: 32 word) in
          if res \<noteq> value then Inl ''integer out of range'' else Inr res)"

definition stringToUnsigned :: "string \<Rightarrow> nat \<Rightarrow> string + u32" where
  "stringToUnsigned str base =
     (case strtoull base str of (value, n, erange) \<Rightarrow>
        if (value = 0 \<and> n = 0) \<or> erange \<or> n < length str then Inl ''not an unsigned integer''
        else let res = ucast value :: u32 in
          if ucast res \<noteq> value then Inl ''unsigned integer out of range'' else Inr res)"

definition stringToULongLong :: "string \<Rightarrow> nat \<Rightarrow> string + u64" where
  "stringToULongLong str base =
     (case strtoull base str of (value, n, erange) \<Rightarrow>
        if (value = 0 \<and> n = 0) \<or> erange \<or> n < length str then Inl ''not an unsigned integer''
        else Inr value)"

text \<open>
  A \<^verbatim>\<open>std::streamsize\<close> is a signed 64 bit integer; \<^verbatim>\<open>1<<31\<close> is the shift of an \<^verbatim>\<open>int\<close>, whose
  result is the least \<^verbatim>\<open>int\<close>.
\<close>

definition unsignedToStreamsize :: "u64 \<Rightarrow> bool \<Rightarrow> int" where
  "unsignedToStreamsize value minusone =
     (let res = sint value in
      if res < 0 \<or> value \<noteq> of_int res then (if \<not> minusone then - (2 ^ 31) else - 1) else res)"

subsection \<open>Comparison and patterns\<close>

text \<open>A plain \<^verbatim>\<open>char\<close> is signed.\<close>

definition schar :: "char \<Rightarrow> int" where
  "schar c = (if code c < 128 then int (code c) else int (code c) - 256)"

fun compare_chars :: "string \<Rightarrow> string \<Rightarrow> int option" where
  "compare_chars (a # s1) (b # s2) =
     (let c = (if isalpha a \<and> isalpha b then schar (tolower b) - schar (tolower a)
               else if isalpha a then schar (tolower b) - schar a
               else if isalpha b then schar b - schar (tolower a)
               else schar b - schar a)
      in if c \<noteq> 0 then Some c else compare_chars s1 s2)"
| "compare_chars _ _ = None"

definition caseInsensitiveStringCompare :: "string \<Rightarrow> string \<Rightarrow> int" where
  "caseInsensitiveStringCompare s1 s2 =
     (case compare_chars s1 s2 of Some c \<Rightarrow> c
      | None \<Rightarrow> sint (of_int (int (length s2) - int (length s1)) :: 32 word))"

definition CaseInsensitiveStringLess :: "string \<Rightarrow> string \<Rightarrow> bool" where
  "CaseInsensitiveStringLess s1 s2 \<longleftrightarrow> caseInsensitiveStringCompare s1 s2 < 0"

text \<open>
  The recursive call of \<^verbatim>\<open>glob\<close> makes strings of the character pointers, which end at a null
  character.
\<close>

definition cstring :: "string \<Rightarrow> string" where
  "cstring s = takeWhile (\<lambda>c. c \<noteq> CHR 0x00) s"

abbreviation is_star :: "char \<Rightarrow> bool" where "is_star c \<equiv> c = CHR ''*''"

lemma length_cstring_le: "length (cstring s) \<le> length s"
  by (simp add: cstring_def length_takeWhile_le)

function (sequential) glob :: "string \<Rightarrow> string \<Rightarrow> bool"
  and glob_from :: "string \<Rightarrow> string \<Rightarrow> bool" where
  "glob [] pat = (dropWhile is_star pat = [])"
| "glob (c # cs) [] = False"
| "glob (c # cs) (p # ps) =
     (if is_star p then glob_from (c # cs) (dropWhile is_star ps) \<or> dropWhile is_star ps = []
      else if p = CHR ''?'' \<or> p = c then glob cs ps
      else False)"
| "glob_from [] pat = False"
| "glob_from (c # cs) pat = (glob (cstring (c # cs)) (cstring pat) \<or> glob_from cs pat)"
  by pat_completeness auto
termination
proof (relation "measures [\<lambda>x. case x of Inl (s, p) \<Rightarrow> 2 * length p | Inr (s, p) \<Rightarrow> 2 * length p + 1,
    \<lambda>x. case x of Inl (s, p) \<Rightarrow> length s | Inr (s, p) \<Rightarrow> length s]", goal_cases)
  case (2 c cs p ps)
  have "length (dropWhile is_star ps) \<le> length ps" by (rule length_dropWhile_le)
  then show ?case by (simp add: less_Suc_eq_le)
next
  case (4 c cs pat)
  show ?case using length_cstring_le [of pat] by (simp add: less_Suc_eq_le)
qed auto

subsection \<open>Glob patterns against their meaning\<close>

text \<open>The meaning of a pattern: a star stands for any text, a question mark for any character.\<close>

fun matches :: "string \<Rightarrow> string \<Rightarrow> bool" where
  "matches [] s \<longleftrightarrow> s = []"
| "matches (p # ps) s \<longleftrightarrow>
     (if is_star p then \<exists>n\<le>length s. matches ps (drop n s)
      else s \<noteq> [] \<and> (p = CHR ''?'' \<or> p = hd s) \<and> matches ps (tl s))"

lemma matches_Nil: "matches ps [] \<longleftrightarrow> dropWhile is_star ps = []"
  by (induction ps) auto

lemma matches_star_drop:
  "(\<exists>n\<le>length s. matches ps (drop n s)) \<longleftrightarrow> (\<exists>n\<le>length s. matches (dropWhile is_star ps) (drop n s))"
proof (induction ps)
  case (Cons p ps)
  show ?case
  proof (cases "is_star p")
    case True
    have "(\<exists>n\<le>length s. matches (p # ps) (drop n s)) \<longleftrightarrow> (\<exists>n\<le>length s. matches ps (drop n s))"
    proof
      assume "\<exists>n\<le>length s. matches (p # ps) (drop n s)"
      then obtain n m where "n \<le> length s" "m \<le> length s - n" "matches ps (drop (m + n) s)"
        using True by auto
      then show "\<exists>n\<le>length s. matches ps (drop n s)" by (intro exI [of _ "m + n"]) auto
    next
      assume "\<exists>n\<le>length s. matches ps (drop n s)"
      then show "\<exists>n\<le>length s. matches (p # ps) (drop n s)" using True by (intro exI [of _ 0]) auto
    qed
    then show ?thesis using True Cons.IH by simp
  qed simp
qed simp

lemma cstring_id: "CHR 0x00 \<notin> set s \<Longrightarrow> cstring s = s"
  by (auto simp: cstring_def)

lemma glob_matches:
  "CHR 0x00 \<notin> set s \<Longrightarrow> CHR 0x00 \<notin> set p \<Longrightarrow> glob s p \<longleftrightarrow> matches p s"
  "CHR 0x00 \<notin> set s \<Longrightarrow> CHR 0x00 \<notin> set p \<Longrightarrow> glob_from s p \<longleftrightarrow> (\<exists>n<length s. matches p (drop n s))"
proof (induction s p and s p rule: glob_glob_from.induct)
  case (1 pat)
  then show ?case by (simp add: matches_Nil)
next
  case (3 c cs p ps)
  let ?q = "dropWhile is_star ps"
  have z: "CHR 0x00 \<notin> set ?q" using 3(4) set_dropWhileD by fastforce
  show ?case
  proof (cases "is_star p")
    case True
    have "matches ?q [] \<longleftrightarrow> ?q = []" by (simp add: matches_Nil)
    moreover have "(\<exists>n\<le>length (c # cs). matches ?q (drop n (c # cs))) \<longleftrightarrow>
        (\<exists>n<length (c # cs). matches ?q (drop n (c # cs))) \<or> matches ?q []"
      by (metis drop_all le_neq_implies_less nat_less_le order_refl)
    ultimately show ?thesis
      using True 3(1) [OF True 3(3) z] matches_star_drop [of "c # cs" ps] by simp
  next
    case False
    then show ?thesis using 3(2) [OF False] 3(3,4) by auto
  qed
next
  case (5 c cs pat)
  have "(\<exists>n<length (c # cs). matches pat (drop n (c # cs))) \<longleftrightarrow>
      matches pat (c # cs) \<or> (\<exists>n<length cs. matches pat (drop n cs))"
    by (auto simp: less_Suc_eq_0_disj)
  then show ?case using 5 by (auto simp: cstring_id)
qed auto

text \<open>
  Claim C27: a glob pattern matches a text exactly when the text has the form the pattern stands for,
  for patterns and texts without null characters.
\<close>
theorem glob_correct:
  assumes "CHR 0x00 \<notin> set str" "CHR 0x00 \<notin> set pat"
  shows "glob str pat \<longleftrightarrow> matches pat str"
  using assms by (rule glob_matches(1))

theorem glob_correct_witness:
  "CHR 0x00 \<notin> set ''container'' \<and> (glob ''container'' ''c*t?in*'' \<longleftrightarrow> matches ''c*t?in*'' ''container'')"
  using glob_correct [of "''container''" "''c*t?in*''"] by simp

subsection \<open>Round trip of unsigned numbers\<close>

text \<open>The digits of a number in a base, most significant first.\<close>

function digits :: "nat \<Rightarrow> nat \<Rightarrow> string" where
  "digits b v = (if b < 2 \<or> v < b then [i2sDigits ! (v mod b)] else digits b (v div b) @ [i2sDigits ! (v mod b)])"
  by auto
termination
  by (relation "measure (\<lambda>(b, v). v)") (auto intro: div_less_dividend)

declare digits.simps [simp del]

lemma count_digits_length: "count_digits b v (Suc k) = k + length (digits b v)"
proof (induction b v arbitrary: k rule: digits.induct)
  case (1 b v)
  then show ?case by (subst count_digits.simps, subst digits.simps) simp
qed

lemma digits_nonempty [simp]: "digits b v \<noteq> []"
  by (subst digits.simps) simp

lemma digits_small: "b < 2 \<or> v < b \<Longrightarrow> digits b v = [i2sDigits ! (v mod b)]"
  by (subst digits.simps) simp

lemma fill_digits_eq:
  "length r = length (digits b v) \<Longrightarrow> length pre = padLen \<Longrightarrow>
   fill_digits b padLen v (length (digits b v)) (pre @ r @ suf) = pre @ digits b v @ suf"
proof (induction b v arbitrary: r suf rule: digits.induct)
  case (1 b v)
  let ?d = "i2sDigits ! (v mod b)"
  obtain r' x where r: "r = r' @ [x]" using 1(2) by (cases r rule: rev_cases) auto
  show ?case
  proof (cases "b < 2 \<or> v < b")
    case True
    then have d: "digits b v = [?d]" by (rule digits_small)
    with 1(2) r have "r' = []" by simp
    then show ?thesis using True 1(3) d r by (subst fill_digits.simps) (simp add: list_update_append)
  next
    case False
    then have d: "digits b v = digits b (v div b) @ [?d]" by (subst digits.simps) simp
    have l: "length r' = length (digits b (v div b))" using 1(2) d r by simp
    have n: "length (digits b v) - 1 = length r'" using d l by simp
    have "(pre @ r @ suf)[length r' + padLen := ?d] = pre @ r' @ ?d # suf"
      using 1(3) by (simp add: r list_update_append)
    moreover have "fill_digits b padLen v (length (digits b v)) w =
        fill_digits b padLen (v div b) (length r') (w[length r' + padLen := ?d])" for w
      using False n by (subst fill_digits.simps) (simp only: if_False)
    moreover have "fill_digits b padLen (v div b) (length r') (pre @ r' @ ?d # suf) = pre @ digits b (v div b) @ ?d # suf"
      using 1(1) [OF False l 1(3), of "?d # suf"] l by simp
    ultimately show ?thesis using d by simp
  qed
qed

lemma unsignedToString_digits:
  assumes "2 \<le> b" "b \<le> 16"
  shows "unsignedToString v b m pad = Inr (replicate (m - length (digits b v)) pad @ digits b v)"
proof -
  let ?n = "length (digits b v)"
  have c: "count_digits b v (Suc 0) = ?n" using count_digits_length [of b v 0] by simp
  have "replicate m pad = replicate (m - ?n) pad @ replicate ?n pad" if "?n < m"
    using that by (simp flip: replicate_add)
  then have "fill_digits b (m - ?n) v ?n (replicate m pad) = replicate (m - ?n) pad @ digits b v" if "?n < m"
    using that fill_digits_eq [of "replicate ?n pad" b v "replicate (m - ?n) pad" "m - ?n" "[]"] by simp
  moreover have "fill_digits b 0 v ?n (replicate ?n z) = digits b v" for z
    using fill_digits_eq [of "replicate ?n z" b v "[]" 0 "[]"] by simp
  ultimately show ?thesis using assms by (auto simp: unsignedToString_def c Let_def)
qed

lemma i2sDigits_value: "d < 16 \<Longrightarrow> digit_value (i2sDigits ! d) = d"
proof -
  have "\<forall>d\<in>set [0..<16]. digit_value (i2sDigits ! d) = d" by code_simp
  then show "d < 16 \<Longrightarrow> ?thesis" by simp
qed

lemma digits_value:
  assumes "2 \<le> b" "b \<le> 16"
  shows "(\<forall>c\<in>set (digits b v). digit_value c < b) \<and> fst (scan_digits b 0 (digits b v)) = v"
  using assms
proof (induction b v rule: digits.induct)
  case (1 b v)
  have d: "digit_value (i2sDigits ! (v mod b)) = v mod b"
    using 1(2,3) mod_less_divisor [of b v] by (intro i2sDigits_value) linarith
  have m: "v mod b < b" using 1(2) by simp
  show ?case
  proof (cases "v < b")
    case True
    then show ?thesis using 1(2) d m by (simp add: digits_small)
  next
    case False
    then have "digits b v = digits b (v div b) @ [i2sDigits ! (v mod b)]" using 1(2) by (subst digits.simps) simp
    then show ?thesis using 1(1) 1(2,3) False d m by (simp add: scan_digits_append)
  qed
qed

lemma scan_digits_zeros:
  "0 < b \<Longrightarrow> scan_digits b 0 (replicate k (CHR ''0'') @ s) = (case scan_digits b 0 s of (v, n) \<Rightarrow> (v, k + n))"
proof (induction k)
  case (Suc k)
  then show ?case by (simp add: digit_value_def isdigit_def split: prod.splits)
qed simp

text \<open>A text of digits has neither a sign nor a base prefix, so it is scanned in the given base.\<close>

lemma digit_value_others:
  "digit_value (CHR ''x'') = 33" "digit_value (CHR ''-'') = 99" "digit_value (CHR ''+'') = 99"
  by code_simp+

lemma isspace_digit_value: "isspace c \<Longrightarrow> digit_value c = 99"
  by (auto simp: isspace_def digit_value_def isdigit_def isalpha_def isupper_def)

lemma tolower_x: "tolower c = CHR ''x'' \<Longrightarrow> 16 \<le> digit_value c"
  by (auto simp: digit_value_def isdigit_def tolower_def isupper_def isalpha_def)

lemma scan_number_digits:
  assumes "\<forall>c\<in>set s. digit_value c < b" "2 \<le> b" "b \<le> 16" "s \<noteq> []"
  shows "scan_number b s = (False, fst (scan_digits b 0 s), length s)"
proof -
  obtain c t where s: "s = c # t" using assms(4) by (cases s) auto
  have c: "digit_value c < b" using assms(1) s by simp
  then have "\<not> isspace c" "c \<noteq> CHR ''-''" "c \<noteq> CHR ''+''"
    using assms(3) isspace_digit_value [of c] digit_value_others by auto
  moreover have "tolower (s ! 1) \<noteq> CHR ''x''" if "3 \<le> length s"
    using assms(1,3) that tolower_x [of "s ! 1"] nth_mem [of 1 s] by fastforce
  then have "scan_prefix b s = (b, 0)" using assms(2) by (auto simp: scan_prefix_def)
  moreover have "scan_digits b 0 s = (fst (scan_digits b 0 s), length s)"
    using scan_digits_append [of s b 0 "[]"] assms(1) by simp
  ultimately show ?thesis using assms(4) s
    by (simp add: scan_number_def Let_def split: prod.splits)
qed

lemma strtoull_unsignedToString:
  assumes "2 \<le> b" "b \<le> 16" "v < 2 ^ 64" "unsignedToString v b m (CHR ''0'') = Inr s"
  shows "strtoull b s = (of_nat v, length s, False)"
proof -
  let ?k = "m - length (digits b v)"
  have s: "s = replicate ?k (CHR ''0'') @ digits b v" using assms unsignedToString_digits by auto
  have d: "\<forall>c\<in>set (digits b v). digit_value c < b" "fst (scan_digits b 0 (digits b v)) = v"
    using digits_value [OF assms(1,2)] by auto
  have "\<forall>c\<in>set s. digit_value c < b" using d(1) assms(1) by (auto simp: s digit_value_def isdigit_def)
  moreover have "fst (scan_digits b 0 s) = v"
    using d(2) assms(1) by (cases "scan_digits b 0 (digits b v)") (simp add: s scan_digits_zeros)
  moreover have "s \<noteq> []" by (simp add: s)
  ultimately show ?thesis using assms by (simp add: strtoull_def scan_number_digits)
qed

text \<open>
  An unsigned number written in any base, padded with zeros to any width, is read back
  unchanged.
\<close>
theorem unsigned_text_roundtrip:
  assumes "2 \<le> base" "base \<le> 16" "v < 2 ^ 32"
  shows "\<exists>s. unsignedToString v base mindigits (CHR ''0'') = Inr s \<and> mindigits \<le> length s \<and>
     stringToUnsigned s base = Inr (of_nat v)"
proof -
  obtain s where s: "unsignedToString v base mindigits (CHR ''0'') = Inr s"
    "s = replicate (mindigits - length (digits base v)) (CHR ''0'') @ digits base v"
    using unsignedToString_digits [OF assms(1,2)] by simp
  have "strtoull base s = (of_nat v, length s, False)"
    using strtoull_unsignedToString [OF assms(1,2) _ s(1)] assms(3) by simp
  moreover have "unat (ucast (of_nat v :: u64) :: u32) = unat (of_nat v :: u32)"
    "unat (ucast (of_nat v :: u32) :: u64) = unat (of_nat v :: u64)"
    using assms(3) by (simp_all add: unsigned_ucast_eq unat_of_nat take_bit_nat_eq_self)
  then have "ucast (of_nat v :: u64) = (of_nat v :: u32)" "ucast (of_nat v :: u32) = (of_nat v :: u64)"
    by (simp_all add: unsigned_word_eqI)
  moreover have "s \<noteq> []" "mindigits \<le> length s" using s(2) by auto
  ultimately show ?thesis using s(1) by (auto simp: stringToUnsigned_def)
qed

theorem unsigned_text_roundtrip_witness:
  "\<exists>s. unsignedToString 48879 16 8 (CHR ''0'') = Inr s \<and> 8 \<le> length s \<and> stringToUnsigned s 16 = Inr (of_nat 48879)"
  using unsigned_text_roundtrip [of 16 48879 8] by simp

subsection \<open>Signed numbers\<close>

lemma fill_digits_shift:
  "length (digits b v) \<le> n \<Longrightarrow> fill_digits b k v (Suc n) (z # r) = z # fill_digits b k v n r"
proof (induction b v arbitrary: n r rule: digits.induct)
  case (1 b v)
  obtain m where m: "n = Suc m" using 1(2) by (cases n) auto
  then have u: "(z # r)[Suc n - 1 + k := d] = z # r[n - 1 + k := d]" for d by simp
  show ?case
  proof (cases "b < 2 \<or> v < b")
    case True
    then show ?thesis using u by (subst (1 2) fill_digits.simps) simp
  next
    case False
    then have "length (digits b (v div b)) \<le> m" using 1(2) m by (subst (asm) digits.simps) simp
    then show ?thesis using 1(1) [OF False] False by (subst (1 2) fill_digits.simps) (simp add: m)
  qed
qed

lemma integerToString_correct:
  assumes "- (2 ^ 31) < i"
  shows "integerToString i = Inr ((if i < 0 then [CHR ''-''] else []) @ digits 10 (nat \<bar>i\<bar>))"
proof -
  let ?n = "length (digits 10 (nat \<bar>i\<bar>))"
  have c: "count_digits 10 (nat \<bar>i\<bar>) (Suc 0) = ?n" "count_digits 10 (nat \<bar>i\<bar>) 2 = Suc ?n"
    using count_digits_length [of 10 "nat \<bar>i\<bar>" 0] count_digits_length [of 10 "nat \<bar>i\<bar>" 1]
    by (simp_all add: numeral_2_eq_2)
  have f: "fill_digits 10 0 (nat \<bar>i\<bar>) ?n (replicate ?n (CHR 0x00)) = digits 10 (nat \<bar>i\<bar>)"
    using fill_digits_eq [of "replicate ?n (CHR 0x00)" 10 "nat \<bar>i\<bar>" "[]" 0 "[]"] by simp
  show ?thesis
  proof (cases "i < 0")
    case True
    then show ?thesis using assms c(2) f fill_digits_shift [of 10 "nat \<bar>i\<bar>" ?n]
      by (simp add: integerToString_def Let_def)
  qed (use assms c(1) f in \<open>simp add: integerToString_def Let_def\<close>)
qed

subsection \<open>The case-insensitive order\<close>

text \<open>
  \<^verbatim>\<open>CaseInsensitiveStringLess\<close> is used as the order of associative containers, which demand a
  strict weak order. A letter that is compared with another character is not converted, so two
  spellings of one letter are equivalent and yet on different sides of the character between them.
\<close>

lemma case_insensitive_less_no_weak_order:
  "\<not> CaseInsensitiveStringLess ''A'' ''a'' \<and> \<not> CaseInsensitiveStringLess ''a'' ''A'' \<and>
   CaseInsensitiveStringLess ''a'' ''['' \<and> CaseInsensitiveStringLess ''['' ''A''"
  by code_simp

end
