(* ===== verification/Uris.thy ===== *)
theory Uris
  imports CLib
begin

text \<open>
  Uniform resource identifiers, \<^verbatim>\<open>core/local/util/misc/src/OcpiUtilUri.cxx\<close>: escapes, the parsing of
  an identifier into its parts, the normalisation of paths, the resolution of a relative identifier
  against a base, and the comparison of prefixes up to escapes. A position in the text is the rest of
  the text from that position on. Counts of segments are numbers without bound.
\<close>

unbundle bit_operations_syntax

subsection \<open>Characters and escapes\<close>

definition isreserved :: "char \<Rightarrow> bool" where
  "isreserved c \<longleftrightarrow> c \<in> set '';/?:@&=+$,''"

definition ismark :: "char \<Rightarrow> bool" where
  "ismark c \<longleftrightarrow> c \<in> set ''-_.!~*()'' \<or> c = CHR 0x27"

definition isunreserved :: "char \<Rightarrow> bool" where
  "isunreserved c \<longleftrightarrow> isalpha c \<or> isdigit c \<or> ismark c"

definition isuric :: "char \<Rightarrow> bool" where
  "isuric c \<longleftrightarrow> isreserved c \<or> isunreserved c \<or> c = CHR ''%''"

text \<open>A character as a signed number, and the value of two digits, which are not tested here.\<close>

definition uri_schar :: "char \<Rightarrow> int" where
  "uri_schar c = (if code c < 128 then int (code c) else int (code c) - 256)"

definition hex_digit :: "char \<Rightarrow> int" where
  "hex_digit x = (if 65 \<le> uri_schar x \<and> uri_schar x \<le> 70 then uri_schar x - 65 + 10
     else if 97 \<le> uri_schar x \<and> uri_schar x \<le> 102 then uri_schar x - 97 + 10 else uri_schar x - 48)"

definition hex_value :: "char \<Rightarrow> char \<Rightarrow> int" where
  "hex_value x1 x2 = push_bit 4 (hex_digit x1) OR hex_digit x2"

text \<open>A percent sign in the last two characters is not an escape: the terminator is no digit.\<close>

fun decodeURI :: "string \<Rightarrow> string" where
  "decodeURI [] = []"
| "decodeURI [c] = [c]"
| "decodeURI [c, x1] = [c, x1]"
| "decodeURI (c # x1 # x2 # s) =
     (if c = CHR ''%'' \<and> isxdigit x1 \<and> isxdigit x2 then char_of (nat (hex_value x1 x2 mod 256)) # decodeURI s
      else c # decodeURI (x1 # x2 # s))"

definition hex_char :: "nat \<Rightarrow> char" where
  "hex_char x = (if x > 9 then char_of (97 + x - 10) else char_of (48 + x))"

definition encode_char :: "string \<Rightarrow> char \<Rightarrow> string" where
  "encode_char allowed c =
     (if \<not> isunreserved c \<and> c \<notin> set allowed then [CHR ''%'', hex_char (code c div 16), hex_char (code c mod 16)] else [c])"

definition encodeURI :: "string \<Rightarrow> string \<Rightarrow> string" where
  "encodeURI allowed s = concat (map (encode_char allowed) s)"

subsection \<open>Prefixes up to escapes\<close>

function prefix_loop :: "string \<Rightarrow> string \<Rightarrow> string option" where
  "prefix_loop full [] = Some full"
| "prefix_loop [] (b # bs) = None"
| "prefix_loop (f # fs) (b # bs) =
     (if f = CHR ''%'' \<and> b = CHR ''%'' then
        (if length fs < 2 \<or> length bs < 2 \<or> tolower (fs ! 0) \<noteq> tolower (bs ! 0) \<or> tolower (fs ! 1) \<noteq> tolower (bs ! 1) then None
         else prefix_loop (drop 2 fs) (drop 2 bs))
      else if f = CHR ''%'' then
        (if length fs < 2 then None
         else if hex_value (fs ! 0) (fs ! 1) \<noteq> uri_schar b then None else prefix_loop (drop 2 fs) bs)
      else if b = CHR ''%'' then
        (if length bs < 2 then None
         else if hex_value (bs ! 0) (bs ! 1) \<noteq> uri_schar f then None else prefix_loop fs (drop 2 bs))
      else if f \<noteq> b then None else prefix_loop fs bs)"
  by pat_completeness auto
termination by (relation "measure (\<lambda>(f, b). length f + length b)") auto

text \<open>The part of the full identifier that corresponds to the base, and the rest.\<close>

definition isPrefix :: "string \<Rightarrow> string \<Rightarrow> (string \<times> string) option" where
  "isPrefix full base = map_option (\<lambda>t. (take (length full - length t) full, t)) (prefix_loop full base)"

subsection \<open>Parsing\<close>

record uri =
  u_uri :: string
  u_scheme :: string
  u_authority :: string
  u_userinfo :: string
  u_hostport :: string
  u_host :: string
  u_port :: string
  u_path :: string
  u_filename :: string
  u_query :: string
  u_request :: string
  u_fragment :: string

definition Uri :: uri where
  "Uri = \<lparr>u_uri = [], u_scheme = [], u_authority = [], u_userinfo = [], u_hostport = [], u_host = [], u_port = [],
     u_path = [], u_filename = [], u_query = [], u_request = [], u_fragment = []\<rparr>"

definition isAbsolute :: "uri \<Rightarrow> bool" where
  "isAbsolute u \<longleftrightarrow> u_scheme u \<noteq> []"

definition scheme_char :: "char \<Rightarrow> bool" where
  "scheme_char c \<longleftrightarrow> isalpha c \<or> isdigit c \<or> c \<in> set ''+-.''"

definition auth_char :: "char \<Rightarrow> bool" where
  "auth_char c \<longleftrightarrow> isunreserved c \<or> c \<in> set ''%$,;:@&=+$''"

definition path_char :: "char \<Rightarrow> bool" where
  "path_char c \<longleftrightarrow> isunreserved c \<or> c \<in> set ''%/;:@&=+$,''"

text \<open>A text that does not start with a letter leaves the scheme of the object as it was.\<close>

definition parse_scheme :: "string \<Rightarrow> uri \<Rightarrow> uri \<times> string" where
  "parse_scheme s u =
     (if s \<noteq> [] \<and> isalpha (hd s) then
        let idx = 1 + length (takeWhile scheme_char (tl s)) in
        if idx < length s \<and> s ! idx = CHR '':'' then (u\<lparr>u_scheme := take idx s\<rparr>, drop (idx + 1) s)
        else (u\<lparr>u_scheme := []\<rparr>, s)
      else (u, s))"

text \<open>The text before and after the first occurrence of a character.\<close>

definition cut_at :: "char \<Rightarrow> string \<Rightarrow> (string \<times> string) option" where
  "cut_at c s = (if c \<in> set s then Some (takeWhile (\<lambda>x. x \<noteq> c) s, tl (dropWhile (\<lambda>x. x \<noteq> c) s)) else None)"

definition parse_authority :: "string \<Rightarrow> uri \<Rightarrow> uri \<times> string" where
  "parse_authority s u =
     (if 2 \<le> length s \<and> s ! 0 = CHR ''/'' \<and> s ! 1 = CHR ''/'' then
        let a = takeWhile auth_char (drop 2 s);
            (ui, hp) = (case cut_at CHR ''@'' a of Some (x, y) \<Rightarrow> (x, y) | None \<Rightarrow> ([], a));
            (h, p) = (case cut_at CHR '':'' hp of Some (x, y) \<Rightarrow> (x, y) | None \<Rightarrow> (hp, []))
        in (u\<lparr>u_authority := a, u_userinfo := ui, u_hostport := hp, u_host := h, u_port := p\<rparr>, dropWhile auth_char (drop 2 s))
      else (u\<lparr>u_authority := [], u_userinfo := [], u_hostport := [], u_host := [], u_port := []\<rparr>, s))"

text \<open>The text behind the last slash, and up to it.\<close>

definition after_slash :: "string \<Rightarrow> string" where
  "after_slash s = rev (takeWhile (\<lambda>x. x \<noteq> CHR ''/'') (rev s))"

definition before_slash :: "string \<Rightarrow> string" where
  "before_slash s = rev (tl (dropWhile (\<lambda>x. x \<noteq> CHR ''/'') (rev s)))"

definition parse_path :: "string \<Rightarrow> uri \<Rightarrow> uri \<times> string" where
  "parse_path s u =
     (let p = takeWhile path_char s in
      (u\<lparr>u_path := p, u_request := (if p \<noteq> [] then p else ''/''),
         u_filename := (if CHR ''/'' \<in> set p then after_slash p else if p \<noteq> [] then p else [])\<rparr>,
       dropWhile path_char s))"

definition parse_query :: "string \<Rightarrow> uri \<Rightarrow> uri \<times> string" where
  "parse_query s u =
     (if s \<noteq> [] \<and> hd s = CHR ''?'' then
        let q = takeWhile isuric (tl s) in
        (u\<lparr>u_query := q, u_request := u_request u @ ''?'' @ q\<rparr>, dropWhile isuric (tl s))
      else (u\<lparr>u_query := []\<rparr>, s))"

definition parse_fragment :: "string \<Rightarrow> uri \<Rightarrow> uri \<times> string" where
  "parse_fragment s u =
     (if s \<noteq> [] \<and> hd s = CHR ''#''
      then (u\<lparr>u_fragment := takeWhile isuric (tl s)\<rparr>, dropWhile isuric (tl s))
      else (u\<lparr>u_fragment := []\<rparr>, s))"

definition invalid_character :: "char \<Rightarrow> string" where
  "invalid_character c = ''Invalid character: '' @
     (if code c = 9 then ''(tab)'' else if code c = 32 then ''(space)''
      else [CHR 0x27, CHR ''%'', hex_char (code c div 16), hex_char (code c mod 16), CHR 0x27])"

text \<open>The object after the call and the exception, if there is one.\<close>

definition uri_parse :: "string \<Rightarrow> uri \<Rightarrow> string option \<times> uri" where
  "uri_parse data u =
     (case parse_scheme data (u\<lparr>u_uri := data\<rparr>) of (u, s) \<Rightarrow>
      case parse_authority s u of (u, s) \<Rightarrow>
      case parse_path s u of (u, s) \<Rightarrow>
      case parse_query s u of (u, s) \<Rightarrow>
      case parse_fragment s u of (u, s) \<Rightarrow>
        (if s \<noteq> [] then Some (invalid_character (hd s)) else None, u))"

subsection \<open>Paths\<close>

lemma cut_shorter [termination_simp]: "c \<in> set s \<Longrightarrow> length (dropWhile (\<lambda>x. x \<noteq> c) s) - Suc 0 < length s"
  by (induction s) auto

fun segment_count :: "string \<Rightarrow> nat" where
  "segment_count s = (if CHR ''/'' \<in> set s then 1 + segment_count (tl (dropWhile (\<lambda>x. x \<noteq> CHR ''/'') s)) else 1)"

declare segment_count.simps [simp del]

definition path_start :: "string \<Rightarrow> string" where
  "path_start p = (if hd p = CHR ''/'' then tl p else p)"

definition getNumPathSegments :: "uri \<Rightarrow> nat" where
  "getNumPathSegments u = (if u_path u = [] then 0 else segment_count (path_start (u_path u)))"

fun segment_at :: "nat \<Rightarrow> string \<Rightarrow> string" where
  "segment_at 0 s = takeWhile (\<lambda>x. x \<noteq> CHR ''/'') s"
| "segment_at (Suc n) s = (if CHR ''/'' \<in> set s then segment_at n (tl (dropWhile (\<lambda>x. x \<noteq> CHR ''/'') s)) else [])"

definition getPathSegment :: "nat \<Rightarrow> uri \<Rightarrow> string" where
  "getPathSegment n u = (if u_path u = [] then [] else segment_at n (path_start (u_path u)))"

text \<open>One segment of the normalisation; \<open>lst\<close> tells whether it is the last one.\<close>

definition norm_segment :: "string \<Rightarrow> bool \<Rightarrow> string \<Rightarrow> string" where
  "norm_segment seg lst res =
     (if seg = ''.'' then (if lst then res @ ''/'' else res)
      else if seg = ''..'' then
        (if CHR ''/'' \<in> set res then before_slash res @ (if lst then ''/'' else []) else res)
      else res @ ''/'' @ seg)"

fun norm_loop :: "string \<Rightarrow> string \<Rightarrow> string" where
  "norm_loop s res =
     (let seg = takeWhile (\<lambda>x. x \<noteq> CHR ''/'') s in
      if CHR ''/'' \<in> set s then norm_loop (tl (dropWhile (\<lambda>x. x \<noteq> CHR ''/'') s)) (norm_segment seg False res)
      else norm_segment seg True res)"

declare norm_loop.simps [simp del]

definition normalizePath :: "string \<Rightarrow> string" where
  "normalizePath p =
     (if p = [] \<or> hd p \<noteq> CHR ''/'' then p
      else let res = norm_loop (tl p) [] in if res = [] then ''/'' else res)"

subsection \<open>Resolution\<close>

definition set_request :: "uri \<Rightarrow> uri" where
  "set_request u = u\<lparr>u_request := (if u_path u \<noteq> [] then u_path u else ''/'') @ (if u_query u \<noteq> [] then ''?'' @ u_query u else [])\<rparr>"

definition uri_text :: "uri \<Rightarrow> string" where
  "uri_text u = u_scheme u @ ''://'' @ u_authority u @ u_path u @
     (if u_query u \<noteq> [] then ''?'' @ u_query u else []) @ (if u_fragment u \<noteq> [] then ''#'' @ u_fragment u else [])"

text \<open>The parts that are taken from the relative identifier; its user information is not.\<close>

definition merge_parts :: "uri \<Rightarrow> uri \<Rightarrow> uri" where
  "merge_parts other u =
     (if u_authority other \<noteq> [] then
        u\<lparr>u_authority := u_authority other, u_hostport := u_hostport other, u_host := u_host other, u_port := u_port other,
          u_path := u_path other, u_filename := u_filename other, u_query := u_query other\<rparr>
      else if u_path other \<noteq> [] \<and> hd (u_path other) = CHR ''/'' then
        u\<lparr>u_path := u_path other, u_filename := u_filename other, u_query := u_query other\<rparr>
      else if u_path other \<noteq> [] \<or> u_query other \<noteq> [] then
        u\<lparr>u_path := normalizePath ((if CHR ''/'' \<in> set (u_path u) then before_slash (u_path u) @ ''/'' else ''/'') @ u_path other),
          u_filename := u_filename other, u_query := u_query other\<rparr>
      else u)"

definition uri_resolve :: "uri \<Rightarrow> uri \<Rightarrow> string option \<times> uri" where
  "uri_resolve other u =
     (if isAbsolute other then uri_parse (u_uri other) u
      else if \<not> isAbsolute u then (Some ''cannot resolve against relative URI'', u)
      else let u = set_request (merge_parts other u); u = u\<lparr>u_fragment := u_fragment other\<rparr>
           in (None, u\<lparr>u_uri := uri_text u\<rparr>))"

definition uri_add :: "string \<Rightarrow> uri \<Rightarrow> string option \<times> uri" where
  "uri_add s u = (case uri_parse s Uri of (Some e, _) \<Rightarrow> (Some e, u) | (None, other) \<Rightarrow> uri_resolve other u)"

end
