(* ===== verification/UriProps.thy ===== *)
theory UriProps
  imports Uris
begin

text \<open>
  Properties of identifiers: escapes are undone, an identifier that is built from escaped parts is
  parsed into these parts, and paths are normalised as their segments say.
\<close>

subsection \<open>Escapes\<close>

lemma hex_char_code: "x < 16 \<Longrightarrow> code (hex_char x) = (if x > 9 then 87 + x else 48 + x)"
  by (simp add: hex_char_def)

lemma hex_char_digit:
  assumes "x < 16"
  shows "isxdigit (hex_char x)" "isalpha (hex_char x) \<or> isdigit (hex_char x)" "hex_digit (hex_char x) = int x"
  using assms hex_char_code [OF assms]
  by (auto simp: isxdigit_def isalpha_def isdigit_def isupper_def hex_digit_def uri_schar_def split: if_splits)

lemma or_nibbles:
  assumes "(b :: nat) < 16"
  shows "push_bit 4 (int a) OR int b = int (16 * a + b)"
proof -
  have "take_bit 4 (int b) = int b" using assms by (intro take_bit_int_eq_self) simp_all
  then have "push_bit 4 (int a) OR int b = concat_bit 4 (int b) (int a)" by (simp add: concat_bit_def or.commute)
  also have "\<dots> = int b + push_bit 4 (int a)" using \<open>take_bit 4 (int b) = int b\<close> by (simp add: concat_bit_eq)
  also have "\<dots> = int (16 * a + b)" by (simp add: push_bit_eq_mult)
  finally show ?thesis .
qed

lemma hex_value_chars:
  assumes "n < 256"
  shows "hex_value (hex_char (n div 16)) (hex_char (n mod 16)) = int n"
proof -
  have "n div 16 < 16" using assms by (simp add: less_mult_imp_div_less)
  then show ?thesis by (simp add: hex_value_def hex_char_digit(3) or_nibbles)
qed

lemma decode_plain: "c \<noteq> CHR ''%'' \<Longrightarrow> decodeURI (c # s) = c # decodeURI s"
  by (cases s rule: decodeURI.cases) auto

lemma decode_escape: "decodeURI (CHR ''%'' # hex_char (code c div 16) # hex_char (code c mod 16) # s) = c # decodeURI s"
proof -
  have c: "code c < 256" by (rule code_bound)
  then have d: "code c div 16 < 16" "code c mod 16 < 16" by (simp_all add: less_mult_imp_div_less)
  show ?thesis using hex_char_digit(1) [OF d(1)] hex_char_digit(1) [OF d(2)] hex_value_chars [OF c] c by simp
qed

lemma percent_reserved: "\<not> isunreserved CHR ''%''"
  by code_simp

text \<open>Decoding undoes encoding, unless the percent sign is one of the characters that are not escaped.\<close>

lemma decode_encode:
  assumes "CHR ''%'' \<notin> set allowed"
  shows "decodeURI (encodeURI allowed s) = s"
proof (induction s)
  case (Cons c s)
  show ?case
  proof (cases "\<not> isunreserved c \<and> c \<notin> set allowed")
    case True
    then show ?thesis using Cons decode_escape by (simp add: encodeURI_def encode_char_def)
  next
    case False
    then have "c \<noteq> CHR ''%''" using assms percent_reserved by blast
    from decode_plain [OF this] Cons have "decodeURI (c # encodeURI allowed s) = c # s" by metis
    moreover have "encode_char allowed c = [c]" using False by (auto simp: encode_char_def)
    ultimately show ?thesis by (simp add: encodeURI_def)
  qed
qed (simp add: encodeURI_def)

subsection \<open>Identifiers from escaped parts\<close>

definition uri_plain :: "char \<Rightarrow> bool" where
  "uri_plain c \<longleftrightarrow> isunreserved c \<or> c = CHR ''%''"

abbreviation escape :: "string \<Rightarrow> string" where
  "escape \<equiv> encodeURI []"

lemma escape_undone: "decodeURI (escape s) = s"
  by (rule decode_encode) simp

lemma escape_plain: "c \<in> set (escape s) \<Longrightarrow> uri_plain c"
proof -
  have "uri_plain x" if "x \<in> set (encode_char [] c)" for x c
  proof -
    have d: "code c div 16 < 16" "code c mod 16 < 16" using code_bound [of c] by (simp_all add: less_mult_imp_div_less)
    show ?thesis
      using that hex_char_digit(2) [OF d(1)] hex_char_digit(2) [OF d(2)]
      by (auto simp: encode_char_def uri_plain_def isunreserved_def split: if_splits)
  qed
  then show "c \<in> set (escape s) \<Longrightarrow> uri_plain c" by (auto simp: encodeURI_def)
qed

lemma uri_plain_chars:
  assumes "uri_plain c"
  shows "auth_char c" "path_char c" "isuric c" "c \<noteq> CHR ''/''" "c \<noteq> CHR ''@''" "c \<noteq> CHR '':''" "c \<noteq> CHR ''?''" "c \<noteq> CHR ''#''"
proof -
  show "auth_char c" "path_char c" "isuric c" using assms by (auto simp: uri_plain_def auth_char_def path_char_def isuric_def)
  have "\<not> uri_plain x" if "x \<in> set ''/@:?#''" for x
    using that by (auto simp: uri_plain_def isunreserved_def isalpha_def isdigit_def isupper_def ismark_def)
  then show "c \<noteq> CHR ''/''" "c \<noteq> CHR ''@''" "c \<noteq> CHR '':''" "c \<noteq> CHR ''?''" "c \<noteq> CHR ''#''" using assms by auto
qed

lemma separators:
  "\<not> scheme_char CHR '':''" "\<not> auth_char CHR ''/''" "path_char CHR ''/''" "\<not> path_char CHR ''?''" "\<not> isuric CHR ''#''"
  "auth_char CHR ''@''" "auth_char CHR '':''"
  by (simp_all add: scheme_char_def auth_char_def path_char_def isuric_def isreserved_def isunreserved_def isalpha_def isdigit_def isupper_def ismark_def)

lemma while_until:
  assumes "\<forall>x\<in>set xs. P x" "\<not> P c"
  shows "takeWhile P (xs @ c # ys) = xs" "dropWhile P (xs @ c # ys) = c # ys"
  using assms by (induction xs) auto

lemma cut_at_first: "c \<notin> set xs \<Longrightarrow> cut_at c (xs @ c # ys) = Some (xs, ys)"
proof -
  assume "c \<notin> set xs"
  then have "\<forall>x\<in>set xs. x \<noteq> c" by auto
  from while_until [OF this, of c ys] show ?thesis by (simp add: cut_at_def)
qed

definition scheme_ok :: "string \<Rightarrow> bool" where
  "scheme_ok s \<longleftrightarrow> s \<noteq> [] \<and> isalpha (hd s) \<and> (\<forall>c\<in>set s. scheme_char c)"

lemma parse_scheme_found:
  assumes "scheme_ok sch"
  shows "parse_scheme (sch @ CHR '':'' # s) u = (u\<lparr>u_scheme := sch\<rparr>, s)"
proof -
  obtain a t where a: "sch = a # t" "isalpha a" "\<forall>c\<in>set t. scheme_char c" using assms by (cases sch) (auto simp: scheme_ok_def)
  have "takeWhile scheme_char (t @ CHR '':'' # s) = t" by (rule while_until(1) [OF a(3) separators(1)])
  then show ?thesis using a(1,2) by (simp add: parse_scheme_def nth_append)
qed

text \<open>The text of an identifier from its parts.\<close>

definition path_text :: "string list \<Rightarrow> string" where
  "path_text ss = concat (map (\<lambda>s. CHR ''/'' # s) ss)"

definition build_uri :: "string \<Rightarrow> string \<Rightarrow> string \<Rightarrow> string \<Rightarrow> string list \<Rightarrow> string \<Rightarrow> string \<Rightarrow> string" where
  "build_uri sch user hst prt segs qry frag =
     sch @ ''://'' @ escape user @ ''@'' @ escape hst @ '':'' @ escape prt @ path_text (map escape segs) @ ''?'' @ escape qry @ ''#'' @ escape frag"

lemma parse_authority_found:
  assumes "segs \<noteq> []"
  shows "parse_authority (''//'' @ escape user @ ''@'' @ escape hst @ '':'' @ escape prt @ path_text segs @ s) u =
    (u\<lparr>u_authority := escape user @ ''@'' @ escape hst @ '':'' @ escape prt, u_userinfo := escape user,
       u_hostport := escape hst @ '':'' @ escape prt, u_host := escape hst, u_port := escape prt\<rparr>, path_text segs @ s)"
proof -
  let ?a = "escape user @ ''@'' @ escape hst @ '':'' @ escape prt"
  obtain g gs where segs: "segs = g # gs" using assms by (cases segs) auto
  have all: "\<forall>x\<in>set ?a. auth_char x" using escape_plain uri_plain_chars(1) separators by auto
  have w: "takeWhile auth_char (?a @ path_text segs @ s) = ?a" "dropWhile auth_char (?a @ path_text segs @ s) = path_text segs @ s"
    using while_until [OF all separators(2), of "g @ path_text gs @ s"] by (simp_all add: segs path_text_def)
  have "CHR ''@'' \<notin> set (escape user)" "CHR '':'' \<notin> set (escape hst)" using escape_plain uri_plain_chars(5,6) by blast+
  then have "cut_at CHR ''@'' ?a = Some (escape user, escape hst @ '':'' @ escape prt)"
    "cut_at CHR '':'' (escape hst @ '':'' @ escape prt) = Some (escape hst, escape prt)" using cut_at_first by simp_all
  then show ?thesis using w by (simp add: parse_authority_def)
qed

lemma path_text_chars: "\<forall>x\<in>set (path_text (map escape segs)). path_char x"
  using escape_plain uri_plain_chars(2) separators(3) by (auto simp: path_text_def)

lemma parse_path_found:
  "\<exists>u'. parse_path (path_text (map escape segs) @ ''?'' @ s) u = (u', ''?'' @ s) \<and>
     u' = u\<lparr>u_path := path_text (map escape segs), u_request := u_request u', u_filename := u_filename u'\<rparr>"
  using while_until [OF path_text_chars separators(4), of segs s] by (simp add: parse_path_def Let_def)

lemma parse_query_found:
  "\<exists>u'. parse_query (''?'' @ escape qry @ ''#'' @ s) u = (u', ''#'' @ s) \<and> u' = u\<lparr>u_query := escape qry, u_request := u_request u'\<rparr>"
proof -
  have all: "\<forall>x\<in>set (escape qry). isuric x" using escape_plain uri_plain_chars(3) by blast
  show ?thesis using while_until [OF all separators(5), of s] by (simp add: parse_query_def Let_def)
qed

lemma parse_fragment_found: "parse_fragment (''#'' @ escape frag) u = (u\<lparr>u_fragment := escape frag\<rparr>, [])"
proof -
  have "\<forall>x\<in>set (escape frag). isuric x" using escape_plain uri_plain_chars(3) by blast
  then have "takeWhile isuric (escape frag) = escape frag" "dropWhile isuric (escape frag) = []" by (simp_all add: takeWhile_eq_all_conv)
  then show ?thesis by (simp add: parse_fragment_def)
qed

lemma parse_built:
  assumes "scheme_ok sch" "segs \<noteq> []"
  shows "\<exists>u'. uri_parse (build_uri sch user hst prt segs qry frag) u = (None, u') \<and> u_scheme u' = sch \<and> u_userinfo u' = escape user \<and>
    u_host u' = escape hst \<and> u_port u' = escape prt \<and> u_path u' = path_text (map escape segs) \<and> u_query u' = escape qry \<and> u_fragment u' = escape frag"
proof -
  let ?d = "build_uri sch user hst prt segs qry frag"
  let ?s3 = "''?'' @ escape qry @ ''#'' @ escape frag"
  let ?s1 = "''//'' @ escape user @ ''@'' @ escape hst @ '':'' @ escape prt @ path_text (map escape segs) @ ?s3"
  let ?u1 = "u\<lparr>u_uri := ?d, u_scheme := sch\<rparr>"
  have 1: "parse_scheme ?d (u\<lparr>u_uri := ?d\<rparr>) = (?u1, ?s1)"
    using parse_scheme_found [OF assms(1), of ?s1 "u\<lparr>u_uri := ?d\<rparr>"] by (simp add: build_uri_def)
  let ?u2 = "?u1\<lparr>u_authority := escape user @ ''@'' @ escape hst @ '':'' @ escape prt, u_userinfo := escape user,
       u_hostport := escape hst @ '':'' @ escape prt, u_host := escape hst, u_port := escape prt\<rparr>"
  have 2: "parse_authority ?s1 ?u1 = (?u2, path_text (map escape segs) @ ?s3)"
    using parse_authority_found [of "map escape segs" user hst prt ?s3 ?u1] assms(2) by simp
  obtain u3 where 3: "parse_path (path_text (map escape segs) @ ?s3) ?u2 = (u3, ?s3)"
    "u3 = ?u2\<lparr>u_path := path_text (map escape segs), u_request := u_request u3, u_filename := u_filename u3\<rparr>"
    using parse_path_found [of segs _ ?u2] by blast
  obtain u4 where 4: "parse_query ?s3 u3 = (u4, ''#'' @ escape frag)" "u4 = u3\<lparr>u_query := escape qry, u_request := u_request u4\<rparr>"
    using parse_query_found [of qry _ u3] by blast
  have "uri_parse ?d u = (None, u4\<lparr>u_fragment := escape frag\<rparr>)"
    unfolding uri_parse_def 1 prod.case 2 3(1) 4(1) parse_fragment_found by simp
  moreover have "u_scheme u3 = sch \<and> u_userinfo u3 = escape user \<and> u_host u3 = escape hst \<and> u_port u3 = escape prt \<and> u_path u3 = path_text (map escape segs)"
    by (subst (1 2 3 4 5) 3(2)) simp
  moreover have "u_scheme u4 = u_scheme u3 \<and> u_userinfo u4 = u_userinfo u3 \<and> u_host u4 = u_host u3 \<and> u_port u4 = u_port u3 \<and> u_path u4 = u_path u3 \<and> u_query u4 = escape qry"
    by (subst (1 2 3 4 5 6) 4(2)) simp
  ultimately show ?thesis by simp
qed

subsection \<open>Segments\<close>

definition no_slash :: "string \<Rightarrow> bool" where
  "no_slash s \<longleftrightarrow> CHR ''/'' \<notin> set s"

lemma no_slash_while:
  assumes "no_slash s"
  shows "takeWhile (\<lambda>x. x \<noteq> CHR ''/'') (s @ CHR ''/'' # t) = s" "tl (dropWhile (\<lambda>x. x \<noteq> CHR ''/'') (s @ CHR ''/'' # t)) = t"
    "takeWhile (\<lambda>x. x \<noteq> CHR ''/'') s = s"
proof -
  have all: "\<forall>x\<in>set s. x \<noteq> CHR ''/''" using assms by (auto simp: no_slash_def)
  show "takeWhile (\<lambda>x. x \<noteq> CHR ''/'') (s @ CHR ''/'' # t) = s" "tl (dropWhile (\<lambda>x. x \<noteq> CHR ''/'') (s @ CHR ''/'' # t)) = t"
    using while_until [OF all, of "CHR ''/''" t] by simp_all
  show "takeWhile (\<lambda>x. x \<noteq> CHR ''/'') s = s" using all by (simp add: takeWhile_eq_all_conv)
qed

lemma segment_count_text:
  "\<forall>s\<in>set (g # gs). no_slash s \<Longrightarrow> segment_count (g @ path_text gs) = Suc (length gs)"
proof (induction gs arbitrary: g)
  case Nil
  then show ?case by (subst segment_count.simps) (simp add: path_text_def no_slash_def)
next
  case (Cons h gs)
  have "segment_count (g @ path_text (h # gs)) = 1 + segment_count (h @ path_text gs)"
    using Cons.prems no_slash_while(2) [of g "h @ path_text gs"] by (subst segment_count.simps) (simp add: path_text_def)
  then show ?case using Cons by simp
qed

lemma segment_at_text:
  "\<forall>s\<in>set (g # gs). no_slash s \<Longrightarrow> i < Suc (length gs) \<Longrightarrow> segment_at i (g @ path_text gs) = (g # gs) ! i"
proof (induction gs arbitrary: g i)
  case Nil
  then show ?case using no_slash_while(3) [of g] by (simp add: path_text_def)
next
  case (Cons h gs)
  then show ?case
    using no_slash_while(1,2) [of g "h @ path_text gs"] Cons.IH [of h "i - 1"] by (cases i) (auto simp: path_text_def)
qed

lemma escape_no_slash: "no_slash (escape s)"
  using escape_plain uri_plain_chars(4) unfolding no_slash_def by blast

text \<open>
  Claim C24: an identifier is built from a scheme and from parts that hold arbitrary characters, each of
  them escaped: user, host and port, the segments of the path, the query and the fragment. The parser
  accepts it, whatever the object held before, and every part that it gives decodes to the part that
  was put in, each segment of the path at its position.
\<close>
theorem uri_parts_roundtrip:
  assumes "scheme_ok sch" "segs \<noteq> []"
  shows "\<exists>u'. uri_parse (build_uri sch user hst prt segs qry frag) u = (None, u') \<and> u_scheme u' = sch \<and>
    decodeURI (u_userinfo u') = user \<and> decodeURI (u_host u') = hst \<and> decodeURI (u_port u') = prt \<and>
    getNumPathSegments u' = length segs \<and> (\<forall>i<length segs. decodeURI (getPathSegment i u') = segs ! i) \<and>
    decodeURI (u_query u') = qry \<and> decodeURI (u_fragment u') = frag"
proof -
  obtain u' where u: "uri_parse (build_uri sch user hst prt segs qry frag) u = (None, u')" "u_scheme u' = sch" "u_userinfo u' = escape user"
    "u_host u' = escape hst" "u_port u' = escape prt" "u_path u' = path_text (map escape segs)" "u_query u' = escape qry" "u_fragment u' = escape frag"
    using parse_built [OF assms] by blast
  have d: "decodeURI (escape s) = s" for s by (rule escape_undone)
  obtain g gs where g: "segs = g # gs" using assms(2) by (cases segs) auto
  have p: "u_path u' \<noteq> []" "path_start (u_path u') = escape g @ path_text (map escape gs)"
    by (simp_all add: u(6) g path_text_def path_start_def)
  have n: "\<forall>s\<in>set (escape g # map escape gs). no_slash s" using escape_no_slash by auto
  have "getNumPathSegments u' = length segs"
    using segment_count_text [OF n] p by (simp add: getNumPathSegments_def g)
  moreover have "decodeURI (getPathSegment i u') = segs ! i" if "i < length segs" for i
  proof -
    have "getPathSegment i u' = map escape segs ! i"
      using segment_at_text [OF n, of i] that p by (simp add: getPathSegment_def g)
    then show ?thesis using that d by simp
  qed
  ultimately show ?thesis using u d by (intro exI [of _ u']) simp
qed

theorem uri_parts_roundtrip_witness:
  "\<exists>u'. uri_parse (build_uri ''http'' ''me@home'' ''host'' ''80'' [''a/b'', ''c d''] ''x=#'' ''?'') Uri = (None, u') \<and>
     decodeURI (u_userinfo u') = ''me@home'' \<and> getNumPathSegments u' = 2 \<and> decodeURI (getPathSegment 0 u') = ''a/b'' \<and>
     decodeURI (u_query u') = ''x=#''"
proof -
  have "scheme_ok ''http''" by (simp add: scheme_ok_def scheme_char_def isalpha_def isupper_def)
  from uri_parts_roundtrip [OF this, of "[''a/b'', ''c d'']" "''me@home''" "''host''" "''80''" "''x=#''" "''?''" Uri]
  obtain u' where "uri_parse (build_uri ''http'' ''me@home'' ''host'' ''80'' [''a/b'', ''c d''] ''x=#'' ''?'') Uri = (None, u')"
    "decodeURI (u_userinfo u') = ''me@home''" "getNumPathSegments u' = length [''a/b'', ''c d'']"
    "\<forall>i<length [''a/b'', ''c d'']. decodeURI (getPathSegment i u') = [''a/b'', ''c d''] ! i" "decodeURI (u_query u') = ''x=#''"
    by blast
  then show ?thesis by (intro exI [of _ u']) simp
qed

subsection \<open>Normal paths\<close>

fun segments :: "string \<Rightarrow> string list" where
  "segments s = (if CHR ''/'' \<in> set s then takeWhile (\<lambda>x. x \<noteq> CHR ''/'') s # segments (tl (dropWhile (\<lambda>x. x \<noteq> CHR ''/'') s)) else [s])"

declare segments.simps [simp del]

text \<open>Dots are dropped, double dots drop the segment before them; at the end both leave an empty segment.\<close>

definition push_segment :: "string list \<Rightarrow> string \<Rightarrow> string list" where
  "push_segment ss s = (if s = ''.'' then ss else if s = ''..'' then butlast ss else ss @ [s])"

fun resolve_segments :: "string list \<Rightarrow> string list \<Rightarrow> string list" where
  "resolve_segments ss [] = ss"
| "resolve_segments ss [s] = (if s \<in> {''.'', ''..''} then push_segment ss s @ [[]] else ss @ [s])"
| "resolve_segments ss (s # t # ts) = resolve_segments (push_segment ss s) (t # ts)"

lemma path_text_simps [simp]:
  "path_text [] = []" "path_text (xs @ ys) = path_text xs @ path_text ys" "path_text [x] = CHR ''/'' # x"
  "CHR ''/'' \<in> set (path_text xs) \<longleftrightarrow> xs \<noteq> []" "path_text xs = [] \<longleftrightarrow> xs = []"
  by (auto simp: path_text_def neq_Nil_conv)

lemma before_slash_text: "no_slash x \<Longrightarrow> before_slash (path_text (xs @ [x])) = path_text xs"
proof -
  assume "no_slash x"
  then have "no_slash (rev x)" by (simp add: no_slash_def)
  from no_slash_while(2) [OF this, of "rev (path_text xs)"] show ?thesis by (simp add: before_slash_def)
qed

lemma before_slash_butlast:
  assumes "\<forall>x\<in>set xs. no_slash x" "xs \<noteq> []"
  shows "before_slash (path_text xs) = path_text (butlast xs)"
  using before_slash_text [of "last xs" "butlast xs"] assms by (simp add: append_butlast_last_id del: path_text_simps(2))

lemma norm_segment_text:
  assumes "\<forall>x\<in>set xs. no_slash x"
  shows "norm_segment s False (path_text xs) = path_text (push_segment xs s)"
    and "(let res = norm_segment s True (path_text xs) in if res = [] then ''/'' else res) = path_text (resolve_segments xs [s])"
  using before_slash_butlast [OF assms] by (auto simp: norm_segment_def push_segment_def Let_def)

lemma push_segment_ok: "\<forall>x\<in>set xs. no_slash x \<Longrightarrow> no_slash s \<Longrightarrow> \<forall>x\<in>set (push_segment xs s). no_slash x"
  by (auto simp: push_segment_def dest: in_set_butlastD)

lemma segments_ok: "segments s \<noteq> []" "\<forall>x\<in>set (segments s). no_slash x"
proof (induction s rule: segments.induct)
  case (1 s)
  have t: "no_slash (takeWhile (\<lambda>x. x \<noteq> CHR ''/'') s)" by (auto simp: no_slash_def dest: set_takeWhileD)
  show "segments s \<noteq> []" by (subst segments.simps) simp
  show "\<forall>x\<in>set (segments s). no_slash x" using 1 t by (subst segments.simps) (auto simp: no_slash_def)
qed

lemma norm_loop_text:
  assumes "\<forall>x\<in>set xs. no_slash x"
  shows "(let res = norm_loop s (path_text xs) in if res = [] then ''/'' else res) = path_text (resolve_segments xs (segments s))"
  using assms
proof (induction s arbitrary: xs rule: segments.induct)
  case (1 s)
  let ?seg = "takeWhile (\<lambda>x. x \<noteq> CHR ''/'') s" and ?rest = "tl (dropWhile (\<lambda>x. x \<noteq> CHR ''/'') s)"
  have t: "no_slash ?seg" by (auto simp: no_slash_def dest: set_takeWhileD)
  show ?case
  proof (cases "CHR ''/'' \<in> set s")
    case True
    obtain h ts where h: "segments ?rest = h # ts" using segments_ok(1) [of ?rest] by (cases "segments ?rest") auto
    have "norm_loop s (path_text xs) = norm_loop ?rest (path_text (push_segment xs ?seg))"
      using True norm_segment_text(1) [OF 1(2)] by (subst norm_loop.simps) (simp add: Let_def)
    moreover have "segments s = ?seg # segments ?rest" using True by (subst segments.simps) simp
    ultimately show ?thesis using 1(1) [OF True push_segment_ok [OF 1(2) t]] by (simp add: h)
  next
    case False
    then have "no_slash s" by (simp add: no_slash_def)
    from no_slash_while(3) [OF this] False have "norm_loop s (path_text xs) = norm_segment s True (path_text xs)"
      by (subst norm_loop.simps) (simp only: Let_def if_False)
    moreover have "segments s = [s]" using False by (subst segments.simps) simp
    ultimately show ?thesis using norm_segment_text(2) [OF 1(2)] by simp
  qed
qed

definition dotted :: "string \<Rightarrow> bool" where
  "dotted s \<longleftrightarrow> s = ''.'' \<or> s = ''..''"

lemma push_segment_set: "set (push_segment xs s) \<subseteq> set xs \<union> (if dotted s then {} else {s})"
  by (auto simp: push_segment_def dotted_def dest: in_set_butlastD)

lemma resolve_last_set: "set (resolve_segments xs [s]) \<subseteq> set xs \<union> (if dotted s then {[]} else {s})"
proof -
  have "resolve_segments xs [s] = (if dotted s then push_segment xs s @ [[]] else xs @ [s])" by (simp add: dotted_def)
  then show ?thesis using push_segment_set [of xs s] by (cases "dotted s") auto
qed

lemma resolve_segments_ok:
  assumes "\<forall>x\<in>set xs. no_slash x \<and> \<not> dotted x" "\<forall>s\<in>set ts. no_slash s" "ts \<noteq> []"
  shows "resolve_segments xs ts \<noteq> [] \<and> (\<forall>x\<in>set (resolve_segments xs ts). no_slash x \<and> \<not> dotted x)"
  using assms
proof (induction xs ts rule: resolve_segments.induct)
  case (2 ss s)
  have "no_slash [] \<and> \<not> dotted []" by (simp add: no_slash_def dotted_def)
  then have "\<forall>x\<in>set (resolve_segments ss [s]). no_slash x \<and> \<not> dotted x"
    using resolve_last_set [of ss s] "2.prems"(1,2) by (auto split: if_splits)
  then show ?case by simp
next
  case (3 ss s t ts)
  have "\<forall>x\<in>set (push_segment ss s). no_slash x \<and> \<not> dotted x"
    using push_segment_set [of ss s] "3.prems"(1,2) by (auto split: if_splits)
  then show ?case using 3 by simp
qed simp

lemma resolve_segments_normal:
  "\<forall>s\<in>set ts. \<not> dotted s \<Longrightarrow> resolve_segments xs ts = xs @ ts"
  by (induction xs ts rule: resolve_segments.induct) (auto simp: push_segment_def dotted_def)

lemma segments_text: "\<forall>x\<in>set (g # gs). no_slash x \<Longrightarrow> segments (g @ path_text gs) = g # gs"
proof (induction gs arbitrary: g)
  case Nil
  then show ?case by (subst segments.simps) (simp add: no_slash_def)
next
  case (Cons h gs)
  have e: "g @ path_text (h # gs) = g @ CHR ''/'' # (h @ path_text gs)" by (simp add: path_text_def)
  have "segments (g @ path_text (h # gs)) = g # segments (h @ path_text gs)"
    unfolding e using no_slash_while(1,2) [of g "h @ path_text gs"] Cons.prems by (subst segments.simps) simp
  then show ?case using Cons by simp
qed

lemma normalizePath_text: "normalizePath (CHR ''/'' # s) = path_text (resolve_segments [] (segments s))"
  using norm_loop_text [of "[]" s] by (simp add: normalizePath_def)

text \<open>
  Claim C25: an absolute path is normalised to the path of its segments from which every dot, and every
  double dot with the segment before it, has been removed. No segment of the result is a dot or a
  double dot, and a path that is normal does not change.
\<close>
theorem normalizePath_removes_dots:
  "\<exists>ss. normalizePath (CHR ''/'' # s) = path_text ss \<and> ss = resolve_segments [] (segments s) \<and> ss \<noteq> [] \<and>
     (\<forall>x\<in>set ss. CHR ''/'' \<notin> set x \<and> x \<noteq> ''.'' \<and> x \<noteq> ''..'') \<and> normalizePath (path_text ss) = path_text ss"
proof -
  let ?ss = "resolve_segments [] (segments s)"
  have ok: "?ss \<noteq> []" "\<forall>x\<in>set ?ss. no_slash x \<and> \<not> dotted x"
    using resolve_segments_ok [of "[]" "segments s"] segments_ok [of s] by auto
  obtain g gs where g: "?ss = g # gs" using ok(1) by (cases ?ss) auto
  have "path_text ?ss = CHR ''/'' # (g @ path_text gs)" by (simp add: g path_text_def)
  then have "normalizePath (path_text ?ss) = path_text (resolve_segments [] ?ss)"
    using normalizePath_text [of "g @ path_text gs"] segments_text [of g gs] ok(2) g by simp
  also have "\<dots> = path_text ?ss" using resolve_segments_normal [of ?ss "[]"] ok(2) by simp
  finally show ?thesis using normalizePath_text [of s] ok by (intro exI [of _ ?ss]) (auto simp: no_slash_def dotted_def)
qed

theorem normalizePath_removes_dots_witness: "normalizePath ''/a/./b/../c'' = ''/a/c'' \<and> normalizePath ''/a/c'' = ''/a/c''"
proof -
  have "resolve_segments [] (segments ''a/./b/../c'') = [''a'', ''c'']" "path_text [''a'', ''c''] = ''/a/c''" by code_simp+
  then show ?thesis using normalizePath_removes_dots [of "''a/./b/../c''"] by auto
qed

subsection \<open>Prefixes\<close>

text \<open>Texts with complete escapes and without other characters above 127.\<close>

fun escaped_ok :: "string \<Rightarrow> bool" where
  "escaped_ok [] \<longleftrightarrow> True"
| "escaped_ok (c # s) \<longleftrightarrow> (if c = CHR ''%'' then 2 \<le> length s \<and> isxdigit (s ! 0) \<and> isxdigit (s ! 1) \<and> escaped_ok (drop 2 s)
     else code c < 128 \<and> escaped_ok s)"

lemma hex_digit_range: "isxdigit c \<Longrightarrow> 0 \<le> hex_digit c \<and> hex_digit c < 16"
  by (auto simp: isxdigit_def isdigit_def hex_digit_def uri_schar_def)

lemma tolower_code: "isxdigit c \<Longrightarrow> int (code (tolower c)) = (if hex_digit c < 10 then 48 + hex_digit c else 87 + hex_digit c)"
  by (auto simp: isxdigit_def isdigit_def hex_digit_def uri_schar_def tolower_def isupper_def)

lemma hex_digit_fold:
  assumes "isxdigit a" "isxdigit b"
  shows "tolower a = tolower b \<longleftrightarrow> hex_digit a = hex_digit b"
proof -
  have "tolower a = tolower b \<longleftrightarrow> int (code (tolower a)) = int (code (tolower b))" by (simp add: code_inject)
  then show ?thesis unfolding tolower_code [OF assms(1)] tolower_code [OF assms(2)] by (auto split: if_splits)
qed

lemma hex_value_sum:
  assumes "isxdigit a" "isxdigit b"
  shows "hex_value a b = 16 * hex_digit a + hex_digit b"
proof -
  obtain m n where "hex_digit a = int m" "hex_digit b = int n" "n < 16"
    using hex_digit_range [OF assms(1)] hex_digit_range [OF assms(2)] by (metis int_nat_eq nat_less_iff of_nat_numeral nonneg_int_cases of_nat_less_iff)
  then show ?thesis using or_nibbles [of n m] by (simp add: hex_value_def)
qed

lemma escape_value:
  assumes "isxdigit a" "isxdigit b"
  shows "0 \<le> hex_value a b" "hex_value a b < 256" "int (code (char_of (nat (hex_value a b mod 256)) :: char)) = hex_value a b"
proof -
  show "0 \<le> hex_value a b" "hex_value a b < 256"
    using hex_value_sum [OF assms] hex_digit_range [OF assms(1)] hex_digit_range [OF assms(2)] by auto
  then show "int (code (char_of (nat (hex_value a b mod 256)) :: char)) = hex_value a b" by (simp add: nat_mod_distrib)
qed

text \<open>The first character that a text stands for, and the text behind it.\<close>

definition first_char :: "string \<Rightarrow> char" where
  "first_char s = (if hd s = CHR ''%'' then char_of (nat (hex_value (s ! 1) (s ! 2) mod 256)) else hd s)"

definition after_char :: "string \<Rightarrow> string" where
  "after_char s = (if hd s = CHR ''%'' then drop 3 s else tl s)"

lemma decode_first:
  assumes "escaped_ok s" "s \<noteq> []"
  shows "decodeURI s = first_char s # decodeURI (after_char s)" "escaped_ok (after_char s)"
proof -
  obtain c t where s: "s = c # t" using assms(2) by (cases s) auto
  show "decodeURI s = first_char s # decodeURI (after_char s)"
  proof (cases "c = CHR ''%''")
    case True
    then obtain a b r where t: "t = a # b # r" using assms(1) s by (cases t rule: list.exhaust; cases "tl t") auto
    then show ?thesis using True assms(1) s by (simp add: first_char_def after_char_def)
  next
    case False
    then show ?thesis using decode_plain [OF False] s by (simp add: first_char_def after_char_def)
  qed
  have "drop 3 (c # t) = drop 2 t" by (simp add: numeral_3_eq_3 numeral_2_eq_2)
  then show "escaped_ok (after_char s)" using assms(1) s by (auto simp: after_char_def split: if_splits)
qed

lemma nibbles_inject:
  fixes x y z w :: int
  assumes "0 \<le> y \<and> y < 16" "0 \<le> w \<and> w < 16"
  shows "16 * x + y = 16 * z + w \<longleftrightarrow> x = z \<and> y = w"
proof
  assume e: "16 * x + y = 16 * z + w"
  from arg_cong [OF this, of "\<lambda>v. v div 16"] assms have "x = z" by simp
  then show "x = z \<and> y = w" using e by simp
qed simp

lemma escapes_equal:
  assumes "isxdigit a" "isxdigit b" "isxdigit c" "isxdigit d"
  shows "(char_of (nat (hex_value a b mod 256)) :: char) = char_of (nat (hex_value c d mod 256)) \<longleftrightarrow> tolower a = tolower c \<and> tolower b = tolower d"
proof -
  have "(char_of (nat (hex_value a b mod 256)) :: char) = char_of (nat (hex_value c d mod 256)) \<longleftrightarrow> hex_value a b = hex_value c d"
    using escape_value(3) [OF assms(1,2)] escape_value(3) [OF assms(3,4)] by metis
  also have "\<dots> \<longleftrightarrow> hex_digit a = hex_digit c \<and> hex_digit b = hex_digit d"
    unfolding hex_value_sum [OF assms(1,2)] hex_value_sum [OF assms(3,4)]
    by (rule nibbles_inject [OF hex_digit_range [OF assms(2)] hex_digit_range [OF assms(4)]])
  finally show ?thesis using hex_digit_fold assms by simp
qed

lemma escape_equal:
  assumes "isxdigit a" "isxdigit b" "code c < 128"
  shows "(char_of (nat (hex_value a b mod 256)) :: char) = c \<longleftrightarrow> hex_value a b = uri_schar c"
proof -
  have "(char_of (nat (hex_value a b mod 256)) :: char) = c \<longleftrightarrow> int (code (char_of (nat (hex_value a b mod 256)) :: char)) = int (code c)"
    by (simp only: of_nat_eq_iff code_inject)
  then show ?thesis unfolding escape_value(3) [OF assms(1,2)] using assms(3) by (simp add: uri_schar_def)
qed

lemma prefix_loop_first:
  assumes "escaped_ok (f # fs)" "escaped_ok (b # bs)"
  shows "prefix_loop (f # fs) (b # bs) =
    (if first_char (f # fs) = first_char (b # bs) then prefix_loop (after_char (f # fs)) (after_char (b # bs)) else None)"
proof -
  have d: "drop 3 (c # t) = drop 2 t" "(c # t) ! 1 = t ! 0" "(c # t) ! 2 = t ! 1" for c :: char and t
    by (simp_all add: numeral_3_eq_3 numeral_2_eq_2)
  consider "f = CHR ''%''" "b = CHR ''%''" | "f = CHR ''%''" "b \<noteq> CHR ''%''" | "f \<noteq> CHR ''%''" "b = CHR ''%''" | "f \<noteq> CHR ''%''" "b \<noteq> CHR ''%''"
    by blast
  then show ?thesis
  proof cases
    case 1
    then show ?thesis
      using assms escapes_equal [of "fs ! 0" "fs ! 1" "bs ! 0" "bs ! 1"] by (simp add: first_char_def after_char_def d)
  next
    case 2
    then show ?thesis
      using assms escape_equal [of "fs ! 0" "fs ! 1" b] by (simp add: first_char_def after_char_def d)
  next
    case 3
    then show ?thesis
      using assms escape_equal [of "bs ! 0" "bs ! 1" f] by (auto simp: first_char_def after_char_def d)
  next
    case 4
    then show ?thesis by (simp add: first_char_def after_char_def)
  qed
qed

lemma after_char_shorter: "s \<noteq> [] \<Longrightarrow> length (after_char s) < length s"
  by (cases s) (auto simp: after_char_def)

lemma first_chunk:
  assumes "escaped_ok s" "s \<noteq> []"
  shows "\<exists>ch. s = ch @ after_char s \<and> (\<forall>r. decodeURI (ch @ r) = first_char s # decodeURI r)"
proof -
  obtain c t where s: "s = c # t" using assms(2) by (cases s) auto
  show ?thesis
  proof (cases "c = CHR ''%''")
    case True
    then obtain a b r where t: "t = a # b # r" using assms(1) s by (cases t rule: list.exhaust; cases "tl t") auto
    then show ?thesis using True assms(1) s by (intro exI [of _ "[c, a, b]"]) (simp add: first_char_def after_char_def)
  next
    case False
    then show ?thesis using decode_plain [OF False] s by (intro exI [of _ "[c]"]) (simp add: first_char_def after_char_def)
  qed
qed

text \<open>The part of the text that a base corresponds to ends between two characters, so both parts can be decoded.\<close>

lemma prefix_loop_decode:
  assumes "escaped_ok full" "escaped_ok base"
  shows "case prefix_loop full base of
      None \<Rightarrow> \<not> (\<exists>t. decodeURI full = decodeURI base @ t)
    | Some t \<Rightarrow> \<exists>pre. full = pre @ t \<and> decodeURI pre = decodeURI base \<and> decodeURI full = decodeURI base @ decodeURI t"
  using assms
proof (induction "length base" arbitrary: full base rule: less_induct)
  case less
  show ?case
  proof (cases base)
    case Nil
    then show ?thesis by (cases full) auto
  next
    case (Cons b bs)
    have fb: "decodeURI base = first_char base # decodeURI (after_char base)" "escaped_ok (after_char base)"
      using decode_first [OF less.prems(2)] Cons by auto
    show ?thesis
    proof (cases full)
      case Nil
      then show ?thesis using fb(1) Cons by simp
    next
      case F: (Cons f fs)
      have ff: "decodeURI full = first_char full # decodeURI (after_char full)" "escaped_ok (after_char full)"
        using decode_first [OF less.prems(1)] F by auto
      have step: "prefix_loop full base =
          (if first_char full = first_char base then prefix_loop (after_char full) (after_char base) else None)"
        using prefix_loop_first less.prems unfolding F Cons by blast
      obtain ch where ch: "full = ch @ after_char full" "decodeURI (ch @ r) = first_char full # decodeURI r" for r
        using first_chunk [OF less.prems(1)] F by blast
      show ?thesis
      proof (cases "first_char full = first_char base")
        case True
        have "base \<noteq> []" using Cons by simp
        note ih = less.hyps [OF after_char_shorter [OF this] ff(2) fb(2)]
        show ?thesis
        proof (cases "prefix_loop (after_char full) (after_char base)")
          case None
          then show ?thesis using ih True by (simp add: step ff(1) fb(1))
        next
          case (Some t)
          then obtain pre where p: "after_char full = pre @ t" "decodeURI pre = decodeURI (after_char base)"
            "decodeURI (after_char full) = decodeURI (after_char base) @ decodeURI t" using ih by auto
          have "full = (ch @ pre) @ t" using ch(1) p(1) by simp
          moreover have "decodeURI (ch @ pre) = decodeURI base" using ch(2) [of pre] p(2) fb(1) True by simp
          moreover have "decodeURI full = decodeURI base @ decodeURI t" using p(3) True by (simp add: ff(1) fb(1))
          moreover have pl: "prefix_loop full base = Some t" using Some True step by simp
          ultimately show ?thesis unfolding pl option.case by blast
        qed
      next
        case False
        then show ?thesis by (simp add: step ff(1) fb(1))
      qed
    qed
  qed
qed

text \<open>
  Claim C26: for identifiers with complete escapes and no unescaped characters above 127, the base is
  found to be a prefix if and only if it is one after decoding, whichever characters are escaped in
  either of them; the two parts that are returned make up the identifier, and decode to the base and to
  the rest.
\<close>
theorem isPrefix_up_to_escapes:
  assumes "escaped_ok full" "escaped_ok base"
  shows "(isPrefix full base \<noteq> None \<longleftrightarrow> (\<exists>t. decodeURI full = decodeURI base @ t)) \<and>
    (\<forall>pre t. isPrefix full base = Some (pre, t) \<longrightarrow>
       full = pre @ t \<and> decodeURI pre = decodeURI base \<and> decodeURI full = decodeURI base @ decodeURI t)"
proof (cases "prefix_loop full base")
  case None
  then show ?thesis using prefix_loop_decode [OF assms] by (simp add: isPrefix_def)
next
  case (Some t)
  then obtain pre where p: "full = pre @ t" "decodeURI pre = decodeURI base" "decodeURI full = decodeURI base @ decodeURI t"
    using prefix_loop_decode [OF assms] by auto
  then have "isPrefix full base = Some (pre, t)" using Some by (simp add: isPrefix_def)
  then show ?thesis using p by auto
qed

theorem isPrefix_up_to_escapes_witness: "isPrefix ''http://h/%7Ea/b'' ''http://h/~a'' \<noteq> None"
proof -
  have 1: "escaped_ok ''http://h/%7Ea/b''" and 2: "escaped_ok ''http://h/~a''" by code_simp+
  have "decodeURI ''http://h/%7Ea/b'' = decodeURI ''http://h/~a'' @ ''/b''" by code_simp
  then show ?thesis using isPrefix_up_to_escapes [OF 1 2] by blast
qed

subsection \<open>What the parser leaves behind\<close>

text \<open>The scheme of an earlier identifier stays when a text is assigned that does not start with a letter.\<close>
lemma parts_keep_scheme:
  "u_scheme (fst (parse_authority s u)) = u_scheme u" "u_scheme (fst (parse_path s u)) = u_scheme u"
  "u_scheme (fst (parse_query s u)) = u_scheme u" "u_scheme (fst (parse_fragment s u)) = u_scheme u"
  by (simp_all add: parse_authority_def parse_path_def parse_query_def parse_fragment_def Let_def split: prod.splits)

lemma stale_scheme: "u_scheme (snd (uri_parse (CHR ''/'' # s) u)) = u_scheme u"
proof -
  have "parse_scheme (CHR ''/'' # s) v = (v, CHR ''/'' # s)" for v by (simp add: parse_scheme_def isalpha_def isupper_def)
  then show ?thesis by (simp add: uri_parse_def case_prod_beta parts_keep_scheme)
qed

text \<open>The user information of the base stays when a relative identifier brings another authority.\<close>
lemma stale_userinfo:
  assumes "isAbsolute u" "\<not> isAbsolute other" "u_authority other \<noteq> []"
  shows "\<exists>u'. uri_resolve other u = (None, u') \<and> u_authority u' = u_authority other \<and> u_userinfo u' = u_userinfo u"
  using assms by (simp add: uri_resolve_def merge_parts_def set_request_def Let_def)

text \<open>A query alone resolves to the directory of the base: the test for it comes after one that it satisfies.\<close>
lemma query_drops_filename:
  assumes "isAbsolute u" "\<not> isAbsolute other" "u_authority other = []" "u_path other = []" "u_query other \<noteq> []" "CHR ''/'' \<in> set (u_path u)"
  shows "\<exists>u'. uri_resolve other u = (None, u') \<and> u_path u' = normalizePath (before_slash (u_path u) @ ''/'')"
  using assms by (simp add: uri_resolve_def merge_parts_def set_request_def Let_def)

end
