(* ===== verification/DataTypes.thy ===== *)
theory DataTypes
  imports UtilMisc
begin

text \<open>
  Data types of properties and message arguments, \<^verbatim>\<open>core/local/util/property\<close>
  (\<^verbatim>\<open>OcpiUtilDataTypes.cxx\<close>, \<^verbatim>\<open>OcpiUtilProperty.cxx\<close>): the type of a value, which may nest through
  structures and recursive types, and the computation of sizes, alignments and offsets. Sizes are
  \<^verbatim>\<open>size_t\<close> values of 64 bits, whose products wrap around as in the source.
\<close>

unbundle bit_operations_syntax

subsection \<open>Types\<close>

datatype base_type =
    OCPI_none | OCPI_Bool | OCPI_Char | OCPI_Double | OCPI_Float | OCPI_Short | OCPI_Long | OCPI_UChar
  | OCPI_ULong | OCPI_UShort | OCPI_LongLong | OCPI_ULongLong | OCPI_String | OCPI_Struct | OCPI_Enum | OCPI_Type

text \<open>
  The members of \<^verbatim>\<open>ValueType\<close> and \<^verbatim>\<open>Member\<close> that are not themselves types. The rank of an array
  is the length of its list of dimensions.
\<close>

record vtype =
  m_name :: string
  m_baseType :: base_type
  m_arrayDimensions :: "u64 list"
  m_dataAlign :: u64
  m_align :: u64
  m_nBits :: u64
  m_isSequence :: bool
  m_nBytes :: u64
  m_stringLength :: u64
  m_sequenceLength :: u64
  m_enums :: "string list"
  m_nItems :: u64
  m_offset :: u64

datatype member = Member (attrs: vtype) (m_members: "member list") (m_type: "member option")

definition m_arrayRank :: "vtype \<Rightarrow> nat" where
  "m_arrayRank a = length (m_arrayDimensions a)"

text \<open>The constructor of a type.\<close>

definition ValueType :: "base_type \<Rightarrow> bool \<Rightarrow> vtype" where
  "ValueType bt seq =
     \<lparr>m_name = [], m_baseType = bt, m_arrayDimensions = [], m_dataAlign = 0, m_align = 1, m_nBits = 0,
      m_isSequence = seq, m_nBytes = 0, m_stringLength = 0, m_sequenceLength = 0, m_enums = [],
      m_nItems = 1, m_offset = 0\<rparr>"

fun isFixed :: "bool \<Rightarrow> member \<Rightarrow> bool" where
  "isFixed isTop (Member a ms t) =
     (if m_isSequence a \<and> \<not> isTop then False
      else if m_baseType a = OCPI_String \<or> m_baseType a = OCPI_Type then False
      else if m_baseType a = OCPI_Struct then list_all (isFixed False) ms
      else True)"

fun baseTypeSizes :: "base_type \<Rightarrow> u64" where
  "baseTypeSizes OCPI_none = 0"
| "baseTypeSizes OCPI_Bool = 8"
| "baseTypeSizes OCPI_Char = 8"
| "baseTypeSizes OCPI_Double = 64"
| "baseTypeSizes OCPI_Float = 32"
| "baseTypeSizes OCPI_Short = 16"
| "baseTypeSizes OCPI_Long = 32"
| "baseTypeSizes OCPI_UChar = 8"
| "baseTypeSizes OCPI_ULong = 32"
| "baseTypeSizes OCPI_UShort = 16"
| "baseTypeSizes OCPI_LongLong = 64"
| "baseTypeSizes OCPI_ULongLong = 64"
| "baseTypeSizes OCPI_String = 32"
| "baseTypeSizes OCPI_Struct = 0"
| "baseTypeSizes OCPI_Enum = 32"
| "baseTypeSizes OCPI_Type = 0"

subsection \<open>Layout\<close>

text \<open>The errors of the layout; \<open>DivideByZero\<close> and \<open>NullType\<close> are the traps the source runs into.\<close>

datatype layout_error = TooLarge string | DivideByZero | NullType

text \<open>The reference arguments of \<^verbatim>\<open>offset\<close>.\<close>

record layout =
  maxAlign :: u64
  argOffset :: u64
  minSizeBits :: u64
  diverseSizes :: bool
  sub32 :: bool
  unBounded :: bool

definition UINT32_MAX :: u64 where "UINT32_MAX = 0xFFFFFFFF"

definition round_to :: "u64 \<Rightarrow> u64 \<Rightarrow> layout_error + u64" where
  "round_to v a = (if a = 0 then Inl DivideByZero else Inr (roundUp v a))"

definition low32 :: "u64 \<Rightarrow> u64" where
  "low32 v = ucast (ucast v :: u32)"

fun array_bytes :: "u64 \<Rightarrow> u64 list \<Rightarrow> layout_error + u64" where
  "array_bytes nBytes [] = Inr nBytes"
| "array_bytes nBytes (d # ds) =
     (if nBytes * d > UINT32_MAX then Inl (TooLarge ''Total array size in bytes is too large (> 4G)'')
      else array_bytes (nBytes * d) ds)"

text \<open>The scalar and string case: the size in bytes, the attributes and the summary of sizes.\<close>

definition scalar_offset :: "vtype \<Rightarrow> layout \<Rightarrow> u64 \<times> vtype \<times> layout" where
  "scalar_offset a l =
     (let nBits = baseTypeSizes (m_baseType a);
          al = (nBits + 7) div 8;
          str = (m_baseType a = OCPI_String);
          nBytes = (if str then (m_stringLength a + 4) AND NOT 3 else al);
          scalarBits = (if str then 8 else al * 8);
          l = (if str \<and> m_stringLength a = 0 then l\<lparr>unBounded := True\<rparr> else l);
          l = (if minSizeBits l \<noteq> 0
               then l\<lparr>diverseSizes := (if minSizeBits l \<noteq> scalarBits then True else diverseSizes l),
                      minSizeBits := (if scalarBits < minSizeBits l then scalarBits else minSizeBits l)\<rparr>
               else l\<lparr>minSizeBits := scalarBits\<rparr>)
      in (nBytes, a\<lparr>m_nBits := nBits, m_align := al\<rparr>, l))"

definition sequence_bytes :: "vtype \<Rightarrow> u64 \<Rightarrow> bool \<Rightarrow> layout \<Rightarrow> layout_error + u64 \<times> vtype \<times> layout" where
  "sequence_bytes a nBytes isTop l =
     (if m_isSequence a then
        sbind (round_to (low32 nBytes) (m_align a)) (\<lambda>r.
          let nBytes = (if m_sequenceLength a \<noteq> 0 then r * m_sequenceLength a else r);
              l = (if m_sequenceLength a \<noteq> 0 then l else l\<lparr>unBounded := True\<rparr>);
              a = a\<lparr>m_align := (if m_align a < 4 then 4 else m_align a)\<rparr>;
              nBytes = (if \<not> isTop \<or> argOffset l \<noteq> 0 then nBytes + (if m_align a > 4 then m_align a else 4)
                        else nBytes)
          in if nBytes > UINT32_MAX then Inl (TooLarge ''Total sequence size in bytes is too large (> 4G)'')
             else Inr (nBytes, a, l))
      else Inr (nBytes, a, l))"

definition finish_offset :: "vtype \<Rightarrow> u64 \<Rightarrow> bool \<Rightarrow> layout \<Rightarrow> layout_error + vtype \<times> layout" where
  "finish_offset a nBytes isTop l =
     (if nBytes > UINT32_MAX then Inl (TooLarge ''Total member size in bytes is too large (> 4G)'')
      else
        sbind (if m_arrayRank a \<noteq> 0
               then sbind (round_to (low32 nBytes) (m_align a)) (\<lambda>r. array_bytes r (m_arrayDimensions a))
               else Inr nBytes) (\<lambda>nBytes.
        sbind (sequence_bytes (a\<lparr>m_dataAlign := m_align a\<rparr>) nBytes isTop l) (\<lambda>(nBytes, a, l).
        let l = (if m_align a > maxAlign l then l\<lparr>maxAlign := m_align a\<rparr> else l);
            l = (if m_align a < 4 then l\<lparr>sub32 := True\<rparr> else l);
            a = a\<lparr>m_nBytes := low32 nBytes\<rparr>
        in sbind (round_to (argOffset l) (m_align a)) (\<lambda>r.
           Inr (a\<lparr>m_offset := r\<rparr>, l\<lparr>argOffset := r + m_nBytes a\<rparr>)))))"

text \<open>The layout of the parts of a structure starts at zero and works on the alignment of the structure.\<close>

definition inner :: "vtype \<Rightarrow> layout \<Rightarrow> layout" where
  "inner a l = l\<lparr>maxAlign := m_align a, argOffset := 0\<rparr>"

definition outer :: "layout \<Rightarrow> layout \<Rightarrow> layout" where
  "outer l l' = l'\<lparr>maxAlign := maxAlign l, argOffset := argOffset l\<rparr>"

definition sized :: "vtype \<Rightarrow> layout \<Rightarrow> vtype" where
  "sized a l = a\<lparr>m_align := maxAlign l, m_nBits := argOffset l * 8\<rparr>"

fun offset :: "member \<Rightarrow> bool \<Rightarrow> layout \<Rightarrow> layout_error + member \<times> layout"
  and alignMembers :: "member list \<Rightarrow> bool \<Rightarrow> layout \<Rightarrow> layout_error + member list \<times> layout" where
  "offset (Member a ms t) isTop l =
     (case m_baseType a of
        OCPI_Struct \<Rightarrow>
          sbind (alignMembers ms False (inner a l)) (\<lambda>(ms, l').
          sbind (finish_offset (sized a l') (argOffset l') isTop (outer l l')) (\<lambda>(a, l).
          Inr (Member a ms t, l)))
      | OCPI_Type \<Rightarrow>
          (case t of
             None \<Rightarrow> Inl NullType
           | Some m \<Rightarrow>
               sbind (offset m False (inner a l)) (\<lambda>(m, l').
               sbind (finish_offset (sized a l') (argOffset l') isTop (outer l l')) (\<lambda>(a, l).
               Inr (Member a ms (Some m), l))))
      | _ \<Rightarrow>
          (case scalar_offset a l of (nBytes, a, l) \<Rightarrow>
             sbind (finish_offset a nBytes isTop l) (\<lambda>(a, l). Inr (Member a ms t, l))))"
| "alignMembers [] isTop l = Inr ([], l)"
| "alignMembers (m # ms) isTop l =
     sbind (offset m isTop l) (\<lambda>(m, l).
     sbind (alignMembers ms isTop l) (\<lambda>(ms, l). Inr (m # ms, l)))"

text \<open>The offset of a property in the configuration space of its worker.\<close>

record property_info =
  pi_member :: member
  m_isIndirect :: bool
  m_indirectAddr :: u64
  m_isParameter :: bool
  m_isReadable :: bool

definition set_offset :: "u64 \<Rightarrow> property_info \<Rightarrow> property_info" where
  "set_offset off p = p\<lparr>pi_member := (case pi_member p of Member a ms t \<Rightarrow> Member (a\<lparr>m_offset := off\<rparr>) ms t)\<rparr>"

definition property_offset :: "property_info \<Rightarrow> u64 \<times> u64 \<Rightarrow> property_info \<times> u64 \<times> u64" where
  "property_offset p s = (case s of (cumOffset, sizeofConfigSpace) \<Rightarrow>
     let a = attrs (pi_member p) in
     if m_isIndirect p then
       let top = m_indirectAddr p + m_nBytes a in
       (set_offset (m_indirectAddr p) p, cumOffset, if top > sizeofConfigSpace then top else sizeofConfigSpace)
     else if \<not> m_isParameter p \<or> m_isReadable p then
       let cumOffset = roundUp cumOffset (m_align a); end = cumOffset + m_nBytes a in
       (set_offset cumOffset p, end, if end > sizeofConfigSpace then end else sizeofConfigSpace)
     else (p, cumOffset, sizeofConfigSpace))"

text \<open>The loop over the properties of a worker in \<^verbatim>\<open>tools/ocpigen/src/parse.cxx\<close>.\<close>

fun property_offsets :: "property_info list \<Rightarrow> u64 \<times> u64 \<Rightarrow> property_info list \<times> u64 \<times> u64" where
  "property_offsets [] s = ([], s)"
| "property_offsets (p # ps) s =
     (case property_offset p s of (p', s') \<Rightarrow> case property_offsets ps s' of (ps', s'') \<Rightarrow> (p' # ps', s''))"

subsection \<open>Soundness of the layout\<close>

definition good_align :: "u64 \<Rightarrow> bool" where
  "good_align a \<longleftrightarrow> a = 1 \<or> a = 2 \<or> a = 4 \<or> a = 8"

text \<open>The types the parser makes: alignments start at one and structures have few members.\<close>

fun type_ok :: "member \<Rightarrow> bool" where
  "type_ok (Member a ms t) \<longleftrightarrow>
     good_align (m_align a) \<and> length ms < 2 ^ 30 \<and> list_all type_ok ms \<and> pred_option type_ok t"

text \<open>Members that follow each other from a position to an end, each at the next aligned offset.\<close>

fun laid_from :: "nat \<Rightarrow> member list \<Rightarrow> nat \<Rightarrow> bool" where
  "laid_from p [] e \<longleftrightarrow> p = e"
| "laid_from p (m # ms) e \<longleftrightarrow>
     (let off = unat (m_offset (attrs m)); al = unat (m_align (attrs m)) in
      p \<le> off \<and> al dvd off \<and> off < p + al \<and> laid_from (off + unat (m_nBytes (attrs m))) ms e)"

fun well_laid :: "member \<Rightarrow> bool" where
  "well_laid (Member a ms t) \<longleftrightarrow>
     good_align (m_align a) \<and> good_align (m_dataAlign a) \<and> unat (m_nBytes a) < 2 ^ 32 \<and>
     (m_isSequence a \<longrightarrow> 4 \<le> m_align a) \<and>
     (m_baseType a = OCPI_Struct \<longrightarrow>
        list_all well_laid ms \<and> laid_from 0 ms (unat (m_nBits a) div 8) \<and>
        list_all (\<lambda>m. m_align (attrs m) \<le> m_dataAlign a) ms) \<and>
     (m_baseType a = OCPI_Type \<longrightarrow>
        (case t of None \<Rightarrow> False
         | Some m \<Rightarrow> well_laid m \<and> laid_from 0 [m] (unat (m_nBits a) div 8) \<and>
             m_align (attrs m) \<le> m_dataAlign a))"

lemma good_align_unat: "good_align a \<Longrightarrow> unat a \<in> {1, 2, 4, 8}"
  by (auto simp: good_align_def)

lemma low32_less: "unat (low32 v) < 2 ^ 32"
  using take_bit_nat_less_exp [of 32 "unat v"] by (simp add: low32_def unsigned_ucast_eq unsigned_take_bit_eq)

lemma low32_id: "\<not> v > UINT32_MAX \<Longrightarrow> low32 v = v"
  by (simp add: low32_def UINT32_MAX_def not_less ucast_ucast_u32 word_le_nat_alt word_less_nat_alt)

text \<open>What one step does with the position, the alignment and the size.\<close>

lemma sequence_bytes_ok:
  assumes "sequence_bytes a nB isTop l = Inr (nB', a', l')" "good_align (m_align a)"
  shows "good_align (m_align a')" "m_align a \<le> m_align a'" "m_dataAlign a' = m_dataAlign a"
    "m_baseType a' = m_baseType a" "m_nBits a' = m_nBits a" "argOffset l' = argOffset l" "maxAlign l' = maxAlign l"
    "m_isSequence a' \<longrightarrow> 4 \<le> m_align a'"
  using assms by (auto simp: sequence_bytes_def Let_def good_align_def word_less_nat_alt word_le_nat_alt
      split: if_splits)

lemma finish_offset_ok:
  assumes f: "finish_offset a nB isTop l = Inr (a', l')" and g: "good_align (m_align a)"
    and r: "unat (argOffset l) + 2 ^ 33 \<le> 2 ^ 64"
  shows "good_align (m_align a')" "m_align a \<le> m_align a'" "m_dataAlign a' = m_align a"
    "m_baseType a' = m_baseType a" "m_nBits a' = m_nBits a" "unat (m_nBytes a') < 2 ^ 32"
    "laid_from (unat (argOffset l)) [Member a' ms t] (unat (argOffset l'))"
    "unat (argOffset l') \<le> unat (argOffset l) + 2 ^ 33" "\<not> nB > UINT32_MAX"
    "maxAlign l' = (if m_align a' > maxAlign l then m_align a' else maxAlign l)"
    "m_isSequence a' \<longrightarrow> 4 \<le> m_align a'"
proof -
  obtain n1 n2 a2 l2 where s: "sequence_bytes (a\<lparr>m_dataAlign := m_align a\<rparr>) n1 isTop l = Inr (n2, a2, l2)"
    and a': "a' = a2\<lparr>m_nBytes := low32 n2, m_offset := roundUp (argOffset l2) (m_align a2)\<rparr>"
    and l': "argOffset l' = roundUp (argOffset l2) (m_align a2) + low32 n2"
      "maxAlign l' = (if m_align a2 > maxAlign l2 then m_align a2 else maxAlign l2)"
    and nB: "\<not> nB > UINT32_MAX"
    using f by (auto simp: finish_offset_def round_to_def Let_def split: if_splits)
  note q = sequence_bytes_ok [OF s]
  have g2: "good_align (m_align a2)" using q(1) g by simp
  note u = good_align_unat [OF g2]
  let ?p = "unat (argOffset l)" and ?al = "unat (m_align a2)" and ?o = "unat (roundUp (argOffset l2) (m_align a2))"
  have "argOffset l2 = argOffset l" using q(6) g by simp
  then have o: "?o = (?p + ?al - 1) div ?al * ?al" using u r unat_roundUp [of "m_align a2" "argOffset l"] by auto
  have b: "?p \<le> ?o" "?o < ?p + ?al" "?al dvd ?o" using round_bounds [of ?al ?p] u by (auto simp: o)
  have "unat (low32 n2) < 2 ^ 32" by (rule low32_less)
  moreover from this have "unat (argOffset l') = ?o + unat (low32 n2)"
    unfolding l'(1) using b u r by (subst unat_add_lem [symmetric]) auto
  ultimately show "unat (m_nBytes a') < 2 ^ 32" "laid_from ?p [Member a' ms t] (unat (argOffset l'))"
    "unat (argOffset l') \<le> ?p + 2 ^ 33"
    using b u by (auto simp: a')
  show "good_align (m_align a')" "m_align a \<le> m_align a'" "m_dataAlign a' = m_align a"
    "m_baseType a' = m_baseType a" "m_nBits a' = m_nBits a" "\<not> nB > UINT32_MAX"
    "maxAlign l' = (if m_align a' > maxAlign l then m_align a' else maxAlign l)"
    "m_isSequence a' \<longrightarrow> 4 \<le> m_align a'"
    using q g g2 nB l'(2) by (auto simp: a')
qed

lemma laid_from_append: "laid_from p (ms @ ns) e \<longleftrightarrow> (\<exists>q. laid_from p ms q \<and> laid_from q ns e)"
  by (induction ms arbitrary: p) (auto simp: Let_def)

lemma scalar_align:
  "b \<noteq> OCPI_Struct \<Longrightarrow> b \<noteq> OCPI_Type \<Longrightarrow> b \<noteq> OCPI_none \<Longrightarrow> good_align ((baseTypeSizes b + 7) div 8)"
  by (cases b) (simp_all add: good_align_def)

lemma scalar_offset_ok:
  assumes "scalar_offset a l = (nB, a', l')" "m_baseType a \<noteq> OCPI_Struct" "m_baseType a \<noteq> OCPI_Type" "m_baseType a \<noteq> OCPI_none"
  shows "good_align (m_align a')" "m_baseType a' = m_baseType a" "argOffset l' = argOffset l" "maxAlign l' = maxAlign l"
proof -
  have a': "a' = a\<lparr>m_nBits := baseTypeSizes (m_baseType a), m_align := (baseTypeSizes (m_baseType a) + 7) div 8\<rparr>"
    using assms(1) by (simp add: scalar_offset_def Let_def)
  show "good_align (m_align a')" "m_baseType a' = m_baseType a"
    using scalar_align [OF assms(2-4)] by (simp_all add: a')
  show "argOffset l' = argOffset l" "maxAlign l' = maxAlign l"
    using assms(1) by (auto simp: scalar_offset_def Let_def split: if_splits)
qed

lemma offset_plain:
  "m_baseType a \<noteq> OCPI_Struct \<Longrightarrow> m_baseType a \<noteq> OCPI_Type \<Longrightarrow>
   offset (Member a ms t) isTop l =
     (case scalar_offset a l of (nBytes, a, l) \<Rightarrow>
        sbind (finish_offset a nBytes isTop l) (\<lambda>(a, l). Inr (Member a ms t, l)))"
  by (cases "m_baseType a") simp_all

lemma none_traps:
  assumes "m_baseType a = OCPI_none"
  shows "offset (Member a ms t) isTop l = Inl DivideByZero"
  using assms
  by (auto simp: scalar_offset_def finish_offset_def sequence_bytes_def round_to_def Let_def UINT32_MAX_def)

text \<open>The effect of the layout of a list of members on the reference arguments.\<close>

definition laid_steps :: "layout \<Rightarrow> member list \<Rightarrow> layout \<Rightarrow> bool" where
  "laid_steps l ms l' \<longleftrightarrow>
     list_all well_laid ms \<and> laid_from (unat (argOffset l)) ms (unat (argOffset l')) \<and>
     unat (argOffset l') \<le> unat (argOffset l) + length ms * 2 ^ 33 \<and>
     maxAlign l \<le> maxAlign l' \<and> list_all (\<lambda>m. m_align (attrs m) \<le> maxAlign l') ms \<and>
     (good_align (maxAlign l) \<longrightarrow> good_align (maxAlign l'))"

lemma laid_steps_Cons:
  assumes "laid_steps l [m] l1" "laid_steps l1 ms l2"
  shows "laid_steps l (m # ms) l2"
  using assms by (auto simp: laid_steps_def Let_def list_all_iff)

lemma finish_steps_ok:
  assumes f: "finish_offset a nB isTop l = Inr (a', l')" and g: "good_align (m_align a)"
    and r: "unat (argOffset l) + 2 ^ 33 \<le> 2 ^ 64"
    and w: "\<And>a'. m_dataAlign a' = m_align a \<Longrightarrow> m_nBits a' = m_nBits a \<Longrightarrow> m_baseType a' = m_baseType a \<Longrightarrow>
       good_align (m_align a') \<Longrightarrow> unat (m_nBytes a') < 2 ^ 32 \<Longrightarrow> m_isSequence a' \<longrightarrow> 4 \<le> m_align a' \<Longrightarrow>
       \<not> nB > UINT32_MAX \<Longrightarrow> well_laid (Member a' ms t)"
  shows "laid_steps l [Member a' ms t] l'"
proof -
  note q = finish_offset_ok [OF f g r]
  have "well_laid (Member a' ms t)" using w q by blast
  then show ?thesis using q by (auto simp: laid_steps_def)
qed

lemma sized_bits:
  assumes "\<not> argOffset l > UINT32_MAX"
  shows "unat (m_nBits (sized a l)) div 8 = unat (argOffset l)"
proof -
  have "unat (argOffset l) < 2 ^ 32" using assms by (simp add: UINT32_MAX_def not_less word_le_nat_alt)
  then show ?thesis by (simp add: sized_def unat_word_ariths)
qed

lemma layout_sound:
  "offset m isTop l = Inr (m', l') \<Longrightarrow> type_ok m \<Longrightarrow> unat (argOffset l) + 2 ^ 33 \<le> 2 ^ 64 \<Longrightarrow> laid_steps l [m'] l'"
  "alignMembers ms isTop l = Inr (ms', l') \<Longrightarrow> list_all type_ok ms \<Longrightarrow>
   unat (argOffset l) + length ms * 2 ^ 33 \<le> 2 ^ 64 \<Longrightarrow> laid_steps l ms' l' \<and> length ms' = length ms"
proof (induction m isTop l and ms isTop l arbitrary: m' l' and ms' l' rule: offset_alignMembers.induct)
  case (1 a ms t isTop l)
  consider (Struct) "m_baseType a = OCPI_Struct" | (Type) "m_baseType a = OCPI_Type"
    | (plain) "m_baseType a \<noteq> OCPI_Struct" "m_baseType a \<noteq> OCPI_Type" by blast
  then show ?case
  proof cases
    case Struct
    obtain ms1 l1 a1 where s: "alignMembers ms False (inner a l) = Inr (ms1, l1)"
      and f: "finish_offset (sized a l1) (argOffset l1) isTop (outer l l1) = Inr (a1, l')" and m': "m' = Member a1 ms1 t"
      using "1.prems"(1) Struct by auto
    have "laid_steps (inner a l) ms1 l1"
      using "1.IH"(1) [OF Struct s] "1.prems"(2) by (simp add: inner_def)
    then have k: "list_all well_laid ms1" "laid_from 0 ms1 (unat (argOffset l1))" "good_align (maxAlign l1)"
      "list_all (\<lambda>m. m_align (attrs m) \<le> maxAlign l1) ms1"
      using "1.prems"(2) by (auto simp: laid_steps_def inner_def)
    have "laid_steps (outer l l1) [Member a1 ms1 t] l'"
      by (rule finish_steps_ok [OF f]) (use k Struct "1.prems"(3) in \<open>auto simp: sized_bits\<close>,
          simp_all add: sized_def outer_def)
    then show ?thesis by (simp add: m' laid_steps_def outer_def)
  next
    case Type
    then obtain m where t: "t = Some m" using "1.prems"(1) by (cases t) auto
    obtain m1 l1 a1 where s: "offset m False (inner a l) = Inr (m1, l1)"
      and f: "finish_offset (sized a l1) (argOffset l1) isTop (outer l l1) = Inr (a1, l')" and m': "m' = Member a1 ms (Some m1)"
      using "1.prems"(1) Type t by auto
    have "laid_steps (inner a l) [m1] l1"
      using "1.IH"(2) [OF Type t s] "1.prems"(2) t by (simp add: inner_def)
    then have k: "well_laid m1" "laid_from 0 [m1] (unat (argOffset l1))" "good_align (maxAlign l1)"
      "m_align (attrs m1) \<le> maxAlign l1"
      using "1.prems"(2) by (auto simp: laid_steps_def inner_def)
    have "laid_steps (outer l l1) [Member a1 ms (Some m1)] l'"
      by (rule finish_steps_ok [OF f]) (use k Type "1.prems"(3) in \<open>auto simp: sized_bits Let_def\<close>,
          simp_all add: sized_def outer_def)
    then show ?thesis by (simp add: m' laid_steps_def outer_def)
  next
    case plain
    obtain nB a1 l1 where s: "scalar_offset a l = (nB, a1, l1)" by (cases "scalar_offset a l") auto
    then obtain a2 where f: "finish_offset a1 nB isTop l1 = Inr (a2, l')" and m': "m' = Member a2 ms t"
      using "1.prems"(1) by (auto simp del: offset.simps simp: offset_plain [OF plain])
    have "m_baseType a \<noteq> OCPI_none" using "1.prems"(1) none_traps by fastforce
    note q = scalar_offset_ok [OF s plain this]
    have "laid_steps l1 [Member a2 ms t] l'"
      by (rule finish_steps_ok [OF f q(1)]) (use plain q "1.prems"(3) in auto)
    then show ?thesis using q by (simp add: m' laid_steps_def)
  qed
next
  case (3 m ms isTop l)
  then obtain m1 l1 ms1 where s: "offset m isTop l = Inr (m1, l1)" "alignMembers ms isTop l1 = Inr (ms1, l')"
    and ms': "ms' = m1 # ms1" by auto
  have o: "laid_steps l [m1] l1" using "3.IH"(1) [OF s(1)] "3.prems"(2,3) by simp
  moreover have "laid_steps l1 ms1 l' \<and> length ms1 = length ms"
    using "3.IH"(2) [OF s(2)] "3.prems"(2,3) o by (simp add: laid_steps_def)
  ultimately show ?case using laid_steps_Cons ms' by auto
qed (simp add: laid_steps_def)

subsection \<open>Members and properties do not overlap\<close>

abbreviation at :: "member \<Rightarrow> nat" where "at m \<equiv> unat (m_offset (attrs m))"
abbreviation bytes :: "member \<Rightarrow> nat" where "bytes m \<equiv> unat (m_nBytes (attrs m))"

lemma laid_from_le: "laid_from p ms e \<Longrightarrow> p \<le> e"
proof (induction ms arbitrary: p)
  case (Cons m ms)
  then have "p \<le> at m" "at m + bytes m \<le> e" by (auto simp: Let_def)
  then show ?case by simp
qed simp

lemma laid_from_member:
  "laid_from p ms e \<Longrightarrow> m \<in> set ms \<Longrightarrow> unat (m_align (attrs m)) dvd at m \<and> p \<le> at m \<and> at m + bytes m \<le> e"
proof (induction ms arbitrary: p)
  case (Cons m0 ms)
  then have l: "laid_from (at m0 + bytes m0) ms e" "p \<le> at m0" "unat (m_align (attrs m0)) dvd at m0" by (auto simp: Let_def)
  from Cons.prems(2) consider "m = m0" | "m \<in> set ms" by auto
  then show ?case using l laid_from_le [OF l(1)] Cons.IH [OF l(1)] by cases auto
qed simp

lemma laid_from_order:
  assumes "laid_from p ms e" "i < j" "j < length ms"
  shows "at (ms ! i) + bytes (ms ! i) \<le> at (ms ! j)"
proof -
  have "ms = take i ms @ ms ! i # drop (Suc i) ms" using assms by (simp add: id_take_nth_drop)
  with assms(1) obtain q where "laid_from q (ms ! i # drop (Suc i) ms) e" by (metis laid_from_append)
  then have "laid_from (at (ms ! i) + bytes (ms ! i)) (drop (Suc i) ms) e" by (simp add: Let_def)
  moreover have "ms ! j \<in> set (drop (Suc i) ms)"
    using assms by (auto simp: in_set_conv_nth intro!: exI [of _ "j - Suc i"])
  ultimately show ?thesis using laid_from_member by blast
qed

text \<open>
  Claim C17: the layout of a list of members or arguments places every member at an aligned offset,
  behind all members before it and inside the total size, and the same holds for the members of
  every structure nested in them, whatever sizes, arrays and sequences they have.
\<close>
theorem layout_places_members:
  assumes "alignMembers ms isTop l = Inr (ms', l')" "list_all type_ok ms"
    "unat (argOffset l) + length ms * 2 ^ 33 \<le> 2 ^ 64"
  shows "length ms' = length ms \<and> list_all well_laid ms' \<and>
    (\<forall>i<length ms'. unat (m_align (attrs (ms' ! i))) dvd at (ms' ! i) \<and>
       unat (argOffset l) \<le> at (ms' ! i) \<and> at (ms' ! i) + bytes (ms' ! i) \<le> unat (argOffset l') \<and>
       (\<forall>j<i. at (ms' ! j) + bytes (ms' ! j) \<le> at (ms' ! i)))"
proof -
  have s: "list_all well_laid ms'" "length ms' = length ms" "laid_from (unat (argOffset l)) ms' (unat (argOffset l'))"
    using layout_sound(2) [OF assms] by (auto simp: laid_steps_def)
  then show ?thesis using laid_from_member [OF s(3) nth_mem] laid_from_order [OF s(3)] by blast
qed

definition ex_args :: "member list" where
  "ex_args =
     [Member ((ValueType OCPI_UChar False)\<lparr>m_arrayDimensions := [3]\<rparr>) [] None,
      Member (ValueType OCPI_Struct True\<lparr>m_sequenceLength := 2\<rparr>)
        [Member (ValueType OCPI_Bool False) [] None, Member (ValueType OCPI_Double False) [] None] None]"

definition ex_layout :: layout where
  "ex_layout = \<lparr>maxAlign = 1, argOffset = 0, minSizeBits = 0, diverseSizes = False, sub32 = False, unBounded = False\<rparr>"

theorem layout_places_members_witness:
  "\<exists>ms' l'. alignMembers ex_args False ex_layout = Inr (ms', l') \<and> length ms' = 2 \<and> list_all well_laid ms' \<and>
     at (ms' ! 0) + bytes (ms' ! 0) \<le> at (ms' ! 1)"
proof -
  have "\<exists>r. alignMembers ex_args False ex_layout = Inr r"
    by (simp add: ex_args_def ex_layout_def ValueType_def inner_def outer_def sized_def scalar_offset_def
        finish_offset_def sequence_bytes_def round_to_def roundUp_def low32_def UINT32_MAX_def m_arrayRank_def Let_def)
  then obtain ms' l' where r: "alignMembers ex_args False ex_layout = Inr (ms', l')" by auto
  have "list_all type_ok ex_args" "unat (argOffset ex_layout) + length ex_args * 2 ^ 33 \<le> 2 ^ 64"
    by (simp_all add: ex_args_def ex_layout_def ValueType_def good_align_def)
  from layout_places_members [OF r this] r show ?thesis by (auto simp: ex_args_def)
qed

end
