(* ===== verification/Messages.thy ===== *)
theory Messages
  imports DataTypes
begin

text \<open>
  Messages of a protocol in a linear buffer: \<^verbatim>\<open>Member::read\<close> and \<^verbatim>\<open>Member::write\<close> of
  \<^verbatim>\<open>OcpiUtilDataTypes.cxx\<close> and their callers in \<^verbatim>\<open>OcpiUtilProtocol.cxx\<close>. \<^verbatim>\<open>read\<close> fills a buffer
  from a reader object, \<^verbatim>\<open>write\<close> pushes a buffer into a writer object. The reader is the stream of
  the results of its virtual calls, the writer the list of the calls it gets. A pointer into the
  buffer is its index; the address of the buffer is an argument because alignment works on addresses.
\<close>

subsection \<open>Reader and writer\<close>

datatype ritem = RSequence nat | RString octets | RData octets

datatype wcall =
    WOpcode string u8 | WBeginSequence nat | WEndSequence | WBeginArray nat | WEndArray
  | WBeginStruct | WEndStruct | WBeginType | WEndType | WString octets bool bool | WData octets nat | WEnd

text \<open>
  The errors: the exceptions and failed assertions of the source, an access outside the buffer
  (\<open>Overrun\<close>), a null type and a reader that delivers another item than it is asked for.
\<close>

datatype msg_error =
    BufferExceeded | SequenceTooLong | StringTooLong | AssertFailed | Overrun | NullType' | BadReader
  | NoOperations | InvalidOpcode

record cursor =
  c_buf :: octets
  c_pos :: nat
  c_len :: nat

subsection \<open>Moving in the buffer\<close>

definition advance :: "nat \<Rightarrow> 'a cursor_scheme \<Rightarrow> msg_error + 'a cursor_scheme" where
  "advance nBytes c =
     (if nBytes > c_len c then Inl BufferExceeded
      else Inr (c\<lparr>c_len := c_len c - nBytes, c_pos := c_pos c + nBytes\<rparr>))"

text \<open>The distance to the next address that is a multiple of a power of two.\<close>

definition align_skip :: "u64 \<Rightarrow> nat \<Rightarrow> u64 \<Rightarrow> nat" where
  "align_skip base pos n =
     (let p = base + of_nat pos in unat (((p + (n - 1)) AND NOT (n - 1)) - p))"

definition align :: "u64 \<Rightarrow> u64 \<Rightarrow> 'a cursor_scheme \<Rightarrow> msg_error + 'a cursor_scheme" where
  "align base n c = advance (align_skip base (c_pos c) n) c"

definition peek :: "nat \<Rightarrow> 'a cursor_scheme \<Rightarrow> msg_error + octets" where
  "peek n c = (if c_pos c + n \<le> length (c_buf c) then Inr (take n (drop (c_pos c) (c_buf c))) else Inl Overrun)"

definition poke :: "nat \<Rightarrow> octets \<Rightarrow> 'a cursor_scheme \<Rightarrow> msg_error + 'a cursor_scheme" where
  "poke pos bs c =
     (if pos + length bs \<le> length (c_buf c)
      then Inr (c\<lparr>c_buf := take pos (c_buf c) @ bs @ drop (pos + length bs) (c_buf c)\<rparr>) else Inl Overrun)"

text \<open>The bytes of the text at the current position; without a terminator the scan leaves the buffer.\<close>

definition peek_string :: "'a cursor_scheme \<Rightarrow> msg_error + octets" where
  "peek_string c =
     (let t = drop (c_pos c) (c_buf c) in
      if 0 \<in> set t then Inr (takeWhile (\<lambda>b. b \<noteq> 0) t) else Inl Overrun)"

fun repeat_times :: "nat \<Rightarrow> ('s \<Rightarrow> 'e + 's) \<Rightarrow> 's \<Rightarrow> 'e + 's" where
  "repeat_times 0 f s = Inr s"
| "repeat_times (Suc n) f s = sbind (f s) (repeat_times n f)"

text \<open>Numbers of elements and bytes are \<^verbatim>\<open>size_t\<close> products.\<close>

definition mul64 :: "nat \<Rightarrow> nat \<Rightarrow> nat" where
  "mul64 x y = unat (of_nat x * of_nat y :: u64)"

subsection \<open>Filling the buffer\<close>

record rcursor = cursor +
  c_items :: "ritem list"

definition next_sequence :: "rcursor \<Rightarrow> msg_error + nat \<times> rcursor" where
  "next_sequence c = (case c_items c of RSequence n # r \<Rightarrow> Inr (n, c\<lparr>c_items := r\<rparr>) | _ \<Rightarrow> Inl BadReader)"

definition next_string :: "rcursor \<Rightarrow> msg_error + octets \<times> rcursor" where
  "next_string c = (case c_items c of RString s # r \<Rightarrow> Inr (s, c\<lparr>c_items := r\<rparr>) | _ \<Rightarrow> Inl BadReader)"

definition next_data :: "nat \<Rightarrow> rcursor \<Rightarrow> msg_error + octets \<times> rcursor" where
  "next_data n c =
     (case c_items c of
        RData bs # r \<Rightarrow> if length bs = n then Inr (bs, c\<lparr>c_items := r\<rparr>) else Inl BadReader
      | _ \<Rightarrow> Inl BadReader)"

text \<open>The count of a sequence; \<open>None\<close> as the number of elements is the early return.\<close>

definition read_count :: "bool \<Rightarrow> u64 \<Rightarrow> vtype \<Rightarrow> rcursor \<Rightarrow> msg_error + nat option \<times> rcursor" where
  "read_count le base a c =
     (if m_isSequence a then
        sbind (align base (m_align a) c) (\<lambda>c.
        sbind (advance (unat (m_align a)) c) (\<lambda>c1.
        sbind (next_sequence c1) (\<lambda>(nElements, c2).
        sbind (poke (c_pos c) (mem_repr le 4 nElements) c2) (\<lambda>c3.
          if (of_nat nElements :: u32) = 0 then Inr (None, c3)
          else if m_sequenceLength a \<noteq> 0 \<and> nElements > unat (m_sequenceLength a) then Inl SequenceTooLong
          else Inr (Some nElements, c3)))))
      else Inr (Some 1, c))"

definition read_string :: "u64 \<Rightarrow> vtype \<Rightarrow> rcursor \<Rightarrow> msg_error + rcursor" where
  "read_string base a c =
     sbind (align base 4 c) (\<lambda>c.
     sbind (next_string c) (\<lambda>(s, c1).
       if m_stringLength a \<noteq> 0 \<and> length s > unat (m_stringLength a) then Inl StringTooLong
       else sbind (advance (length s + 1) c1) (\<lambda>c2. poke (c_pos c) (s @ [0]) c2)))"

definition read_scalars :: "u64 \<Rightarrow> vtype \<Rightarrow> nat \<Rightarrow> rcursor \<Rightarrow> msg_error + rcursor" where
  "read_scalars base a nElements c =
     sbind (align base (m_align a) c) (\<lambda>c.
       let nBytes = mul64 nElements (unat (m_nBits a div 8)) in
       sbind (advance nBytes c) (\<lambda>c1.
       sbind (next_data nBytes c1) (\<lambda>(bs, c2). poke (c_pos c) bs c2)))"

fun read_member :: "bool \<Rightarrow> u64 \<Rightarrow> member \<Rightarrow> rcursor \<Rightarrow> msg_error + rcursor"
  and read_members :: "bool \<Rightarrow> u64 \<Rightarrow> member list \<Rightarrow> rcursor \<Rightarrow> msg_error + rcursor" where
  "read_member le base (Member a ms t) c =
     sbind (read_count le base a c) (\<lambda>(cnt, c).
       case cnt of None \<Rightarrow> Inr c
       | Some n \<Rightarrow>
         let nElements = mul64 n (unat (m_nItems a)) in
         sbind (align base (m_dataAlign a) c) (\<lambda>c.
           case m_baseType a of
             OCPI_Struct \<Rightarrow> repeat_times nElements (read_members le base ms) c
           | OCPI_Type \<Rightarrow>
               (case t of None \<Rightarrow> Inl NullType' | Some m \<Rightarrow> repeat_times nElements (read_member le base m) c)
           | OCPI_String \<Rightarrow> repeat_times nElements (read_string base a) c
           | OCPI_none \<Rightarrow> Inl AssertFailed
           | _ \<Rightarrow> read_scalars base a nElements c))"
| "read_members le base [] c = Inr c"
| "read_members le base (m # ms) c = sbind (read_member le base m c) (read_members le base ms)"

subsection \<open>Writing out the buffer\<close>

record wcursor = cursor +
  c_calls :: "wcall list"

definition call :: "wcall \<Rightarrow> wcursor \<Rightarrow> wcursor" where
  "call w c = c\<lparr>c_calls := c_calls c @ [w]\<rparr>"

definition write_count :: "bool \<Rightarrow> u64 \<Rightarrow> vtype \<Rightarrow> bool \<Rightarrow> wcursor \<Rightarrow> msg_error + nat option \<times> wcursor" where
  "write_count le base a topSeq c =
     (if m_isSequence a then
        sbind (if topSeq then
                 if (base + of_nat (c_pos c)) AND NOT (m_align a - 1) \<noteq> 0 \<or> c_len c mod unat (m_nBytes a) \<noteq> 0
                 then Inl AssertFailed
                 else Inr (c_len c div unat (m_nBytes a), c)
               else sbind (align base (m_align a) c) (\<lambda>c.
                    sbind (peek 4 c) (\<lambda>bs. Inr (mem_value le bs, c)))) (\<lambda>(nElements, c).
          if m_sequenceLength a \<noteq> 0 \<and> nElements > unat (m_sequenceLength a) then Inl SequenceTooLong
          else sbind (advance (unat (m_align a)) (call (WBeginSequence nElements) c)) (\<lambda>c.
               Inr (if nElements = 0 then None else Some nElements, c)))
      else Inr (Some 1, c))"

fun write_strings :: "u64 \<Rightarrow> bool \<Rightarrow> bool \<Rightarrow> nat \<Rightarrow> wcursor \<Rightarrow> msg_error + wcursor" where
  "write_strings base first topSeq 0 c = Inr c"
| "write_strings base first topSeq (Suc n) c =
     sbind (align base 4 c) (\<lambda>c.
     sbind (peek_string c) (\<lambda>s.
     sbind (advance (length s + 1) c) (\<lambda>c.
     write_strings base False topSeq n (call (WString s first topSeq) c))))"

definition write_scalars :: "u64 \<Rightarrow> vtype \<Rightarrow> nat \<Rightarrow> wcursor \<Rightarrow> msg_error + wcursor" where
  "write_scalars base a nElements c =
     sbind (align base (m_align a) c) (\<lambda>c.
       let nBytes = mul64 nElements (unat (m_nBits a div 8)) in
       sbind (advance nBytes c) (\<lambda>c1.
       sbind (peek nBytes c) (\<lambda>bs. Inr (call (WData bs nElements) c1))))"

definition begin_array :: "vtype \<Rightarrow> wcursor \<Rightarrow> wcursor" where
  "begin_array a c = (if m_arrayRank a \<noteq> 0 then call (WBeginArray (unat (m_nItems a))) c else c)"

definition end_calls :: "vtype \<Rightarrow> wcursor \<Rightarrow> wcursor" where
  "end_calls a c =
     (let c = (if m_isSequence a then call WEndSequence c else c)
      in if m_arrayRank a \<noteq> 0 then call WEndArray c else c)"

fun write_member :: "bool \<Rightarrow> u64 \<Rightarrow> member \<Rightarrow> bool \<Rightarrow> wcursor \<Rightarrow> msg_error + wcursor"
  and write_members :: "bool \<Rightarrow> u64 \<Rightarrow> member list \<Rightarrow> bool \<Rightarrow> wcursor \<Rightarrow> msg_error + wcursor" where
  "write_member le base (Member a ms t) topSeq c =
     sbind (write_count le base a topSeq c) (\<lambda>(cnt, c).
       case cnt of None \<Rightarrow> Inr c
       | Some n \<Rightarrow>
         let nElements = mul64 n (unat (m_nItems a)) in
         sbind (align base (m_dataAlign a) (begin_array a c)) (\<lambda>c.
         sbind (case m_baseType a of
             OCPI_Struct \<Rightarrow>
               sbind (repeat_times nElements (write_members le base ms False) (call WBeginStruct c)) (\<lambda>c. Inr (call WEndStruct c))
           | OCPI_Type \<Rightarrow>
               (case t of None \<Rightarrow> Inl NullType'
                | Some m \<Rightarrow>
                  sbind (repeat_times nElements (write_member le base m False) (call WBeginType c)) (\<lambda>c. Inr (call WEndType c)))
           | OCPI_String \<Rightarrow> write_strings base True topSeq nElements c
           | OCPI_none \<Rightarrow> Inl AssertFailed
           | _ \<Rightarrow> write_scalars base a nElements c) (\<lambda>c.
         Inr (end_calls a c))))"
| "write_members le base [] topSeq c = Inr c"
| "write_members le base (m # ms) topSeq c =
     sbind (write_member le base m topSeq c) (write_members le base ms topSeq)"

subsection \<open>Writing mirrors reading\<close>

text \<open>The items a writer got.\<close>

fun item_of :: "wcall \<Rightarrow> ritem list" where
  "item_of (WBeginSequence n) = [RSequence n]"
| "item_of (WString s f g) = [RString s]"
| "item_of (WData bs n) = [RData bs]"
| "item_of _ = []"

definition items_of :: "wcall list \<Rightarrow> ritem list" where
  "items_of ws = concat (map item_of ws)"

text \<open>Items a buffer can represent: counts of 32 bits and texts without a null character.\<close>

fun item_ok :: "ritem \<Rightarrow> bool" where
  "item_ok (RSequence n) \<longleftrightarrow> n < 2 ^ 32"
| "item_ok (RString s) \<longleftrightarrow> 0 \<notin> set s"
| "item_ok (RData bs) \<longleftrightarrow> True"

text \<open>
  A step of the reader from \<open>c\<close> to \<open>c'\<close> is mirrored by a step of the writer: on every buffer that
  agrees with the filled one up to the new position, the writer moves to the same position and gets
  the items that were read.
\<close>

definition agree :: "wcursor \<Rightarrow> rcursor \<Rightarrow> rcursor \<Rightarrow> bool" where
  "agree w c c' \<longleftrightarrow>
     c_pos w = c_pos c \<and> c_pos c' \<le> c_pos c + c_len w \<and> length (c_buf w) = length (c_buf c') \<and>
     take (c_pos c') (c_buf w) = take (c_pos c') (c_buf c')"

definition moved :: "rcursor \<Rightarrow> rcursor \<Rightarrow> bool" where
  "moved c c' \<longleftrightarrow>
     c_pos c \<le> c_pos c' \<and> c_pos c' + c_len c' = c_pos c + c_len c \<and> length (c_buf c') = length (c_buf c) \<and>
     take (c_pos c) (c_buf c') = take (c_pos c) (c_buf c)"

definition delivers :: "rcursor \<Rightarrow> rcursor \<Rightarrow> ritem list \<Rightarrow> wcursor \<Rightarrow> msg_error + wcursor \<Rightarrow> bool" where
  "delivers c c' used w r \<longleftrightarrow>
     (\<exists>calls. r = Inr (w\<lparr>c_pos := c_pos c', c_len := c_len w - (c_pos c' - c_pos c), c_calls := c_calls w @ calls\<rparr>) \<and>
        items_of calls = used)"

definition mirrored :: "rcursor \<Rightarrow> rcursor \<Rightarrow> (wcursor \<Rightarrow> msg_error + wcursor) \<Rightarrow> bool" where
  "mirrored c c' W \<longleftrightarrow>
     moved c c' \<and> (\<exists>used. c_items c = used @ c_items c' \<and>
       (list_all item_ok used \<longrightarrow> (\<forall>w. agree w c c' \<longrightarrow> delivers c c' used w (W w))))"

lemma mirroredI:
  assumes "moved c c'" "c_items c = used @ c_items c'"
    "\<And>w. list_all item_ok used \<Longrightarrow> agree w c c' \<Longrightarrow> delivers c c' used w (W w)"
  shows "mirrored c c' W"
  using assms unfolding mirrored_def by blast

lemma mirroredE:
  assumes "mirrored c c' W"
  obtains used where "moved c c'" "c_items c = used @ c_items c'"
    "\<And>w. list_all item_ok used \<Longrightarrow> agree w c c' \<Longrightarrow> delivers c c' used w (W w)"
  using assms unfolding mirrored_def by blast

lemma items_of_append [simp]: "items_of (xs @ ys) = items_of xs @ items_of ys"
  by (simp add: items_of_def)

lemma items_of_simps [simp]: "items_of [] = []" "items_of (x # xs) = item_of x @ items_of xs"
  by (simp_all add: items_of_def)

lemma moved_trans: "moved c c1 \<Longrightarrow> moved c1 c2 \<Longrightarrow> moved c c2"
  by (auto simp: moved_def) (metis take_take min.absorb1)

lemma moved_refl: "moved c c"
  by (simp add: moved_def)

lemma take_le_eq: "take n xs = take n ys \<Longrightarrow> m \<le> n \<Longrightarrow> take m xs = take m ys"
  by (metis min.absorb1 take_take)

lemma delivers_seq:
  assumes d: "delivers c c1 u1 w r" and a: "agree w c c2" and m: "moved c c1" "moved c1 c2"
    and W: "\<And>w. agree w c1 c2 \<Longrightarrow> delivers c1 c2 u2 w (W w)"
  shows "delivers c c2 (u1 @ u2) w (sbind r W)"
proof -
  obtain k1 where k1: "r = Inr (w\<lparr>c_pos := c_pos c1, c_len := c_len w - (c_pos c1 - c_pos c), c_calls := c_calls w @ k1\<rparr>)"
    "items_of k1 = u1" using d unfolding delivers_def by blast
  let ?w = "w\<lparr>c_pos := c_pos c1, c_len := c_len w - (c_pos c1 - c_pos c), c_calls := c_calls w @ k1\<rparr>"
  have "agree ?w c1 c2" using a m by (auto simp: agree_def moved_def)
  from W [OF this] obtain k2 where k2:
    "W ?w = Inr (?w\<lparr>c_pos := c_pos c2, c_len := c_len ?w - (c_pos c2 - c_pos c1), c_calls := c_calls ?w @ k2\<rparr>)"
    "items_of k2 = u2" unfolding delivers_def by blast
  have "c_len ?w - (c_pos c2 - c_pos c1) = c_len w - (c_pos c2 - c_pos c)" using m by (simp add: moved_def)
  then show ?thesis using k1 k2 by (auto simp: delivers_def intro!: exI [of _ "k1 @ k2"])
qed

lemma mirrored_seq:
  assumes "mirrored c c1 W1" "mirrored c1 c2 W2"
  shows "mirrored c c2 (\<lambda>w. sbind (W1 w) W2)"
proof -
  obtain u1 where u1: "moved c c1" "c_items c = u1 @ c_items c1"
    "\<And>w. list_all item_ok u1 \<Longrightarrow> agree w c c1 \<Longrightarrow> delivers c c1 u1 w (W1 w)"
    by (rule mirroredE [OF assms(1)]) blast
  obtain u2 where u2: "moved c1 c2" "c_items c1 = u2 @ c_items c2"
    "\<And>w. list_all item_ok u2 \<Longrightarrow> agree w c1 c2 \<Longrightarrow> delivers c1 c2 u2 w (W2 w)"
    by (rule mirroredE [OF assms(2)]) blast
  show ?thesis
  proof (rule mirroredI [OF moved_trans [OF u1(1) u2(1)], of "u1 @ u2"])
    fix w
    assume ok: "list_all item_ok (u1 @ u2)" and a: "agree w c c2"
    have "take (c_pos c1) (c_buf w) = take (c_pos c1) (c_buf c2)"
      by (rule take_le_eq [of "c_pos c2"]) (use a u2(1) in \<open>simp_all add: agree_def moved_def\<close>)
    then have "agree w c c1" using a u1(1) u2(1) by (auto simp: agree_def moved_def)
    then have "delivers c c1 u1 w (W1 w)" using u1(3) ok by simp
    then show "delivers c c2 (u1 @ u2) w (sbind (W1 w) W2)"
      using delivers_seq a u1(1) u2 ok by simp
  qed (simp add: u1 u2)
qed

lemma mirrored_Inr: "mirrored c c Inr"
  by (rule mirroredI [OF moved_refl, of _ "[]"]) (auto simp: agree_def delivers_def intro!: exI [of _ "[]"])

lemma mirrored_cong: "mirrored c c' W \<Longrightarrow> (\<And>w. W w = W' w) \<Longrightarrow> mirrored c c' W'"
  by (simp add: mirrored_def)

text \<open>Calls without an item change nothing.\<close>

lemma mirrored_call:
  assumes "item_of x = []"
  shows "mirrored c c (\<lambda>w. Inr (call x w))"
  by (rule mirroredI [OF moved_refl, of _ "[]"]) (use assms in \<open>auto simp: agree_def delivers_def call_def intro!: exI [of _ "[x]"]\<close>)

lemma mirrored_times:
  assumes "\<And>c c'. f c = Inr c' \<Longrightarrow> mirrored c c' W" "repeat_times n f c = Inr c'"
  shows "mirrored c c' (repeat_times n W)"
  using assms(2)
proof (induction n arbitrary: c)
  case 0
  then have "c' = c" by simp
  then show ?case by (simp add: mirrored_cong [OF mirrored_Inr])
next
  case (Suc n)
  then obtain c1 where c1: "f c = Inr c1" "repeat_times n f c1 = Inr c'" by auto
  from mirrored_seq [OF assms(1) [OF c1(1)] Suc.IH [OF c1(2)]] show ?case by simp
qed

lemma mirrored_advance: "advance n c = Inr c' \<Longrightarrow> mirrored c c' (advance n)"
  by (rule mirroredI [of c c' "[]"])
    (auto simp: moved_def agree_def delivers_def advance_def split: if_splits intro!: exI [of _ "[]"])

lemma mirrored_align: "align base n c = Inr c' \<Longrightarrow> mirrored c c' (align base n)"
  using mirrored_advance [of "align_skip base (c_pos c) n" c c']
  by (auto simp: mirrored_def align_def agree_def)

text \<open>
  An elementary transfer puts bytes at the position, moves behind them and takes an item from the
  reader; the writer finds the bytes and moves as far.
\<close>

lemma transfer_mirrored:
  assumes adv: "advance n (c\<lparr>c_items := r\<rparr>) = Inr c1" and poke: "poke (c_pos c) bs c1 = Inr c'"
    and n: "length bs \<le> n" and items: "c_items c = used @ r"
    and W: "\<And>w. list_all item_ok used \<Longrightarrow> n \<le> c_len w \<Longrightarrow> c_pos w + length bs \<le> length (c_buf w) \<Longrightarrow>
       take (length bs) (drop (c_pos w) (c_buf w)) = bs \<Longrightarrow>
       \<exists>calls. W w = Inr (w\<lparr>c_pos := c_pos w + n, c_len := c_len w - n, c_calls := c_calls w @ calls\<rparr>) \<and> items_of calls = used"
  shows "mirrored c c' W"
proof -
  have c1: "c1 = c\<lparr>c_items := r, c_len := c_len c - n, c_pos := c_pos c + n\<rparr>" and nl: "n \<le> c_len c"
    using adv by (auto simp: advance_def split: if_splits)
  have c': "c' = c1\<lparr>c_buf := take (c_pos c) (c_buf c) @ bs @ drop (c_pos c + length bs) (c_buf c)\<rparr>"
    and l: "c_pos c + length bs \<le> length (c_buf c)"
    using poke by (auto simp: poke_def c1 split: if_splits)
  have "moved c c'" using l nl by (simp add: moved_def c' c1)
  moreover have "delivers c c' used w (W w)" if ok: "list_all item_ok used" and a: "agree w c c'" for w
  proof -
    have "take (c_pos c + length bs) (c_buf w) = take (c_pos c + length bs) (c_buf c')"
      by (rule take_le_eq [of "c_pos c'"]) (use a n in \<open>simp_all add: agree_def c' c1\<close>)
    then have "take (length bs) (drop (c_pos w) (c_buf w)) = take (length bs) (drop (c_pos c) (c_buf c'))"
      using a by (simp add: agree_def take_drop add.commute)
    then have "take (length bs) (drop (c_pos w) (c_buf w)) = bs" using l by (simp add: c')
    then show ?thesis using W [OF ok, of w] a l nl by (simp add: agree_def delivers_def c' c1)
  qed
  ultimately show ?thesis by (intro mirroredI [of c c' used]) (simp_all add: items c' c1)
qed

lemma peek_string_found:
  assumes "take (length (s @ [0])) (drop (c_pos w) (c_buf w)) = s @ [0]" "0 \<notin> set s"
  shows "peek_string w = Inr s"
proof -
  obtain t where "drop (c_pos w) (c_buf w) = (s @ [0]) @ t" using assms(1) by (metis append_take_drop_id)
  then show ?thesis using assms(2) by (auto simp: peek_string_def takeWhile_append)
qed

lemma read_string_mirrored:
  assumes "read_string base a c = Inr c'"
  shows "mirrored c c' (\<lambda>w. sbind (align base 4 w) (\<lambda>w. sbind (peek_string w) (\<lambda>s.
     sbind (advance (length s + 1) w) (\<lambda>w. Inr (call (WString s f g) w)))))"
proof -
  obtain c0 s r c2 where r: "align base 4 c = Inr c0" "c_items c0 = [RString s] @ r"
    "advance (length s + 1) (c0\<lparr>c_items := r\<rparr>) = Inr c2" "poke (c_pos c0) (s @ [0]) c2 = Inr c'"
    using assms by (auto simp: read_string_def next_string_def split: if_splits list.splits ritem.splits)
  have "mirrored c0 c' (\<lambda>w. sbind (peek_string w) (\<lambda>s. sbind (advance (length s + 1) w) (\<lambda>w. Inr (call (WString s f g) w))))"
  proof (rule transfer_mirrored [OF r(3,4) _ r(2)])
    fix w :: wcursor
    assume "list_all item_ok [RString s]" "length s + 1 \<le> c_len w"
      "take (length (s @ [0])) (drop (c_pos w) (c_buf w)) = s @ [0]"
    then show "\<exists>calls. sbind (peek_string w) (\<lambda>s. sbind (advance (length s + 1) w) (\<lambda>w. Inr (call (WString s f g) w))) =
        Inr (w\<lparr>c_pos := c_pos w + (length s + 1), c_len := c_len w - (length s + 1), c_calls := c_calls w @ calls\<rparr>) \<and>
        items_of calls = [RString s]"
      using peek_string_found [of s w] by (auto simp: advance_def call_def intro!: exI [of _ "[WString s f g]"])
  qed simp
  from mirrored_seq [OF mirrored_align [OF r(1)] this] show ?thesis .
qed

lemma read_strings_mirrored:
  "repeat_times n (read_string base a) c = Inr c' \<Longrightarrow> mirrored c c' (write_strings base f g n)"
proof (induction n arbitrary: c f)
  case 0
  then show ?case using mirrored_cong [OF mirrored_Inr] by simp
next
  case (Suc n)
  then obtain c1 where c1: "read_string base a c = Inr c1" "repeat_times n (read_string base a) c1 = Inr c'" by auto
  show ?case
    by (rule mirrored_cong [OF mirrored_seq [OF read_string_mirrored [OF c1(1), of f g] Suc.IH [OF c1(2), of False]]])
      (simp add: sbind_assoc)
qed

text \<open>Taking an item and moving are independent of each other.\<close>

lemma advance_next_data:
  assumes "advance n c = Inr c1" "next_data k c1 = Inr (bs, c2)"
  obtains r where "c_items c = [RData bs] @ r" "length bs = k" "advance n (c\<lparr>c_items := r\<rparr>) = Inr c2"
  using assms by (cases c) (auto simp: advance_def next_data_def split: if_splits list.splits ritem.splits)

lemma advance_next_sequence:
  assumes "advance n c = Inr c1" "next_sequence c1 = Inr (k, c2)"
  obtains r where "c_items c = [RSequence k] @ r" "advance n (c\<lparr>c_items := r\<rparr>) = Inr c2"
  using assms by (cases c) (auto simp: advance_def next_sequence_def split: if_splits list.splits ritem.splits)

lemma read_scalars_mirrored:
  assumes "read_scalars base a n c = Inr c'"
  shows "mirrored c c' (write_scalars base a n)"
proof -
  let ?n = "mul64 n (unat (m_nBits a div 8))"
  obtain c0 c1 bs c2 where q: "align base (m_align a) c = Inr c0" "advance ?n c0 = Inr c1" "next_data ?n c1 = Inr (bs, c2)"
    "poke (c_pos c0) bs c2 = Inr c'"
    using assms by (auto simp: read_scalars_def Let_def)
  then obtain r where r: "align base (m_align a) c = Inr c0" "c_items c0 = [RData bs] @ r" "length bs = ?n"
    "advance ?n (c0\<lparr>c_items := r\<rparr>) = Inr c2" "poke (c_pos c0) bs c2 = Inr c'"
    by (metis advance_next_data)
  have "mirrored c0 c' (\<lambda>w. sbind (advance ?n w) (\<lambda>w1. sbind (peek ?n w) (\<lambda>bs. Inr (call (WData bs n) w1))))"
  proof (rule transfer_mirrored [OF r(4,5) _ r(2)])
    fix w :: wcursor
    assume "?n \<le> c_len w" "c_pos w + length bs \<le> length (c_buf w)" "take (length bs) (drop (c_pos w) (c_buf w)) = bs"
    then show "\<exists>calls. sbind (advance ?n w) (\<lambda>w1. sbind (peek ?n w) (\<lambda>bs. Inr (call (WData bs n) w1))) =
        Inr (w\<lparr>c_pos := c_pos w + ?n, c_len := c_len w - ?n, c_calls := c_calls w @ calls\<rparr>) \<and> items_of calls = [RData bs]"
      using r(3) by (auto simp: advance_def call_def peek_def intro!: exI [of _ "[WData bs n]"])
  qed (simp add: r(3))
  from mirrored_seq [OF mirrored_align [OF r(1)] this] show ?thesis
    by (rule mirrored_cong) (simp add: write_scalars_def Let_def)
qed

lemma mirrored_mono:
  assumes "mirrored c c' W" "\<And>w w'. W w = Inr w' \<Longrightarrow> W' w = Inr w'"
  shows "mirrored c c' W'"
proof -
  obtain used where u: "moved c c'" "c_items c = used @ c_items c'"
    "\<And>w. list_all item_ok used \<Longrightarrow> agree w c c' \<Longrightarrow> delivers c c' used w (W w)"
    by (rule mirroredE [OF assms(1)]) blast
  show ?thesis
  proof (rule mirroredI [OF u(1,2)])
    fix w assume "list_all item_ok used" "agree w c c'"
    from u(3) [OF this] show "delivers c c' used w (W' w)" using assms(2) unfolding delivers_def by blast
  qed
qed

lemma of_nat_u32_0: "n < 2 ^ 32 \<Longrightarrow> (of_nat n :: u32) = 0 \<longleftrightarrow> n = 0"
  using unat_of_nat_u32 [of n] by (auto simp flip: unat_eq_zero)

lemma read_count_mirrored:
  assumes r: "read_count le base a c = Inr (cnt, c')" and al: "m_isSequence a \<longrightarrow> 4 \<le> m_align a"
  shows "mirrored c c' (\<lambda>w. sbind (write_count le base a False w) (\<lambda>(k, w). if k = cnt then Inr w else Inl BadReader))"
proof (cases "m_isSequence a")
  case False
  then show ?thesis using r mirrored_cong [OF mirrored_Inr] by (simp add: read_count_def write_count_def)
next
  case True
  let ?al = "unat (m_align a)"
  have al: "4 \<le> ?al" using al True by (simp add: word_le_nat_alt)
  obtain c0 c1 n c2 c3 where q: "align base (m_align a) c = Inr c0" "advance ?al c0 = Inr c1" "next_sequence c1 = Inr (n, c2)"
    and p: "poke (c_pos c0) (mem_repr le 4 n) c2 = Inr c3"
    and e: "(if (of_nat n :: u32) = 0 then Inr (None, c3)
       else if m_sequenceLength a \<noteq> 0 \<and> n > unat (m_sequenceLength a) then Inl SequenceTooLong else Inr (Some n, c3)) = Inr (cnt, c')"
    using r True by (force simp: read_count_def)
  have q4: "poke (c_pos c0) (mem_repr le 4 n) c2 = Inr c'" using p e by (auto split: if_splits)
  have cnt: "cnt = (if (of_nat n :: u32) = 0 then None else Some n)"
    "(of_nat n :: u32) \<noteq> 0 \<Longrightarrow> \<not> (m_sequenceLength a \<noteq> 0 \<and> n > unat (m_sequenceLength a))"
    using e by (auto split: if_splits)
  obtain rest where rest: "c_items c0 = [RSequence n] @ rest" "advance ?al (c0\<lparr>c_items := rest\<rparr>) = Inr c2"
    using advance_next_sequence [OF q(2,3)] by metis
  let ?W = "\<lambda>w. sbind (peek 4 w) (\<lambda>bs. let k = mem_value le bs in
       if m_sequenceLength a \<noteq> 0 \<and> k > unat (m_sequenceLength a) then Inl SequenceTooLong
       else sbind (advance ?al (call (WBeginSequence k) w)) (\<lambda>w. if (if k = 0 then None else Some k) = cnt then Inr w else Inl BadReader))"
  have "mirrored c0 c' ?W"
  proof (rule transfer_mirrored [OF rest(2) q4 _ rest(1)])
    fix w :: wcursor
    assume w: "list_all item_ok [RSequence n]" "?al \<le> c_len w" "c_pos w + length (mem_repr le 4 n) \<le> length (c_buf w)"
      "take (length (mem_repr le 4 n)) (drop (c_pos w) (c_buf w)) = mem_repr le 4 n"
    have n: "n < 2 ^ 32" "mem_value le (mem_repr le 4 n) = n" using w(1) by (simp_all add: mem_value_repr)
    then have k: "cnt = (if n = 0 then None else Some n)" "\<not> (m_sequenceLength a \<noteq> 0 \<and> n > unat (m_sequenceLength a))"
      using cnt of_nat_u32_0 [OF n(1)] by auto
    show "\<exists>calls. ?W w = Inr (w\<lparr>c_pos := c_pos w + ?al, c_len := c_len w - ?al, c_calls := c_calls w @ calls\<rparr>) \<and>
        items_of calls = [RSequence n]"
      using w n k by (auto simp: peek_def advance_def call_def Let_def intro!: exI [of _ "[WBeginSequence n]"])
  qed (simp add: al)
  from mirrored_seq [OF mirrored_align [OF q(1)] this] show ?thesis
    by (rule mirrored_cong) (use True in \<open>simp add: write_count_def sbind_def Let_def split: sum.splits\<close>)
qed

lemma begin_array_mirrored: "mirrored c c (\<lambda>w. Inr (begin_array a w))"
  using mirrored_call [of "WBeginArray (unat (m_nItems a))" c] mirrored_Inr [of c]
  by (cases "m_arrayRank a \<noteq> 0") (auto simp: begin_array_def elim: mirrored_cong)

lemma end_calls_mirrored: "mirrored c c (\<lambda>w. Inr (end_calls a w))"
proof -
  have "mirrored c c (\<lambda>w. Inr (if P then call x w else w))" if "item_of x = []" for P x
    using mirrored_call [OF that, of c] mirrored_cong [OF mirrored_Inr [of c]] by (cases P) auto
  from mirrored_seq [OF this [of WEndSequence "m_isSequence a"] this [of WEndArray "m_arrayRank a \<noteq> 0"]]
  show ?thesis by (simp add: end_calls_def Let_def)
qed

lemma mirrored_bracket:
  assumes "mirrored c c' W" "item_of x = []" "item_of y = []"
  shows "mirrored c c' (\<lambda>w. sbind (W (call x w)) (\<lambda>w. Inr (call y w)))"
  using mirrored_seq [OF mirrored_seq [OF mirrored_call [OF assms(2)] assms(1)] mirrored_call [OF assms(3)]] by simp

lemma message_mirrored:
  "read_member le base m c = Inr c' \<Longrightarrow> well_laid m \<Longrightarrow> mirrored c c' (write_member le base m False)"
  "read_members le base ms c = Inr c' \<Longrightarrow> list_all well_laid ms \<Longrightarrow> mirrored c c' (write_members le base ms False)"
proof (induction le base m c and le base ms c arbitrary: c' and c' rule: read_member_read_members.induct)
  case (1 le base a ms t c)
  obtain cnt c1 where n: "read_count le base a c = Inr (cnt, c1)" using "1.prems"(1) by auto
  have "m_isSequence a \<longrightarrow> 4 \<le> m_align a" using "1.prems"(2) by simp
  note cm = read_count_mirrored [OF n this]
  show ?case
  proof (cases cnt)
    case None
    then have "c' = c1" using "1.prems"(1) n by simp
    then show ?thesis using cm by (auto elim!: mirrored_mono split: if_splits simp: None)
  next
    case (Some k)
    let ?n = "mul64 k (unat (m_nItems a))"
    let ?B = "\<lambda>c. case m_baseType a of
             OCPI_Struct \<Rightarrow>
               sbind (repeat_times ?n (write_members le base ms False) (call WBeginStruct c)) (\<lambda>c. Inr (call WEndStruct c))
           | OCPI_Type \<Rightarrow>
               (case t of None \<Rightarrow> Inl NullType'
                | Some m \<Rightarrow>
                  sbind (repeat_times ?n (write_member le base m False) (call WBeginType c)) (\<lambda>c. Inr (call WEndType c)))
           | OCPI_String \<Rightarrow> write_strings base True False ?n c
           | OCPI_none \<Rightarrow> Inl AssertFailed
           | _ \<Rightarrow> write_scalars base a ?n c"
    obtain c2 where c2: "align base (m_dataAlign a) c1 = Inr c2" using "1.prems"(1) n Some by (auto simp: Let_def)
    have B: "mirrored c2 c' ?B"
    proof (cases "m_baseType a")
      case OCPI_Struct
      have "repeat_times ?n (read_members le base ms) c2 = Inr c'"
        using "1.prems"(1) n Some c2 OCPI_Struct by (simp add: Let_def)
      moreover have "mirrored x y (write_members le base ms False)" if "read_members le base ms x = Inr y" for x y
        using "1.IH"(1) [OF refl refl OCPI_Struct that] "1.prems"(2) OCPI_Struct by simp
      ultimately have "mirrored c2 c' (repeat_times ?n (write_members le base ms False))"
        using mirrored_times [of "read_members le base ms"] by blast
      from mirrored_bracket [OF this, of WBeginStruct WEndStruct] show ?thesis using OCPI_Struct by simp
    next
      case OCPI_Type
      then obtain m where t: "t = Some m" using "1.prems"(2) by (auto split: option.splits)
      have "repeat_times ?n (read_member le base m) c2 = Inr c'"
        using "1.prems"(1) n Some c2 OCPI_Type t by (simp add: Let_def)
      moreover have "mirrored x y (write_member le base m False)" if "read_member le base m x = Inr y" for x y
        using "1.IH"(2) [OF refl refl OCPI_Type t that] "1.prems"(2) OCPI_Type t by simp
      ultimately have "mirrored c2 c' (repeat_times ?n (write_member le base m False))"
        using mirrored_times [of "read_member le base m"] by blast
      from mirrored_bracket [OF this, of WBeginType WEndType] show ?thesis using OCPI_Type t by simp
    next
      case OCPI_String
      then show ?thesis using read_strings_mirrored "1.prems"(1) n Some c2 by (simp add: Let_def)
    next
      case OCPI_none
      then show ?thesis using "1.prems"(1) n Some c2 by (simp add: Let_def)
    qed (use read_scalars_mirrored "1.prems"(1) n Some c2 in \<open>simp_all add: Let_def\<close>)
    have "mirrored c1 c' (\<lambda>w. sbind (align base (m_dataAlign a) (begin_array a w)) (\<lambda>w. sbind (?B w) (\<lambda>w. Inr (end_calls a w))))"
      using mirrored_seq [OF begin_array_mirrored [of c1 a] mirrored_seq [OF mirrored_align [OF c2]
          mirrored_seq [OF B end_calls_mirrored [of c' a]]]] by simp
    from mirrored_seq [OF cm this] show ?thesis
      by (rule mirrored_mono) (auto simp: Some Let_def split: if_splits)
  qed
next
  case (2 le base c)
  then show ?case using mirrored_cong [OF mirrored_Inr] by simp
next
  case (3 le base m ms c)
  then obtain c1 where c1: "read_member le base m c = Inr c1" "read_members le base ms c1 = Inr c'" by auto
  have "mirrored c c1 (write_member le base m False)" "mirrored c1 c' (write_members le base ms False)"
    using "3.IH" c1 "3.prems"(2) by auto
  from mirrored_seq [OF this] show ?case by (rule mirrored_cong) simp
qed

subsection \<open>Operations and protocols\<close>

record operation =
  op_name :: string
  op_args :: "member list"
  m_myOffset :: u64
  m_topFixedSequence :: bool

definition maxDataTypeAlignment :: u64 where "maxDataTypeAlignment = 16"

definition op_write :: "bool \<Rightarrow> u64 \<Rightarrow> operation \<Rightarrow> wcursor \<Rightarrow> msg_error + wcursor" where
  "op_write le base op c = write_members le base (op_args op) (m_topFixedSequence op) c"

text \<open>The number of bytes read is the part of the buffer that was consumed.\<close>

definition op_read :: "bool \<Rightarrow> u64 \<Rightarrow> operation \<Rightarrow> rcursor \<Rightarrow> msg_error + nat \<times> rcursor" where
  "op_read le base op c =
     sbind (read_members le base (op_args op) c) (\<lambda>c'. Inr (c_len c - c_len c', c'))"

definition protocol_write ::
  "bool \<Rightarrow> u64 \<Rightarrow> operation list \<Rightarrow> octets \<Rightarrow> u32 \<Rightarrow> u8 \<Rightarrow> msg_error + wcall list" where
  "protocol_write le base ops data len opcode =
     (if base AND (maxDataTypeAlignment - 1) \<noteq> 0 then Inl AssertFailed
      else if ops = [] then Inl NoOperations
      else if unat opcode \<ge> length ops then Inl InvalidOpcode
      else sbind (op_write le base (ops ! unat opcode)
             \<lparr>c_buf = data, c_pos = 0, c_len = unat len, c_calls = [WOpcode (op_name (ops ! unat opcode)) opcode]\<rparr>)
             (\<lambda>c. Inr (c_calls c @ [WEnd])))"

definition protocol_read ::
  "bool \<Rightarrow> u64 \<Rightarrow> operation list \<Rightarrow> octets \<Rightarrow> nat \<Rightarrow> u8 \<Rightarrow> ritem list \<Rightarrow> msg_error + nat \<times> octets \<times> ritem list" where
  "protocol_read le base ops data maxLength opcode items =
     (if base AND (maxDataTypeAlignment - 1) \<noteq> 0 then Inl AssertFailed
      else if ops = [] then Inl NoOperations
      else if unat opcode \<ge> length ops then Inl InvalidOpcode
      else sbind (op_read le base (ops ! unat opcode) \<lparr>c_buf = data, c_pos = 0, c_len = maxLength, c_items = items\<rparr>)
             (\<lambda>(n, c). Inr (c_pos c, c_buf c, c_items c)))"


definition ex_operation :: operation where
  "ex_operation =
     \<lparr>op_name = ''samples'',
      op_args = [Member (ValueType OCPI_UShort True\<lparr>m_align := 4, m_dataAlign := 2, m_nBits := 16, m_nBytes := 12\<rparr>) [] None,
                 Member (ValueType OCPI_String False\<lparr>m_align := 4, m_dataAlign := 4, m_nBits := 32, m_nBytes := 8\<rparr>) [] None],
      m_myOffset = 20, m_topFixedSequence = False\<rparr>"


text \<open>
  A message whose only argument is a sequence of fixed size is written with the whole buffer as the
  sequence. The assertion on the address of the buffer keeps the bits it should drop, so it fails
  for every buffer that lies behind the first bytes of the address space.
\<close>

lemma top_sequence_asserts:
  assumes "ops ! unat opcode = op" "op_args op = [Member a ms t]" "m_topFixedSequence op" "m_isSequence a" "m_align a \<in> {4, 8}"
    "base AND 15 = 0" "base \<noteq> 0" "unat opcode < length ops"
  shows "protocol_write le base ops data len opcode = Inl AssertFailed"
proof -
  have "base AND NOT (m_align a - 1) \<noteq> 0"
  proof
    assume z: "base AND NOT (m_align a - 1) = 0"
    have "base = (base AND NOT (m_align a - 1)) OR (base AND (m_align a - 1))"
      by (simp flip: bit.conj_disj_distrib)
    also have "base AND (m_align a - 1) = (base AND 15) AND (m_align a - 1)"
      using assms(5) by (auto simp: and.assoc)
    finally show False using z assms(6,7) by simp
  qed
  then show ?thesis using assms
    by (auto simp: protocol_write_def op_write_def write_count_def maxDataTypeAlignment_def)
qed

end
