(* ===== verification/MessageSize.thy ===== *)
theory MessageSize
  imports Messages
begin

text \<open>
  The sizes that the layout computes suffice for every message: a reader that respects the bounds of
  the types never makes \<^verbatim>\<open>Member::read\<close> leave the space the metadata announces. Messages are packed
  more tightly than the layout, so the argument compares positions: the packed position never gets
  ahead of the position in the layout.
\<close>

subsection \<open>Alignment of addresses\<close>

lemma and_not_mask_eq: "w AND NOT (mask k) = push_bit k (drop_bit k w)" for w :: "'a::len word"
  by (rule bit_word_eqI) (auto simp: bit_simps)

lemma unat_and_not_mask: "unat (w AND NOT (mask k)) = unat w div 2 ^ k * 2 ^ k" for w :: "'a::len word"
proof -
  have "unat w div 2 ^ k * 2 ^ k \<le> unat w" by simp
  also have "\<dots> < 2 ^ LENGTH('a)" by (rule unsigned_less)
  finally have b: "unat w div 2 ^ k * 2 ^ k < 2 ^ LENGTH('a)" .
  have "unat (push_bit k (drop_bit k w)) = take_bit LENGTH('a) (push_bit k (unat (drop_bit k w)))"
    by (simp only: unsigned_push_bit_eq)
  also have "unat (drop_bit k w) = unat w div 2 ^ k"
    by (rule trans [OF unat_drop_bit_eq]) (simp add: drop_bit_eq_div)
  finally show ?thesis using b by (simp add: and_not_mask_eq push_bit_eq_mult take_bit_nat_eq_self)
qed

lemma good_align_mask:
  assumes "good_align n"
  obtains k where "k \<le> 3" "n = 2 ^ k" "n - 1 = mask k" "unat n = 2 ^ k"
proof -
  have "n = 2 ^ 0 \<or> n = 2 ^ 1 \<or> n = 2 ^ 2 \<or> n = 2 ^ 3" using assms by (auto simp: good_align_def)
  then consider "n = 2 ^ 0" | "n = 2 ^ 1" | "n = 2 ^ 2" | "n = 2 ^ 3" by blast
  then show thesis
  proof cases
    case 1 then show ?thesis using that [of 0] by simp
  next
    case 2 then show ?thesis using that [of 1] by (simp add: mask_eq_exp_minus_1)
  next
    case 3 then show ?thesis using that [of 2] by (simp add: mask_eq_exp_minus_1)
  next
    case 4 then show ?thesis using that [of 3] by (simp add: mask_eq_exp_minus_1)
  qed
qed

text \<open>Aligning does not pass a later multiple of the alignment.\<close>

lemma align_skip_le:
  assumes g: "good_align n" and b: "8 dvd unat base" "unat base + pos + 8 < 2 ^ 64"
    and off: "pos \<le> off" "unat n dvd off"
  shows "pos + align_skip base pos n \<le> off"
proof -
  obtain k where k: "k \<le> 3" "n - 1 = mask k" "unat n = 2 ^ k" using good_align_mask [OF g] by metis
  have n8: "unat n dvd 8" using good_align_unat [OF g] by auto
  let ?p = "base + of_nat pos"
  have p: "unat ?p = unat base + pos" using b(2) by (simp add: unat_word_ariths unat_of_nat take_bit_nat_eq_self take_bit_eq_mod)
  have le8: "unat n \<le> 8" "0 < unat n" using good_align_unat [OF g] by auto
  then have "1 \<le> n" by (simp add: word_le_nat_alt)
  then have m: "unat (n - 1) = unat n - 1" by (simp add: unat_sub)
  have q: "unat (?p + (n - 1)) = unat base + pos + unat n - 1"
    using b(2) p m le8 by (simp add: unat_word_ariths)
  let ?t = "(unat base + pos + unat n - 1) div unat n * unat n"
  have t: "unat ((?p + (n - 1)) AND NOT (n - 1)) = ?t"
    using k q unat_and_not_mask [of "?p + (n - 1)" k] by simp
  have r: "unat base + pos \<le> ?t" "?t < unat base + pos + unat n" "unat n dvd ?t"
    using round_bounds [of "unat n" "unat base + pos"] le8 by auto
  have "unat (((?p + (n - 1)) AND NOT (n - 1)) - ?p) = ?t - (unat base + pos)"
    using r(1) t p by (subst unat_sub) (simp_all add: word_le_nat_alt)
  then have s: "align_skip base pos n = ?t - (unat base + pos)" by (simp add: align_skip_def Let_def)
  have "?t \<le> unat base + off"
  proof -
    have d: "unat n dvd unat base + off" using off(2) b(1) n8 by (meson dvd_add dvd_trans)
    have "unat n dvd ?t" by (rule r(3))
    show ?thesis
    proof (rule ccontr)
      assume "\<not> ?thesis"
      then have lt: "unat base + off < ?t" by simp
      have "unat n dvd ?t - (unat base + off)" using d r(3) by simp
      then have "unat n \<le> ?t - (unat base + off)" using lt by (simp add: dvd_imp_le)
      then have "unat n + (unat base + off) \<le> ?t" using lt by simp
      then show False using r(2) off(1) by linarith
    qed
  qed
  then show ?thesis using s r(1) by linarith
qed

subsection \<open>Staying within a limit\<close>

text \<open>
  From every position up to \<open>off\<close> a step ends at a position up to \<open>lim\<close>, in a buffer that ends at
  \<open>end\<close>, unless the reader itself is at fault.
\<close>

definition reader_fault :: "msg_error \<Rightarrow> bool" where
  "reader_fault e \<longleftrightarrow> e = SequenceTooLong \<or> e = StringTooLong \<or> e = BadReader"

definition inside :: "nat \<Rightarrow> nat \<Rightarrow> rcursor \<Rightarrow> bool" where
  "inside e off c \<longleftrightarrow> c_pos c \<le> off \<and> c_pos c + c_len c = e \<and> e \<le> length (c_buf c)"

definition fits :: "nat \<Rightarrow> nat \<Rightarrow> nat \<Rightarrow> (rcursor \<Rightarrow> msg_error + rcursor) \<Rightarrow> bool" where
  "fits e off lim R \<longleftrightarrow>
     (\<forall>c. inside e off c \<longrightarrow> (case R c of Inl x \<Rightarrow> reader_fault x | Inr c' \<Rightarrow> inside e lim c'))"

lemma fitsI:
  assumes "\<And>c c'. inside e off c \<Longrightarrow> R c = Inr c' \<Longrightarrow> inside e lim c'"
    "\<And>c x. inside e off c \<Longrightarrow> R c = Inl x \<Longrightarrow> reader_fault x"
  shows "fits e off lim R"
  using assms by (auto simp: fits_def split: sum.split)

lemma fitsD:
  assumes "fits e off lim R" "inside e off c"
  shows "R c = Inr c' \<Longrightarrow> inside e lim c'" "R c = Inl x \<Longrightarrow> reader_fault x"
  using assms by (auto simp: fits_def split: sum.splits)

lemma fits_seq:
  assumes "fits e p q R1" "fits e q r R2"
  shows "fits e p r (\<lambda>c. sbind (R1 c) R2)"
proof (rule fitsI)
  fix c assume c: "inside e p c"
  show "inside e r c'" if "sbind (R1 c) R2 = Inr c'" for c'
    using that fitsD(1) [OF assms(1) c] fitsD(1) [OF assms(2)] by auto
  show "reader_fault x" if "sbind (R1 c) R2 = Inl x" for x
    using that fitsD [OF assms(1) c] fitsD(2) [OF assms(2)] by (cases "R1 c") auto
qed

lemma fits_Inr: "p \<le> q \<Longrightarrow> fits e p q Inr"
  by (auto simp: fits_def inside_def)

lemma fits_weaken: "fits e p q R \<Longrightarrow> p' \<le> p \<Longrightarrow> q \<le> q' \<Longrightarrow> fits e p' q' R"
proof -
  assume f: "fits e p q R" and l: "p' \<le> p" "q \<le> q'"
  have i: "inside e p' c \<Longrightarrow> inside e p c" "inside e q c \<Longrightarrow> inside e q' c" for c using l by (auto simp: inside_def)
  show ?thesis by (rule fitsI) (use fitsD [OF f] i in blast)+
qed

lemma fits_cong: "fits e p q R \<Longrightarrow> (\<And>c. R c = R' c) \<Longrightarrow> fits e p q R'"
  by (simp add: fits_def)

text \<open>A loop whose rounds need a fixed pitch.\<close>

lemma fits_times:
  assumes "\<And>i. i < n \<Longrightarrow> fits e (p + i * d) (p + Suc i * d) R"
  shows "fits e p (p + n * d) (repeat_times n R)"
  using assms
proof (induction n arbitrary: p)
  case 0
  then show ?case by (intro fits_cong [OF fits_Inr]) simp_all
next
  case (Suc n)
  have "fits e p (p + d) R" using Suc.prems [of 0] by simp
  moreover have "fits e (p + d) (p + d + n * d) (repeat_times n R)"
  proof (rule Suc.IH)
    show "fits e (p + d + i * d) (p + d + Suc i * d) R" if "i < n" for i
      using Suc.prems [of "Suc i"] that by (simp add: algebra_simps)
  qed
  ultimately have "fits e p (p + d + n * d) (\<lambda>c. sbind (R c) (repeat_times n R))" by (rule fits_seq)
  then have "fits e p (p + d + n * d) (repeat_times (Suc n) R)" by (rule fits_cong) simp
  moreover have "p + d + n * d = p + Suc n * d" by simp
  ultimately show ?case by (simp only:)
qed

lemma fits_advance: "off + n \<le> e \<Longrightarrow> fits e off (off + n) (advance n)"
  by (rule fitsI) (auto simp: inside_def advance_def reader_fault_def split: if_splits)

definition usable :: "u64 \<Rightarrow> nat \<Rightarrow> bool" where
  "usable base e \<longleftrightarrow> 8 dvd unat base \<and> unat base + e + 8 < 2 ^ 64"

lemma fits_align:
  assumes "good_align n" "usable base e" "unat n dvd off" "off \<le> e"
  shows "fits e off off (align base n)"
proof (rule fitsI)
  fix c assume i: "inside e off c"
  then have s: "c_pos c + align_skip base (c_pos c) n \<le> off"
    using align_skip_le [OF assms(1)] assms by (simp add: usable_def inside_def)
  show "inside e off c'" if "align base n c = Inr c'" for c'
    using that i s by (auto simp: align_def advance_def inside_def split: if_splits)
  show "reader_fault x" if "align base n c = Inl x" for x
    using that i s assms(4) by (auto simp: align_def advance_def inside_def split: if_splits)
qed

lemma fits_read_string:
  assumes "usable base e" "4 dvd off" "off + (unat (m_stringLength a) + 1) \<le> e" "m_stringLength a \<noteq> 0"
  shows "fits e off (off + (unat (m_stringLength a) + 1)) (read_string base a)"
proof -
  have "fits e off (off + (unat (m_stringLength a) + 1)) (\<lambda>c. sbind (next_string c) (\<lambda>(s, c1).
       if m_stringLength a \<noteq> 0 \<and> length s > unat (m_stringLength a) then Inl StringTooLong
       else sbind (advance (length s + 1) c1) (\<lambda>c2. poke (c_pos c) (s @ [0]) c2)))"
    by (rule fitsI) (use assms in \<open>auto simp: inside_def next_string_def advance_def poke_def reader_fault_def sbind_def
        split: list.splits ritem.splits if_splits sum.splits\<close>)
  moreover have "fits e off off (align base 4)"
    using assms by (intro fits_align) (simp_all add: good_align_def)
  ultimately show ?thesis using fits_seq by (force intro: fits_cong simp: read_string_def)
qed

lemma fits_read_scalars:
  assumes "usable base e" "good_align (m_align a)" "unat (m_align a) dvd off" "off + mul64 n (unat (m_nBits a div 8)) \<le> e"
  shows "fits e off (off + mul64 n (unat (m_nBits a div 8))) (read_scalars base a n)"
proof -
  let ?n = "mul64 n (unat (m_nBits a div 8))"
  have "fits e off (off + ?n) (\<lambda>c. sbind (advance ?n c) (\<lambda>c1. sbind (next_data ?n c1) (\<lambda>(bs, c2). poke (c_pos c) bs c2)))"
    by (rule fitsI) (use assms in \<open>auto simp: inside_def next_data_def advance_def poke_def reader_fault_def sbind_def
        split: list.splits ritem.splits if_splits sum.splits\<close>)
  from fits_seq [OF fits_align [OF assms(2,1,3)] this] show ?thesis using assms(4)
    by (auto elim!: fits_cong simp: read_scalars_def Let_def)
qed

subsection \<open>Sizes of types\<close>

definition up :: "nat \<Rightarrow> nat \<Rightarrow> nat" where
  "up n d = (n + d - 1) div d * d"

lemma up_props: "0 < d \<Longrightarrow> n \<le> up n d" "0 < d \<Longrightarrow> d dvd up n d" "d dvd n \<Longrightarrow> 0 < d \<Longrightarrow> up n d = n"
proof -
  show "0 < d \<Longrightarrow> n \<le> up n d" "0 < d \<Longrightarrow> d dvd up n d" using round_bounds [of d n] by (simp_all add: up_def)
  assume d: "d dvd n" "0 < d"
  then obtain k where "n = d * k" by blast
  moreover have "(d * k + d - 1) div d = k"
  proof -
    have "d * k + d - 1 = d - 1 + d * k" using d by simp
    moreover have "(d - 1 + d * k) div d = k + (d - 1) div d" using d by (intro div_mult_self2) simp
    ultimately show ?thesis using d by simp
  qed
  ultimately show "up n d = n" by (simp add: up_def)
qed

text \<open>The bytes of one element, and of one item of a sequence.\<close>

definition elem_bytes :: "vtype \<Rightarrow> nat" where
  "elem_bytes a = (if m_baseType a = OCPI_String then (unat (m_stringLength a) + 4) div 4 * 4 else unat (m_nBits a) div 8)"

definition item_bytes :: "vtype \<Rightarrow> nat" where
  "item_bytes a =
     (if m_arrayRank a \<noteq> 0 then up (elem_bytes a) (unat (m_dataAlign a)) * unat (m_nItems a) else elem_bytes a)"

text \<open>The size of a bounded type has room for all its elements.\<close>

fun sized_ok :: "member \<Rightarrow> bool" where
  "sized_ok (Member a ms t) \<longleftrightarrow>
     m_baseType a \<noteq> OCPI_none \<and> (m_arrayRank a = 0 \<longrightarrow> m_nItems a = 1) \<and>
     (m_baseType a = OCPI_String \<longrightarrow> m_stringLength a \<noteq> 0 \<and> m_dataAlign a = 4) \<and>
     (if m_isSequence a
      then m_sequenceLength a \<noteq> 0 \<and> m_dataAlign a \<le> m_align a \<and>
        unat (m_align a) + unat (m_sequenceLength a) * up (item_bytes a) (unat (m_dataAlign a)) \<le> unat (m_nBytes a)
      else m_align a = m_dataAlign a \<and> item_bytes a \<le> unat (m_nBytes a)) \<and>
     (m_baseType a = OCPI_Struct \<longrightarrow> list_all sized_ok ms) \<and> (m_baseType a = OCPI_Type \<longrightarrow> pred_option sized_ok t)"

lemma good_align_dvd: "good_align a \<Longrightarrow> good_align b \<Longrightarrow> a \<le> b \<Longrightarrow> unat a dvd unat b"
  by (auto simp: good_align_def word_le_nat_alt)

lemma mul64_le: "mul64 x y \<le> x * y"
proof -
  have "mul64 x y = (x mod 2 ^ 64 * (y mod 2 ^ 64)) mod 2 ^ 64"
    by (simp add: mul64_def unat_word_ariths unat_of_nat take_bit_eq_mod)
  also have "\<dots> \<le> x mod 2 ^ 64 * (y mod 2 ^ 64)" by (rule mod_less_eq_dividend)
  also have "\<dots> \<le> x * y" by (intro mult_le_mono mod_less_eq_dividend)
  finally show ?thesis .
qed

text \<open>The elements of a member, one after the other.\<close>

lemma fits_elements:
  assumes R: "\<And>q. d dvd q \<Longrightarrow> q + el \<le> e \<Longrightarrow> fits e q (q + el) R"
    and d: "0 < d" "d dvd off" and one: "n \<le> 1 \<or> (n * up el d \<le> room)" "n * el \<le> room" and e: "off + room \<le> e"
  shows "fits e off (off + room) (repeat_times n R)"
proof (cases "n \<le> 1")
  case True
  have "fits e off (off + n * el) (repeat_times n R)"
  proof (rule fits_times)
    fix i assume "i < n"
    then have "i = 0" "n = 1" using True by auto
    then show "fits e (off + i * el) (off + Suc i * el) R" using R [OF d(2)] one(2) e by simp
  qed
  then show ?thesis using one(2) by (auto elim: fits_weaken)
next
  case False
  have "fits e off (off + n * up el d) (repeat_times n R)"
  proof (rule fits_times)
    fix i assume i: "i < n"
    have p: "d dvd off + i * up el d" using d up_props(2) [of d el] by (simp add: dvd_mult)
    have "off + i * up el d + up el d \<le> off + n * up el d" using i by (metis Suc_leI add.assoc add.commute add_left_mono mult_Suc mult_le_mono1)
    then have "off + i * up el d + el \<le> e" using up_props(1) [OF d(1), of el] one False e by linarith
    from R [OF p this] show "fits e (off + i * up el d) (off + Suc i * up el d) R"
      by (rule fits_weaken) (use up_props(1) [OF d(1), of el] in simp_all)
  qed
  then show ?thesis using one False by (auto elim: fits_weaken)
qed

lemma read_count_fits:
  assumes "usable base e" "good_align (m_align a)" "unat (m_align a) dvd off" "inside e off c"
    "m_isSequence a \<longrightarrow> 4 \<le> m_align a \<and> off + unat (m_align a) \<le> e \<and> m_sequenceLength a \<noteq> 0" "off \<le> e"
  shows "read_count le base a c = Inl x \<Longrightarrow> reader_fault x"
    "read_count le base a c = Inr (cnt, c') \<Longrightarrow>
      inside e (if m_isSequence a then off + unat (m_align a) else off) c' \<and>
      (case cnt of None \<Rightarrow> m_isSequence a | Some k \<Rightarrow> k \<le> (if m_isSequence a then unat (m_sequenceLength a) else 1))"
proof -
  note al = fitsD [OF fits_align [OF assms(2,1,3,6)] assms(4)]
  have four: "m_isSequence a \<Longrightarrow> 4 \<le> unat (m_align a)" using assms(5) by (simp add: word_le_nat_alt)
  show "reader_fault x" if "read_count le base a c = Inl x"
    using that al four assms(5)
    by (fastforce simp: read_count_def sbind_def advance_def next_sequence_def poke_def inside_def reader_fault_def
        split: sum.splits if_splits list.splits ritem.splits)
  show "inside e (if m_isSequence a then off + unat (m_align a) else off) c' \<and>
      (case cnt of None \<Rightarrow> m_isSequence a | Some k \<Rightarrow> k \<le> (if m_isSequence a then unat (m_sequenceLength a) else 1))"
    if "read_count le base a c = Inr (cnt, c')"
    using that al four assms(4,5)
    by (fastforce simp: read_count_def advance_def next_sequence_def poke_def inside_def
        split: if_splits list.splits ritem.splits)
qed

text \<open>The part of a member behind the count of a sequence.\<close>

definition read_body :: "bool \<Rightarrow> u64 \<Rightarrow> vtype \<Rightarrow> member list \<Rightarrow> member option \<Rightarrow> nat \<Rightarrow> rcursor \<Rightarrow> msg_error + rcursor" where
  "read_body le base a ms t n c =
     (case m_baseType a of
        OCPI_Struct \<Rightarrow> repeat_times n (read_members le base ms) c
      | OCPI_Type \<Rightarrow> (case t of None \<Rightarrow> Inl NullType' | Some m \<Rightarrow> repeat_times n (read_member le base m) c)
      | OCPI_String \<Rightarrow> repeat_times n (read_string base a) c
      | OCPI_none \<Rightarrow> Inl AssertFailed
      | _ \<Rightarrow> read_scalars base a n c)"

lemma read_member_body:
  "read_member le base (Member a ms t) c =
     sbind (read_count le base a c) (\<lambda>(cnt, c).
       case cnt of None \<Rightarrow> Inr c
       | Some n \<Rightarrow> sbind (align base (m_dataAlign a) c) (read_body le base a ms t (mul64 n (unat (m_nItems a)))))"
  by (simp add: Let_def read_body_def [abs_def] cong: option.case_cong)

text \<open>Where the elements start, how many there may be and how much room they have.\<close>

lemma room_for_elements:
  assumes s: "sized_ok (Member a ms t)" and g: "good_align (m_align a)" "good_align (m_dataAlign a)" and off: "unat (m_align a) dvd off"
    and k: "k \<le> (if m_isSequence a then unat (m_sequenceLength a) else 1)"
  defines "n \<equiv> mul64 k (unat (m_nItems a))"
  defines "start \<equiv> (if m_isSequence a then off + unat (m_align a) else off)"
  defines "room \<equiv> unat (m_nBytes a) - (if m_isSequence a then unat (m_align a) else 0)"
  shows "unat (m_dataAlign a) dvd start" "unat (m_align a) dvd start" "start + room = off + unat (m_nBytes a)"
    "n \<le> 1 \<or> n * up (elem_bytes a) (unat (m_dataAlign a)) \<le> room" "n * elem_bytes a \<le> room"
proof -
  let ?d = "unat (m_dataAlign a)" and ?e = "elem_bytes a" and ?al = "unat (m_align a)" and ?N = "unat (m_nBytes a)"
  let ?u = "up (elem_bytes a) (unat (m_dataAlign a))" and ?i = "up (item_bytes a) (unat (m_dataAlign a))"
  have d: "0 < ?d" using good_align_unat [OF g(2)] by auto
  have sq: "m_isSequence a \<Longrightarrow> m_dataAlign a \<le> m_align a" "m_isSequence a \<Longrightarrow> ?al + unat (m_sequenceLength a) * ?i \<le> ?N"
    and ns: "\<not> m_isSequence a \<Longrightarrow> m_align a = m_dataAlign a" "\<not> m_isSequence a \<Longrightarrow> item_bytes a \<le> ?N"
    and one: "m_arrayRank a = 0 \<Longrightarrow> unat (m_nItems a) = 1"
    using s by simp_all
  have "m_dataAlign a \<le> m_align a" using sq(1) ns(1) by (cases "m_isSequence a") simp_all
  from good_align_dvd [OF g(2,1) this] have dd: "?d dvd ?al" .
  show 1: "?al dvd start" using off by (simp add: start_def)
  show "?d dvd start" using dd 1 by (rule dvd_trans)
  show "start + room = off + ?N" using sq(2) by (cases "m_isSequence a") (simp_all add: start_def room_def)
  have n: "n \<le> k * unat (m_nItems a)" using mul64_le n_def by simp
  have mult: "m_arrayRank a \<noteq> 0 \<Longrightarrow> ?i = item_bytes a"
    using d up_props(2) [OF d, of ?e] by (intro up_props(3)) (simp_all add: item_bytes_def)
  have item: "unat (m_nItems a) * ?u = ?i" if "m_arrayRank a \<noteq> 0 \<or> m_isSequence a"
    using mult one by (cases "m_arrayRank a = 0") (simp_all add: item_bytes_def mult.commute)
  have big: "n * ?u \<le> room" if c: "m_arrayRank a \<noteq> 0 \<or> m_isSequence a"
  proof -
    have "n * ?u \<le> k * unat (m_nItems a) * ?u" using n by (rule mult_le_mono1)
    then have "n * ?u \<le> k * ?i" using item [OF c] by (simp only: mult.assoc)
    also have "k * ?i \<le> room"
    proof (cases "m_isSequence a")
      case True
      have "k * ?i \<le> unat (m_sequenceLength a) * ?i" using k True by (intro mult_le_mono1) simp
      then have "k * ?i \<le> ?N - ?al" using sq(2) [OF True] by linarith
      then show ?thesis using True by (simp only: room_def if_True)
    next
      case False
      have "k * ?i \<le> 1 * ?i" using k False by (intro mult_le_mono1) simp
      also have "1 * ?i = item_bytes a" using mult c False by simp
      finally show ?thesis using ns(2) [OF False] False by (simp only: room_def if_False diff_zero)
    qed
    finally show ?thesis .
  qed
  have small: "n \<le> 1" "?e \<le> room" if "\<not> (m_arrayRank a \<noteq> 0 \<or> m_isSequence a)"
    using that n k one ns(2) by (simp_all add: item_bytes_def room_def)
  show "n \<le> 1 \<or> n * ?u \<le> room" using big small(1) by blast
  show "n * ?e \<le> room"
  proof (cases "m_arrayRank a \<noteq> 0 \<or> m_isSequence a")
    case True
    have "n * ?e \<le> n * ?u" using up_props(1) [OF d, of ?e] by (rule mult_le_mono2)
    then show ?thesis using big [OF True] by linarith
  next
    case False
    then have "n * ?e \<le> 1 * ?e" using small(1) by (intro mult_le_mono1)
    then show ?thesis using small(2) [OF False] by linarith
  qed
qed

lemma read_members_fits:
  assumes "\<And>m off. m \<in> set ms \<Longrightarrow> unat (m_align (attrs m)) dvd off \<Longrightarrow> off + bytes m \<le> e \<Longrightarrow>
     fits e off (off + bytes m) (read_member le base m)"
    "laid_from p ms q" "\<And>m. m \<in> set ms \<Longrightarrow> unat (m_align (attrs m)) dvd start" "start + q \<le> e"
  shows "fits e (start + p) (start + q) (read_members le base ms)"
  using assms
proof (induction ms arbitrary: p)
  case Nil
  then show ?case by (intro fits_cong [OF fits_Inr]) simp_all
next
  case (Cons m ms)
  have l: "p \<le> at m" "unat (m_align (attrs m)) dvd at m" "laid_from (at m + bytes m) ms q"
    using Cons.prems(2) by (simp_all add: Let_def)
  have "start + at m + bytes m \<le> e" using laid_from_le [OF l(3)] Cons.prems(4) by simp
  moreover have "unat (m_align (attrs m)) dvd start + at m" using Cons.prems(3) l(2) by simp
  ultimately have "fits e (start + at m) (start + at m + bytes m) (read_member le base m)"
    using Cons.prems(1) by simp
  then have "fits e (start + p) (start + (at m + bytes m)) (read_member le base m)"
    by (rule fits_weaken) (use l(1) in simp_all)
  moreover have "fits e (start + (at m + bytes m)) (start + q) (read_members le base ms)"
    using Cons.IH [OF Cons.prems(1) l(3) Cons.prems(3,4)] by simp
  ultimately show ?case using fits_seq by (force intro: fits_cong)
qed

lemma body_fits:
  assumes IH: "\<And>m off. m \<in> set ms \<union> set_option t \<Longrightarrow> well_laid m \<Longrightarrow> sized_ok m \<Longrightarrow> unat (m_align (attrs m)) dvd off \<Longrightarrow>
       off + bytes m \<le> e \<Longrightarrow> fits e off (off + bytes m) (read_member le base m)"
    and w: "well_laid (Member a ms t)" and s: "sized_ok (Member a ms t)" and u: "usable base e"
    and st: "unat (m_dataAlign a) dvd start" "unat (m_align a) dvd start" "start + room \<le> e"
    and n: "n \<le> 1 \<or> n * up (elem_bytes a) (unat (m_dataAlign a)) \<le> room" "n * elem_bytes a \<le> room"
  shows "fits e start (start + room) (read_body le base a ms t n)"
proof -
  let ?d = "unat (m_dataAlign a)" and ?e = "elem_bytes a"
  have d: "0 < ?d" using good_align_unat [of "m_dataAlign a"] w by auto
  note elems = fits_elements [OF _ d st(1) n st(3)]
  have div: "unat (m_align (attrs m)) dvd q" if "m_align (attrs m) \<le> m_dataAlign a" "well_laid m" "?d dvd q" for m q
    using good_align_dvd [OF _ _ that(1)] that(2,3) w by (cases m) (auto intro: dvd_trans)
  consider (Struct) "m_baseType a = OCPI_Struct" | (Type) "m_baseType a = OCPI_Type" | (String) "m_baseType a = OCPI_String"
    | (scalar) "m_baseType a \<notin> {OCPI_Struct, OCPI_Type, OCPI_String, OCPI_none}" using s by auto
  then show ?thesis
  proof cases
    case Struct
    have "fits e q (q + ?e) (read_members le base ms)" if q: "?d dvd q" "q + ?e \<le> e" for q
      using read_members_fits [of ms e le base 0 ?e q] IH w s Struct q div
      by (auto simp: elem_bytes_def list_all_iff)
    from elems [OF this] show ?thesis by (rule fits_cong) (simp_all add: read_body_def Struct)
  next
    case Type
    then obtain m where t: "t = Some m" using w by (auto split: option.splits)
    have "fits e q (q + ?e) (read_member le base m)" if q: "?d dvd q" "q + ?e \<le> e" for q
    proof -
      have "fits e (q + 0) (q + ?e) (read_members le base [m])"
        by (rule read_members_fits) (use IH w s Type q div t in \<open>auto simp: elem_bytes_def Let_def\<close>)
      then show ?thesis by (simp add: fits_def sbind_def split: sum.splits)
    qed
    from elems [OF this] show ?thesis by (rule fits_cong) (simp_all add: read_body_def Type t)
  next
    case String
    then have four: "?d = 4" "m_stringLength a \<noteq> 0" using s by auto
    have "unat (m_stringLength a) + 1 \<le> ?e" using String by (simp add: elem_bytes_def)
    then have "fits e q (q + ?e) (read_string base a)" if q: "?d dvd q" "q + ?e \<le> e" for q
      using fits_read_string [OF u, of q a] q four by (auto elim: fits_weaken)
    from elems [OF this] show ?thesis by (rule fits_cong) (simp_all add: read_body_def String)
  next
    case scalar
    have "mul64 n (unat (m_nBits a div 8)) \<le> n * ?e"
      using mul64_le [of n "unat (m_nBits a div 8)"] scalar by (simp add: elem_bytes_def unat_div_distrib)
    then have le: "mul64 n (unat (m_nBits a div 8)) \<le> room" using n(2) by simp
    have "fits e start (start + mul64 n (unat (m_nBits a div 8))) (read_scalars base a n)"
      by (rule fits_read_scalars) (use u w st le in auto)
    then have "fits e start (start + room) (read_scalars base a n)" using le by (auto elim: fits_weaken)
    then show ?thesis
      by (rule fits_cong) (use scalar in \<open>cases "m_baseType a"; simp add: read_body_def\<close>)
  qed
qed

lemma read_fits:
  "well_laid m \<Longrightarrow> sized_ok m \<Longrightarrow> usable base e \<Longrightarrow> unat (m_align (attrs m)) dvd off \<Longrightarrow> off + bytes m \<le> e \<Longrightarrow>
   fits e off (off + bytes m) (read_member le base m)"
proof (induction m arbitrary: off)
  case (Member a ms t)
  have g: "good_align (m_align a)" "good_align (m_dataAlign a)" "m_isSequence a \<longrightarrow> 4 \<le> m_align a" using Member.prems(1) by auto
  have off: "unat (m_align a) dvd off" using Member.prems(4) by simp
  have sq: "m_isSequence a \<longrightarrow> 4 \<le> m_align a \<and> off + unat (m_align a) \<le> e \<and> m_sequenceLength a \<noteq> 0"
    using Member.prems(2,5) g(3) by auto
  let ?start = "if m_isSequence a then off + unat (m_align a) else off"
  have "?start \<le> off + unat (m_nBytes a)" using Member.prems(2) by (auto split: if_splits)
  then have start: "?start \<le> e" "off \<le> e" using Member.prems(5) by simp_all
  show ?case
  proof (rule fitsI)
    fix c assume c: "inside e off c"
    note cnt = read_count_fits [OF Member.prems(3) g(1) off c sq start(2), where le = le]
    have body: "fits e ?start (off + unat (m_nBytes a))
        (\<lambda>c. sbind (align base (m_dataAlign a) c) (read_body le base a ms t (mul64 k (unat (m_nItems a)))))"
      if k: "k \<le> (if m_isSequence a then unat (m_sequenceLength a) else 1)" for k
    proof -
      note r = room_for_elements [OF Member.prems(2) g(1,2) off k]
      have "fits e ?start (off + unat (m_nBytes a)) (read_body le base a ms t (mul64 k (unat (m_nItems a))))"
        unfolding r(3) [symmetric]
        by (rule body_fits [OF _ Member.prems(1,2,3) r(1,2) _ r(4,5)])
          (use Member.IH Member.prems(3,5) r(3) in auto)
      with fits_align [OF g(2) Member.prems(3) r(1) start(1)] show ?thesis by (rule fits_seq)
    qed
    have lim: "inside e ?start c1 \<Longrightarrow> inside e (off + unat (m_nBytes a)) c1" for c1
      using \<open>?start \<le> off + unat (m_nBytes a)\<close> by (simp add: inside_def split: if_splits)
    show "inside e (off + bytes (Member a ms t)) c'" if r: "read_member le base (Member a ms t) c = Inr c'" for c'
    proof -
      obtain k c1 where k: "read_count le base a c = Inr (k, c1)" using r by (auto simp: read_member_body simp del: read_member.simps)
      then show ?thesis using r cnt(2) [OF k] lim fitsD(1) [OF body]
        by (cases k) (auto simp: read_member_body simp del: read_member.simps)
    qed
    show "reader_fault x" if r: "read_member le base (Member a ms t) c = Inl x" for x
    proof (cases "read_count le base a c")
      case (Inr q)
      then obtain k c1 where k: "read_count le base a c = Inr (k, c1)" by (cases q) auto
      then show ?thesis using r cnt(2) [OF k] fitsD(2) [OF body]
        by (cases k) (auto simp: read_member_body simp del: read_member.simps)
    qed (use r cnt(1) in \<open>simp add: read_member_body del: read_member.simps\<close>)
  qed
qed

subsection \<open>The layout computes these sizes\<close>

text \<open>Bounded types: texts and sequences have a maximum, and no number of elements reaches 32 bits.\<close>

fun bounded :: "member \<Rightarrow> bool" where
  "bounded (Member a ms t) \<longleftrightarrow>
     list_all (\<lambda>d. unat d < 2 ^ 32) (m_arrayDimensions a) \<and> unat (m_nItems a) = prod_list (map unat (m_arrayDimensions a)) \<and>
     (m_baseType a = OCPI_String \<longrightarrow> m_stringLength a \<noteq> 0 \<and> unat (m_stringLength a) < 2 ^ 32) \<and>
     (m_isSequence a \<longrightarrow> m_sequenceLength a \<noteq> 0 \<and> unat (m_sequenceLength a) < 2 ^ 32) \<and>
     list_all bounded ms \<and> pred_option bounded t"

lemma UINT32_MAX_le: "\<not> v > UINT32_MAX \<longleftrightarrow> unat v < 2 ^ 32"
  by (simp add: UINT32_MAX_def not_less word_le_nat_alt less_Suc_eq_le [symmetric])

lemma unat_mult_32:
  assumes "unat (x :: u64) \<le> 2 ^ 32" "unat d < 2 ^ 32"
  shows "unat (x * d) = unat x * unat d"
proof -
  have "unat x * unat d \<le> 2 ^ 32 * (2 ^ 32 - 1)" using assms by (intro mult_le_mono) auto
  then show ?thesis by (simp add: unat_word_ariths)
qed

lemma array_bytes_eq:
  "array_bytes nB ds = Inr n \<Longrightarrow> unat nB \<le> 2 ^ 32 \<Longrightarrow> list_all (\<lambda>d. unat d < 2 ^ 32) ds \<Longrightarrow>
   unat n = unat nB * prod_list (map unat ds) \<and> (ds \<noteq> [] \<longrightarrow> unat n < 2 ^ 32)"
proof (induction ds arbitrary: nB)
  case (Cons d ds)
  have b: "unat (nB * d) < 2 ^ 32" "array_bytes (nB * d) ds = Inr n"
    using Cons.prems(1) UINT32_MAX_le [of "nB * d"] by (simp_all split: if_splits)
  have "unat n = unat (nB * d) * prod_list (map unat ds) \<and> (ds \<noteq> [] \<longrightarrow> unat n < 2 ^ 32)"
    by (rule Cons.IH [OF b(2)]) (use b(1) Cons.prems(3) in simp_all)
  then show ?case using unat_mult_32 [of nB d] Cons.prems b by (cases ds) auto
qed simp

lemma unat_round32:
  assumes "good_align al" "unat v < 2 ^ 32"
  shows "unat (roundUp v al) = up (unat v) (unat al)" "up (unat v) (unat al) \<le> 2 ^ 32"
proof -
  have g: "unat al \<in> {1, 2, 4, 8}" by (rule good_align_unat [OF assms(1)])
  then have d: "0 < unat al" by auto
  show "unat (roundUp v al) = up (unat v) (unat al)"
    using unat_roundUp [OF d, of v] assms(2) g by (auto simp: up_def)
  have "unat al dvd 2 ^ 32" using g by (auto simp: dvd_def)
  then obtain k where k: "2 ^ 32 = unat al * k" by blast
  have "unat v + unat al - 1 < unat al * (k + 1)" using assms(2) k d by (simp add: algebra_simps)
  then have "(unat v + unat al - 1) div unat al < k + 1" by (simp add: less_mult_imp_div_less mult.commute)
  then have "(unat v + unat al - 1) div unat al \<le> k" by simp
  then show "up (unat v) (unat al) \<le> 2 ^ 32" unfolding up_def k by (simp add: mult.commute)
qed

lemma sequence_bytes_eq:
  assumes "sequence_bytes a n1 False l = Inr (n2, a2, l2)" "m_isSequence a" "good_align (m_align a)" "unat n1 < 2 ^ 32"
    "m_sequenceLength a \<noteq> 0" "unat (m_sequenceLength a) < 2 ^ 32"
  shows "unat n2 = unat (m_align a2) + unat (m_sequenceLength a) * up (unat n1) (unat (m_align a))" "unat n2 < 2 ^ 32"
    "a2 = a\<lparr>m_align := m_align a2\<rparr>" "m_align a \<le> m_align a2"
proof -
  have "\<not> n1 > UINT32_MAX" using assms(4) UINT32_MAX_le by blast
  then have low: "low32 n1 = n1" by (rule low32_id)
  note r = unat_round32 [OF assms(3,4)]
  let ?al = "if m_align a < 4 then 4 else m_align a"
  let ?n = "roundUp n1 (m_align a) * m_sequenceLength a"
  have g: "?al = 4 \<or> ?al = 8" using assms(3) by (auto simp: good_align_def word_less_nat_alt)
  have n2: "n2 = ?n + (if ?al > 4 then ?al else 4)" "a2 = a\<lparr>m_align := ?al\<rparr>" "unat n2 < 2 ^ 32"
    using assms(1,2,5) low UINT32_MAX_le [of n2] by (auto simp: sequence_bytes_def round_to_def Let_def split: if_splits)
  have "unat ?n = up (unat n1) (unat (m_align a)) * unat (m_sequenceLength a)"
    using unat_mult_32 [of "roundUp n1 (m_align a)" "m_sequenceLength a"] r assms(6) by simp
  moreover have "unat ?n \<le> 2 ^ 32 * (2 ^ 32 - 1)"
    unfolding calculation using r(2) assms(6) by (intro mult_le_mono) auto
  moreover have "(if ?al > 4 then ?al else 4) = ?al" using g by auto
  ultimately show "unat n2 = unat (m_align a2) + unat (m_sequenceLength a) * up (unat n1) (unat (m_align a))"
    using n2(1,2) g by (auto simp: unat_word_ariths mult.commute)
  show "unat n2 < 2 ^ 32" "a2 = a\<lparr>m_align := m_align a2\<rparr>" using n2 by simp_all
  show "m_align a \<le> m_align a2" using n2(2) assms(3) by (auto simp: good_align_def word_le_nat_alt)
qed

lemma finish_sized:
  assumes f: "finish_offset a nB False l = Inr (a', l')" and g: "good_align (m_align a)" and el: "unat nB = elem_bytes a"
    and dims: "list_all (\<lambda>d. unat d < 2 ^ 32) (m_arrayDimensions a)" "unat (m_nItems a) = prod_list (map unat (m_arrayDimensions a))"
    and sq: "m_isSequence a \<longrightarrow> m_sequenceLength a \<noteq> 0 \<and> unat (m_sequenceLength a) < 2 ^ 32"
  shows "m_arrayRank a' = 0 \<longrightarrow> m_nItems a' = 1" "m_dataAlign a' = m_align a" "m_baseType a' = m_baseType a" "m_stringLength a' = m_stringLength a"
    "if m_isSequence a'
      then m_sequenceLength a' \<noteq> 0 \<and> m_dataAlign a' \<le> m_align a' \<and>
        unat (m_align a') + unat (m_sequenceLength a') * up (item_bytes a') (unat (m_dataAlign a')) \<le> unat (m_nBytes a')
      else m_align a' = m_dataAlign a' \<and> item_bytes a' \<le> unat (m_nBytes a')"
proof -
  let ?b = "a\<lparr>m_dataAlign := m_align a\<rparr>"
  obtain n1 n2 a2 l2 where n1: "(if m_arrayRank a \<noteq> 0
         then sbind (round_to (low32 nB) (m_align a)) (\<lambda>r. array_bytes r (m_arrayDimensions a)) else Inr nB) = Inr n1"
    and s: "sequence_bytes ?b n1 False l = Inr (n2, a2, l2)"
    and a': "a' = a2\<lparr>m_nBytes := low32 n2, m_offset := roundUp (argOffset l2) (m_align a2)\<rparr>"
    and nB: "\<not> nB > UINT32_MAX"
    using f by (auto simp: finish_offset_def round_to_def Let_def split: if_splits)
  have nB: "unat nB < 2 ^ 32" "low32 nB = nB" using nB UINT32_MAX_le low32_id by auto
  note r = unat_round32 [OF g nB(1)]
  have n1': "unat n1 = item_bytes ?b \<and> unat n1 < 2 ^ 32"
  proof (cases "m_arrayRank a = 0")
    case False
    then have "array_bytes (roundUp nB (m_align a)) (m_arrayDimensions a) = Inr n1"
      using n1 nB by (auto simp: round_to_def split: if_splits)
    from array_bytes_eq [OF this _ dims(1)] False show ?thesis using r dims(2) el
      by (auto simp: item_bytes_def m_arrayRank_def elem_bytes_def)
  qed (use n1 nB el in \<open>simp add: item_bytes_def m_arrayRank_def elem_bytes_def\<close>)
  have "unat (m_nItems a) = 1" if "m_arrayRank a = 0" using that dims(2) by (simp add: m_arrayRank_def)
  then have one: "m_nItems a = 1" if "m_arrayRank a = 0" using that by (metis unsigned_1 unsigned_word_eqI)
  show "m_arrayRank a' = 0 \<longrightarrow> m_nItems a' = 1" "m_dataAlign a' = m_align a" "m_baseType a' = m_baseType a" "m_stringLength a' = m_stringLength a"
    using s one by (auto simp: a' m_arrayRank_def sequence_bytes_def Let_def split: if_splits)
  show "if m_isSequence a'
      then m_sequenceLength a' \<noteq> 0 \<and> m_dataAlign a' \<le> m_align a' \<and>
        unat (m_align a') + unat (m_sequenceLength a') * up (item_bytes a') (unat (m_dataAlign a')) \<le> unat (m_nBytes a')
      else m_align a' = m_dataAlign a' \<and> item_bytes a' \<le> unat (m_nBytes a')"
  proof (cases "m_isSequence a")
    case True
    have q: "unat n2 = unat (m_align a2) + unat (m_sequenceLength ?b) * up (unat n1) (unat (m_align ?b))" "unat n2 < 2 ^ 32"
      "a2 = ?b\<lparr>m_align := m_align a2\<rparr>" "m_align ?b \<le> m_align a2"
      using sequence_bytes_eq [OF s] True g n1' sq by auto
    obtain al where a2: "a2 = ?b\<lparr>m_align := al\<rparr>" using q(3) by metis
    have "low32 n2 = n2" using q(2) UINT32_MAX_le low32_id by blast
    then show ?thesis using q(1,4) n1' sq True
      by (simp add: a' a2 item_bytes_def elem_bytes_def m_arrayRank_def)
  next
    case False
    then have a2: "a2 = ?b" "n2 = n1" using s by (simp_all add: sequence_bytes_def)
    have "low32 n1 = n1" using n1' UINT32_MAX_le low32_id by blast
    then show ?thesis using False n1' by (simp add: a' a2 item_bytes_def elem_bytes_def m_arrayRank_def)
  qed
qed

lemma string_bytes:
  assumes "unat (n :: u64) < 2 ^ 32"
  shows "unat ((n + 4) AND NOT 3) = (unat n + 4) div 4 * 4"
proof -
  have "unat (n + 4) = unat n + 4" using assms by (simp add: unat_word_ariths)
  moreover have "(3 :: u64) = mask 2" by (simp add: mask_eq_exp_minus_1)
  ultimately show ?thesis using unat_and_not_mask [of "n + 4" 2] by simp
qed

lemma scalar_offset_eq:
  assumes "scalar_offset a l = (nB, a', l')" "m_baseType a \<noteq> OCPI_Struct" "m_baseType a \<noteq> OCPI_Type" "m_baseType a \<noteq> OCPI_none"
    "m_baseType a = OCPI_String \<longrightarrow> unat (m_stringLength a) < 2 ^ 32"
  shows "unat nB = elem_bytes a'" "a' = a\<lparr>m_nBits := m_nBits a', m_align := m_align a'\<rparr>" "m_baseType a = OCPI_String \<longrightarrow> m_align a' = 4"
proof -
  have a': "a' = a\<lparr>m_nBits := baseTypeSizes (m_baseType a), m_align := (baseTypeSizes (m_baseType a) + 7) div 8\<rparr>"
    and nB: "nB = (if m_baseType a = OCPI_String then (m_stringLength a + 4) AND NOT 3 else (baseTypeSizes (m_baseType a) + 7) div 8)"
    using assms(1) by (simp_all add: scalar_offset_def Let_def)
  show "a' = a\<lparr>m_nBits := m_nBits a', m_align := m_align a'\<rparr>" "m_baseType a = OCPI_String \<longrightarrow> m_align a' = 4" using a' by simp_all
  show "unat nB = elem_bytes a'"
  proof (cases "m_baseType a = OCPI_String")
    case True
    then show ?thesis using string_bytes assms(5) by (simp add: nB a' elem_bytes_def)
  next
    case False
    have "unat ((baseTypeSizes b + 7) div 8) = unat (baseTypeSizes b) div 8" if "b \<noteq> OCPI_Struct" "b \<noteq> OCPI_Type" for b
      using that by (cases b) simp_all
    then show ?thesis using False assms(2,3) by (simp add: nB a' elem_bytes_def)
  qed
qed

lemma finish_UINT32: "finish_offset a nB isTop l = Inr r \<Longrightarrow> \<not> nB > UINT32_MAX"
  by (auto simp: finish_offset_def split: if_splits)

lemma good_align_inner:
  assumes "laid_steps (inner a l) ms l'" "good_align (m_align a)"
  shows "good_align (m_align (sized a l'))"
  using assms by (simp add: laid_steps_def inner_def sized_def)

lemma finish_sized_nested:
  assumes f: "finish_offset (sized a l1) (argOffset l1) False l = Inr (a', l')" and g: "good_align (m_align (sized a l1))"
    and b: "bounded (Member a ms t)" and ty: "m_baseType a = OCPI_Struct \<or> m_baseType a = OCPI_Type"
    and parts: "m_baseType a = OCPI_Struct \<longrightarrow> list_all sized_ok ms'" "m_baseType a = OCPI_Type \<longrightarrow> pred_option sized_ok t'"
  shows "sized_ok (Member a' ms' t')"
proof -
  have e: "unat (argOffset l1) = elem_bytes (sized a l1)"
    using sized_bits [OF finish_UINT32 [OF f], of a] ty by (auto simp: elem_bytes_def sized_def)
  note q = finish_sized [OF f g e]
  have d: "list_all (\<lambda>d. unat d < 2 ^ 32) (m_arrayDimensions (sized a l1))"
    "unat (m_nItems (sized a l1)) = prod_list (map unat (m_arrayDimensions (sized a l1)))"
    "m_isSequence (sized a l1) \<longrightarrow> m_sequenceLength (sized a l1) \<noteq> 0 \<and> unat (m_sequenceLength (sized a l1)) < 2 ^ 32"
    using b by (simp_all add: sized_def)
  show ?thesis using q [OF d] ty parts by (auto simp: sized_def)
qed

lemma layout_sized:
  "offset m isTop l = Inr (m', l') \<Longrightarrow> isTop = False \<Longrightarrow> type_ok m \<Longrightarrow> bounded m \<Longrightarrow> unat (argOffset l) + 2 ^ 33 \<le> 2 ^ 64 \<Longrightarrow>
   sized_ok m'"
  "alignMembers ms isTop l = Inr (ms', l') \<Longrightarrow> isTop = False \<Longrightarrow> list_all type_ok ms \<Longrightarrow> list_all bounded ms \<Longrightarrow>
   unat (argOffset l) + length ms * 2 ^ 33 \<le> 2 ^ 64 \<Longrightarrow> list_all sized_ok ms'"
proof (induction m isTop l and ms isTop l arbitrary: m' l' and ms' l' rule: offset_alignMembers.induct)
  case (1 a ms t isTop l)
  consider (Struct) "m_baseType a = OCPI_Struct" | (Type) "m_baseType a = OCPI_Type"
    | (plain) "m_baseType a \<noteq> OCPI_Struct" "m_baseType a \<noteq> OCPI_Type" by blast
  then show ?case
  proof cases
    case Struct
    obtain ms1 l1 a1 where s: "alignMembers ms False (inner a l) = Inr (ms1, l1)"
      and f: "finish_offset (sized a l1) (argOffset l1) False (outer l l1) = Inr (a1, l')" and m': "m' = Member a1 ms1 t"
      using "1.prems"(1,2) Struct by auto
    have k: "list_all type_ok ms" "unat (argOffset (inner a l)) + length ms * 2 ^ 33 \<le> 2 ^ 64" "list_all bounded ms"
      using "1.prems"(3,4) by (simp_all add: inner_def)
    have "good_align (m_align (sized a l1))"
      using layout_sound(2) [OF s k(1,2)] "1.prems"(3) by (intro good_align_inner [of a l ms1]) simp_all
    moreover have "list_all sized_ok ms1" using "1.IH"(1) [OF Struct s refl k(1,3,2)] .
    ultimately show ?thesis using finish_sized_nested [OF f _ "1.prems"(4)] Struct by (simp add: m')
  next
    case Type
    then obtain m where t: "t = Some m" using "1.prems"(1) by (cases t) auto
    obtain m1 l1 a1 where s: "offset m False (inner a l) = Inr (m1, l1)"
      and f: "finish_offset (sized a l1) (argOffset l1) False (outer l l1) = Inr (a1, l')" and m': "m' = Member a1 ms (Some m1)"
      using "1.prems"(1,2) Type t by auto
    have k: "type_ok m" "unat (argOffset (inner a l)) + 2 ^ 33 \<le> 2 ^ 64" "bounded m"
      using "1.prems"(3,4) t by (simp_all add: inner_def)
    have "good_align (m_align (sized a l1))"
      using layout_sound(1) [OF s k(1,2)] "1.prems"(3) by (intro good_align_inner [of a l "[m1]"]) simp_all
    moreover have "sized_ok m1" using "1.IH"(2) [OF Type t s refl k(1,3,2)] .
    ultimately show ?thesis using finish_sized_nested [OF f _ "1.prems"(4), of ms "Some m1"] Type by (simp add: m')
  next
    case plain
    obtain nB a1 l1 where s: "scalar_offset a l = (nB, a1, l1)" by (cases "scalar_offset a l") auto
    then obtain a2 where f: "finish_offset a1 nB False l1 = Inr (a2, l')" and m': "m' = Member a2 ms t"
      using "1.prems"(1,2) by (auto simp del: offset.simps simp: offset_plain [OF plain])
    have no: "m_baseType a \<noteq> OCPI_none" using "1.prems"(1) none_traps by fastforce
    have str: "m_baseType a = OCPI_String \<longrightarrow> unat (m_stringLength a) < 2 ^ 32" using "1.prems"(4) by simp
    note e = scalar_offset_eq [OF s plain no str] and g = scalar_offset_ok(1) [OF s plain no]
    obtain nb al where a1: "a1 = a\<lparr>m_nBits := nb, m_align := al\<rparr>" using e(2) by metis
    have d: "list_all (\<lambda>d. unat d < 2 ^ 32) (m_arrayDimensions a1)"
      "unat (m_nItems a1) = prod_list (map unat (m_arrayDimensions a1))"
      "m_isSequence a1 \<longrightarrow> m_sequenceLength a1 \<noteq> 0 \<and> unat (m_sequenceLength a1) < 2 ^ 32"
      using "1.prems"(4) by (simp_all add: a1)
    show ?thesis using finish_sized [OF f g e(1) d] plain no e(3) "1.prems"(4) by (simp add: m' a1)
  qed
next
  case (3 m ms isTop l)
  then obtain m1 l1 ms1 where s: "offset m isTop l = Inr (m1, l1)" "alignMembers ms isTop l1 = Inr (ms1, l')"
    and ms': "ms' = m1 # ms1" by auto
  have "unat (argOffset l1) \<le> unat (argOffset l) + 2 ^ 33"
    using layout_sound(1) [OF s(1)] "3.prems"(3,5) by (simp add: laid_steps_def)
  then show ?case using "3.IH"(1) [OF s(1)] "3.IH"(2) [OF s(2)] "3.prems"(2-5) by (simp add: ms')
qed simp

lemma arguments_fit:
  assumes lay: "alignMembers args False l = Inr (args', l')" "argOffset l = 0" "list_all type_ok args" "list_all bounded args"
      "length args < 2 ^ 30"
    and buf: "unat (argOffset l') \<le> e" "usable base e"
  shows "fits e 0 (unat (argOffset l')) (read_members le base args')"
proof -
  have k: "unat (argOffset l) + length args * 2 ^ 33 \<le> 2 ^ 64" using lay(2,5) by simp
  have st: "list_all well_laid args'" "laid_from 0 args' (unat (argOffset l'))"
    using layout_sound(2) [OF lay(1,3) k] lay(2) by (auto simp: laid_steps_def)
  have sz: "list_all sized_ok args'" by (rule layout_sized(2) [OF lay(1) refl lay(3,4) k])
  have "fits e (0 + 0) (0 + unat (argOffset l')) (read_members le base args')"
    by (rule read_members_fits) (use st sz buf read_fits in \<open>auto simp: list_all_iff\<close>)
  then show ?thesis by simp
qed

lemma aligned_usable:
  assumes "base AND 15 = 0" "unat base + e + 8 < 2 ^ 64"
  shows "usable base e"
proof -
  have "base AND 15 = take_bit 4 base" by (simp add: take_bit_eq_mask mask_eq_exp_minus_1)
  then have "unat (take_bit 4 base) = 0" using assms(1) by simp
  then have "unat base mod 16 = 0" by (simp add: take_bit_eq_mod unat_mod_distrib)
  then have "8 dvd unat base" by presburger
  then show ?thesis using assms(2) by (simp add: usable_def)
qed

lemma protocol_read_fits:
  assumes f: "fits maxLength 0 n (read_members le base (op_args (ops ! unat opcode)))"
    and op: "unat opcode < length ops" and buf: "maxLength \<le> length data" "base AND 15 = 0"
  shows "case protocol_read le base ops data maxLength opcode items of
      Inl e \<Rightarrow> reader_fault e | Inr (n', data', rest) \<Rightarrow> n' \<le> n"
proof -
  let ?c = "\<lparr>c_buf = data, c_pos = 0, c_len = maxLength, c_items = items\<rparr> :: rcursor"
  have "inside maxLength 0 ?c" using buf(1) by (simp add: inside_def)
  note r = fitsD [OF f this]
  show ?thesis
  proof (cases "read_members le base (op_args (ops ! unat opcode)) ?c")
    case (Inl e)
    then show ?thesis using r(2) op buf(2) by (auto simp: protocol_read_def op_read_def maxDataTypeAlignment_def)
  next
    case (Inr c')
    then show ?thesis using r(1) op buf(2) by (auto simp: protocol_read_def op_read_def maxDataTypeAlignment_def inside_def)
  qed
qed


definition ex_bounded_args :: "member list" where
  "ex_bounded_args =
     [Member (ValueType OCPI_UChar False\<lparr>m_arrayDimensions := [3], m_nItems := 3\<rparr>) [] None,
      Member (ValueType OCPI_String True\<lparr>m_sequenceLength := 2, m_stringLength := 5\<rparr>) [] None]"


end
