(* ===== verification/ValueText.thy ===== *)
theory ValueText
  imports DataTypes
begin

text \<open>
  Property values as text, from \<^verbatim>\<open>core/local/util/property/src/OcpiUtilValue.cxx\<close>: the splitting of
  text into elements, the scalar syntax with its escapes, arrays in braces, sequences, structures
  with named members, recursive types and enumerations, in both directions.

  A text is a \<open>string\<close> without its terminating null; positions are indices into it and \<open>chr_at\<close>
  reads the null past its end. The conversions of floating point numbers by the C library are the
  parameter \<open>float_ops\<close>. Types with a user supplied \<^verbatim>\<open>Format\<close> attribute, which replaces the
  printf format of integers, are not modelled.
\<close>

subsection \<open>Text positions\<close>

definition chr_at :: "string \<Rightarrow> nat \<Rightarrow> char" where
  "chr_at t i = (if i < length t then t ! i else CHR 0x00)"

definition slice :: "string \<Rightarrow> nat \<Rightarrow> nat \<Rightarrow> string" where
  "slice t i j = take (j - i) (drop i t)"

subsection \<open>Values\<close>

text \<open>
  An element is a scalar, a string pointer (\<open>None\<close> is the null pointer), the members of a
  structure (a null entry is \<open>None\<close>, the null pointer to a structure the empty list), a value of a
  recursive type, or the index of an enumeration literal. A value holds one row of \<^verbatim>\<open>m_nItems\<close>
  elements for every element of the sequence, and one row when it is no sequence: the element
  \<^verbatim>\<open>nSeq * m_nItems + nArray\<close> of the source is entry \<^verbatim>\<open>nArray\<close> of row \<^verbatim>\<open>nSeq\<close>.
\<close>

datatype elem =
    EBool bool | EChar char | EInt int | EDouble u64 | EFloat u32
  | EString "string option" | EStruct "value option list" | EType "value option" | EEnum nat
and "value" = Value (rows: "elem list list")

text \<open>The elements of a new array are zeroed.\<close>

fun zero_elem :: "base_type \<Rightarrow> elem" where
  "zero_elem OCPI_Bool = EBool False"
| "zero_elem OCPI_Char = EChar (CHR 0x00)"
| "zero_elem OCPI_Double = EDouble 0"
| "zero_elem OCPI_Float = EFloat 0"
| "zero_elem OCPI_String = EString None"
| "zero_elem OCPI_Struct = EStruct []"
| "zero_elem OCPI_Type = EType None"
| "zero_elem OCPI_Enum = EEnum 0"
| "zero_elem _ = EInt 0"

definition needsComma :: "vtype \<Rightarrow> bool" where
  "needsComma a \<longleftrightarrow> m_isSequence a \<or> m_arrayRank a \<noteq> 0 \<or> m_baseType a = OCPI_Struct"

definition needsCommaDimension :: "vtype \<Rightarrow> bool" where
  "needsCommaDimension a \<longleftrightarrow> m_baseType a = OCPI_Struct"

definition needsCommaElement :: "vtype \<Rightarrow> bool" where
  "needsCommaElement a \<longleftrightarrow> m_arrayRank a \<noteq> 0 \<or> m_baseType a = OCPI_Struct"

subsection \<open>Elements of a text\<close>

text \<open>
  \<open>scan_element\<close> is the loop of \<^verbatim>\<open>doElement\<close> over the text from position \<open>pos\<close>: it returns the
  error, the position it stopped at, the position of the comma that ended the element, and the
  position up to which white space is protected by an escape.
\<close>

fun scan_element :: "bool \<Rightarrow> string \<Rightarrow> nat \<Rightarrow> nat \<Rightarrow> nat \<Rightarrow> string option \<times> nat \<times> nat option \<times> nat" where
  "scan_element comma [] pos nBraces lst = (None, pos, None, lst)"
| "scan_element comma (c # cs) pos nBraces lst =
     (if c = CHR 0x00 then (None, pos, None, lst)
      else if c = CHR '','' then
        (if nBraces = 0 then
           (if \<not> comma then (Some ''unexpected comma when parsing arrays'', pos + 1, None, lst)
            else (None, pos + 1, Some pos, lst))
         else scan_element comma cs (pos + 1) nBraces lst)
      else if c = CHR 0x5C then
        (case cs of [] \<Rightarrow> (None, pos + 1, None, pos + 1)
         | _ # cs' \<Rightarrow> scan_element comma cs' (pos + 2) nBraces (pos + 2))
      else if c = CHR ''{'' then scan_element comma cs (pos + 1) (nBraces + 1) lst
      else if c = CHR ''}'' then
        (if nBraces = 0 then (Some ''unbalanced braces - extra close brace'', pos + 1, None, lst)
         else if nBraces = 1 \<and> \<not> comma then (None, pos + 1, Some (pos + 1), lst)
         else scan_element comma cs (pos + 1) (nBraces - 1) lst)
      else scan_element comma cs (pos + 1) nBraces lst)"

fun trim_end :: "string \<Rightarrow> nat \<Rightarrow> nat \<Rightarrow> nat" where
  "trim_end t lst 0 = 0"
| "trim_end t lst (Suc e) = (if Suc e > lst \<and> isspace (chr_at t e) then trim_end t lst e else Suc e)"

text \<open>The error, the new value of \<^verbatim>\<open>unparsed\<close>, and the bounds \<^verbatim>\<open>start\<close> and \<^verbatim>\<open>end\<close> of the element.\<close>

definition doElement :: "string \<Rightarrow> nat \<Rightarrow> nat \<Rightarrow> bool \<Rightarrow> string option \<times> nat \<times> nat \<times> nat" where
  "doElement t unparsed stop comma =
     (let start = unparsed + length (takeWhile isspace (slice t unparsed stop)) in
      case scan_element comma (slice t start stop) start 0 start of
        (Some err, pos, fin, lst) \<Rightarrow> (Some err, pos, start, stop)
      | (None, pos, fin, lst) \<Rightarrow>
          (None, pos, start, trim_end t lst (case fin of None \<Rightarrow> stop | Some e \<Rightarrow> e)))"

subsection \<open>Scalars\<close>

definition suffix_factor :: "char \<Rightarrow> nat" where
  "suffix_factor c =
     (if c = CHR ''K'' \<or> c = CHR ''k'' then 1024
      else if c = CHR ''M'' \<or> c = CHR ''m'' then 1024 * 1024
      else if c = CHR ''G'' \<or> c = CHR ''g'' then 1024 * 1024 * 1024
      else 1)"

definition skip_spaces :: "string \<Rightarrow> string" where
  "skip_spaces = dropWhile isspace"

text \<open>
  A number may have a suffix, and an unsigned one may be followed by \<^verbatim>\<open>- 1\<close> at the end of the text.
  What follows otherwise is not looked at.
\<close>

definition minus_one :: "string \<Rightarrow> bool" where
  "minus_one s =
     (case skip_spaces s of
        [] \<Rightarrow> False
      | c # cs \<Rightarrow> c = CHR ''-'' \<and>
          (case skip_spaces cs of [] \<Rightarrow> False | d # ds \<Rightarrow> d = CHR ''1'' \<and> skip_spaces ds = []))"

definition getUNum64 :: "string \<Rightarrow> u64 option" where
  "getUNum64 s =
     (case strtoull 0 s of (val, n, erange) \<Rightarrow>
        if erange then None
        else let k = suffix_factor (chr_at s n);
                 val = val * of_nat k;
                 rest = drop (if k = 1 then n else n + 1) s
             in Some (if minus_one rest then val - 1 else val))"

definition getNum64 :: "string \<Rightarrow> int option" where
  "getNum64 s =
     (case strtoll 0 s of (val, n, erange) \<Rightarrow>
        if erange then None
        else Some (sint (of_int (val * int (suffix_factor (chr_at s n))) :: 64 word)))"

record float_ops =
  fl_strtod :: "string \<Rightarrow> u64 \<times> nat \<times> bool"
  fl_strtof :: "string \<Rightarrow> u32 \<times> nat \<times> bool"
  fl_print_g :: "u64 \<Rightarrow> string"
  fl_widen :: "u32 \<Rightarrow> u64"

definition lower :: "string \<Rightarrow> string" where
  "lower = map tolower"

definition parseBool :: "string \<Rightarrow> bool option" where
  "parseBool s =
     (if length s = 4 \<and> lower s = ''true'' \<or> s = ''1'' then Some True
      else if length s = 5 \<and> lower s = ''false'' \<or> s = ''0'' then Some False
      else None)"

text \<open>
  The escapes work on the text between the current position and the end; they return the character
  and the text that is left.
\<close>

definition xdigit :: "char \<Rightarrow> nat" where
  "xdigit c = (if isdigit c then code c - 48 else (code (tolower c) - 97) + 10)"

fun hex_escape :: "string \<Rightarrow> (char \<times> string) option" where
  "hex_escape (c # cs) =
     (if isxdigit c then
        (case cs of
           d # ds \<Rightarrow> if isxdigit d then Some (char_of (xdigit c * 16 + xdigit d), ds) else Some (char_of (xdigit c), cs)
         | [] \<Rightarrow> Some (char_of (xdigit c), cs))
      else None)"
| "hex_escape [] = None"

definition dec_value :: "string \<Rightarrow> nat" where
  "dec_value ds = foldl (\<lambda>n c. n * 10 + (code c - 48)) 0 ds"

definition to_char :: "int \<Rightarrow> char" where
  "to_char n = char_of (nat (n mod 256))"

definition decimal_escape :: "bool \<Rightarrow> string \<Rightarrow> (char \<times> string) option" where
  "decimal_escape isSigned s =
     (let minus = (isSigned \<and> s \<noteq> [] \<and> hd s = CHR ''-'');
          u = (if minus then tl s else s);
          ds = takeWhile isdigit (take 3 u);
          n = int (dec_value ds)
      in if ds = [] then None
         else if length ds = 3 \<and> n > (if minus then 128 else if isSigned then 127 else 255) then None
         else Some (to_char (if minus then - n else n), drop (length ds) u))"

definition isodigit :: "char \<Rightarrow> bool" where
  "isodigit c \<longleftrightarrow> isdigit c \<and> code c \<le> 55"

text \<open>The first digit has been seen already.\<close>

definition octal_escape :: "char \<Rightarrow> string \<Rightarrow> (char \<times> string) option" where
  "octal_escape c s =
     (let ds = c # takeWhile isodigit (take 2 s);
          n = foldl (\<lambda>n c. n * 8 + (code c - 48)) 0 ds
      in if length ds = 3 \<and> n > 255 then None else Some (char_of n, drop (length ds - 1) s))"

definition parseOneChar :: "string \<Rightarrow> (char \<times> string) option" where
  "parseOneChar s =
     (case s of
        [] \<Rightarrow> None
      | c # cs \<Rightarrow>
          if c = CHR 0x00 then None
          else if c \<noteq> CHR 0x5C then Some (c, cs)
          else case cs of
            [] \<Rightarrow> Some (c, cs)
          | d # ds \<Rightarrow>
              if d = CHR ''n'' then Some (CHR 0x0A, ds)
              else if d = CHR ''t'' then Some (CHR 0x09, ds)
              else if d = CHR ''v'' then Some (CHR 0x0B, ds)
              else if d = CHR ''b'' then Some (CHR 0x08, ds)
              else if d = CHR ''r'' then Some (CHR 0x0D, ds)
              else if d = CHR ''f'' then Some (CHR 0x0C, ds)
              else if d = CHR ''a'' then Some (CHR 0x07, ds)
              else if d = CHR ''d'' then decimal_escape True ds
              else if d = CHR ''u'' then decimal_escape False ds
              else if d = CHR ''x'' then hex_escape ds
              else if isodigit d then octal_escape d ds
              else if d \<in> set [CHR 0x5C, CHR ''?'', CHR 0x27, CHR 0x22, CHR '','', CHR ''{'', CHR ''}'', CHR '' '']
              then Some (d, ds)
              else None)"

definition parseChar :: "string \<Rightarrow> char option" where
  "parseChar s = (case parseOneChar s of Some (c, []) \<Rightarrow> Some c | _ \<Rightarrow> None)"

lemma octal_escape_shorter: "octal_escape c s = Some (v, r) \<Longrightarrow> length r \<le> length s"
  by (auto simp: octal_escape_def Let_def split: if_splits)

lemma hex_escape_shorter: "hex_escape s = Some (v, r) \<Longrightarrow> length r \<le> length s"
  by (cases s) (auto split: if_splits list.splits)

lemma decimal_escape_shorter: "decimal_escape b s = Some (v, r) \<Longrightarrow> length r \<le> length s"
  by (auto simp: decimal_escape_def Let_def split: if_splits)

lemma parseOneChar_shorter:
  assumes "parseOneChar s = Some (v, r)"
  shows "length r < length s"
proof (cases s)
  case (Cons c cs)
  show ?thesis
  proof (cases cs)
    case Nil
    then show ?thesis using assms Cons by (simp add: parseOneChar_def split: if_splits)
  next
    case (Cons d ds)
    then show ?thesis using assms \<open>s = c # cs\<close>
      by (auto simp: parseOneChar_def dest: octal_escape_shorter hex_escape_shorter decimal_escape_shorter
          split: if_splits)
  qed
qed (use assms in \<open>simp add: parseOneChar_def\<close>)

text \<open>The characters of a string up to the closing quote of a quoted one.\<close>

function string_chars :: "bool \<Rightarrow> nat \<Rightarrow> nat \<Rightarrow> string \<Rightarrow> string + string" where
  "string_chars quoted maxlen len s =
     (if s = [] then Inr []
      else if quoted \<and> hd s = CHR 0x22 then
        (if tl s \<noteq> [] then Inl ''double quoted string with invalid characters after the closing quote'' else Inr [])
      else if maxlen \<noteq> 0 \<and> len \<ge> maxlen then Inl ''bad String value''
      else case parseOneChar s of
        None \<Rightarrow> Inl ''bad String value''
      | Some (c, r) \<Rightarrow> sbind (string_chars quoted maxlen (len + 1) r) (\<lambda>cs. Inr (c # cs)))"
  by pat_completeness auto
termination by (relation "measure (\<lambda>(q, m, l, s). length s)") (auto dest: parseOneChar_shorter)

declare string_chars.simps [simp del]

definition parseString :: "vtype \<Rightarrow> string \<Rightarrow> nat \<Rightarrow> nat \<Rightarrow> string + string option" where
  "parseString a t start fin =
     (let quoted = (chr_at t start = CHR 0x22);
          start = (if quoted then start + 1 else start)
      in sbind (string_chars quoted (unat (m_stringLength a)) 0 (slice t start fin))
           (\<lambda>cs. Inr (Some (cstring cs))))"

definition in_range :: "int \<Rightarrow> int \<Rightarrow> int \<Rightarrow> bool" where
  "in_range lo hi n \<longleftrightarrow> lo \<le> n \<and> n \<le> hi"

definition parse_signed :: "nat \<Rightarrow> string \<Rightarrow> string \<Rightarrow> string + elem" where
  "parse_signed w msg s =
     (case getNum64 s of
        None \<Rightarrow> Inl msg
      | Some n \<Rightarrow> if in_range (- (2 ^ (w - 1))) (2 ^ (w - 1) - 1) n then Inr (EInt n) else Inl msg)"

definition parse_unsigned :: "nat \<Rightarrow> string \<Rightarrow> string \<Rightarrow> string + elem" where
  "parse_unsigned w msg s =
     (case getUNum64 s of
        None \<Rightarrow> Inl msg
      | Some n \<Rightarrow> if uint n \<le> 2 ^ w - 1 then Inr (EInt (uint n)) else Inl msg)"

definition parseUChar :: "string \<Rightarrow> string + elem" where
  "parseUChar s =
     (let s = skip_spaces s in
      if chr_at s 0 = CHR 0x27 then
        Inr (EInt (int (code (chr_at s (if chr_at s 1 = CHR 0x5C then 2 else 1)))))
      else parse_unsigned 8 ''bad UChar value'' s)"

fun find_enum :: "nat \<Rightarrow> string list \<Rightarrow> string \<Rightarrow> nat option" where
  "find_enum n [] s = None"
| "find_enum n (e # es) s = (if lower e = lower s then Some n else find_enum (n + 1) es s)"

text \<open>
  \<open>parse_scalar\<close> reads one element of a type that is neither a structure nor a recursive type, from
  \<open>start\<close> to \<open>fin\<close>. The numbers are read from \<open>start\<close> on, whatever the end is.
\<close>

definition parse_scalar :: "float_ops \<Rightarrow> vtype \<Rightarrow> string \<Rightarrow> nat \<Rightarrow> nat \<Rightarrow> string + elem" where
  "parse_scalar fl a t start fin =
     (let from_start = drop start t; s = slice t start fin in
      case m_baseType a of
        OCPI_Bool \<Rightarrow> (case parseBool s of None \<Rightarrow> Inl ''bad Bool value'' | Some b \<Rightarrow> Inr (EBool b))
      | OCPI_Char \<Rightarrow> (case parseChar s of None \<Rightarrow> Inl ''bad Char value'' | Some c \<Rightarrow> Inr (EChar c))
      | OCPI_Double \<Rightarrow>
          (case fl_strtod fl from_start of (d, n, err) \<Rightarrow>
             if n = 0 \<or> err then Inl ''bad Double value'' else Inr (EDouble d))
      | OCPI_Float \<Rightarrow>
          (case fl_strtof fl from_start of (d, n, err) \<Rightarrow>
             if n = 0 \<or> err then Inl ''bad Float value'' else Inr (EFloat d))
      | OCPI_Short \<Rightarrow> parse_signed 16 ''bad Short value'' from_start
      | OCPI_Long \<Rightarrow> parse_signed 32 ''bad Long value'' from_start
      | OCPI_LongLong \<Rightarrow> parse_signed 64 ''bad LongLong value'' from_start
      | OCPI_UChar \<Rightarrow> parseUChar from_start
      | OCPI_UShort \<Rightarrow> parse_unsigned 16 ''bad UShort value'' from_start
      | OCPI_ULong \<Rightarrow> parse_unsigned 32 ''bad ULong value'' from_start
      | OCPI_ULongLong \<Rightarrow> parse_unsigned 64 ''bad ULongLong value'' from_start
      | OCPI_String \<Rightarrow> sbind (parseString a t start fin) (\<lambda>s. Inr (EString s))
      | OCPI_Enum \<Rightarrow> (case find_enum 0 (m_enums a) s of None \<Rightarrow> Inl ''unknown enum value'' | Some n \<Rightarrow> Inr (EEnum n))
      | _ \<Rightarrow> Inl ''Unexpected illegal type in parsing value'')"

subsection \<open>Parsing of arrays, structures and sequences\<close>

text \<open>
  Reads outside of the text or the row would be memory errors of the program; the row is updated
  only inside its bounds.
\<close>

definition store :: "elem list \<Rightarrow> nat \<Rightarrow> elem \<Rightarrow> string + elem list" where
  "store row i e = (if i < length row then Inr (row[i := e]) else Inl ''store outside of the array'')"

definition braced :: "string \<Rightarrow> nat \<Rightarrow> nat \<Rightarrow> bool" where
  "braced t start fin \<longleftrightarrow> chr_at t start = CHR ''{'' \<and> 0 < fin \<and> chr_at t (fin - 1) = CHR ''}''"

text \<open>
  The loop of \<^verbatim>\<open>parseDimension\<close> over the entries of one dimension: \<open>body\<close> parses one entry into the
  row at an offset, \<open>step\<close> is the number of elements of an entry.
\<close>

fun dim_loop :: "(nat \<Rightarrow> nat \<Rightarrow> nat \<Rightarrow> elem list \<Rightarrow> string + elem list) \<Rightarrow> nat \<Rightarrow> string \<Rightarrow> nat \<Rightarrow>
    nat \<Rightarrow> bool \<Rightarrow> nat \<Rightarrow> nat \<Rightarrow> elem list \<Rightarrow> string + nat \<times> elem list" where
  "dim_loop body step t stop 0 first unparsed off row = Inr (unparsed, row)"
| "dim_loop body step t stop (Suc n) first unparsed off row =
     (case doElement t unparsed stop True of
        (Some err, unparsed, start, fin) \<Rightarrow> Inl err
      | (None, unparsed, start, fin) \<Rightarrow>
          if \<not> first \<and> start = fin then Inr (unparsed, row)
          else sbind (body start fin off row) (dim_loop body step t stop n False unparsed (off + step)))"

fun parseDimension :: "bool \<Rightarrow> (nat \<Rightarrow> nat \<Rightarrow> string + elem) \<Rightarrow> string \<Rightarrow> nat list \<Rightarrow> nat \<Rightarrow> nat \<Rightarrow> nat \<Rightarrow>
    nat \<Rightarrow> elem list \<Rightarrow> string + elem list" where
  "parseDimension nc pv t [] nItems unparsed stop off row = Inl ''no dimension''"
| "parseDimension nc pv t (d # ds) nItems unparsed stop off row =
     (let skip = nItems div d;
          body = (\<lambda>start fin off row.
            if ds \<noteq> [] then
              (if start = fin \<or> \<not> braced t start fin then Inl ''array elements not enclosed in {}''
               else parseDimension nc pv t ds skip (start + 1) (fin - 1) off row)
            else if nc then
              (if \<not> braced t start fin then Inl ''struct or array element not enclosed in {}''
               else sbind (pv (start + 1) (fin - 1)) (store row off))
            else sbind (pv start fin) (store row off))
      in sbind (dim_loop body (if ds \<noteq> [] then skip else 1) t stop d True unparsed off row)
           (\<lambda>(unparsed, row). if unparsed < stop then Inl ''excess data for array'' else Inr row))"

text \<open>
  A value that is an element of a sequence or stands alone: an array or a single element. \<open>pv\<close> is
  \<^verbatim>\<open>parseValue\<close>; a single element is the only one of its row.
\<close>

definition parse_into :: "vtype \<Rightarrow> (nat \<Rightarrow> nat \<Rightarrow> string + elem) \<Rightarrow> string \<Rightarrow> elem list \<Rightarrow> nat \<Rightarrow> nat \<Rightarrow> string + elem list" where
  "parse_into a pv t row start fin =
     (if m_arrayRank a \<noteq> 0
      then parseDimension (needsCommaDimension a) pv t (map unat (m_arrayDimensions a)) (unat (m_nItems a)) start fin 0 row
      else sbind (pv start fin) (store row 0))"

definition parseElement :: "vtype \<Rightarrow> (nat \<Rightarrow> nat \<Rightarrow> string + elem) \<Rightarrow> string \<Rightarrow> nat \<Rightarrow> nat \<Rightarrow> string + elem list" where
  "parseElement a pv t = parse_into a pv t (replicate (unat (m_nItems a)) (zero_elem (m_baseType a)))"

text \<open>
  The members of a structure by name. The members come with their parsers; the fuel bounds the
  passes of the loop, each of which consumes text.
\<close>

definition names_member :: "string \<Rightarrow> nat \<Rightarrow> string \<Rightarrow> bool" where
  "names_member t start nm \<longleftrightarrow>
     slice t start (start + length nm) = nm \<and> isspace (chr_at t (start + length nm))"

fun find_member :: "nat \<Rightarrow> (string \<times> 'm) list \<Rightarrow> string \<Rightarrow> nat \<Rightarrow> (nat \<times> string \<times> 'm) option" where
  "find_member n [] t start = None"
| "find_member n ((nm, m) # ms) t start =
     (if names_member t start nm then Some (n, nm, m) else find_member (n + 1) ms t start)"

definition member_text :: "string \<Rightarrow> nat \<Rightarrow> nat \<Rightarrow> bool \<Rightarrow> string + nat \<times> nat" where
  "member_text t start fin nc =
     (let start = start + length (takeWhile isspace (slice t start fin)) in
      if nc then
        (if \<not> braced t start fin then Inl ''struct member value needs be enclosed in {}''
         else Inr (start + 1, fin - 1))
      else Inr (start, fin))"

fun parseStruct :: "nat \<Rightarrow> (string \<times> bool \<times> (nat \<Rightarrow> nat \<Rightarrow> string + value)) list \<Rightarrow> string \<Rightarrow> nat \<Rightarrow> nat \<Rightarrow>
    value option list \<Rightarrow> string + value option list" where
  "parseStruct fuel ms t unparsed stop sv =
     (if \<not> unparsed < stop then Inr sv
      else case fuel of
        0 \<Rightarrow> Inl ''no progress''
      | Suc fuel \<Rightarrow>
          (case doElement t unparsed stop True of (_, unparsed, start, fin) \<Rightarrow>
             if start = fin then Inl ''empty member value in struct value''
             else case find_member 0 ms t start of
               None \<Rightarrow> Inl ''unknown member name in struct value''
             | Some (n, nm, nc, parse_m) \<Rightarrow>
                 if sv ! n \<noteq> None then Inl ''duplicate member name in struct value''
                 else sbind (member_text t (start + length nm) fin nc) (\<lambda>(start, fin).
                      sbind (parse_m start fin) (\<lambda>v.
                      parseStruct fuel ms t unparsed stop (sv[n := Some v])))))"

declare parseStruct.simps [simp del]

definition parseType :: "bool \<Rightarrow> (nat \<Rightarrow> nat \<Rightarrow> string + value) \<Rightarrow> string \<Rightarrow> nat \<Rightarrow> nat \<Rightarrow> string + value" where
  "parseType nc parse_t t unparsed stop =
     (if nc then
        (if \<not> braced t unparsed stop then Inl ''recursize type needs to be enclosed in {}''
         else parse_t (unparsed + 1) (stop - 1))
      else parse_t unparsed stop)"

text \<open>
  The number of elements of a sequence, by a first pass over its text. As above the fuel bounds the
  number of passes; the result also says whether the last element was empty.
\<close>

fun count_elements :: "nat \<Rightarrow> string \<Rightarrow> nat \<Rightarrow> nat \<Rightarrow> nat \<Rightarrow> string + nat \<times> bool" where
  "count_elements 0 t unparsed stop n = Inl ''no progress''"
| "count_elements (Suc fuel) t unparsed stop n =
     (case doElement t unparsed stop True of
        (Some err, _) \<Rightarrow> Inl err
      | (None, unparsed, start, fin) \<Rightarrow>
          let fin' = fin + length (takeWhile isspace (slice t fin unparsed)) in
          if fin' < stop then count_elements fuel t unparsed stop (n + 1)
          else Inr (n + 1, start = fin))"

definition sequence_count :: "string \<Rightarrow> nat \<Rightarrow> nat \<Rightarrow> string + nat" where
  "sequence_count t unparsed stop =
     sbind (count_elements (stop - unparsed + 1) t unparsed stop 0)
       (\<lambda>(n, empty). Inr (if n = 1 \<and> empty then 0 else n))"

definition too_many :: "vtype \<Rightarrow> nat \<Rightarrow> bool" where
  "too_many a n \<longleftrightarrow> m_isSequence a \<and> m_sequenceLength a \<noteq> 0 \<and> n > unat (m_sequenceLength a)"

fun parse_rows :: "vtype \<Rightarrow> (nat \<Rightarrow> nat \<Rightarrow> string + elem list) \<Rightarrow> string \<Rightarrow> nat \<Rightarrow> nat \<Rightarrow> nat \<Rightarrow> string + elem list list" where
  "parse_rows a pe t stop 0 unparsed = Inr []"
| "parse_rows a pe t stop (Suc n) unparsed =
     (case doElement t unparsed stop True of (_, unparsed, start, fin) \<Rightarrow>
        if needsCommaElement a \<and> \<not> braced t start fin then Inl ''sequence elements not enclosed in braces''
        else sbind (if needsCommaElement a then pe (start + 1) (fin - 1) else pe start fin) (\<lambda>row.
             sbind (parse_rows a pe t stop n unparsed) (\<lambda>rs. Inr (row # rs))))"

definition parse_whole :: "vtype \<Rightarrow> (nat \<Rightarrow> nat \<Rightarrow> string + elem) \<Rightarrow> string \<Rightarrow> nat \<Rightarrow> nat \<Rightarrow> string + value" where
  "parse_whole a pv t unparsed stop =
     (if m_isSequence a then
        sbind (sequence_count t unparsed stop) (\<lambda>n.
          if too_many a n then Inl ''Too many elements in bounded sequence''
          else sbind (parse_rows a (parseElement a pv t) t stop n unparsed) (\<lambda>rs. Inr (Value rs)))
      else sbind (parseElement a pv t unparsed stop) (\<lambda>row. Inr (Value [row])))"

text \<open>\<^verbatim>\<open>Value::parseValue\<close> and \<^verbatim>\<open>Value::parse\<close> by recursion over the type.\<close>

fun parse_member :: "float_ops \<Rightarrow> member \<Rightarrow> string \<Rightarrow> nat \<Rightarrow> nat \<Rightarrow> string + value" where
  "parse_member fl (Member a ms ty) t unparsed stop =
     parse_whole a (\<lambda>start fin.
       case m_baseType a of
         OCPI_Struct \<Rightarrow>
           sbind (parseStruct (fin - start)
                    (map (\<lambda>m. (m_name (attrs m), needsComma (attrs m), parse_member fl m t)) ms)
                    t start fin (replicate (length ms) None))
             (\<lambda>sv. Inr (EStruct sv))
       | OCPI_Type \<Rightarrow>
           (case ty of
              None \<Rightarrow> Inl ''null type''
            | Some m \<Rightarrow> sbind (parseType (needsComma (attrs m)) (parse_member fl m t) t start fin)
                          (\<lambda>v. Inr (EType (Some v))))
       | _ \<Rightarrow> parse_scalar fl a t start fin) t unparsed stop"

definition parse_value :: "float_ops \<Rightarrow> member \<Rightarrow> string \<Rightarrow> string + value" where
  "parse_value fl m t = parse_member fl m t 0 (length t)"

text \<open>
  The overloaded \<^verbatim>\<open>parse\<close> that adds one element to the sequence in a value: the assertions of
  \<^verbatim>\<open>parse\<close> and \<^verbatim>\<open>allocate\<close> refuse other types.
\<close>

definition parse_add :: "float_ops \<Rightarrow> vtype \<Rightarrow> value \<Rightarrow> string \<Rightarrow> string + value" where
  "parse_add fl a v t =
     (let pv = parse_scalar fl a t in
      if m_baseType a = OCPI_Struct \<or> m_baseType a = OCPI_Type \<or> m_baseType a = OCPI_String \<and> \<not> m_isSequence a
      then Inl ''assertion''
      else if m_isSequence a then
        (if too_many a (length (rows v) + 1) then Inl ''Too many elements in bounded sequence''
         else sbind (parseElement a pv t 0 (length t)) (\<lambda>row. Inr (Value (rows v @ [row]))))
      else sbind (parse_into a pv t (concat (rows v)) 0 (length t)) (\<lambda>row. Inr (Value [row])))"

subsection \<open>Printing\<close>

text \<open>Every printing routine returns the text it appends and whether the value is null (zero or empty).\<close>

definition octal_digits :: "nat \<Rightarrow> string" where
  "octal_digits v = [char_of (48 + (v div 64) mod 8), char_of (48 + (v div 8) mod 8), char_of (48 + v mod 8)]"

definition unparseChar :: "char \<Rightarrow> string \<times> bool" where
  "unparseChar c =
     ((if isprint c then
         (if c \<in> set [CHR 0x5C, CHR 0x22, CHR '' '', CHR '','', CHR ''}'', CHR ''{''] then [CHR 0x5C, c] else [c])
       else CHR 0x5C #
         (if c = CHR 0x0A then ''n''
          else if c = CHR 0x09 then ''t''
          else if c = CHR 0x0B then ''v''
          else if c = CHR 0x08 then ''b''
          else if c = CHR 0x0D then ''r''
          else if c = CHR 0x0C then ''f''
          else if c = CHR 0x07 then ''a''
          else octal_digits (code c))),
      c = CHR 0x00)"

definition unparseString :: "string option \<Rightarrow> string \<times> bool" where
  "unparseString s =
     (case s of
        None \<Rightarrow> ([CHR 0x22, CHR 0x22], True)
      | Some [] \<Rightarrow> ([CHR 0x22, CHR 0x22], True)
      | Some (c # cs) \<Rightarrow> (concat (map (\<lambda>c. fst (unparseChar c)) (c # cs)), False))"

text \<open>The zeros before an exponent are removed.\<close>

definition strip_zeros :: "string \<Rightarrow> string" where
  "strip_zeros s =
     (let m = takeWhile (\<lambda>c. c \<noteq> CHR ''e'' \<and> c \<noteq> CHR ''E'') s; e = drop (length m) s in
      if e = [] then s else rev (dropWhile (\<lambda>c. c = CHR ''0'') (rev m)) @ e)"

fun unparse_scalar :: "float_ops \<Rightarrow> vtype \<Rightarrow> elem \<Rightarrow> string \<times> bool" where
  "unparse_scalar fl a (EBool b) = (if b then ''true'' else ''false'', \<not> b)"
| "unparse_scalar fl a (EChar c) = unparseChar c"
| "unparse_scalar fl a (EInt i) = (print_int i, i = 0)"
| "unparse_scalar fl a (EDouble d) = (strip_zeros (fl_print_g fl d), d = 0)"
| "unparse_scalar fl a (EFloat f) = (strip_zeros (fl_print_g fl (fl_widen fl f)), f = 0)"
| "unparse_scalar fl a (EString s) = unparseString s"
| "unparse_scalar fl a (EEnum n) = (if n < length (m_enums a) then m_enums a ! n else [], n = 0)"
| "unparse_scalar fl a _ = ([], False)"

text \<open>
  The loop of \<^verbatim>\<open>unparseDimension\<close> over the texts of the entries: a run of null entries at the end is
  represented by its first one. The state is the text so far, the length up to the first entry of
  the run (0 for none), whether the previous entry was null, and whether all were.
\<close>

fun join_entries :: "char \<Rightarrow> bool \<Rightarrow> (string \<times> bool) list \<Rightarrow> string \<times> nat \<times> bool \<times> bool \<Rightarrow> string \<times> nat \<times> bool \<times> bool" where
  "join_entries comma first [] st = st"
| "join_entries comma first ((s, thisNull) # es) (v, len, prevNull, allNull) =
     (let v = (if first then v else v @ [comma]) @ s in
      join_entries comma False es
        (if thisNull then (v, if prevNull then len else length v, True, allNull) else (v, 0, False, False)))"

definition finish_entries :: "char \<Rightarrow> (string \<times> bool) list \<Rightarrow> string \<times> bool" where
  "finish_entries comma es =
     (case join_entries comma True es ([], 0, False, True) of (v, len, prevNull, allNull) \<Rightarrow>
        (if len \<noteq> 0 then take len v else v, allNull))"

definition in_braces :: "string \<Rightarrow> string" where
  "in_braces s = CHR ''{'' # s @ [CHR ''}'']"

fun unparseDimension :: "char \<Rightarrow> bool \<Rightarrow> (char \<Rightarrow> elem \<Rightarrow> string \<times> bool) \<Rightarrow> nat list \<Rightarrow> nat \<Rightarrow> elem list \<Rightarrow> nat \<Rightarrow> string \<times> bool" where
  "unparseDimension comma nc uv [] nItems row off = ([], True)"
| "unparseDimension comma nc uv (d # ds) nItems row off =
     (let skip = nItems div d in
      finish_entries comma
        (map (\<lambda>n.
           if ds \<noteq> [] then apfst in_braces (unparseDimension (CHR '','') nc uv ds skip row (off + n * skip))
           else if nc then apfst in_braces (uv comma (row ! (off + n)))
           else uv comma (row ! (off + n)))
         [0..<d]))"

definition unparseElement :: "vtype \<Rightarrow> (char \<Rightarrow> elem \<Rightarrow> string \<times> bool) \<Rightarrow> char \<Rightarrow> elem list \<Rightarrow> string" where
  "unparseElement a uv comma row =
     fst (if m_arrayRank a \<noteq> 0
          then unparseDimension comma (needsCommaDimension a) uv (map unat (m_arrayDimensions a)) (unat (m_nItems a)) row 0
          else uv comma (row ! 0))"

definition join :: "char \<Rightarrow> string list \<Rightarrow> string" where
  "join comma ss = (case ss of [] \<Rightarrow> [] | s # ss \<Rightarrow> s @ concat (map (\<lambda>s. comma # s) ss))"

definition unparse_whole :: "vtype \<Rightarrow> (char \<Rightarrow> elem \<Rightarrow> string \<times> bool) \<Rightarrow> char \<Rightarrow> value \<Rightarrow> string" where
  "unparse_whole a uv comma v =
     (if m_isSequence a
      then join comma (map (\<lambda>row. if needsCommaElement a then in_braces (unparseElement a uv comma row)
                                  else unparseElement a uv comma row) (rows v))
      else unparseElement a uv comma (hd (rows v)))"

definition unparseType :: "bool \<Rightarrow> (value \<Rightarrow> string) \<Rightarrow> value \<Rightarrow> string \<times> bool" where
  "unparseType nc unparse_t v = (if nc then in_braces (unparse_t v) else unparse_t v, False)"

text \<open>The members of a structure that have a value, with the printers of the members.\<close>

fun member_texts :: "(string \<times> bool \<times> (value \<Rightarrow> string)) list \<Rightarrow> value option list \<Rightarrow> string list" where
  "member_texts ((nm, nc, unparse_m) # ms) (Some v # vs) =
     (nm @ '' '' @ (if nc then in_braces (unparse_m v) else unparse_m v)) # member_texts ms vs"
| "member_texts (_ # ms) (None # vs) = member_texts ms vs"
| "member_texts _ _ = []"

definition unparseStruct :: "char \<Rightarrow> (string \<times> bool \<times> (value \<Rightarrow> string)) list \<Rightarrow> value option list \<Rightarrow> string \<times> bool" where
  "unparseStruct comma ms vs = (join comma (member_texts ms vs), member_texts ms vs = [])"

text \<open>\<^verbatim>\<open>Value::unparseValue\<close> and \<^verbatim>\<open>Value::unparse\<close> by recursion over the type.\<close>

fun unparse_member :: "float_ops \<Rightarrow> member \<Rightarrow> char \<Rightarrow> value \<Rightarrow> string" where
  "unparse_member fl (Member a ms ty) comma v =
     unparse_whole a (\<lambda>comma e.
       case e of
         EStruct vs \<Rightarrow>
           unparseStruct comma
             (map (\<lambda>m. (m_name (attrs m), needsComma (attrs m), unparse_member fl m (CHR '',''))) ms) vs
       | EType v \<Rightarrow>
           (case (ty, v) of
              (Some m, Some v) \<Rightarrow> unparseType (needsComma (attrs m)) (unparse_member fl m (CHR '','')) v
            | _ \<Rightarrow> ([], False))
       | _ \<Rightarrow> unparse_scalar fl a e) comma v"

definition unparse_value :: "float_ops \<Rightarrow> member \<Rightarrow> value \<Rightarrow> string" where
  "unparse_value fl m v = unparse_member fl m (CHR '','') v"

end
