(* ===== verification/ValueRoundtrip.thy ===== *)
theory ValueRoundtrip
  imports ValueText
begin

text \<open>
  Printing a property value and parsing the text gives the value back. The proof is built on
  texts that the scanner of elements passes over as a unit (\<open>passes\<close>), first for lists of such
  texts separated by commas, then for scalars, and last by induction over the type.
\<close>

subsection \<open>Texts that the scanner passes over\<close>

text \<open>
  Inside at least \<open>k\<close> braces the scanner moves over \<open>e\<close> and comes back to the same nesting; white
  space at the end of \<open>e\<close> is protected.
\<close>

definition passes :: "nat \<Rightarrow> string \<Rightarrow> bool" where
  "passes k e \<longleftrightarrow>
     (\<forall>rest pos nb lst. k \<le> nb \<longrightarrow> lst \<le> pos \<longrightarrow>
       (\<exists>lst'. scan_element True (e @ rest) pos nb lst = scan_element True rest (pos + length e) nb lst' \<and>
         lst' \<le> pos + length e \<and> (e \<noteq> [] \<and> isspace (last e) \<longrightarrow> lst' = pos + length e)))"

definition tight :: "string \<Rightarrow> bool" where
  "tight e \<longleftrightarrow> e \<noteq> [] \<and> \<not> isspace (hd e) \<and> passes 0 e"

lemma passesI:
  assumes "\<And>rest pos nb lst. k \<le> nb \<Longrightarrow> lst \<le> pos \<Longrightarrow>
    \<exists>lst'. scan_element True (e @ rest) pos nb lst = scan_element True rest (pos + length e) nb lst' \<and>
      lst' \<le> pos + length e \<and> (e \<noteq> [] \<and> isspace (last e) \<longrightarrow> lst' = pos + length e)"
  shows "passes k e"
  using assms by (simp add: passes_def)

lemma passesE:
  assumes "passes k e" "k \<le> nb" "lst \<le> pos"
  obtains lst' where "scan_element True (e @ rest) pos nb lst = scan_element True rest (pos + length e) nb lst'"
    "lst' \<le> pos + length e" "e \<noteq> [] \<and> isspace (last e) \<longrightarrow> lst' = pos + length e"
  using assms unfolding passes_def by blast

lemma passes_Nil [simp]: "passes k []"
  by (rule passesI) auto

lemma passes_mono: "passes k e \<Longrightarrow> k \<le> k' \<Longrightarrow> passes k' e"
  by (auto simp: passes_def)

lemma passes_append:
  assumes a: "passes k e" and b: "passes k f"
  shows "passes k (e @ f)"
proof (rule passesI)
  fix rest and pos nb lst :: nat
  assume h: "k \<le> nb" "lst \<le> pos"
  obtain l1 where l1: "scan_element True (e @ f @ rest) pos nb lst = scan_element True (f @ rest) (pos + length e) nb l1"
    "l1 \<le> pos + length e" "e \<noteq> [] \<and> isspace (last e) \<longrightarrow> l1 = pos + length e"
    by (rule passesE [OF a h])
  obtain l2 where l2: "scan_element True (f @ rest) (pos + length e) nb l1 = scan_element True rest (pos + length e + length f) nb l2"
    "l2 \<le> pos + length e + length f" "f \<noteq> [] \<and> isspace (last f) \<longrightarrow> l2 = pos + length e + length f"
    by (rule passesE [OF b h(1) l1(2)])
  show "\<exists>lst'. scan_element True ((e @ f) @ rest) pos nb lst = scan_element True rest (pos + length (e @ f)) nb lst' \<and>
      lst' \<le> pos + length (e @ f) \<and> (e @ f \<noteq> [] \<and> isspace (last (e @ f)) \<longrightarrow> lst' = pos + length (e @ f))"
  proof (cases "f = []")
    case True
    then show ?thesis using l1 by auto
  next
    case False
    then show ?thesis using l1 l2 by (auto simp: add.assoc)
  qed
qed

text \<open>A character without a meaning for the scanner.\<close>

definition plain :: "char \<Rightarrow> bool" where
  "plain c \<longleftrightarrow> c \<notin> set [CHR 0x00, CHR '','', CHR 0x5C, CHR ''{'', CHR ''}''] \<and> \<not> isspace c"

lemma passes_plain: "plain c \<Longrightarrow> passes 0 [c]"
  by (rule passesI) (auto simp: plain_def)

lemma passes_plains: "list_all plain s \<Longrightarrow> passes 0 s"
proof (induction s)
  case (Cons c s)
  then show ?case using passes_append [of 0 "[c]" s] by (simp add: passes_plain)
qed simp

lemma passes_escape: "passes 0 [CHR 0x5C, c]"
  by (rule passesI) auto

lemma passes_comma: "passes 1 [CHR '','']"
  by (rule passesI) (auto simp: isspace_def)

lemma passes_space: "passes k e \<Longrightarrow> e \<noteq> [] \<Longrightarrow> passes k (CHR '' '' # e)"
proof (rule passesI)
  fix rest and pos nb lst :: nat
  assume a: "passes k e" and h: "e \<noteq> []" "k \<le> nb" "lst \<le> pos"
  have "lst \<le> pos + 1" using h by simp
  from passesE [OF a h(2) this]
  obtain l where "scan_element True (e @ rest) (pos + 1) nb lst = scan_element True rest (pos + 1 + length e) nb l"
    "l \<le> pos + 1 + length e" "e \<noteq> [] \<and> isspace (last e) \<longrightarrow> l = pos + 1 + length e" .
  then show "\<exists>lst'. scan_element True ((CHR '' '' # e) @ rest) pos nb lst =
        scan_element True rest (pos + length (CHR '' '' # e)) nb lst' \<and>
      lst' \<le> pos + length (CHR '' '' # e) \<and>
      (CHR '' '' # e \<noteq> [] \<and> isspace (last (CHR '' '' # e)) \<longrightarrow> lst' = pos + length (CHR '' '' # e))"
    using h by auto
qed

lemma passes_in_braces:
  assumes a: "passes 1 e"
  shows "passes 0 (in_braces e)"
proof (rule passesI)
  fix rest and pos nb lst :: nat
  assume h: "lst \<le> pos"
  have "1 \<le> nb + 1" "lst \<le> pos + 1" using h by simp_all
  from passesE [OF a this]
  obtain l where l: "scan_element True (e @ CHR ''}'' # rest) (pos + 1) (nb + 1) lst =
      scan_element True (CHR ''}'' # rest) (pos + 1 + length e) (nb + 1) l" "l \<le> pos + 1 + length e" by metis
  show "\<exists>lst'. scan_element True (in_braces e @ rest) pos nb lst =
        scan_element True rest (pos + length (in_braces e)) nb lst' \<and>
      lst' \<le> pos + length (in_braces e) \<and>
      (in_braces e \<noteq> [] \<and> isspace (last (in_braces e)) \<longrightarrow> lst' = pos + length (in_braces e))"
    using l by (intro exI [of _ l]) (auto simp: in_braces_def isspace_def)
qed

lemma tight_in_braces: "passes 1 e \<Longrightarrow> tight (in_braces e)"
  by (simp add: tight_def passes_in_braces) (simp add: in_braces_def isspace_def)

lemma passes_join: "list_all tight ss \<Longrightarrow> passes 1 (join (CHR '','') ss)"
proof -
  have c: "list_all tight ss \<Longrightarrow> passes 1 (concat (map (\<lambda>s. CHR '','' # s) ss))" for ss
  proof (induction ss)
    case (Cons s ss)
    then have "passes 1 ([CHR '',''] @ s)"
      by (intro passes_append passes_comma) (auto simp: tight_def intro: passes_mono)
    then show ?case using Cons passes_append [of 1 "CHR '','' # s"] by simp
  qed simp
  show "list_all tight ss \<Longrightarrow> passes 1 (join (CHR '','') ss)"
    using c by (cases ss) (auto simp: join_def tight_def intro: passes_append passes_mono)
qed

subsection \<open>Positions in a text\<close>

lemma slice_mid [simp]: "slice (pre @ e @ post) (length pre) (length pre + length e) = e"
  by (simp add: slice_def)

lemma chr_at_mid: "i < length e \<Longrightarrow> chr_at (pre @ e @ post) (length pre + i) = e ! i"
  by (simp add: chr_at_def nth_append)

lemma chr_at_after: "chr_at (pre @ e @ post) (length pre + length e) = (if post = [] then CHR 0x00 else hd post)"
  by (simp add: chr_at_def nth_append hd_conv_nth)

lemma trim_end_stop: "e \<le> lst \<or> \<not> isspace (chr_at t (e - 1)) \<Longrightarrow> trim_end t lst e = e"
  by (cases e) auto

lemma takeWhile_tight: "tight e \<Longrightarrow> takeWhile isspace (e @ r) = []"
  by (cases e) (auto simp: tight_def)

lemma doElement_tight:
  assumes e: "tight e" and t: "t = pre @ e @ post" and s: "length pre + length e \<le> stop"
    and r: "slice t (length pre + length e) stop = [] \<and> stop = length pre + length e \<or>
            slice t (length pre + length e) stop \<noteq> [] \<and> hd (slice t (length pre + length e) stop) = CHR '',''"
  shows "doElement t (length pre) stop True =
    (None, length pre + length e + (if stop = length pre + length e then 0 else 1), length pre, length pre + length e)"
proof -
  let ?r = "slice t (length pre + length e) stop"
  have sl: "slice t (length pre) stop = e @ ?r"
    using s by (simp add: t slice_def take_append)
  have tw: "takeWhile isspace (slice t (length pre) stop) = []"
    unfolding sl by (rule takeWhile_tight [OF e])
  have p0: "passes 0 e" using e by (simp add: tight_def)
  obtain l where l: "scan_element True (e @ ?r) (length pre) 0 (length pre) = scan_element True ?r (length pre + length e) 0 l"
    "l \<le> length pre + length e" "e \<noteq> [] \<and> isspace (last e) \<longrightarrow> l = length pre + length e"
    by (rule passesE [OF p0, where rest = ?r and nb = 0 and lst = "length pre" and pos = "length pre"]) auto
  have ne: "e \<noteq> []" using e by (simp add: tight_def)
  have "chr_at t (length pre + length e - 1) = last e"
    using chr_at_mid [of "length e - 1" e pre post] ne
    by (simp add: t last_conv_nth Nat.add_diff_assoc [of 1 "length e" "length pre"] Suc_le_eq)
  then have tr: "trim_end t l (length pre + length e) = length pre + length e"
    using l(2,3) ne by (intro trim_end_stop) auto
  have d: "doElement t (length pre) stop True =
      (case scan_element True ?r (length pre + length e) 0 l of
        (Some err, pos, fin, lst) \<Rightarrow> (Some err, pos, length pre, stop)
      | (None, pos, fin, lst) \<Rightarrow>
          (None, pos, length pre, trim_end t lst (case fin of None \<Rightarrow> stop | Some e \<Rightarrow> e)))"
    unfolding doElement_def Let_def tw list.size add_0_right
    unfolding sl l(1) by (rule refl)
  show ?thesis
  proof (cases "?r = []")
    case True
    then have st: "stop = length pre + length e" using r by auto
    have "doElement t (length pre) stop True = (None, stop, length pre, trim_end t l stop)"
      unfolding d using True st by simp
    then show ?thesis using tr st by simp
  next
    case False
    then obtain rs where rs: "?r = CHR '','' # rs" using r by (cases ?r) auto
    then have ns: "stop \<noteq> length pre + length e" by (auto simp: slice_def)
    have "scan_element True ?r (length pre + length e) 0 l = (None, length pre + length e + 1, Some (length pre + length e), l)"
      by (simp add: rs)
    then have "doElement t (length pre) stop True =
        (None, length pre + length e + 1, length pre, trim_end t l (length pre + length e))"
      unfolding d by simp
    then show ?thesis using tr ns by simp
  qed
qed

lemma join_Cons: "join c (s # ss) = s @ (if ss = [] then [] else c # join c ss)"
  by (cases ss) (simp_all add: join_def)

lemma join_Nil [simp]: "join c [] = []"
  by (simp add: join_def)

text \<open>One step over a list of texts: the position after the first of them and its comma.\<close>

lemma doElement_join:
  assumes "tight s" and t: "t = pre @ join (CHR '','') (s # ss) @ post"
  shows "doElement t (length pre) (length pre + length (join (CHR '','') (s # ss))) True =
    (None, length pre + length s + (if ss = [] then 0 else 1), length pre, length pre + length s)"
proof -
  let ?stop = "length pre + length (join (CHR '','') (s # ss))"
  show ?thesis
  proof (cases "ss = []")
    case True
    then show ?thesis using doElement_tight [OF assms(1), of t pre post ?stop] t
      by (simp add: join_Cons slice_def)
  next
    case False
    let ?post = "CHR '','' # join (CHR '','') ss @ post"
    have t': "t = pre @ s @ ?post" using t False by (simp add: join_Cons)
    have "slice t (length pre + length s) ?stop = CHR '','' # join (CHR '','') ss"
      using False by (simp add: t' slice_def join_Cons)
    then show ?thesis using doElement_tight [OF assms(1) t', of ?stop] False
      by (simp add: join_Cons)
  qed
qed

lemma doElement_end [simp]: "doElement t u u True = (None, u, u, u)"
proof -
  have "trim_end t u u = u" by (rule trim_end_stop) simp
  then show ?thesis by (simp add: doElement_def slice_def)
qed

text \<open>The text of the elements after the first one.\<close>

lemma join_split:
  assumes "t = pre @ join c (s # ss) @ post" "ss \<noteq> []"
  shows "t = (pre @ s @ [c]) @ join c ss @ post"
    "length pre + length s + 1 = length (pre @ s @ [c])"
    "length pre + length (join c (s # ss)) = length (pre @ s @ [c]) + length (join c ss)"
  using assms by (simp_all add: join_Cons)

subsection \<open>Values up to null pointers\<close>

text \<open>
  A null string and an empty one, and a null structure and one without members, print alike and
  are identified.
\<close>

fun canon_elem :: "elem \<Rightarrow> elem" and canon :: "value \<Rightarrow> value" where
  "canon_elem (EString None) = EString (Some [])"
| "canon_elem (EStruct vs) =
     (if list_all (\<lambda>v. v = None) vs then EStruct [] else EStruct (map (map_option canon) vs))"
| "canon_elem (EType v) = EType (map_option canon v)"
| "canon_elem e = e"
| "canon (Value rs) = Value (map (map canon_elem) rs)"

text \<open>What may follow the text of an element.\<close>

definition delim :: "string \<Rightarrow> bool" where
  "delim post \<longleftrightarrow> post = [] \<or> hd post = CHR '','' \<or> hd post = CHR ''}''"

lemma delim_simps [simp]: "delim []" "delim (CHR '','' # s)" "delim (CHR ''}'' # s)"
  by (simp_all add: delim_def)

subsection \<open>Null entries at the end of an array\<close>

lemma join_snoc: "join c (ss @ [s]) = (if ss = [] then [] else join c ss @ [c]) @ s"
  by (cases ss) (auto simp: join_def)

lemma join_take: "take (length (join c (take k ss))) (join c ss) = join c (take k ss)"
proof (induction ss arbitrary: k)
  case (Cons s ss)
  show ?case
  proof (cases k)
    case (Suc j)
    then show ?thesis using Cons [of j] by (cases "take j ss = []") (auto simp: join_Cons)
  qed simp
qed simp

definition entries_inv :: "(string \<times> bool) list \<Rightarrow> string \<times> nat \<times> bool \<times> bool \<Rightarrow> bool" where
  "entries_inv es st = (case st of (v, len, prevNull, allNull) \<Rightarrow>
     v = join (CHR '','') (map fst es) \<and> allNull = list_all snd es \<and>
     (if prevNull then
        \<exists>k. 0 < k \<and> k \<le> length es \<and> len = length (join (CHR '','') (map fst (take k es))) \<and> list_all snd (drop k es)
      else len = 0))"

lemma join_entries_inv:
  "entries_inv es0 st \<Longrightarrow> entries_inv (es0 @ es) (join_entries (CHR '','') (es0 = []) es st)"
proof (induction es arbitrary: es0 st)
  case (Cons e es)
  obtain s n v len p al where e: "e = (s, n)" and st: "st = (v, len, p, al)" by (metis surj_pair)
  let ?v = "(if es0 = [] then v else v @ [CHR '','']) @ s"
  let ?st = "if n then (?v, if p then len else length ?v, True, al) else (?v, 0, False, False)"
  have v: "?v = join (CHR '','') (map fst (es0 @ [e]))"
    using Cons.prems by (auto simp: entries_inv_def st e join_snoc)
  have "entries_inv (es0 @ [e]) ?st"
  proof (cases n)
    case True
    show ?thesis
    proof (cases p)
      case True
      then obtain k where k: "0 < k" "k \<le> length es0" "len = length (join (CHR '','') (map fst (take k es0)))"
        "list_all snd (drop k es0)" using Cons.prems by (auto simp: entries_inv_def st)
      then show ?thesis using \<open>n\<close> True v Cons.prems by (auto simp: entries_inv_def st e intro!: exI [of _ k])
    next
      case False
      then show ?thesis using \<open>n\<close> v Cons.prems
        by (auto simp: entries_inv_def st e intro!: exI [of _ "Suc (length es0)"])
    qed
  next
    case False
    then show ?thesis using v Cons.prems by (auto simp: entries_inv_def st e)
  qed
  from Cons.IH [OF this] show ?case by (simp add: e st Let_def)
qed simp

lemma finish_entries_kept:
  assumes "list_all (\<lambda>e. tight (fst e)) es" "es \<noteq> []"
  shows "\<exists>k. 0 < k \<and> k \<le> length es \<and>
    finish_entries (CHR '','') es = (join (CHR '','') (map fst (take k es)), list_all snd es) \<and>
    list_all snd (drop k es)"
proof -
  obtain v len p al where st: "join_entries (CHR '','') True es ([], 0, False, True) = (v, len, p, al)"
    by (metis surj_pair)
  have i: "entries_inv es (v, len, p, al)"
    using join_entries_inv [of "[]" "([], 0, False, True)" es] st by (simp add: entries_inv_def)
  show ?thesis
  proof (cases p)
    case True
    then obtain k where k: "0 < k" "k \<le> length es" "len = length (join (CHR '','') (map fst (take k es)))"
      "list_all snd (drop k es)" using i by (auto simp: entries_inv_def)
    have "len \<noteq> 0" using k(1,3) assms by (cases es; cases k) (auto simp: join_Cons tight_def)
    then show ?thesis using i k join_take [of "CHR '',''" k "map fst es"]
      by (intro exI [of _ k]) (auto simp: finish_entries_def st entries_inv_def take_map)
  next
    case False
    then show ?thesis using i assms(2)
      by (intro exI [of _ "length es"]) (auto simp: finish_entries_def st entries_inv_def)
  qed
qed

subsection \<open>The loop over the entries of a dimension\<close>

text \<open>\<open>I n row\<close> holds when the first \<open>n\<close> entries have been read into the row.\<close>

lemma dim_loop_reads:
  assumes "list_all tight ss" "length ss \<le> d" "ss = [] \<Longrightarrow> \<not> first"
    and "t = pre @ join (CHR '','') ss @ post" "stop = length pre + length (join (CHR '','') ss)" "delim post"
    and "I n row"
    and "\<And>i pre post row. i < length ss \<Longrightarrow> t = pre @ (ss ! i) @ post \<Longrightarrow> delim post \<Longrightarrow> I (n + i) row \<Longrightarrow>
      \<exists>row'. body (length pre) (length pre + length (ss ! i)) (off + i * step) row = Inr row' \<and> I (n + i + 1) row'"
  shows "\<exists>row'. dim_loop body step t stop d first (length pre) off row = Inr (stop, row') \<and> I (n + length ss) row'"
  using assms
proof (induction ss arbitrary: d first pre off row n)
  case Nil
  then show ?case by (cases d) auto
next
  case (Cons s ss)
  then obtain d' where d: "d = Suc d'" by (cases d) auto
  let ?post = "if ss = [] then post else CHR '','' # join (CHR '','') ss @ post"
  have t: "t = pre @ s @ ?post" using Cons.prems(4) by (auto simp: join_Cons)
  have dp: "delim ?post" using Cons.prems(6) by simp
  have ts: "tight s" "s \<noteq> []" using Cons.prems(1) by (auto simp: tight_def)
  have de: "doElement t (length pre) stop True =
      (None, length pre + length s + (if ss = [] then 0 else 1), length pre, length pre + length s)"
    unfolding Cons.prems(5) by (rule doElement_join [OF ts(1) Cons.prems(4)])
  from Cons.prems(8) [of 0 pre ?post row] t dp Cons.prems(7)
  obtain row1 where r1: "body (length pre) (length pre + length s) off row = Inr row1" "I (n + 1) row1" by auto
  let ?pre = "if ss = [] then pre @ s else pre @ s @ [CHR '','']"
  have t2: "t = ?pre @ join (CHR '','') ss @ post" using Cons.prems(4) by (auto simp: join_Cons)
  have s2: "stop = length ?pre + length (join (CHR '','') ss)" using Cons.prems(5) by (auto simp: join_Cons)
  have bd: "\<exists>row'. body (length pre) (length pre + length (ss ! i)) (off + step + i * step) row = Inr row' \<and> I (n + 1 + i + 1) row'"
    if h: "i < length ss" "t = pre @ ss ! i @ post" "delim post" "I (n + 1 + i) row" for i pre post row
    using Cons.prems(8) [of "Suc i" pre post row] h by (simp add: add.assoc)
  have l2: "list_all tight ss" "length ss \<le> d'" using Cons.prems(1,2) d by simp_all
  from Cons.IH [OF l2 _ t2 s2 Cons.prems(6) r1(2), where off = "off + step" and first = False] bd
  obtain row2 where "dim_loop body step t stop d' False (length ?pre) (off + step) row1 = Inr (stop, row2)"
    "I (n + 1 + length ss) row2" by auto
  then show ?case using r1 ts(2) by (cases "ss = []") (auto simp: d de)
qed

subsection \<open>Texts of elements\<close>

lemma braced_mid:
  assumes "t = pre @ in_braces s @ post"
  shows "braced t (length pre) (length pre + length (in_braces s))"
    "t = (pre @ [CHR ''{'']) @ s @ (CHR ''}'' # post)"
    "length pre + 1 = length (pre @ [CHR ''{''])"
    "length pre + length (in_braces s) - 1 = length (pre @ [CHR ''{'']) + length s"
  using assms by (auto simp: braced_def chr_at_def in_braces_def nth_append)

text \<open>
  The contract between printing and parsing single elements of a type: the text of an element is a
  unit for the scanner (inside braces where the type asks for them), parsing it gives the element
  back wherever it stands, and an element that prints as null is like a new one.
\<close>

locale element_text =
  fixes wrap :: bool
    and uv :: "char \<Rightarrow> elem \<Rightarrow> string \<times> bool"
    and pv :: "string \<Rightarrow> nat \<Rightarrow> nat \<Rightarrow> string + elem"
    and zero :: elem
    and ok :: "elem \<Rightarrow> bool"
  assumes text_form: "ok e \<Longrightarrow> if wrap then passes 1 (fst (uv (CHR '','') e)) else tight (fst (uv (CHR '','') e))"
    and text_read: "ok e \<Longrightarrow> delim post \<Longrightarrow> t = pre @ fst (uv (CHR '','') e) @ post \<Longrightarrow>
      \<exists>e'. pv t (length pre) (length pre + length (fst (uv (CHR '','') e))) = Inr e' \<and> canon_elem e' = canon_elem e"
    and text_null: "ok e \<Longrightarrow> snd (uv (CHR '','') e) \<Longrightarrow> canon_elem e = canon_elem zero"
begin

definition row_ok :: "elem list \<Rightarrow> nat \<Rightarrow> nat \<Rightarrow> bool" where
  "row_ok row off n \<longleftrightarrow> off + n \<le> length row \<and> (\<forall>i<n. ok (row ! (off + i)))"

text \<open>A row after \<open>n\<close> elements from the offset have been read.\<close>

definition filled :: "elem list \<Rightarrow> elem list \<Rightarrow> nat \<Rightarrow> nat \<Rightarrow> elem list \<Rightarrow> bool" where
  "filled row0 row off n row' \<longleftrightarrow>
     length row' = length row0 \<and>
     (\<forall>i<n. canon_elem (row' ! (off + i)) = canon_elem (row ! (off + i))) \<and>
     (\<forall>j<length row0. j < off \<or> off + n \<le> j \<longrightarrow> row' ! j = row0 ! j)"

definition block_text :: "nat list \<Rightarrow> elem list \<Rightarrow> nat \<Rightarrow> string \<times> bool \<Rightarrow> bool" where
  "block_text ds row off sn \<longleftrightarrow>
     passes 1 (fst sn) \<and>
     (snd sn \<longrightarrow> (\<forall>i<prod_list ds. canon_elem (row ! (off + i)) = canon_elem zero)) \<and>
     (\<forall>pre post row0 t. t = pre @ fst sn @ post \<longrightarrow> delim post \<longrightarrow> length row0 = length row \<longrightarrow>
       (\<forall>i<prod_list ds. row0 ! (off + i) = zero) \<longrightarrow>
       (\<exists>row'. parseDimension wrap (pv t) t ds (prod_list ds) (length pre) (length pre + length (fst sn)) off row0 = Inr row' \<and>
         filled row0 row off (prod_list ds) row'))"

lemma block_textD:
  assumes "block_text ds row off sn" "t = pre @ fst sn @ post" "delim post" "length row0 = length row"
    "\<forall>i<prod_list ds. row0 ! (off + i) = zero"
  shows "\<exists>row'. parseDimension wrap (pv t) t ds (prod_list ds) (length pre) (length pre + length (fst sn)) off row0 = Inr row' \<and>
    filled row0 row off (prod_list ds) row'"
  using assms unfolding block_text_def by blast

text \<open>The text of one entry of the outermost dimension, and what reading it does.\<close>

definition entry :: "nat list \<Rightarrow> elem list \<Rightarrow> nat \<Rightarrow> string \<times> bool" where
  "entry ds row off =
     (if ds \<noteq> [] then apfst in_braces (unparseDimension (CHR '','') wrap uv ds (prod_list ds) row off)
      else if wrap then apfst in_braces (uv (CHR '','') (row ! off))
      else uv (CHR '','') (row ! off))"

definition entry_body :: "nat list \<Rightarrow> string \<Rightarrow> nat \<Rightarrow> nat \<Rightarrow> nat \<Rightarrow> elem list \<Rightarrow> string + elem list" where
  "entry_body ds t = (\<lambda>start fin off row.
     if ds \<noteq> [] then
       (if start = fin \<or> \<not> braced t start fin then Inl ''array elements not enclosed in {}''
        else parseDimension wrap (pv t) t ds (prod_list ds) (start + 1) (fin - 1) off row)
     else if wrap then
       (if \<not> braced t start fin then Inl ''struct or array element not enclosed in {}''
        else sbind (pv t (start + 1) (fin - 1)) (store row off))
     else sbind (pv t start fin) (store row off))"

lemma store_filled:
  assumes "off < length row0" "canon_elem e' = canon_elem (row ! off)"
  shows "\<exists>row'. store row0 off e' = Inr row' \<and> filled row0 row off 1 row'"
  using assms by (auto simp: store_def filled_def nth_list_update)

lemma entry_read:
  assumes ok: "row_ok row off (prod_list ds)"
    and ind: "ds \<noteq> [] \<Longrightarrow> block_text ds row off (unparseDimension (CHR '','') wrap uv ds (prod_list ds) row off)"
    and t: "t = pre @ fst (entry ds row off) @ post" and d: "delim post" and l: "length row0 = length row"
    and z: "\<forall>i<prod_list ds. row0 ! (off + i) = zero"
  shows "\<exists>row'. entry_body ds t (length pre) (length pre + length (fst (entry ds row off))) off row0 = Inr row' \<and>
    filled row0 row off (prod_list ds) row'"
proof (cases "ds = []")
  case False
  let ?sn = "unparseDimension (CHR '','') wrap uv ds (prod_list ds) row off"
  have t': "t = pre @ in_braces (fst ?sn) @ post" using t False by (simp add: entry_def)
  note b = braced_mid [OF t']
  have ne: "in_braces (fst ?sn) \<noteq> []" by (simp add: in_braces_def)
  have "\<exists>row'. parseDimension wrap (pv t) t ds (prod_list ds) (length pre + 1)
      (length pre + length (in_braces (fst ?sn)) - 1) off row0 = Inr row' \<and> filled row0 row off (prod_list ds) row'"
    unfolding b(3,4) by (rule block_textD [OF ind [OF False] b(2) _ l z]) simp
  then show ?thesis using False b(1) ne by (simp add: entry_body_def entry_def)
next
  case True
  then have o: "ok (row ! off)" "off < length row0" using ok l by (auto simp: row_ok_def)
  let ?s = "fst (uv (CHR '','') (row ! off))"
  show ?thesis
  proof (cases wrap)
    case w: True
    have en: "fst (entry ds row off) = in_braces ?s" unfolding entry_def using True w by simp
    have t': "t = pre @ in_braces ?s @ post" using t en by simp
    note b = braced_mid [OF t']
    from text_read [OF o(1) _ b(2)] obtain e' where
      "pv t (length pre + 1) (length pre + length (in_braces ?s) - 1) = Inr e'" "canon_elem e' = canon_elem (row ! off)"
      unfolding b(3,4) by auto
    then show ?thesis unfolding en entry_body_def using store_filled [OF o(2)] True w b(1) by simp
  next
    case w: False
    have en: "fst (entry ds row off) = ?s" unfolding entry_def using True w by simp
    have t': "t = pre @ ?s @ post" using t en by simp
    from text_read [OF o(1) d t'] obtain e' where
      "pv t (length pre) (length pre + length ?s) = Inr e'" "canon_elem e' = canon_elem (row ! off)" by auto
    then show ?thesis unfolding en entry_body_def using store_filled [OF o(2)] True w by simp
  qed
qed

lemma entry_form:
  assumes ok: "row_ok row off (prod_list ds)"
    and ind: "ds \<noteq> [] \<Longrightarrow> block_text ds row off (unparseDimension (CHR '','') wrap uv ds (prod_list ds) row off)"
  shows "tight (fst (entry ds row off))"
    "snd (entry ds row off) \<Longrightarrow> i < prod_list ds \<Longrightarrow> canon_elem (row ! (off + i)) = canon_elem zero"
proof -
  show "tight (fst (entry ds row off))"
  proof (cases "ds = []")
    case True
    then have "ok (row ! off)" using ok by (auto simp: row_ok_def)
    from text_form [OF this] show ?thesis using True by (auto simp: entry_def intro: tight_in_braces split: if_splits)
  next
    case False
    then show ?thesis using ind by (auto simp: entry_def block_text_def intro: tight_in_braces)
  qed
  assume n: "snd (entry ds row off)" "i < prod_list ds"
  show "canon_elem (row ! (off + i)) = canon_elem zero"
  proof (cases "ds = []")
    case True
    then have "ok (row ! off)" using ok by (auto simp: row_ok_def)
    from text_null [OF this] show ?thesis using True n by (auto simp: entry_def split: if_splits)
  next
    case False
    then show ?thesis using ind n by (auto simp: entry_def block_text_def)
  qed
qed

end

context element_text
begin

lemma filled_step:
  assumes a: "filled row0 row off n row1" and b: "filled row1 row (off + n) m row2" and l: "off + n + m \<le> length row0"
  shows "filled row0 row off (n + m) row2"
proof -
  have c: "canon_elem (row2 ! (off + i)) = canon_elem (row ! (off + i))" if i: "i < n + m" for i
  proof (cases "i < n")
    case True
    then show ?thesis using a b l by (simp add: filled_def)
  next
    case False
    then obtain j where "i = n + j" "j < m" using i by (metis add_less_cancel_left le_Suc_ex not_less)
    then show ?thesis using b by (simp add: filled_def add.assoc [symmetric])
  qed
  have "row2 ! j = row0 ! j" if "j < length row0" "j < off \<or> off + (n + m) \<le> j" for j
    using a b that by (auto simp: filled_def)
  then show ?thesis using a b c by (simp add: filled_def)
qed

lemma filled_nulls:
  assumes "filled row0 row off n row1" "n \<le> m" "off + m \<le> length row0"
    "\<forall>i<m. row0 ! (off + i) = zero" "\<And>i. n \<le> i \<Longrightarrow> i < m \<Longrightarrow> canon_elem (row ! (off + i)) = canon_elem zero"
  shows "filled row0 row off m row1"
proof -
  have "canon_elem (row1 ! (off + i)) = canon_elem (row ! (off + i))" if "i < m" for i
    using assms that by (cases "i < n") (auto simp: filled_def)
  then show ?thesis using assms(1,2) by (auto simp: filled_def)
qed

lemma row_ok_block:
  assumes "row_ok row off (d * p)" "n < d"
  shows "row_ok row (off + n * p) p"
proof -
  have "n * p + p \<le> d * p" using assms(2) mult_le_mono1 [of "Suc n" d p] by simp
  then show ?thesis using assms(1) by (auto simp: row_ok_def add.assoc)
qed

lemma unparseDimension_entries:
  assumes "0 < d"
  shows "unparseDimension (CHR '','') wrap uv (d # ds) (prod_list (d # ds)) row off =
    finish_entries (CHR '','') (map (\<lambda>n. entry ds row (off + n * prod_list ds)) [0..<d])"
  using assms by (cases "ds = []") (simp_all add: entry_def Let_def)

lemma parseDimension_entries:
  assumes "0 < d"
  shows "parseDimension wrap (pv t) t (d # ds) (prod_list (d # ds)) u stop off row0 =
    sbind (dim_loop (entry_body ds t) (prod_list ds) t stop d True u off row0)
      (\<lambda>(u, row). if u < stop then Inl ''excess data for array'' else Inr row)"
  using assms by (cases "ds = []") (simp_all add: entry_body_def Let_def)

lemma unparse_block:
  "ds \<noteq> [] \<Longrightarrow> list_all (\<lambda>d. 0 < d) ds \<Longrightarrow> row_ok row off (prod_list ds) \<Longrightarrow>
   block_text ds row off (unparseDimension (CHR '','') wrap uv ds (prod_list ds) row off)"
proof (induction ds arbitrary: off)
  case (Cons d ds)
  let ?p = "prod_list ds"
  let ?e = "\<lambda>n. entry ds row (off + n * ?p)"
  let ?es = "map ?e [0..<d]"
  have d: "0 < d" using Cons.prems(2) by simp
  have ok: "row_ok row (off + n * ?p) ?p" if "n < d" for n
    using row_ok_block [OF _ that] Cons.prems(3) by simp
  have ind: "block_text ds row (off + n * ?p) (unparseDimension (CHR '','') wrap uv ds ?p row (off + n * ?p))"
    if "n < d" "ds \<noteq> []" for n
    using Cons.IH [OF that(2) _ ok [OF that(1)]] Cons.prems(2) by simp
  have form: "tight (fst (?e n))" if "n < d" for n by (rule entry_form(1) [OF ok [OF that] ind [OF that]])
  have null: "canon_elem (row ! (off + n * ?p + i)) = canon_elem zero" if "n < d" "snd (?e n)" "i < ?p" for n i
    using entry_form(2) [OF ok [OF that(1)] ind [OF that(1)] that(2,3)] .
  have null': "canon_elem (row ! (off + i)) = canon_elem zero"
    if i: "n * ?p \<le> i" "i < d * ?p" and a: "\<And>m. n \<le> m \<Longrightarrow> m < d \<Longrightarrow> snd (?e m)" for n i
  proof -
    have p: "0 < ?p" using i(2) by (cases "?p = 0") auto
    have "i div ?p < d" "n \<le> i div ?p" "i mod ?p < ?p" using i p by (auto simp: less_mult_imp_div_less div_le_mono less_eq_div_iff_mult_less_eq)
    from null [OF this(1) a [OF this(2,1)] this(3)] show ?thesis by (simp add: add.assoc)
  qed
  have "list_all (\<lambda>e. tight (fst e)) ?es" "?es \<noteq> []" using form d by (auto simp: list_all_iff)
  from finish_entries_kept [OF this] obtain k where k: "0 < k" "k \<le> d"
    "finish_entries (CHR '','') ?es = (join (CHR '','') (map fst (take k ?es)), list_all snd ?es)"
    "list_all snd (drop k ?es)" by auto
  let ?ss = "map fst (take k ?es)"
  have ss: "list_all tight ?ss" "length ?ss = k" "?ss \<noteq> []" using form k d
    by (auto simp: list_all_iff set_conv_nth)
  have ssn: "?ss ! i = fst (?e i)" if "i < k" for i using that k(2) by simp
  have sn: "unparseDimension (CHR '','') wrap uv (d # ds) (prod_list (d # ds)) row off =
      (join (CHR '','') ?ss, list_all snd ?es)"
    using unparseDimension_entries [OF d] k(3) by simp
  show ?case unfolding sn block_text_def fst_conv snd_conv
  proof (intro conjI impI allI)
    show "passes 1 (join (CHR '','') ?ss)" by (rule passes_join [OF ss(1)])
    show "canon_elem (row ! (off + i)) = canon_elem zero" if "list_all snd ?es" "i < prod_list (d # ds)" for i
      using null' [of 0 i] that by (auto simp: list_all_iff)
  next
    fix pre post row0 t
    assume t: "t = pre @ join (CHR '','') ?ss @ post" and dp: "delim post" and l: "length row0 = length row"
      and z: "\<forall>i<prod_list (d # ds). row0 ! (off + i) = zero"
    let ?stop = "length pre + length (join (CHR '','') ?ss)"
    have len: "off + d * ?p \<le> length row0" using Cons.prems(3) l by (simp add: row_ok_def)
    have body: "\<exists>row'. entry_body ds t (length pre) (length pre + length (?ss ! i)) (off + i * ?p) row1 = Inr row' \<and>
        filled row0 row off ((0 + i + 1) * ?p) row'"
      if h: "i < length ?ss" "t = pre @ ?ss ! i @ post" "delim post" "filled row0 row off ((0 + i) * ?p) row1" for i pre post row1
    proof -
      have i: "i < d" "i < k" using h(1) ss(2) k(2) by simp_all
      have b: "off + i * ?p + ?p \<le> length row0" using len mult_le_mono1 [of "Suc i" d ?p] i by simp
      have z1: "\<forall>j<?p. row1 ! (off + i * ?p + j) = zero"
      proof (intro allI impI)
        fix j assume j: "j < ?p"
        have "i * ?p + j < d * ?p" using j i(1) mult_le_mono1 [of "Suc i" d ?p] by simp
        moreover have "row1 ! (off + i * ?p + j) = row0 ! (off + i * ?p + j)"
          using h(4) b j by (simp add: filled_def)
        ultimately show "row1 ! (off + i * ?p + j) = zero" using z by (simp add: add.assoc)
      qed
      have l1: "length row1 = length row" using h(4) l by (simp add: filled_def)
      from entry_read [OF ok [OF i(1)] ind [OF i(1)] _ h(3) l1 z1] h(2) ssn [OF i(2)]
      obtain row' where r: "entry_body ds t (length pre) (length pre + length (?ss ! i)) (off + i * ?p) row1 = Inr row'"
        "filled row1 row (off + i * ?p) ?p row'" by auto
      have "filled row0 row off (i * ?p + ?p) row'" using filled_step [OF _ r(2)] h(4) b by simp
      then show ?thesis using r(1) by (simp add: add.commute)
    qed
    have i0: "filled row0 row off (0 * ?p) row0" by (simp add: filled_def)
    from dim_loop_reads [where I = "\<lambda>n row'. filled row0 row off (n * ?p) row'", OF ss(1) _ _ t refl dp, of d True 0 row0 "entry_body ds t" off ?p]
    obtain row1 where r: "dim_loop (entry_body ds t) ?p t ?stop d True (length pre) off row0 = Inr (?stop, row1)"
      "filled row0 row off (k * ?p) row1"
      using ss k(2) i0 body by auto
    have kd: "k * ?p \<le> d * ?p" using k(2) by (rule mult_le_mono1)
    have "filled row0 row off (d * ?p) row1"
    proof (rule filled_nulls [OF r(2) kd len])
      show "\<forall>i<d * ?p. row0 ! (off + i) = zero" using z by simp
      show "canon_elem (row ! (off + i)) = canon_elem zero" if "k * ?p \<le> i" "i < d * ?p" for i
      proof (rule null' [OF that])
        show "snd (?e m)" if "k \<le> m" "m < d" for m
        proof -
          have m: "m - k < length (drop k ?es)" using that by simp
          have "snd (drop k ?es ! (m - k))" using k(4) m unfolding list_all_length by blast
          then show ?thesis using that by simp
        qed
      qed
    qed
    then show "\<exists>row'. parseDimension wrap (pv t) t (d # ds) (prod_list (d # ds)) (length pre) ?stop off row0 = Inr row' \<and>
        filled row0 row off (prod_list (d # ds)) row'"
      using r(1) unfolding parseDimension_entries [OF d] by simp
  qed
qed simp

end

subsection \<open>Sequences\<close>

lemma count_elements_join:
  assumes "list_all tight ss" "ss \<noteq> []" "t = pre @ join (CHR '','') ss @ post"
    "stop = length pre + length (join (CHR '','') ss)" "length ss \<le> fuel"
  shows "count_elements fuel t (length pre) stop n = Inr (n + length ss, False)"
  using assms
proof (induction ss arbitrary: pre n fuel)
  case (Cons s ss)
  then obtain f where f: "fuel = Suc f" by (cases fuel) auto
  have ts: "tight s" "s \<noteq> []" using Cons.prems(1) by (auto simp: tight_def)
  have de: "doElement t (length pre) stop True =
      (None, length pre + length s + (if ss = [] then 0 else 1), length pre, length pre + length s)"
    unfolding Cons.prems(4) by (rule doElement_join [OF ts(1) Cons.prems(3)])
  show ?case
  proof (cases "ss = []")
    case True
    have "doElement t (length pre) stop True = (None, stop, length pre, stop)"
      using de True Cons.prems(4) by (simp add: join_Cons)
    then show ?thesis using ts(2) Cons.prems(4) True by (simp add: f slice_def join_Cons)
  next
    case False
    note j = join_split [OF Cons.prems(3) False]
    have sl: "slice t (length pre + length s) (length pre + length s + 1) = [CHR '','']"
      using j(1) by (simp add: slice_def)
    have "count_elements f t (length (pre @ s @ [CHR '',''])) stop (n + 1) = Inr (n + 1 + length ss, False)"
      using Cons.IH [OF _ False j(1)] Cons.prems(1,4,5) j(3) by (simp add: f)
    moreover have "length pre + length s < stop" using Cons.prems(4) False by (simp add: join_Cons)
    ultimately show ?thesis using False sl by (simp add: f de isspace_def)
  qed
qed simp

lemma length_join: "list_all tight ss \<Longrightarrow> length ss \<le> length (join c ss)"
proof (induction ss)
  case (Cons s ss)
  then have "0 < length s" by (simp add: tight_def)
  then show ?case using Cons by (auto simp: join_Cons Suc_le_eq)
qed simp

lemma sequence_count_join:
  assumes "list_all tight ss" "t = pre @ join (CHR '','') ss @ post"
  shows "sequence_count t (length pre) (length pre + length (join (CHR '','') ss)) = Inr (length ss)"
proof (cases "ss = []")
  case True
  then show ?thesis by (simp add: sequence_count_def slice_def)
next
  case False
  have "length ss \<le> length (join (CHR '','') ss) + 1" using length_join [OF assms(1)] by (simp add: le_SucI)
  from count_elements_join [OF assms(1) False assms(2) refl this] show ?thesis
    by (simp add: sequence_count_def)
qed

lemma parse_rows_reads:
  assumes "list_all tight (map f rs)" "t = pre @ join (CHR '','') (map f rs) @ post"
    "stop = length pre + length (join (CHR '','') (map f rs))" "delim post"
    and "\<And>row pre post. row \<in> set rs \<Longrightarrow> t = pre @ f row @ post \<Longrightarrow> delim post \<Longrightarrow>
      (needsCommaElement a \<longrightarrow> braced t (length pre) (length pre + length (f row))) \<and>
      (\<exists>row'. (if needsCommaElement a then pe (length pre + 1) (length pre + length (f row) - 1)
               else pe (length pre) (length pre + length (f row))) = Inr row' \<and> map canon_elem row' = map canon_elem row)"
  shows "\<exists>rs'. parse_rows a pe t stop (length rs) (length pre) = Inr rs' \<and> map (map canon_elem) rs' = map (map canon_elem) rs"
  using assms
proof (induction rs arbitrary: pre)
  case (Cons row rs)
  let ?ss = "map f rs"
  let ?post = "if rs = [] then post else CHR '','' # join (CHR '','') ?ss @ post"
  let ?pre = "if rs = [] then pre @ f row else pre @ f row @ [CHR '','']"
  have t: "t = pre @ f row @ ?post" using Cons.prems(2) by (auto simp: join_Cons)
  have ts: "tight (f row)" using Cons.prems(1) by simp
  have de: "doElement t (length pre) stop True =
      (None, length pre + length (f row) + (if ?ss = [] then 0 else 1), length pre, length pre + length (f row))"
    unfolding Cons.prems(3) list.map by (rule doElement_join [OF ts]) (use Cons.prems(2) in simp)
  have dp: "delim ?post" using Cons.prems(4) by simp
  note r0 = Cons.prems(5) [OF _ t dp, simplified]
  obtain row' where r: "(if needsCommaElement a then pe (length pre + 1) (length pre + length (f row) - 1)
               else pe (length pre) (length pre + length (f row))) = Inr row'" "map canon_elem row' = map canon_elem row"
    using r0 by auto
  have t2: "t = ?pre @ join (CHR '','') ?ss @ post" "stop = length ?pre + length (join (CHR '','') ?ss)"
    using Cons.prems(2,3) by (auto simp: join_Cons)
  have "\<exists>rs'. parse_rows a pe t stop (length rs) (length ?pre) = Inr rs' \<and> map (map canon_elem) rs' = map (map canon_elem) rs"
    by (rule Cons.IH [OF _ t2 Cons.prems(4)]) (use Cons.prems(1,5) in auto)
  then obtain rs' where rs: "parse_rows a pe t stop (length rs) (length ?pre) = Inr rs'"
    "map (map canon_elem) rs' = map (map canon_elem) rs" by blast
  have u: "length pre + length (f row) + (if ?ss = [] then 0 else 1) = length ?pre" by simp
  have b: "\<not> (needsCommaElement a \<and> \<not> braced t (length pre) (length pre + length (f row)))" using r0 by auto
  have "parse_rows a pe t stop (length (row # rs)) (length pre) = Inr (row' # rs')"
    unfolding list.size add_0_right add_Suc_right parse_rows.simps de prod.case u using b r(1) rs(1) by simp
  then show ?case using r(2) rs(2) by simp
qed simp

text \<open>The type of a value: positive dimensions whose product is the number of items.\<close>

definition dims_ok :: "vtype \<Rightarrow> bool" where
  "dims_ok a \<longleftrightarrow> list_all (\<lambda>d. 0 < d) (map unat (m_arrayDimensions a)) \<and>
     unat (m_nItems a) = prod_list (map unat (m_arrayDimensions a))"

definition rows_ok :: "vtype \<Rightarrow> (elem \<Rightarrow> bool) \<Rightarrow> value \<Rightarrow> bool" where
  "rows_ok a ok v \<longleftrightarrow>
     (if m_isSequence a then \<not> too_many a (length (rows v)) else length (rows v) = 1) \<and>
     list_all (\<lambda>row. length row = unat (m_nItems a) \<and> list_all ok row) (rows v)"

text \<open>The text of a value of a type, as a unit and read back.\<close>

definition value_text :: "vtype \<Rightarrow> string \<Rightarrow> (string \<Rightarrow> nat \<Rightarrow> nat \<Rightarrow> string + value) \<Rightarrow> value \<Rightarrow> bool" where
  "value_text a s p v \<longleftrightarrow>
     passes 1 s \<and> (\<not> needsComma a \<longrightarrow> tight s) \<and>
     (\<forall>t pre post. t = pre @ s @ post \<longrightarrow> delim post \<longrightarrow>
        (\<exists>v'. p t (length pre) (length pre + length s) = Inr v' \<and> canon v' = canon v))"

lemma value_textD:
  assumes "value_text a s p v" "t = pre @ s @ post" "delim post"
  shows "\<exists>v'. p t (length pre) (length pre + length s) = Inr v' \<and> canon v' = canon v"
  using assms unfolding value_text_def by blast

context element_text
begin

lemma element_form:
  assumes w: "wrap = needsCommaDimension a" and d: "dims_ok a"
    and r: "length row = unat (m_nItems a)" "list_all ok row"
  shows "if needsCommaElement a then passes 1 (unparseElement a uv (CHR '','') row)
    else tight (unparseElement a uv (CHR '','') row)"
proof (cases "m_arrayRank a = 0")
  case True
  then have "ok (row ! 0)" using r d by (cases row) (auto simp: dims_ok_def m_arrayRank_def)
  from text_form [OF this] show ?thesis using True w
    by (auto simp: unparseElement_def needsCommaElement_def needsCommaDimension_def split: if_splits)
next
  case False
  have "row_ok row 0 (prod_list (map unat (m_arrayDimensions a)))"
    using r d by (auto simp: row_ok_def dims_ok_def list_all_length)
  then have "block_text (map unat (m_arrayDimensions a)) row 0
      (unparseDimension (CHR '','') wrap uv (map unat (m_arrayDimensions a)) (unat (m_nItems a)) row 0)"
    using unparse_block [of "map unat (m_arrayDimensions a)" row 0] False d by (simp add: dims_ok_def m_arrayRank_def)
  then have "passes 1 (fst (unparseDimension (CHR '','') wrap uv (map unat (m_arrayDimensions a)) (unat (m_nItems a)) row 0))"
    by (simp add: block_text_def)
  then show ?thesis using False unfolding w by (simp add: unparseElement_def needsCommaElement_def)
qed

lemma element_read:
  assumes w: "wrap = needsCommaDimension a" and z: "zero = zero_elem (m_baseType a)" and d: "dims_ok a"
    and r: "length row = unat (m_nItems a)" "list_all ok row"
    and t: "t = pre @ unparseElement a uv (CHR '','') row @ post" "delim post"
  shows "\<exists>row'. parseElement a (pv t) t (length pre) (length pre + length (unparseElement a uv (CHR '','') row)) = Inr row' \<and>
    map canon_elem row' = map canon_elem row"
proof (cases "m_arrayRank a = 0")
  case True
  then have n: "unat (m_nItems a) = 1" using d by (simp add: dims_ok_def m_arrayRank_def)
  then obtain e where e: "row = [e]" using r(1) by (cases row) auto
  have s: "unparseElement a uv (CHR '','') row = fst (uv (CHR '','') e)" using True by (simp add: unparseElement_def e)
  have "ok e" using r(2) by (simp add: e)
  from text_read [OF this t(2), of t pre] t(1)
  show ?thesis unfolding s using True n by (auto simp: parseElement_def parse_into_def store_def e)
next
  case False
  let ?ds = "map unat (m_arrayDimensions a)"
  let ?row = "replicate (unat (m_nItems a)) zero"
  have n: "unat (m_nItems a) = prod_list ?ds" using d by (simp add: dims_ok_def)
  have "row_ok row 0 (prod_list ?ds)" using r d by (auto simp: row_ok_def dims_ok_def list_all_length)
  then have b: "block_text ?ds row 0 (unparseDimension (CHR '','') wrap uv ?ds (prod_list ?ds) row 0)"
    using unparse_block [of ?ds row 0] False d by (simp add: dims_ok_def m_arrayRank_def)
  have s: "unparseElement a uv (CHR '','') row = fst (unparseDimension (CHR '','') wrap uv ?ds (prod_list ?ds) row 0)"
    using False n by (simp add: unparseElement_def w)
  have "\<exists>row'. parseDimension wrap (pv t) t ?ds (prod_list ?ds) (length pre)
      (length pre + length (unparseElement a uv (CHR '','') row)) 0 ?row = Inr row' \<and>
    filled ?row row 0 (prod_list ?ds) row'"
    unfolding s by (rule block_textD [OF b _ t(2)]) (use t(1) s r(1) n in auto)
  then obtain row' where p: "parseDimension wrap (pv t) t ?ds (prod_list ?ds) (length pre)
      (length pre + length (unparseElement a uv (CHR '','') row)) 0 ?row = Inr row'"
    and f: "filled ?row row 0 (prod_list ?ds) row'" by blast
  have "map canon_elem row' = map canon_elem row"
    by (rule nth_equalityI) (use f r(1) n in \<open>auto simp: filled_def\<close>)
  then show ?thesis using p False n w z by (simp add: parseElement_def parse_into_def)
qed

lemma whole_text:
  assumes w: "wrap = needsCommaDimension a" and z: "zero = zero_elem (m_baseType a)" and d: "dims_ok a"
    and v: "rows_ok a ok v"
  shows "value_text a (unparse_whole a uv (CHR '','') v) (\<lambda>t. parse_whole a (pv t) t) v"
proof (cases "m_isSequence a")
  case False
  then obtain row where rs: "rows v = [row]" "v = Value [row]" using v by (cases v) (auto simp: rows_ok_def length_Suc_conv)
  have r: "length row = unat (m_nItems a)" "list_all ok row" using v rs by (auto simp: rows_ok_def)
  have s: "unparse_whole a uv (CHR '','') v = unparseElement a uv (CHR '','') row"
    using False rs by (simp add: unparse_whole_def)
  note f = element_form [OF w d r]
  have "passes 1 (unparseElement a uv (CHR '','') row)"
    using f by (auto simp: tight_def intro: passes_mono split: if_splits)
  moreover have "\<not> needsComma a \<longrightarrow> tight (unparseElement a uv (CHR '','') row)"
    using f by (auto simp: needsComma_def needsCommaElement_def split: if_splits)
  moreover have "\<exists>v'. parse_whole a (pv t) t (length pre) (length pre + length (unparseElement a uv (CHR '','') row)) = Inr v' \<and>
      canon v' = canon v" if "t = pre @ unparseElement a uv (CHR '','') row @ post" "delim post" for t pre post
    using element_read [OF w z d r that] False rs by (auto simp: parse_whole_def)
  ultimately show ?thesis unfolding value_text_def s by blast
next
  case True
  let ?f = "\<lambda>row. if needsCommaElement a then in_braces (unparseElement a uv (CHR '','') row) else unparseElement a uv (CHR '','') row"
  have s: "unparse_whole a uv (CHR '','') v = join (CHR '','') (map ?f (rows v))"
    using True by (simp add: unparse_whole_def)
  have r: "length row = unat (m_nItems a)" "list_all ok row" if "row \<in> set (rows v)" for row
    using v that by (auto simp: rows_ok_def list_all_iff)
  have ti: "list_all tight (map ?f (rows v))"
    using element_form [OF w d r] by (auto simp: list_all_iff intro: tight_in_braces split: if_splits)
  have "\<exists>v'. parse_whole a (pv t) t (length pre) (length pre + length (join (CHR '','') (map ?f (rows v)))) = Inr v' \<and> canon v' = canon v"
    if t: "t = pre @ join (CHR '','') (map ?f (rows v)) @ post" "delim post" for t pre post
  proof -
    have el: "(needsCommaElement a \<longrightarrow> braced t (length pre) (length pre + length (?f row))) \<and>
      (\<exists>row'. (if needsCommaElement a then parseElement a (pv t) t (length pre + 1) (length pre + length (?f row) - 1)
               else parseElement a (pv t) t (length pre) (length pre + length (?f row))) = Inr row' \<and> map canon_elem row' = map canon_elem row)"
      if h: "row \<in> set (rows v)" "t = pre @ ?f row @ post" "delim post" for row pre post
    proof (cases "needsCommaElement a")
      case True
      then have "t = pre @ in_braces (unparseElement a uv (CHR '','') row) @ post" using h(2) by simp
      note b = braced_mid [OF this]
      have fr: "?f row = in_braces (unparseElement a uv (CHR '','') row)" using True by simp
      show ?thesis using element_read [OF w z d r [OF h(1)] b(2)] b(1) True unfolding fr b(3,4) by simp
    next
      case False
      then show ?thesis using element_read [OF w z d r [OF h(1)] _ h(3)] h(2) by simp
    qed
    have "\<exists>rs'. parse_rows a (parseElement a (pv t) t) t (length pre + length (join (CHR '','') (map ?f (rows v))))
        (length (rows v)) (length pre) = Inr rs' \<and> map (map canon_elem) rs' = map (map canon_elem) (rows v)"
      by (rule parse_rows_reads [OF ti t(1) refl t(2)]) (use el in blast)
    then show ?thesis using sequence_count_join [OF ti t(1)] True v
      by (cases v) (auto simp: parse_whole_def rows_ok_def)
  qed
  then show ?thesis unfolding value_text_def s using passes_join [OF ti] True by (simp add: needsComma_def)
qed

end

subsection \<open>Scalars\<close>

lemma isodigit_char: "(d :: nat) < 8 \<Longrightarrow> isodigit (char_of (48 + d))"
  by (simp add: isodigit_def isdigit_def)

lemma octal_value:
  assumes "(v :: nat) < 256"
  shows "(v div 64 mod 8 * 8 + v div 8 mod 8) * 8 + v mod 8 = v"
proof -
  have a: "v div 64 = v div 8 div 8" by (simp add: div_mult2_eq [symmetric])
  have "v div 64 < 8" using assms by (simp add: less_mult_imp_div_less)
  then have "v div 64 mod 8 * 8 + v div 8 mod 8 = v div 8" unfolding a by (simp add: div_mult_mod_eq)
  then show ?thesis by (metis div_mult_mod_eq)
qed

lemma parseOneChar_octal:
  assumes v: "(v :: nat) < 256"
  shows "parseOneChar (CHR 0x5C # octal_digits v @ r) = Some (char_of v, r)"
proof -
  let ?a = "v div 64 mod 8" and ?b = "v div 8 mod 8" and ?c = "v mod 8"
  have d: "?a < 8" "?b < 8" "?c < 8" by simp_all
  have o: "isodigit (char_of (48 + ?b))" "isodigit (char_of (48 + ?c))" "isodigit (char_of (48 + ?a))"
    using d isodigit_char by blast+
  have "octal_escape (char_of (48 + ?a)) (char_of (48 + ?b) # char_of (48 + ?c) # r) = Some (char_of v, r)"
    using o d octal_value [OF v] v by (simp add: octal_escape_def mult.commute)
  moreover have "code (char_of (48 + ?a)) = 48 + ?a" using d by simp
  ultimately show ?thesis using o(3) d(1)
    by (auto simp: parseOneChar_def octal_digits_def code_inject [symmetric])
qed

lemma parseOneChar_unparseChar: "parseOneChar (fst (unparseChar c) @ r) = Some (c, r)"
proof (cases "isprint c")
  case True
  then have "c \<noteq> CHR 0x00" by (auto simp: isprint_def)
  then show ?thesis using True
    by (auto simp: unparseChar_def parseOneChar_def isodigit_def isdigit_def)
next
  case False
  show ?thesis
  proof (cases "c \<in> set [CHR 0x0A, CHR 0x09, CHR 0x0B, CHR 0x08, CHR 0x0D, CHR 0x0C, CHR 0x07]")
    case True
    then show ?thesis by (auto simp: unparseChar_def parseOneChar_def isprint_def)
  next
    case o: False
    then have "fst (unparseChar c) = CHR 0x5C # octal_digits (code c)" using False by (simp add: unparseChar_def)
    then show ?thesis using parseOneChar_octal [OF code_bound, of c r] by simp
  qed
qed

lemma plain_range: "48 \<le> code c \<Longrightarrow> code c \<le> 57 \<Longrightarrow> plain c"
  by (auto simp: plain_def isspace_def)

lemma tight_plains: "list_all plain s \<Longrightarrow> s \<noteq> [] \<Longrightarrow> tight s"
  by (cases s) (auto simp: tight_def plain_def intro: passes_plains)

lemma tight_append: "tight s \<Longrightarrow> passes 0 r \<Longrightarrow> tight (s @ r)"
  by (simp add: tight_def passes_append)

lemma tight_escape: "list_all plain s \<Longrightarrow> tight ([CHR 0x5C, c] @ s)"
proof (rule tight_append)
  show "tight [CHR 0x5C, c]" using passes_escape by (simp add: tight_def isspace_def)
qed (rule passes_plains)

lemma tight_unparseChar: "tight (fst (unparseChar c))"
proof (cases "isprint c")
  case True
  then have "tight [c]" if "c \<notin> set [CHR 0x5C, CHR 0x22, CHR '' '', CHR '','', CHR ''}'', CHR ''{'']"
    using that by (intro tight_plains) (auto simp: plain_def isprint_def isspace_def code_inject [symmetric])
  then show ?thesis using tight_escape [of "[]" c] True by (auto simp: unparseChar_def)
next
  case False
  have "plain (char_of (48 + d))" if "d < 8" for d :: nat using that by (intro plain_range) simp_all
  then show ?thesis using False tight_escape [of "[]"] tight_escape
    by (auto simp: unparseChar_def octal_digits_def)
qed

lemma concat_chars:
  "passes 0 (concat (map (\<lambda>c. fst (unparseChar c)) cs))"
  "cs \<noteq> [] \<Longrightarrow> tight (concat (map (\<lambda>c. fst (unparseChar c)) cs))"
proof -
  show p: "passes 0 (concat (map (\<lambda>c. fst (unparseChar c)) cs))" for cs
    by (induction cs) (use tight_unparseChar in \<open>auto simp: tight_def intro: passes_append\<close>)
  show "cs \<noteq> [] \<Longrightarrow> tight (concat (map (\<lambda>c. fst (unparseChar c)) cs))"
    by (cases cs) (auto intro: tight_append tight_unparseChar p)
qed

lemma string_chars_unparse:
  "maxlen = 0 \<or> len + length cs \<le> maxlen \<Longrightarrow>
   string_chars False maxlen len (concat (map (\<lambda>c. fst (unparseChar c)) cs)) = Inr cs"
proof (induction cs arbitrary: len)
  case Nil
  then show ?case by (simp add: string_chars.simps)
next
  case (Cons c cs)
  have "fst (unparseChar c) \<noteq> []" using tight_unparseChar by (simp add: tight_def)
  then show ?case using Cons
    by (subst string_chars.simps) (auto simp: parseOneChar_unparseChar)
qed

lemma hd_unparseChar: "hd (fst (unparseChar c)) \<noteq> CHR 0x22"
  by (auto simp: unparseChar_def)

lemma parseString_unparse:
  assumes "s = None \<or> CHR 0x00 \<notin> set (the s) \<and> (m_stringLength a = 0 \<or> length (the s) \<le> unat (m_stringLength a))"
    and t: "t = pre @ fst (unparseString s) @ post"
  shows "\<exists>s'. parseString a t (length pre) (length pre + length (fst (unparseString s))) = Inr s' \<and>
    canon_elem (EString s') = canon_elem (EString s)"
proof (cases "s = None \<or> s = Some []")
  case True
  then have u: "fst (unparseString s) = [CHR 0x22, CHR 0x22]" by (auto simp: unparseString_def)
  have "chr_at t (length pre) = CHR 0x22" using chr_at_mid [of 0 "[CHR 0x22, CHR 0x22]" pre post] t u by simp
  moreover have "slice t (length pre + 1) (length pre + 2) = [CHR 0x22]" using t u by (simp add: slice_def)
  ultimately show ?thesis using True u by (auto simp: parseString_def string_chars.simps cstring_def)
next
  case False
  then obtain c cs where s: "s = Some (c # cs)" by (metis list.exhaust option.exhaust)
  let ?u = "concat (map (\<lambda>c. fst (unparseChar c)) (c # cs))"
  have u: "fst (unparseString s) = ?u" by (simp add: unparseString_def s)
  have ne: "fst (unparseChar c) \<noteq> []" using tight_unparseChar by (simp add: tight_def)
  have "chr_at t (length pre) = hd ?u"
    using chr_at_mid [of 0 ?u pre post] t u ne by (simp add: hd_conv_nth)
  then have q: "chr_at t (length pre) \<noteq> CHR 0x22" using hd_unparseChar ne by simp
  have "string_chars False (unat (m_stringLength a)) 0 ?u = Inr (c # cs)"
    by (rule string_chars_unparse) (use assms(1) s in \<open>auto simp: unat_eq_zero\<close>)
  moreover have "cstring (c # cs) = c # cs"
    using assms(1) s unfolding cstring_def by (intro takeWhile_eq_all_conv [THEN iffD2]) auto
  moreover have "slice t (length pre) (length pre + length ?u) = ?u" unfolding t u by (rule slice_mid)
  ultimately show ?thesis unfolding u using q s by (simp add: parseString_def)
qed

lemma delim_ends_number: "delim r \<Longrightarrow> ends_number r"
  by (cases r) (auto simp: delim_def ends_number_def digit_value_def isdigit_def isalpha_def isupper_def tolower_def)

lemma suffix_factor_delim: "delim r \<Longrightarrow> suffix_factor (chr_at (s @ r) (length s)) = 1"
  by (cases r) (auto simp: suffix_factor_def chr_at_def delim_def nth_append)

lemma minus_one_delim: "delim r \<Longrightarrow> \<not> minus_one r"
  by (cases r) (auto simp: delim_def minus_one_def skip_spaces_def isspace_def)

lemma getUNum64_print:
  assumes "delim r" "0 \<le> i" "i < 2 ^ 64"
  shows "getUNum64 (print_int i @ r) = Some (of_int i)"
proof -
  have "strtoull 0 (print_int i @ r) = (of_int i, length (print_int i), False)"
    using assms(2,3) scan_number_print [OF delim_ends_number [OF assms(1)], of i] by (simp add: strtoull_def)
  then show ?thesis using suffix_factor_delim [OF assms(1), of "print_int i"] minus_one_delim [OF assms(1)]
    by (simp add: getUNum64_def)
qed

lemma getNum64_print:
  assumes "delim r" "- (2 ^ 63) \<le> i" "i < 2 ^ 63"
  shows "getNum64 (print_int i @ r) = Some i"
proof -
  have "strtoll 0 (print_int i @ r) = (i, length (print_int i), False)"
    using assms(2,3) scan_number_print [OF delim_ends_number [OF assms(1)], of i] by (auto simp: strtoll_def)
  moreover have "sint (of_int i :: 64 word) = i"
    using assms(2,3) by (simp add: signed_of_int signed_take_bit_int_eq_self)
  ultimately show ?thesis using suffix_factor_delim [OF assms(1), of "print_int i"] by (simp add: getNum64_def)
qed

lemma print_int_tight: "tight (print_int i)"
proof (rule tight_plains)
  have "list_all plain (dec_digits n)" for n
    using dec_digits_isdigit [of n] by (auto simp: list_all_iff isdigit_def intro: plain_range)
  then show "list_all plain (print_int i)" by (simp add: print_int_def plain_def isspace_def)
qed (simp add: print_int_def)

lemma parse_signed_print:
  assumes "delim r" "w \<in> {16, 32, 64}" "in_range (- (2 ^ (w - 1))) (2 ^ (w - 1) - 1) i"
  shows "parse_signed w msg (print_int i @ r) = Inr (EInt i)"
proof -
  have "- (2 ^ 63) \<le> i \<and> i < 2 ^ 63" using assms(2,3) by (auto simp: in_range_def)
  then show ?thesis using assms getNum64_print [OF assms(1), of i] by (simp add: parse_signed_def)
qed

lemma parse_unsigned_print:
  assumes "delim r" "w \<in> {8, 16, 32, 64}" "in_range 0 (2 ^ w - 1) i"
  shows "parse_unsigned w msg (print_int i @ r) = Inr (EInt i)"
proof -
  have i: "0 \<le> i" "i < 2 ^ 64" using assms(2,3) by (auto simp: in_range_def)
  have "uint (of_int i :: u64) = i" using i by (simp add: uint_word_of_int_eq take_bit_int_eq_self)
  then show ?thesis using assms(3) getUNum64_print [OF assms(1) i] by (simp add: parse_unsigned_def in_range_def)
qed

lemma hd_print_int: "0 \<le> i \<Longrightarrow> isdigit (hd (print_int i))"
  by (simp add: print_int_def dec_digits_isdigit_hd)

lemma parseUChar_print:
  assumes "delim r" "in_range 0 255 i"
  shows "parseUChar (print_int i @ r) = Inr (EInt i)"
proof -
  obtain c cs where c: "print_int i = c # cs" "isdigit c"
    using hd_print_int [of i] assms(2) print_int_tight [of i] by (cases "print_int i") (auto simp: in_range_def tight_def)
  have "skip_spaces (print_int i @ r) = print_int i @ r" using c by (simp add: skip_spaces_def isspace_def isdigit_def)
  moreover have "chr_at (print_int i @ r) 0 \<noteq> CHR 0x27" using c by (auto simp: chr_at_def isdigit_def)
  moreover have "parse_unsigned 8 ''bad UChar value'' (print_int i @ r) = Inr (EInt i)"
    using parse_unsigned_print [OF assms(1), of 8 i] assms(2) by simp
  ultimately show ?thesis by (simp add: parseUChar_def)
qed

definition enums_ok :: "string list \<Rightarrow> bool" where
  "enums_ok es \<longleftrightarrow> distinct (map lower es) \<and> list_all (\<lambda>e. e \<noteq> [] \<and> list_all plain e) es"

lemma find_enum_nth:
  "distinct (map lower es) \<Longrightarrow> i < length es \<Longrightarrow> find_enum n es (es ! i) = Some (n + i)"
proof (induction es arbitrary: n i)
  case (Cons e es)
  show ?case
  proof (cases i)
    case (Suc j)
    then have "lower e \<noteq> lower (es ! j)" using Cons.prems by (metis distinct.simps(2) image_eqI length_Cons list.set_map list.simps(9) not_less_eq nth_mem)
    then show ?thesis using Cons.IH [of j "n + 1"] Cons.prems Suc by simp
  qed simp
qed simp

text \<open>The elements of a scalar type; floating point numbers are left out.\<close>

fun int_range :: "base_type \<Rightarrow> (int \<times> int) option" where
  "int_range OCPI_Short = Some (- (2 ^ 15), 2 ^ 15 - 1)"
| "int_range OCPI_Long = Some (- (2 ^ 31), 2 ^ 31 - 1)"
| "int_range OCPI_LongLong = Some (- (2 ^ 63), 2 ^ 63 - 1)"
| "int_range OCPI_UChar = Some (0, 255)"
| "int_range OCPI_UShort = Some (0, 2 ^ 16 - 1)"
| "int_range OCPI_ULong = Some (0, 2 ^ 32 - 1)"
| "int_range OCPI_ULongLong = Some (0, 2 ^ 64 - 1)"
| "int_range _ = None"

fun scalar_ok :: "vtype \<Rightarrow> elem \<Rightarrow> bool" where
  "scalar_ok a (EBool b) = (m_baseType a = OCPI_Bool)"
| "scalar_ok a (EChar c) = (m_baseType a = OCPI_Char)"
| "scalar_ok a (EInt i) = (case int_range (m_baseType a) of None \<Rightarrow> False | Some (lo, hi) \<Rightarrow> in_range lo hi i)"
| "scalar_ok a (EString s) = (m_baseType a = OCPI_String \<and>
     (s = None \<or> CHR 0x00 \<notin> set (the s) \<and> (m_stringLength a = 0 \<or> length (the s) \<le> unat (m_stringLength a))))"
| "scalar_ok a (EEnum n) = (m_baseType a = OCPI_Enum \<and> enums_ok (m_enums a) \<and> n < length (m_enums a))"
| "scalar_ok a _ = False"

lemma scalar_tight: "scalar_ok a e \<Longrightarrow> tight (fst (unparse_scalar fl a e))"
proof (cases e)
  case (EBool b)
  have "tight ''true''" "tight ''false''" by (rule tight_plains; simp add: plain_def isspace_def)+
  then show ?thesis using EBool by simp
next
  case (EString s)
  have "tight [CHR 0x22, CHR 0x22]" by (rule tight_plains) (simp_all add: plain_def isspace_def)
  then show ?thesis using EString concat_chars(2) [of "the s"]
    by (auto simp: unparseString_def split: option.splits list.splits)
next
  case (EEnum n)
  assume "scalar_ok a e"
  then show ?thesis using EEnum by (auto simp: enums_ok_def list_all_length intro: tight_plains)
qed (auto simp: tight_unparseChar print_int_tight)

lemma scalar_read:
  assumes ok: "scalar_ok a e" and d: "delim post" and t: "t = pre @ fst (unparse_scalar fl a e) @ post"
  shows "\<exists>e'. parse_scalar fl a t (length pre) (length pre + length (fst (unparse_scalar fl a e))) = Inr e' \<and>
    canon_elem e' = canon_elem e"
proof -
  let ?s = "fst (unparse_scalar fl a e)"
  have sl: "slice t (length pre) (length pre + length ?s) = ?s" unfolding t by (rule slice_mid)
  have dr: "drop (length pre) t = ?s @ post" using t by simp
  show ?thesis
  proof (cases e)
    case (EBool b)
    have "parseBool ''true'' = Some True" "parseBool ''false'' = Some False"
      by (simp_all add: parseBool_def lower_def tolower_def isupper_def)
    then show ?thesis using ok sl EBool by (cases b) (simp_all add: parse_scalar_def)
  next
    case (EChar c)
    have "parseChar (fst (unparseChar c)) = Some c" using parseOneChar_unparseChar [of c "[]"] by (simp add: parseChar_def)
    then show ?thesis using ok sl EChar by (simp add: parse_scalar_def)
  next
    case (EInt i)
    then show ?thesis using ok parse_signed_print [OF d, of 16 i] parse_signed_print [OF d, of 32 i]
        parse_signed_print [OF d, of 64 i] parseUChar_print [OF d, of i] parse_unsigned_print [OF d, of 16 i]
        parse_unsigned_print [OF d, of 32 i] parse_unsigned_print [OF d, of 64 i]
      by (cases "m_baseType a") (simp_all add: parse_scalar_def dr)
  next
    case (EString s)
    then show ?thesis using ok parseString_unparse [of s a t pre post] t by (auto simp: parse_scalar_def)
  next
    case (EEnum n)
    have "find_enum 0 (m_enums a) (m_enums a ! n) = Some n"
      using find_enum_nth [of "m_enums a" n 0] ok EEnum by (simp add: enums_ok_def)
    then show ?thesis using ok sl EEnum by (simp add: parse_scalar_def)
  qed (use ok in simp_all)
qed

lemma scalar_null:
  "scalar_ok a e \<Longrightarrow> snd (unparse_scalar fl a e) \<Longrightarrow> canon_elem e = canon_elem (zero_elem (m_baseType a))"
  by (cases e; cases "m_baseType a") (auto simp: unparseChar_def unparseString_def split: option.splits list.splits)

interpretation scalar_text:
  element_text False "\<lambda>_. unparse_scalar fl a" "parse_scalar fl a" "zero_elem (m_baseType a)" "scalar_ok a" for fl a
  by unfold_locales (simp_all add: scalar_tight scalar_read scalar_null)

subsection \<open>Structures\<close>

lemma names_member_unique:
  assumes "names_member t start nm" "list_all plain nm"
  shows "nm = takeWhile (\<lambda>c. \<not> isspace c) (drop start t)"
proof -
  have p: "take (length nm) (drop start t) = nm" and sp: "isspace (chr_at t (start + length nm))"
    using assms(1) by (auto simp: names_member_def slice_def)
  then have "start + length nm < length t" by (auto simp: chr_at_def isspace_def split: if_splits)
  then have "drop start t = nm @ t ! (start + length nm) # drop (Suc (start + length nm)) t"
    using p by (metis append_take_drop_id drop_drop add.commute Cons_nth_drop_Suc)
  moreover have "isspace (t ! (start + length nm))" using sp by (simp add: chr_at_def isspace_def split: if_splits)
  moreover have "\<forall>c\<in>set nm. \<not> isspace c" using assms(2) by (auto simp: list_all_iff plain_def)
  ultimately show ?thesis by (simp add: takeWhile_append2)
qed

lemma names_member_text: "t = pre @ nm @ CHR '' '' # r \<Longrightarrow> names_member t (length pre) nm"
  by (simp add: names_member_def slice_def chr_at_def nth_append isspace_def)

lemma find_member_nth:
  assumes "distinct (map fst ms)" "list_all (\<lambda>m. list_all plain (fst m)) ms" "i < length ms"
    "names_member t start (fst (ms ! i))"
  shows "find_member n ms t start = Some (n + i, ms ! i)"
  using assms
proof (induction ms arbitrary: i n)
  case (Cons m ms)
  obtain nm p where m: "m = (nm, p)" by fastforce
  show ?case
  proof (cases i)
    case 0
    then show ?thesis using Cons.prems by (simp add: m)
  next
    case (Suc j)
    have j: "j < length ms" using Cons.prems(3) Suc by simp
    have "\<not> names_member t start nm"
    proof
      assume "names_member t start nm"
      moreover have "list_all plain nm" "list_all plain (fst (ms ! j))"
        using Cons.prems(2) j by (auto simp: m list_all_iff)
      ultimately have "nm = fst (ms ! j)"
        using names_member_unique [of t start nm] names_member_unique [of t start "fst (ms ! j)"] Cons.prems(4) Suc by simp
      then show False using Cons.prems(1) j by (auto simp: m)
    qed
    then show ?thesis using Cons.IH [of j "n + 1"] Cons.prems Suc by (simp add: m)
  qed
qed simp

lemma member_text_plain:
  assumes "t = pre @ CHR '' '' # body @ post" "tight body"
  shows "member_text t (length pre) (length pre + Suc (length body)) False =
    Inr (length (pre @ '' ''), length (pre @ '' '') + length body)"
    "t = (pre @ '' '') @ body @ post"
proof -
  have "slice t (length pre) (length pre + Suc (length body)) = CHR '' '' # body" using assms(1) by (simp add: slice_def)
  moreover have "takeWhile isspace (CHR '' '' # body) = '' ''"
    using takeWhile_tight [OF assms(2), of "[]"] by (simp add: isspace_def)
  ultimately show "member_text t (length pre) (length pre + Suc (length body)) False =
    Inr (length (pre @ '' ''), length (pre @ '' '') + length body)" by (simp add: member_text_def)
  show "t = (pre @ '' '') @ body @ post" using assms(1) by simp
qed

lemma member_text_braced:
  assumes t: "t = pre @ CHR '' '' # in_braces s @ post" and p: "passes 1 s"
  shows "member_text t (length pre) (length pre + Suc (length (in_braces s))) True =
    Inr (length (pre @ '' {''), length (pre @ '' {'') + length s)"
    "t = (pre @ '' {'') @ s @ (CHR ''}'' # post)"
proof -
  have sl: "slice t (length pre) (length pre + Suc (length (in_braces s))) = CHR '' '' # in_braces s" using t by (simp add: slice_def)
  have tw: "takeWhile isspace (CHR '' '' # in_braces s) = '' ''"
    using takeWhile_tight [OF tight_in_braces [OF p], of "[]"] by (simp add: isspace_def)
  have "braced t (Suc (length pre)) (length pre + Suc (length (in_braces s)))"
    using t by (simp add: braced_def chr_at_def in_braces_def nth_append)
  then show "member_text t (length pre) (length pre + Suc (length (in_braces s))) True =
    Inr (length (pre @ '' {''), length (pre @ '' {'') + length s)"
    unfolding member_text_def sl tw by (simp add: in_braces_def)
  show "t = (pre @ '' {'') @ s @ (CHR ''}'' # post)" using t by (simp add: in_braces_def)
qed

text \<open>The text of a member with its name.\<close>

definition named_text :: "member \<Rightarrow> string \<Rightarrow> string" where
  "named_text m s = m_name (attrs m) @ CHR '' '' # (if needsComma (attrs m) then in_braces s else s)"

definition names_ok :: "member list \<Rightarrow> bool" where
  "names_ok ms \<longleftrightarrow> distinct (map (\<lambda>m. m_name (attrs m)) ms) \<and>
     list_all (\<lambda>m. m_name (attrs m) \<noteq> [] \<and> list_all plain (m_name (attrs m))) ms"

lemma tight_named_text:
  assumes "value_text (attrs m) s p v" "m_name (attrs m) \<noteq> []" "list_all plain (m_name (attrs m))"
  shows "tight (named_text m s)"
proof -
  let ?b = "if needsComma (attrs m) then in_braces s else s"
  have "tight ?b" using assms(1) by (auto simp: value_text_def intro: tight_in_braces)
  then have "passes 0 (CHR '' '' # ?b)" by (intro passes_space) (auto simp: tight_def)
  then show ?thesis unfolding named_text_def by (rule tight_append [OF tight_plains [OF assms(3,2)]])
qed

lemma named_text_read:
  assumes v: "value_text (attrs m) s p v" and t: "t = pre @ named_text m s @ post" "delim post"
  shows "\<exists>b e v'. member_text t (length pre + length (m_name (attrs m))) (length pre + length (named_text m s)) (needsComma (attrs m)) = Inr (b, e) \<and>
    p t b e = Inr v' \<and> canon v' = canon v"
proof (cases "needsComma (attrs m)")
  case True
  let ?pre = "pre @ m_name (attrs m)"
  have t': "t = ?pre @ CHR '' '' # in_braces s @ post" using t(1) True by (simp add: named_text_def)
  have p1: "passes 1 s" using v by (simp add: value_text_def)
  note r = member_text_braced [OF t' p1]
  have e: "length pre + length (named_text m s) = length ?pre + Suc (length (in_braces s))"
    "length pre + length (m_name (attrs m)) = length ?pre" using True by (simp_all add: named_text_def)
  show ?thesis unfolding e using r(1) value_textD [OF v r(2)] True by fastforce
next
  case False
  let ?pre = "pre @ m_name (attrs m)"
  have t': "t = ?pre @ CHR '' '' # s @ post" using t(1) False by (simp add: named_text_def)
  have "tight s" using v False by (simp add: value_text_def)
  note r = member_text_plain [OF t' this]
  have e: "length pre + length (named_text m s) = length ?pre + Suc (length s)"
    "length pre + length (m_name (attrs m)) = length ?pre" using False by (simp_all add: named_text_def)
  show ?thesis unfolding e using r(1) value_textD [OF v r(2) t(2)] False by fastforce
qed

text \<open>The members in the text, by their indices.\<close>

lemma parseStruct_reads:
  fixes up :: "member \<Rightarrow> value \<Rightarrow> string" and pm :: "member \<Rightarrow> string \<Rightarrow> nat \<Rightarrow> nat \<Rightarrow> string + value"
  assumes nm: "names_ok ms"
    and "\<And>i. i \<in> set is \<Longrightarrow> i < length ms \<and> value_text (attrs (ms ! i)) (up (ms ! i) (val i)) (pm (ms ! i)) (val i)"
    and "distinct is" "length sv = length ms" "\<And>i. i \<in> set is \<Longrightarrow> sv ! i = None" "length is \<le> fuel"
    and "t = pre @ join (CHR '','') (map (\<lambda>i. named_text (ms ! i) (up (ms ! i) (val i))) is) @ post"
    and "stop = length pre + length (join (CHR '','') (map (\<lambda>i. named_text (ms ! i) (up (ms ! i) (val i))) is))"
    and "delim post"
  shows "\<exists>sv'. parseStruct fuel (map (\<lambda>m. (m_name (attrs m), needsComma (attrs m), pm m t)) ms) t (length pre) stop sv = Inr sv' \<and>
    length sv' = length ms \<and> (\<forall>i. i \<notin> set is \<longrightarrow> sv' ! i = sv ! i) \<and>
    (\<forall>i\<in>set is. \<exists>v'. sv' ! i = Some v' \<and> canon v' = canon (val i))"
  using assms(2-)
proof (induction "is" arbitrary: pre sv fuel)
  case Nil
  then show ?case by (subst parseStruct.simps) simp
next
  case (Cons i "is")
  obtain f where f: "fuel = Suc f" using Cons.prems(5) by (cases fuel) auto
  let ?m = "ms ! i"
  let ?tx = "\<lambda>i. named_text (ms ! i) (up (ms ! i) (val i))"
  let ?s = "?tx i"
  let ?ss = "map ?tx is"
  let ?subs = "map (\<lambda>m. (m_name (attrs m), needsComma (attrs m), pm m t)) ms"
  let ?post = "if is = [] then post else CHR '','' # join (CHR '','') ?ss @ post"
  let ?pre = "if is = [] then pre @ ?s else pre @ ?s @ [CHR '','']"
  have i: "i < length ms" and vt: "value_text (attrs ?m) (up ?m (val i)) (pm ?m) (val i)" using Cons.prems(1) by auto
  have n1: "m_name (attrs ?m) \<noteq> []" "list_all plain (m_name (attrs ?m))" using nm i by (auto simp: names_ok_def list_all_length)
  have ts: "tight ?s" by (rule tight_named_text [OF vt n1])
  have de: "doElement t (length pre) stop True =
      (None, length pre + length ?s + (if ?ss = [] then 0 else 1), length pre, length pre + length ?s)"
    unfolding Cons.prems(7) list.map by (rule doElement_join [OF ts]) (use Cons.prems(6) in simp)
  have t1: "t = pre @ ?s @ ?post" and t2: "t = ?pre @ join (CHR '','') ?ss @ post"
    and s2: "stop = length ?pre + length (join (CHR '','') ?ss)" using Cons.prems(6,7) by (auto simp: join_Cons)
  have dp: "delim ?post" using Cons.prems(8) by simp
  have nmem: "names_member t (length pre) (fst (?subs ! i))"
    using t1 i names_member_text [of t pre "m_name (attrs ?m)"] by (simp add: named_text_def)
  have fm: "find_member 0 ?subs t (length pre) = Some (i, m_name (attrs ?m), needsComma (attrs ?m), pm ?m t)"
    using find_member_nth [OF _ _ _ nmem, of 0] nm i by (simp add: names_ok_def list_all_iff comp_def)
  obtain b e v' where r: "member_text t (length pre + length (m_name (attrs ?m))) (length pre + length ?s) (needsComma (attrs ?m)) = Inr (b, e)"
    "pm ?m t b e = Inr v'" "canon v' = canon (val i)"
    using named_text_read [OF vt t1 dp] by blast
  let ?sv = "sv[i := Some v']"
  have "\<exists>sv'. parseStruct f ?subs t (length ?pre) stop ?sv = Inr sv' \<and> length sv' = length ms \<and>
      (\<forall>j. j \<notin> set is \<longrightarrow> sv' ! j = ?sv ! j) \<and> (\<forall>j\<in>set is. \<exists>v'. sv' ! j = Some v' \<and> canon v' = canon (val j))"
  proof (rule Cons.IH [OF _ _ _ _ _ t2 s2 Cons.prems(8)])
    show "?sv ! j = None" if "j \<in> set is" for j
      using Cons.prems(2,4) that by (cases "j = i") (auto simp: nth_list_update)
  qed (use Cons.prems f in auto)
  then obtain sv' where sv: "parseStruct f ?subs t (length ?pre) stop ?sv = Inr sv'" "length sv' = length ms"
    "\<And>j. j \<notin> set is \<Longrightarrow> sv' ! j = ?sv ! j" "\<And>j. j \<in> set is \<Longrightarrow> \<exists>v'. sv' ! j = Some v' \<and> canon v' = canon (val j)" by blast
  have lt: "length pre < stop" "length pre \<noteq> length pre + length ?s" using ts Cons.prems(7) by (auto simp: tight_def join_Cons)
  have u: "length pre + length ?s + (if ?ss = [] then 0 else 1) = length ?pre" by simp
  have "parseStruct fuel ?subs t (length pre) stop sv = parseStruct f ?subs t (length ?pre) stop ?sv"
    unfolding f using lt r(1,2) Cons.prems(4) [of i]
    by (subst parseStruct.simps) (simp add: de fm)
  moreover have "\<exists>v'. sv' ! i = Some v' \<and> canon v' = canon (val i)"
    using sv(3) [of i] Cons.prems(2,3) i r(3) by simp
  moreover have "sv' ! j = sv ! j" if "j \<notin> set (i # is)" for j using sv(3) [of j] that by simp
  ultimately show ?case using sv by auto
qed

subsection \<open>The round trip\<close>

text \<open>Values of a type: every row is complete and every element fits its type.\<close>

fun value_ok :: "member \<Rightarrow> value \<Rightarrow> bool" where
  "value_ok (Member a ms ty) v =
     (dims_ok a \<and> rows_ok a (\<lambda>e.
        case m_baseType a of
          OCPI_Struct \<Rightarrow>
            (case e of
               EStruct vs \<Rightarrow> names_ok ms \<and>
                 (vs = [] \<or> list_all2 (\<lambda>ok v. case v of None \<Rightarrow> True | Some v \<Rightarrow> ok v) (map value_ok ms) vs)
             | _ \<Rightarrow> False)
        | OCPI_Type \<Rightarrow>
            (case e of EType (Some v) \<Rightarrow> (case ty of None \<Rightarrow> False | Some m \<Rightarrow> value_ok m v) | _ \<Rightarrow> False)
        | _ \<Rightarrow> scalar_ok a e) v)"

lemma filter_upt_Suc: "filter P [0..<Suc n] = (if P 0 then [0] else []) @ map Suc (filter (\<lambda>i. P (Suc i)) [0..<n])"
  by (simp add: upt_conv_Cons map_Suc_upt [symmetric] filter_map comp_def del: upt_Suc)

lemma member_texts_indices:
  "length ms = length vs \<Longrightarrow>
   member_texts (map (\<lambda>m. (m_name (attrs m), needsComma (attrs m), up m)) ms) vs =
     map (\<lambda>i. named_text (ms ! i) (up (ms ! i) (the (vs ! i)))) (filter (\<lambda>i. vs ! i \<noteq> None) [0..<length ms])"
proof (induction ms vs rule: list_induct2)
  case (Cons m ms v vs)
  then show ?case
    by (cases v) (simp_all add: filter_upt_Suc named_text_def comp_def del: upt_Suc)
qed simp

lemma member_texts_none: "member_texts ms (replicate n None) = []"
proof (induction n arbitrary: ms)
  case (Suc n)
  then show ?case by (cases ms) auto
qed simp

lemma struct_texts:
  assumes nm: "names_ok ms" and l: "length vs = length ms"
    and vt: "\<forall>i<length ms. \<forall>v. vs ! i = Some v \<longrightarrow> value_text (attrs (ms ! i)) (up (ms ! i) v) (pm (ms ! i)) v"
  defines "ss \<equiv> member_texts (map (\<lambda>m. (m_name (attrs m), needsComma (attrs m), up m)) ms) vs"
  shows "list_all tight ss" "ss = [] \<longleftrightarrow> list_all (\<lambda>v. v = None) vs"
    "t = pre @ join (CHR '','') ss @ post \<Longrightarrow> delim post \<Longrightarrow>
     \<exists>sv. parseStruct (length (join (CHR '','') ss)) (map (\<lambda>m. (m_name (attrs m), needsComma (attrs m), pm m t)) ms)
        t (length pre) (length pre + length (join (CHR '','') ss)) (replicate (length ms) None) = Inr sv \<and>
      canon_elem (EStruct sv) = canon_elem (EStruct vs)"
proof -
  let ?is = "filter (\<lambda>i. vs ! i \<noteq> None) [0..<length ms]"
  have ss: "ss = map (\<lambda>i. named_text (ms ! i) (up (ms ! i) (the (vs ! i)))) ?is"
    unfolding ss_def by (rule member_texts_indices) (use l in simp)
  have it: "i < length ms \<and> value_text (attrs (ms ! i)) (up (ms ! i) (the (vs ! i))) (pm (ms ! i)) (the (vs ! i))"
    if "i \<in> set ?is" for i using vt that by auto
  have ti: "tight (named_text (ms ! i) (up (ms ! i) (the (vs ! i))))" if "i \<in> set ?is" for i
    using it [OF that] nm by (auto simp: names_ok_def list_all_length intro: tight_named_text)
  show tight: "list_all tight ss" using ti by (auto simp: ss list_all_iff)
  show "ss = [] \<longleftrightarrow> list_all (\<lambda>v. v = None) vs" using l by (auto simp: ss filter_empty_conv list_all_length)
  assume t: "t = pre @ join (CHR '','') ss @ post" "delim post"
  have fuel: "length ?is \<le> length (join (CHR '','') ss)" using length_join [OF tight, of "CHR '',''"] by (simp add: ss)
  have "\<exists>sv'. parseStruct (length (join (CHR '','') ss)) (map (\<lambda>m. (m_name (attrs m), needsComma (attrs m), pm m t)) ms) t (length pre)
      (length pre + length (join (CHR '','') ss)) (replicate (length ms) None) = Inr sv' \<and>
    length sv' = length ms \<and> (\<forall>i. i \<notin> set ?is \<longrightarrow> sv' ! i = replicate (length ms) None ! i) \<and>
    (\<forall>i\<in>set ?is. \<exists>v'. sv' ! i = Some v' \<and> canon v' = canon (the (vs ! i)))"
    by (rule parseStruct_reads [where val = "\<lambda>i. the (vs ! i)", OF nm it _ _ _ fuel])
      (use t in \<open>auto simp: ss\<close>)
  then obtain sv where sv: "parseStruct (length (join (CHR '','') ss)) (map (\<lambda>m. (m_name (attrs m), needsComma (attrs m), pm m t)) ms) t (length pre)
      (length pre + length (join (CHR '','') ss)) (replicate (length ms) None) = Inr sv"
    "length sv = length ms" "\<And>i. i \<notin> set ?is \<Longrightarrow> sv ! i = replicate (length ms) None ! i"
    "\<And>i. i \<in> set ?is \<Longrightarrow> \<exists>v'. sv ! i = Some v' \<and> canon v' = canon (the (vs ! i))" by blast
  have el: "map_option canon (sv ! i) = map_option canon (vs ! i)" if "i < length ms" for i
    using sv(3,4) [of i] that by (cases "vs ! i") auto
  then have "map (map_option canon) sv = map (map_option canon) vs" by (intro nth_equalityI) (use sv(2) l in auto)
  moreover have "sv ! i = None \<longleftrightarrow> vs ! i = None" if "i < length ms" for i
    using el [OF that] by (metis option.map_disc_iff)
  then have "list_all (\<lambda>v. v = None) sv \<longleftrightarrow> list_all (\<lambda>v. v = None) vs" using sv(2) l by (auto simp: list_all_length)
  ultimately show "\<exists>sv. parseStruct (length (join (CHR '','') ss)) (map (\<lambda>m. (m_name (attrs m), needsComma (attrs m), pm m t)) ms)
        t (length pre) (length pre + length (join (CHR '','') ss)) (replicate (length ms) None) = Inr sv \<and>
      canon_elem (EStruct sv) = canon_elem (EStruct vs)" using sv(1) by auto
qed

lemma struct_codec:
  assumes b: "m_baseType a = OCPI_Struct"
    and ih: "\<And>m v. m \<in> set ms \<Longrightarrow> value_ok m v \<Longrightarrow> value_text (attrs m) (up m v) (pm m) v"
  shows "element_text True
     (\<lambda>comma e. case e of EStruct vs \<Rightarrow> unparseStruct comma (map (\<lambda>m. (m_name (attrs m), needsComma (attrs m), up m)) ms) vs | _ \<Rightarrow> g e)
     (\<lambda>t start fin. sbind (parseStruct (fin - start) (map (\<lambda>m. (m_name (attrs m), needsComma (attrs m), pm m t)) ms)
        t start fin (replicate (length ms) None)) (\<lambda>sv. Inr (EStruct sv)))
     (EStruct [])
     (\<lambda>e. case e of EStruct vs \<Rightarrow> names_ok ms \<and>
                 (vs = [] \<or> list_all2 (\<lambda>ok v. case v of None \<Rightarrow> True | Some v \<Rightarrow> ok v) (map value_ok ms) vs)
             | _ \<Rightarrow> False)"
    (is "element_text True ?uv ?pv ?z ?ok")
proof -
  let ?subs = "map (\<lambda>m. (m_name (attrs m), needsComma (attrs m), up m)) ms"
  define full where "full vs = (if vs = [] then replicate (length ms) None else vs)" for vs :: "value option list"
  have c: "canon_elem (EStruct (full vs)) = canon_elem (EStruct vs)" "list_all (\<lambda>v. v = None) (full vs) = list_all (\<lambda>v. v = None) vs" for vs
    by (auto simp: full_def list_all_iff)
  have mt: "member_texts ?subs (full vs) = member_texts ?subs vs" for vs
    by (simp add: full_def member_texts_none)
  have h: "names_ok ms" "length (full vs) = length ms"
    "\<forall>i<length ms. \<forall>v. full vs ! i = Some v \<longrightarrow> value_text (attrs (ms ! i)) (up (ms ! i) v) (pm (ms ! i)) v"
    if "?ok (EStruct vs)" for vs
  proof -
    show "names_ok ms" using that by simp
    show "length (full vs) = length ms" using that by (auto simp: full_def list_all2_conv_all_nth)
    have "value_text (attrs (ms ! i)) (up (ms ! i) v) (pm (ms ! i)) v" if i: "i < length ms" "full vs ! i = Some v" for i v
      using i ih [OF nth_mem [OF i(1)], of v] \<open>?ok (EStruct vs)\<close>
      by (auto simp: full_def list_all2_conv_all_nth split: if_splits)
    then show "\<forall>i<length ms. \<forall>v. full vs ! i = Some v \<longrightarrow> value_text (attrs (ms ! i)) (up (ms ! i) v) (pm (ms ! i)) v" by blast
  qed
  show ?thesis
  proof
    fix e assume "?ok e"
    then obtain vs where e: "e = EStruct vs" and ok: "?ok (EStruct vs)" by (cases e) auto
    note s = struct_texts [where vs = "full vs" and up = up and pm = pm and ms = ms, OF h [OF ok], unfolded mt]
    show "if True then passes 1 (fst (?uv (CHR '','') e)) else tight (fst (?uv (CHR '','') e))"
      using passes_join [OF s(1)] by (simp add: e unparseStruct_def)
    show "canon_elem e = canon_elem ?z" if "snd (?uv (CHR '','') e)"
      using that s(2) c(2) [of vs] by (simp add: e unparseStruct_def)
    show "\<exists>e'. ?pv t (length pre) (length pre + length (fst (?uv (CHR '','') e))) = Inr e' \<and> canon_elem e' = canon_elem e"
      if "delim post" "t = pre @ fst (?uv (CHR '','') e) @ post" for t pre post
      using s(3) [OF _ that(1), of t pre] that(2) c(1) [of vs] by (auto simp: e unparseStruct_def)
  qed
qed

lemma type_codec:
  assumes ih: "\<And>v. value_ok m v \<Longrightarrow> value_text (attrs m) (up v) pm v"
  shows "element_text False
     (\<lambda>comma e. case e of EType (Some v) \<Rightarrow> unparseType (needsComma (attrs m)) up v | _ \<Rightarrow> g e)
     (\<lambda>t start fin. sbind (parseType (needsComma (attrs m)) (pm t) t start fin) (\<lambda>v. Inr (EType (Some v))))
     (EType None) (\<lambda>e. case e of EType (Some v) \<Rightarrow> value_ok m v | _ \<Rightarrow> False)"
    (is "element_text False ?uv ?pv ?z ?ok")
proof
  fix e assume "?ok e"
  then obtain v where e: "e = EType (Some v)" and ok: "value_ok m v" by (auto split: elem.splits option.splits)
  note v = ih [OF ok]
  show "if False then passes 1 (fst (?uv (CHR '','') e)) else tight (fst (?uv (CHR '','') e))"
    using v tight_in_braces by (auto simp: e unparseType_def value_text_def)
  show "canon_elem e = canon_elem ?z" if "snd (?uv (CHR '','') e)" using that by (simp add: e unparseType_def)
  show "\<exists>e'. ?pv t (length pre) (length pre + length (fst (?uv (CHR '','') e))) = Inr e' \<and> canon_elem e' = canon_elem e"
    if t: "delim post" "t = pre @ fst (?uv (CHR '','') e) @ post" for t pre post
  proof (cases "needsComma (attrs m)")
    case True
    then have "t = pre @ in_braces (up v) @ post" using t(2) by (simp add: e unparseType_def)
    note b = braced_mid [OF this]
    obtain v' where "pm t (length (pre @ ''{'')) (length (pre @ ''{'') + length (up v)) = Inr v'" "canon v' = canon v"
      using value_textD [OF v b(2)] by auto
    then have "parseType (needsComma (attrs m)) (pm t) t (length pre) (length pre + length (in_braces (up v))) = Inr v'"
      using True b(1) unfolding parseType_def b(4) by simp
    then show ?thesis using True \<open>canon v' = canon v\<close> by (simp add: e unparseType_def)
  next
    case False
    then show ?thesis using value_textD [OF v _ t(1), of t pre] t(2) by (auto simp: e unparseType_def parseType_def)
  qed
qed

lemma element_text_cong:
  assumes "element_text w uv pv z ok" "\<And>e. ok' e \<Longrightarrow> ok e \<and> uv' (CHR '','') e = uv (CHR '','') e"
  shows "element_text w uv' pv z ok'"
proof -
  note e = assms(1)
  show ?thesis
    by unfold_locales (use element_text.text_form [OF e] element_text.text_read [OF e] element_text.text_null [OF e] assms(2) in metis)+
qed

text \<open>The printer and the parser of the elements of a type, and the elements they are for.\<close>

definition elem_unparse :: "float_ops \<Rightarrow> vtype \<Rightarrow> member list \<Rightarrow> member option \<Rightarrow> char \<Rightarrow> elem \<Rightarrow> string \<times> bool" where
  "elem_unparse fl a ms ty = (\<lambda>comma e.
       case e of
         EStruct vs \<Rightarrow>
           unparseStruct comma
             (map (\<lambda>m. (m_name (attrs m), needsComma (attrs m), unparse_member fl m (CHR '',''))) ms) vs
       | EType v \<Rightarrow>
           (case (ty, v) of
              (Some m, Some v) \<Rightarrow> unparseType (needsComma (attrs m)) (unparse_member fl m (CHR '','')) v
            | _ \<Rightarrow> ([], False))
       | _ \<Rightarrow> unparse_scalar fl a e)"

definition elem_parse :: "float_ops \<Rightarrow> vtype \<Rightarrow> member list \<Rightarrow> member option \<Rightarrow> string \<Rightarrow> nat \<Rightarrow> nat \<Rightarrow> string + elem" where
  "elem_parse fl a ms ty t = (\<lambda>start fin.
       case m_baseType a of
         OCPI_Struct \<Rightarrow>
           sbind (parseStruct (fin - start)
                    (map (\<lambda>m. (m_name (attrs m), needsComma (attrs m), parse_member fl m t)) ms)
                    t start fin (replicate (length ms) None))
             (\<lambda>sv. Inr (EStruct sv))
       | OCPI_Type \<Rightarrow>
           (case ty of
              None \<Rightarrow> Inl ''null type''
            | Some m \<Rightarrow> sbind (parseType (needsComma (attrs m)) (parse_member fl m t) t start fin)
                          (\<lambda>v. Inr (EType (Some v))))
       | _ \<Rightarrow> parse_scalar fl a t start fin)"

definition elem_ok :: "vtype \<Rightarrow> member list \<Rightarrow> member option \<Rightarrow> elem \<Rightarrow> bool" where
  "elem_ok a ms ty e =
     (case m_baseType a of
          OCPI_Struct \<Rightarrow>
            (case e of
               EStruct vs \<Rightarrow> names_ok ms \<and>
                 (vs = [] \<or> list_all2 (\<lambda>ok v. case v of None \<Rightarrow> True | Some v \<Rightarrow> ok v) (map value_ok ms) vs)
             | _ \<Rightarrow> False)
        | OCPI_Type \<Rightarrow>
            (case e of EType (Some v) \<Rightarrow> (case ty of None \<Rightarrow> False | Some m \<Rightarrow> value_ok m v) | _ \<Rightarrow> False)
        | _ \<Rightarrow> scalar_ok a e)"

lemma by_elements:
  "value_ok (Member a ms ty) v = (dims_ok a \<and> rows_ok a (elem_ok a ms ty) v)"
  "parse_member fl (Member a ms ty) = (\<lambda>t. parse_whole a (elem_parse fl a ms ty t) t)"
  "unparse_member fl (Member a ms ty) comma v = unparse_whole a (elem_unparse fl a ms ty) comma v"
  by (simp_all add: elem_ok_def [abs_def] elem_parse_def elem_unparse_def fun_eq_iff)

lemma elem_codec:
  assumes s: "\<And>m v. m \<in> set ms \<Longrightarrow> value_ok m v \<Longrightarrow> value_text (attrs m) (unparse_member fl m (CHR '','') v) (parse_member fl m) v"
    and ty: "\<And>m v. ty = Some m \<Longrightarrow> value_ok m v \<Longrightarrow> value_text (attrs m) (unparse_member fl m (CHR '','') v) (parse_member fl m) v"
  shows "element_text (needsCommaDimension a) (elem_unparse fl a ms ty) (elem_parse fl a ms ty)
    (zero_elem (m_baseType a)) (elem_ok a ms ty)"
proof -
  consider "m_baseType a = OCPI_Struct" | m where "m_baseType a = OCPI_Type" "ty = Some m"
    | "m_baseType a = OCPI_Type" "ty = None" | "m_baseType a \<noteq> OCPI_Struct" "m_baseType a \<noteq> OCPI_Type" by fastforce
  then show ?thesis
  proof cases
    case 1
    have p: "elem_parse fl a ms ty = (\<lambda>t start fin. sbind (parseStruct (fin - start)
        (map (\<lambda>m. (m_name (attrs m), needsComma (attrs m), parse_member fl m t)) ms) t start fin (replicate (length ms) None)) (\<lambda>sv. Inr (EStruct sv)))"
      using 1 by (simp add: elem_parse_def fun_eq_iff)
    have w: "needsCommaDimension a" "zero_elem (m_baseType a) = EStruct []" using 1 by (simp_all add: needsCommaDimension_def)
    have "element_text True (elem_unparse fl a ms ty) (elem_parse fl a ms ty) (EStruct []) (elem_ok a ms ty)"
      unfolding p by (rule element_text_cong [OF struct_codec [OF 1 s]])
        (auto simp: elem_unparse_def elem_ok_def 1 split: elem.splits)
    then show ?thesis using w by simp
  next
    case (2 m)
    have p: "elem_parse fl a ms ty = (\<lambda>t start fin. sbind (parseType (needsComma (attrs m)) (parse_member fl m t) t start fin)
        (\<lambda>v. Inr (EType (Some v))))"
      using 2 by (simp add: elem_parse_def fun_eq_iff)
    have w: "\<not> needsCommaDimension a" "zero_elem (m_baseType a) = EType None" using 2 by (simp_all add: needsCommaDimension_def)
    have "element_text False (elem_unparse fl a ms ty) (elem_parse fl a ms ty) (EType None) (elem_ok a ms ty)"
      unfolding p by (rule element_text_cong [OF type_codec [OF ty [OF 2(2)]]])
        (auto simp: elem_unparse_def elem_ok_def 2 split: elem.splits option.splits)
    then show ?thesis using w by simp
  next
    case 3
    then have "\<not> elem_ok a ms ty e" for e by (auto simp: elem_ok_def split: elem.splits option.splits)
    then show ?thesis by unfold_locales auto
  next
    case 4
    have p: "elem_parse fl a ms ty = parse_scalar fl a"
      using 4 by (simp add: elem_parse_def fun_eq_iff split: base_type.splits)
    have w: "\<not> needsCommaDimension a" using 4 by (simp add: needsCommaDimension_def)
    have k: "elem_ok a ms ty e = scalar_ok a e" for e using 4 by (simp add: elem_ok_def split: base_type.splits)
    have "element_text False (elem_unparse fl a ms ty) (elem_parse fl a ms ty) (zero_elem (m_baseType a)) (elem_ok a ms ty)"
      unfolding p by (rule element_text_cong [OF scalar_text.element_text_axioms])
        (auto simp: elem_unparse_def k split: elem.splits)
    then show ?thesis using w by simp
  qed
qed

lemma value_text_ok:
  "value_ok m v \<Longrightarrow> value_text (attrs m) (unparse_member fl m (CHR '','') v) (parse_member fl m) v"
proof (induction m arbitrary: v)
  case (Member a ms ty)
  have "element_text (needsCommaDimension a) (elem_unparse fl a ms ty) (elem_parse fl a ms ty)
      (zero_elem (m_baseType a)) (elem_ok a ms ty)"
    by (rule elem_codec) (use Member.IH in auto)
  from element_text.whole_text [OF this refl refl, of v] Member.prems
  show ?case unfolding by_elements member.sel by simp
qed


definition ex_floats :: float_ops where
  "ex_floats = \<lparr>fl_strtod = (\<lambda>_. (0, 0, False)), fl_strtof = (\<lambda>_. (0, 0, False)), fl_print_g = (\<lambda>_. []), fl_widen = ucast\<rparr>"

text \<open>A sequence of structures with a number, an array of two by two and a sequence of strings.\<close>

definition ex_type :: member where
  "ex_type =
     Member (ValueType OCPI_Struct True)
       [Member (ValueType OCPI_ULong False\<lparr>m_name := ''n''\<rparr>) [] None,
        Member (ValueType OCPI_Short False\<lparr>m_name := ''grid'', m_arrayDimensions := [2, 2], m_nItems := 4\<rparr>) [] None,
        Member (ValueType OCPI_String True\<lparr>m_name := ''tags''\<rparr>) [] None] None"

definition ex_value :: "value" where
  "ex_value =
     Value [[EStruct [Some (Value [[EInt 7]]), Some (Value [[EInt (- 5), EInt 0, EInt 0, EInt 0]]),
                      Some (Value [[EString (Some ''a, {b'')], [EString None]])]],
            [EStruct [None, None, Some (Value [])]]]"


text \<open>
  The array of a structure member that is printed without its null elements leaves null pointers
  in a value of strings: the text \<^verbatim>\<open>a\<close> for an array of two strings has no second string.
\<close>

lemma short_array_null_string:
  "parse_value ex_floats (Member (ValueType OCPI_String False\<lparr>m_arrayDimensions := [2], m_nItems := 2\<rparr>) [] None) ''a'' =
     Inr (Value [[EString (Some ''a''), EString None]])"
  by code_simp

end
