(* ===== verification/Metadata.thy ===== *)
theory Metadata
  imports ValueText MessageSize
begin

text \<open>
  Metadata in XML, from \<^verbatim>\<open>core/local/util/ezxml/src/OcpiUtilEzxml.cxx\<close> (attributes) and
  \<^verbatim>\<open>core/local/util/property/src\<close>: data types (\<^verbatim>\<open>OcpiUtilDataTypes.cxx\<close>), properties
  (\<^verbatim>\<open>OcpiUtilProperty.cxx\<close>), protocols (\<^verbatim>\<open>OcpiUtilProtocol.cxx\<close>), ports, memories and workers
  (\<^verbatim>\<open>OcpiUtilPort.cxx\<close>, \<^verbatim>\<open>OcpiUtilMemory.cxx\<close>, \<^verbatim>\<open>OcpiUtilImplementation.cxx\<close>).

  An element of a parsed document is a tag with attributes and children, in the order of the
  document. Attribute defaults of a document type definition are not modelled. An error is the
  message that the parsing function returns, without the excerpts that it prints into it.
\<close>

subsection \<open>Elements and attributes\<close>

datatype xml = Elem (x_name: string) (x_attr: "(string \<times> string) list") (x_child: "xml list")

definition strcaseq :: "string \<Rightarrow> string \<Rightarrow> bool" where
  "strcaseq s t \<longleftrightarrow> lower s = lower t"

definition ezxml_cattr :: "xml \<Rightarrow> string \<Rightarrow> string option" where
  "ezxml_cattr x attr = map_option snd (find (\<lambda>(n, v). strcaseq attr n) (x_attr x))"

text \<open>
  \<^verbatim>\<open>ezxml_cchild\<close> finds the first child with a tag in any case; \<^verbatim>\<open>ezxml_next\<close> goes on with the
  children whose tag is spelled the same. The list pairs the children with what was made of them.
\<close>

definition tagged :: "string \<Rightarrow> (xml \<times> 'a) list \<Rightarrow> (xml \<times> 'a) list" where
  "tagged tag cs =
     (case find (\<lambda>(c, _). strcaseq tag (x_name c)) cs of
        None \<Rightarrow> []
      | Some (c, _) \<Rightarrow> filter (\<lambda>(d, _). x_name d = x_name c) cs)"

definition children :: "xml \<Rightarrow> string \<Rightarrow> xml list" where
  "children x tag = map fst (tagged tag (map (\<lambda>c. (c, ())) (x_child x)))"

definition countChildren :: "xml \<Rightarrow> string \<Rightarrow> nat" where
  "countChildren x tag = length (children x tag)"

definition checkAttrs :: "xml \<Rightarrow> string list \<Rightarrow> string + unit" where
  "checkAttrs x names =
     (if list_all (\<lambda>(a, _). list_ex (\<lambda>n. strcaseq n a) names) (x_attr x) then Inr ()
      else Inl ''Invalid attribute name'')"

definition getUNum :: "string \<Rightarrow> u64 option" where
  "getUNum s = getUNum64 s"

text \<open>The value of the variable after the call, from its value before, and whether the attribute was found.\<close>

definition getNumber :: "xml \<Rightarrow> string \<Rightarrow> u64 \<Rightarrow> u64 \<Rightarrow> bool \<Rightarrow> string + u64 \<times> bool" where
  "getNumber x attr cur dflt setDefault =
     (case ezxml_cattr x attr of
        None \<Rightarrow> Inr (if setDefault then dflt else cur, False)
      | Some a \<Rightarrow> (case getUNum a of None \<Rightarrow> Inl ''Bad numeric value'' | Some v \<Rightarrow> Inr (v, True)))"

definition getBoolean :: "xml \<Rightarrow> string \<Rightarrow> bool \<Rightarrow> bool \<Rightarrow> string + bool" where
  "getBoolean x nm cur trueOnly =
     (case ezxml_cattr x nm of
        None \<Rightarrow> Inr (if trueOnly then cur else False)
      | Some a \<Rightarrow>
          (case parseBool a of
             None \<Rightarrow> Inl ''parsing value as type Bool''
           | Some v \<Rightarrow> if trueOnly \<and> \<not> v then Inl ''can only set the value to true in this context'' else Inr v))"

definition getRequiredString :: "xml \<Rightarrow> string \<Rightarrow> string + string" where
  "getRequiredString x attr =
     (case ezxml_cattr x attr of None \<Rightarrow> Inl ''Missing attribute'' | Some s \<Rightarrow> Inr s)"

definition getOptionalString :: "xml \<Rightarrow> string \<Rightarrow> string \<Rightarrow> string" where
  "getOptionalString x cur attr = (case ezxml_cattr x attr of None \<Rightarrow> cur | Some s \<Rightarrow> s)"

definition hasAttrEq :: "xml \<Rightarrow> string \<Rightarrow> string \<Rightarrow> bool" where
  "hasAttrEq x attr v \<longleftrightarrow> (case ezxml_cattr x attr of None \<Rightarrow> False | Some s \<Rightarrow> strcaseq s v)"

definition findChildWithAttr :: "xml \<Rightarrow> string \<Rightarrow> string \<Rightarrow> string \<Rightarrow> xml option" where
  "findChildWithAttr x cName aName v = find (\<lambda>c. hasAttrEq c aName v) (children x cName)"

text \<open>The tokens of \<^verbatim>\<open>strtok_r\<close> with the separators comma, space and tab.\<close>

definition is_sep :: "char \<Rightarrow> bool" where
  "is_sep c \<longleftrightarrow> c = CHR '','' \<or> c = CHR '' '' \<or> c = CHR 0x09"

function tokens :: "string \<Rightarrow> string list" where
  "tokens s =
     (let r = dropWhile is_sep s in
      if r = [] then [] else takeWhile (\<lambda>c. \<not> is_sep c) r # tokens (dropWhile (\<lambda>c. \<not> is_sep c) r))"
  by pat_completeness auto
termination
proof (relation "measure length")
  fix s r
  assume r: "r = dropWhile is_sep s" "r \<noteq> []"
  then have "\<not> is_sep (hd r)" using hd_dropWhile by metis
  then have "length (dropWhile (\<lambda>c. \<not> is_sep c) r) < length r" using r(2)
    by (cases r) (auto simp: le_imp_less_Suc length_dropWhile_le)
  moreover have "length r \<le> length s" using r(1) by (simp add: length_dropWhile_le)
  ultimately show "(dropWhile (\<lambda>c. \<not> is_sep c) r, s) \<in> measure length" by simp
qed simp

declare tokens.simps [simp del]

definition inList :: "string \<Rightarrow> string option \<Rightarrow> bool" where
  "inList item l = (case l of None \<Rightarrow> False | Some s \<Rightarrow> list_ex (\<lambda>t. strcaseq t item) (tokens s))"

subsection \<open>Data types\<close>

definition MEMBER_ATTRS :: "string list" where
  "MEMBER_ATTRS = [''Name'', ''Type'', ''StringLength'', ''SequenceLength'', ''ArrayLength'', ''ArrayDimensions'', ''Key'', ''Enums'']"

definition baseTypeNames :: "(string \<times> base_type) list" where
  "baseTypeNames =
     [(''None'', OCPI_none), (''Bool'', OCPI_Bool), (''Char'', OCPI_Char), (''Double'', OCPI_Double), (''Float'', OCPI_Float),
      (''Short'', OCPI_Short), (''Long'', OCPI_Long), (''UChar'', OCPI_UChar), (''ULong'', OCPI_ULong), (''UShort'', OCPI_UShort),
      (''LongLong'', OCPI_LongLong), (''ULongLong'', OCPI_ULongLong), (''String'', OCPI_String), (''Struct'', OCPI_Struct),
      (''Enum'', OCPI_Enum), (''Type'', OCPI_Type)]"

definition base_named :: "string \<Rightarrow> base_type option" where
  "base_named s = map_option snd (find (\<lambda>(n, _). strcaseq s n) baseTypeNames)"

fun row_strings :: "elem list list \<Rightarrow> string list" where
  "row_strings ([EString (Some s)] # rs) = s # row_strings rs"
| "row_strings (_ # rs) = row_strings rs"
| "row_strings [] = []"

fun row_numbers :: "elem list list \<Rightarrow> u64 list" where
  "row_numbers ([EInt n] # rs) = of_int n # row_numbers rs"
| "row_numbers (_ # rs) = row_numbers rs"
| "row_numbers [] = []"

definition parse_enums :: "float_ops \<Rightarrow> xml \<Rightarrow> vtype \<Rightarrow> string + vtype" where
  "parse_enums fl x a =
     (case ezxml_cattr x ''enums'' of
        None \<Rightarrow> Inl ''Missing enums attribute when type attribute is enum''
      | Some enums \<Rightarrow>
          (case parse_value fl (Member (ValueType OCPI_String True) [] None) enums of
             Inl err \<Rightarrow> Inl (''Error parsing enums attribute: '' @ err)
           | Inr v \<Rightarrow> Inr (a\<lparr>m_enums := row_strings (rows v)\<rparr>)))"

definition parse_stringLength :: "bool \<Rightarrow> xml \<Rightarrow> vtype \<Rightarrow> string + vtype" where
  "parse_stringLength fixd x a =
     sbind (getNumber x ''StringLength'' (m_stringLength a) 0 False) (\<lambda>(n, found).
     sbind (if found then Inr (n, found) else getNumber x ''size'' n 0 False) (\<lambda>(n, found).
       if fixd \<and> \<not> found then Inl ''Missing StringLength attribute for string type that must be bounded''
       else if fixd \<and> n = 0 then Inl ''StringLength cannot be zero''
       else Inr (a\<lparr>m_stringLength := n\<rparr>)))"

definition parse_arrays :: "float_ops \<Rightarrow> xml \<Rightarrow> vtype \<Rightarrow> string + vtype" where
  "parse_arrays fl x a =
     sbind (getNumber x ''ArrayLength'' 0 0 False) (\<lambda>(n, isArray).
       if isArray then
         (if n = 0 then Inl ''ArrayLength cannot be zero'' else Inr (a\<lparr>m_arrayDimensions := [n], m_nItems := n\<rparr>))
       else case ezxml_cattr x ''ArrayDimensions'' of
         None \<Rightarrow> Inr a
       | Some dims \<Rightarrow>
           (case parse_value fl (Member (ValueType OCPI_ULong True\<lparr>m_sequenceLength := 10\<rparr>) [] None) dims of
              Inl err \<Rightarrow> Inl (''Error parsing array dimensions: '' @ err)
            | Inr v \<Rightarrow>
                let ds = row_numbers (rows v) in
                if 0 \<in> set ds then Inl ''ArrayDimensions cannot have zero values''
                else Inr (a\<lparr>m_arrayDimensions := ds, m_nItems := fold (*) ds (m_nItems a)\<rparr>)))"

definition parse_sequence :: "bool \<Rightarrow> xml \<Rightarrow> vtype \<Rightarrow> string + vtype" where
  "parse_sequence fixd x a =
     sbind (getNumber x ''SequenceLength'' (m_sequenceLength a) 0 False) (\<lambda>(n, found).
     sbind (if found then Inr (n, found) else getNumber x ''SequenceSize'' n 0 False) (\<lambda>(n, found).
       if found \<and> fixd \<and> n = 0 then Inl ''Sequence must have a bounded size''
       else Inr (a\<lparr>m_sequenceLength := n, m_isSequence := found\<rparr>)))"

text \<open>A default value must parse; the value itself is not part of the type.\<close>

definition check_default :: "float_ops \<Rightarrow> xml \<Rightarrow> string option \<Rightarrow> member \<Rightarrow> string + unit" where
  "check_default fl x hasDefault m =
     (case Option.bind hasDefault (ezxml_cattr x) of
        None \<Rightarrow> Inr ()
      | Some s \<Rightarrow> (case parse_value fl m s of Inl err \<Rightarrow> Inl (''for member: '' @ err) | Inr v \<Rightarrow> Inr ()))"

definition check_format :: "xml \<Rightarrow> string + unit" where
  "check_format x =
     (let f = getOptionalString x [] ''Format'' in
      if f \<noteq> [] \<and> CHR ''%'' \<notin> set f then Inl ''invalid format string'' else Inr ())"

definition member_attr_names :: "string option \<Rightarrow> string list" where
  "member_attr_names hasDefault = MEMBER_ATTRS @ (case hasDefault of None \<Rightarrow> [] | Some d \<Rightarrow> [d])"

text \<open>
  The loop of \<^verbatim>\<open>parseMembers\<close> over the children and the members parsed from them, with their
  abbreviations; \<open>names\<close> and \<open>abbs\<close> are those seen so far.
\<close>

fun members_loop :: "string list \<Rightarrow> (xml \<times> (string + member \<times> string)) list \<Rightarrow> string list \<Rightarrow> string list \<Rightarrow> string + member list" where
  "members_loop allowed [] names abbs = Inr []"
| "members_loop allowed ((mx, r) # cs) names abbs =
     sbind (checkAttrs mx allowed) (\<lambda>_.
     sbind r (\<lambda>(m, abbrev).
       if m_name (attrs m) \<in> set names then Inl ''Duplicate member name''
       else if abbrev \<noteq> [] \<and> abbrev \<in> set abbs then Inl ''Duplicate member abbreviation''
       else sbind (members_loop allowed cs (m_name (attrs m) # names) (if abbrev = [] then abbs else abbrev # abbs))
              (\<lambda>ms. Inr (m # ms))))"

text \<open>
  The basic type: \<open>structs\<close> and \<open>types\<close> are the children with what \<^verbatim>\<open>Member::parse\<close> makes of them as
  members of a structure and as the element type of a recursive type.
\<close>

definition parse_base :: "float_ops \<Rightarrow> bool \<Rightarrow> string option \<Rightarrow> xml \<Rightarrow> vtype \<Rightarrow>
    (xml \<times> (string + member \<times> string)) list \<Rightarrow> (xml \<times> (string + member \<times> string)) list \<Rightarrow>
    string + vtype \<times> member list \<times> member option" where
  "parse_base fl fixd hasDefault x a structs types =
     (let typeName = (case ezxml_cattr x ''Type'' of None \<Rightarrow> ''ULong'' | Some s \<Rightarrow> s) in
      if strcaseq typeName ''struct'' then
        sbind (members_loop (member_attr_names hasDefault) (tagged ''member'' structs) [] []) (\<lambda>ms.
          if ms = [] then Inl ''No struct members under type == struct''
          else Inr (a\<lparr>m_baseType := OCPI_Struct\<rparr>, ms, None))
      else if strcaseq typeName ''type'' then
        (case tagged ''type'' types of
           [] \<Rightarrow> Inl ''missing type child element under data type with type=type''
         | (xt, r) # _ \<Rightarrow>
             sbind (checkAttrs xt MEMBER_ATTRS) (\<lambda>_.
             sbind r (\<lambda>(m, _).
               if \<not> m_isSequence (attrs m) then Inl ''recursive type element must be a sequence''
               else Inr (a\<lparr>m_baseType := OCPI_Type\<rparr>, [], Some m))))
      else case base_named typeName of
        None \<Rightarrow> Inl ''Unknown property/argument type''
      | Some bt \<Rightarrow>
          let a = a\<lparr>m_baseType := bt\<rparr> in
          sbind (if bt = OCPI_Enum then parse_enums fl x a else Inr a) (\<lambda>a.
          sbind (if bt = OCPI_String then parse_stringLength fixd x a else Inr a) (\<lambda>a.
          Inr (a, [], None))))"

fun member_parse :: "float_ops \<Rightarrow> bool \<Rightarrow> bool \<Rightarrow> string option \<Rightarrow> xml \<Rightarrow> string + member \<times> string" where
  "member_parse fl fixd hasName hasDefault (Elem tag ats ch) =
     (let x = Elem tag ats ch in
      if ezxml_cattr x ''Name'' = None \<and> hasName then Inl ''Missing Name attribute in Property/Argument/Member element''
      else
        let a = ValueType OCPI_none False\<lparr>m_name := getOptionalString x [] ''Name''\<rparr> in
        sbind (getBoolean x ''Key'' False False) (\<lambda>_.
        sbind (parse_base fl fixd hasDefault x a (map (\<lambda>c. (c, member_parse fl fixd True hasDefault c)) ch)
                 (map (\<lambda>c. (c, member_parse fl fixd False None c)) ch)) (\<lambda>(a, ms, ty).
        if ezxml_cattr x ''StringLength'' \<noteq> None \<and> m_baseType a \<noteq> OCPI_String
        then Inl ''StringLength attribute only valid for string types''
        else sbind (parse_arrays fl x a) (\<lambda>a.
             sbind (parse_sequence fixd x a) (\<lambda>a.
             sbind (check_default fl x hasDefault (Member a ms ty)) (\<lambda>_.
             sbind (check_format x) (\<lambda>_.
             Inr (Member a ms ty, getOptionalString x [] ''Abbrev'')))))))) "

definition parseMembers :: "float_ops \<Rightarrow> xml \<Rightarrow> bool \<Rightarrow> string \<Rightarrow> string option \<Rightarrow> string + member list" where
  "parseMembers fl mems fixd tag hasDefault =
     members_loop (member_attr_names hasDefault)
       (tagged tag (map (\<lambda>c. (c, member_parse fl fixd True hasDefault c)) (x_child mems))) [] []"

subsection \<open>Protocols\<close>

record protocol =
  p_operations :: "operation list"
  m_defaultBufferSize :: u64
  m_minBufferSize :: u64
  m_dataValueWidth :: u64
  m_dataValueGranularity :: u64
  m_diverseDataSizes :: bool
  m_minMessageValues :: u64
  m_maxMessageValues :: u64
  m_variableMessageLength :: bool
  m_zeroLengthMessages :: bool
  m_isTwoWay :: bool
  m_isUnbounded :: bool

definition Protocol :: protocol where
  "Protocol = \<lparr>p_operations = [], m_defaultBufferSize = 0, m_minBufferSize = 0, m_dataValueWidth = 8,
     m_dataValueGranularity = 1, m_diverseDataSizes = False, m_minMessageValues = 0, m_maxMessageValues = 1,
     m_variableMessageLength = False, m_zeroLengthMessages = False, m_isTwoWay = False, m_isUnbounded = False\<rparr>"

fun layout_message :: "layout_error \<Rightarrow> string" where
  "layout_message (TooLarge s) = s"
| "layout_message DivideByZero = ''division by zero''"
| "layout_message NullType = ''null type''"

text \<open>
  The layout of the arguments works on the summary of the protocol. The flag for members below
  32 bits is a dummy of the source.
\<close>

definition op_layout :: "protocol \<Rightarrow> layout" where
  "op_layout p = \<lparr>maxAlign = 0, argOffset = 0, minSizeBits = m_dataValueWidth p, diverseSizes = m_diverseDataSizes p,
     sub32 = False, unBounded = m_isUnbounded p\<rparr>"

definition top_fixed :: "member list \<Rightarrow> bool" where
  "top_fixed args =
     (case args of
        [m] \<Rightarrow> m_isSequence (attrs m) \<and> isFixed True m \<or> \<not> m_isSequence (attrs m) \<and> m_baseType (attrs m) = OCPI_String
      | _ \<Rightarrow> False)"

definition op_parse :: "float_ops \<Rightarrow> xml \<Rightarrow> protocol \<Rightarrow> string + operation \<times> protocol" where
  "op_parse fl op p =
     sbind (checkAttrs op [''Name'', ''Twoway'', ''QualifiedName'']) (\<lambda>_.
     case ezxml_cattr op ''Name'' of
       None \<Rightarrow> Inl ''Missing Name attribute for operation''
     | Some nm \<Rightarrow>
         sbind (getBoolean op ''TwoWay'' False False) (\<lambda>two.
         let p = (if two then p\<lparr>m_isTwoWay := True\<rparr> else p) in
         sbind (parseMembers fl op False ''argument'' None) (\<lambda>args.
         let topFixed = top_fixed args in
         case alignMembers args topFixed (op_layout p) of
           Inl err \<Rightarrow> Inl (layout_message err)
         | Inr (args, l) \<Rightarrow>
             Inr (\<lparr>op_name = nm, op_args = args, m_myOffset = argOffset l, m_topFixedSequence = topFixed\<rparr>,
                  p\<lparr>m_dataValueWidth := minSizeBits l, m_diverseDataSizes := diverseSizes l, m_isUnbounded := unBounded l\<rparr>))))"

definition finishOperation :: "operation \<Rightarrow> protocol \<Rightarrow> protocol" where
  "finishOperation op p =
     (let p = (if m_isUnbounded p \<or> m_maxMessageValues p \<noteq> 0 \<and> m_maxMessageValues p \<noteq> m_myOffset op
               then p\<lparr>m_variableMessageLength := True\<rparr> else p);
          p = (if m_myOffset op > m_maxMessageValues p then p\<lparr>m_maxMessageValues := m_myOffset op\<rparr> else p);
          p = (if op_args op = [] then p\<lparr>m_zeroLengthMessages := True\<rparr> else p)
      in if m_myOffset op < m_minMessageValues p then p\<lparr>m_minMessageValues := m_myOffset op\<rparr> else p)"

text \<open>The first pass over the children counts the operations, the second one parses them.\<close>

definition count_operations :: "xml list \<Rightarrow> string + nat" where
  "count_operations ch =
     (if list_all (\<lambda>c. strcaseq (x_name c) ''Operation'') ch then Inr (length ch)
      else Inl ''Element under Protocol is neither Operation, Protocol or or xi:include'')"

fun parse_operations :: "float_ops \<Rightarrow> xml list \<Rightarrow> protocol \<Rightarrow> string + protocol" where
  "parse_operations fl [] p = Inr p"
| "parse_operations fl (c # ch) p =
     sbind (op_parse fl c p) (\<lambda>(op, p).
     parse_operations fl ch (finishOperation op (p\<lparr>p_operations := p_operations p @ [op]\<rparr>)))"

definition parseSummary :: "xml \<Rightarrow> protocol \<Rightarrow> string + protocol" where
  "parseSummary x p =
     sbind (getNumber x ''DataValueWidth'' 0 8 True) (\<lambda>(w, _).
     sbind (getNumber x ''DataValueGranularity'' 0 1 True) (\<lambda>(g, _).
     sbind (getBoolean x ''DiverseDataSizes'' (m_diverseDataSizes p) False) (\<lambda>dv.
     sbind (getBoolean x ''ZeroLengthMessages'' (m_zeroLengthMessages p) False) (\<lambda>z.
     sbind (getBoolean x ''VariableMessageLength'' (m_variableMessageLength p) False) (\<lambda>vl.
     sbind (getBoolean x ''unBounded'' (m_isUnbounded p) False) (\<lambda>ub.
     sbind (getBoolean x ''twoway'' (m_isTwoWay p) False) (\<lambda>tw.
     sbind (getNumber x ''MaxMessageValues'' (m_maxMessageValues p) 0 True) (\<lambda>(mx, maxSet).
     sbind (getNumber x ''MinMessageValues'' (m_minMessageValues p) (if z then 0 else 1) True) (\<lambda>(mn, _).
       if z \<and> mn \<noteq> 0 then Inl ''MinMessageValues cannot > 0 when ZeroLengthMessages is true''
       else Inr (p\<lparr>m_dataValueWidth := w, m_dataValueGranularity := g, m_diverseDataSizes := dv,
              m_zeroLengthMessages := z, m_variableMessageLength := vl \<or> \<not> maxSet, m_isUnbounded := ub \<or> \<not> maxSet,
              m_isTwoWay := tw, m_maxMessageValues := mx, m_minMessageValues := mn\<rparr>))))))))))"

definition bits_to_bytes :: "u64 \<Rightarrow> u64" where
  "bits_to_bytes n = (n + 7) div 8"

definition finishParse :: "protocol \<Rightarrow> protocol" where
  "finishParse p = p\<lparr>m_minBufferSize := bits_to_bytes (m_dataValueWidth p * m_minMessageValues p)\<rparr>"

text \<open>An override of the width must divide it; the source divides by the attribute before it is tested.\<close>

definition override_width :: "u64 \<Rightarrow> bool \<Rightarrow> protocol \<Rightarrow> string + protocol" where
  "override_width dvw hasDvw p =
     (if \<not> hasDvw then Inr p
      else if dvw > m_dataValueWidth p then Inl ''can't force DataValueWidth to be greater than protocol implies''
      else if dvw = 0 then Inl ''division by zero''
      else if m_dataValueWidth p mod dvw \<noteq> 0 then Inl ''DataValueWidth attribute must divide into implied datavaluewidth''
      else Inr (p\<lparr>m_dataValueWidth := dvw\<rparr>))"

definition bytes_to_values :: "protocol \<Rightarrow> protocol" where
  "bytes_to_values p =
     (if m_dataValueWidth p \<noteq> 0 then
        let bytes = bits_to_bytes (m_dataValueWidth p) in
        p\<lparr>m_maxMessageValues := (m_maxMessageValues p + (bytes - 1)) div bytes\<rparr>
      else p)"

definition parse_detailed :: "float_ops \<Rightarrow> xml \<Rightarrow> protocol \<Rightarrow> string + protocol" where
  "parse_detailed fl prot p =
     sbind (checkAttrs prot [''Name'', ''QualifiedName'', ''defaultbuffersize'', ''datavaluewidth'', ''maxmessagevalues'',
              ''datavaluegranularity'', ''zerolengthmessages'']) (\<lambda>_.
     sbind (parse_operations fl (x_child prot) p) (\<lambda>p.
     sbind (getBoolean prot ''ZeroLengthMessages'' (m_zeroLengthMessages p) False) (\<lambda>z.
     sbind (getNumber prot ''datavaluewidth'' 0 (m_dataValueWidth p) True) (\<lambda>(dvw, hasDvw).
     sbind (getNumber prot ''datavaluegranularity'' 0 (m_dataValueGranularity p) True) (\<lambda>(g, _).
     sbind (override_width dvw hasDvw (p\<lparr>m_zeroLengthMessages := z, m_dataValueGranularity := g\<rparr>)) (\<lambda>p.
     let p = bytes_to_values p in
     sbind (getNumber prot ''maxmessagevalues'' (m_maxMessageValues p) 0 False) (\<lambda>(mx, _).
     Inr (p\<lparr>m_maxMessageValues := mx\<rparr>))))))))"

definition protocol_parse :: "float_ops \<Rightarrow> xml \<Rightarrow> string + protocol" where
  "protocol_parse fl prot =
     (let p = Protocol\<lparr>m_dataValueWidth := 0\<rparr> in
      sbind (count_operations (x_child prot)) (\<lambda>n.
      sbind (if n \<noteq> 0 then parse_detailed fl prot p else parseSummary prot p) (\<lambda>p.
      sbind (getNumber prot ''defaultbuffersize'' 0
               (if m_isUnbounded p then 0 else bits_to_bytes (m_maxMessageValues p * m_dataValueWidth p)) True) (\<lambda>(s, _).
      Inr (finishParse (p\<lparr>m_defaultBufferSize := s\<rparr>))))))"

subsection \<open>Properties\<close>

record property_meta = property_info +
  m_isWritable :: bool
  m_isInitial :: bool
  m_isVolatile :: bool
  m_readSync :: bool
  m_writeSync :: bool
  m_readError :: bool
  m_writeError :: bool
  m_isTest :: bool
  m_isSub32 :: bool

definition Property :: property_meta where
  "Property = \<lparr>pi_member = Member (ValueType OCPI_none False) [] None, m_isIndirect = False, m_indirectAddr = 0,
     m_isParameter = False, m_isReadable = False, m_isWritable = False, m_isInitial = False, m_isVolatile = False,
     m_readSync = False, m_writeSync = False, m_readError = False, m_writeError = False, m_isTest = False, m_isSub32 = False\<rparr>"

definition ACCESS_ATTRS :: "string list" where
  "ACCESS_ATTRS = [''Readable'', ''Writable'', ''Volatile'', ''Initial'', ''Padding'']"

definition PROPERTY_ATTRS :: "string list" where
  "PROPERTY_ATTRS = MEMBER_ATTRS @ ACCESS_ATTRS @ [''IsTest'', ''Default'']"

definition IMPL_ATTRS :: "string list" where
  "IMPL_ATTRS = ACCESS_ATTRS @ [''ReadSync'', ''WriteSync'', ''ReadError'', ''WriteError'', ''Parameter'', ''Indirect'']"

text \<open>The flags of the caller for readable and writable properties come back with the property.\<close>

definition parseAccess :: "xml \<Rightarrow> bool \<Rightarrow> property_meta \<Rightarrow> bool \<Rightarrow> bool \<Rightarrow> string + property_meta \<times> bool \<times> bool" where
  "parseAccess x addAccess p readableConfigs writableConfigs =
     sbind (getBoolean x ''Readable'' (m_isReadable p) addAccess) (\<lambda>r.
     sbind (getBoolean x ''Writable'' (m_isWritable p) addAccess) (\<lambda>w.
     sbind (getBoolean x ''Initial'' (m_isInitial p) addAccess) (\<lambda>i.
     sbind (getBoolean x ''Volatile'' (m_isVolatile p) addAccess) (\<lambda>v.
     sbind (getBoolean x ''Padding'' False False) (\<lambda>padding.
     let w = (w \<or> i); r = (r \<or> v) in
     if \<not> w \<and> \<not> r \<and> \<not> m_isParameter p \<and> \<not> padding then Inl ''property is not readable or writable or a parameter''
     else Inr (p\<lparr>m_isReadable := r, m_isWritable := w, m_isInitial := i, m_isVolatile := v\<rparr>,
               readableConfigs \<or> r, writableConfigs \<or> w))))))"

definition parseImplAlso :: "xml \<Rightarrow> property_meta \<Rightarrow> string + property_meta" where
  "parseImplAlso x p =
     sbind (getBoolean x ''ReadSync'' (m_readSync p) False) (\<lambda>rs.
     sbind (getBoolean x ''WriteSync'' (m_writeSync p) False) (\<lambda>ws.
     sbind (getBoolean x ''ReadError'' (m_readError p) False) (\<lambda>re.
     sbind (getBoolean x ''WriteError'' (m_writeError p) False) (\<lambda>we.
     sbind (getBoolean x ''IsTest'' (m_isTest p) False) (\<lambda>te.
     sbind (getBoolean x ''Parameter'' (m_isParameter p) False) (\<lambda>pa.
     sbind (getNumber x ''Indirect'' (m_indirectAddr p) 0 True) (\<lambda>(addr, ind).
     Inr (p\<lparr>m_readSync := rs, m_writeSync := ws, m_readError := re, m_writeError := we, m_isTest := te,
            m_isParameter := pa, m_indirectAddr := addr, m_isIndirect := ind\<rparr>))))))))"

definition parseImpl :: "xml \<Rightarrow> property_meta \<Rightarrow> bool \<Rightarrow> bool \<Rightarrow> string + property_meta \<times> bool \<times> bool" where
  "parseImpl x p readableConfigs writableConfigs =
     sbind (checkAttrs x (''Name'' # IMPL_ATTRS)) (\<lambda>_.
     sbind (parseAccess x True p readableConfigs writableConfigs) (\<lambda>(p, r, w).
     sbind (parseImplAlso x p) (\<lambda>p. Inr (p, r, w))))"

text \<open>The layout of a property by itself, which finds its size and whether it has parts below 32 bits.\<close>

definition property_layout :: layout where
  "property_layout = \<lparr>maxAlign = 1, argOffset = 0, minSizeBits = 0, diverseSizes = False, sub32 = False, unBounded = False\<rparr>"

definition property_parse :: "float_ops \<Rightarrow> xml \<Rightarrow> bool \<Rightarrow> bool \<Rightarrow> bool \<Rightarrow> bool \<Rightarrow>
    string + property_meta \<times> bool \<times> bool \<times> bool" where
  "property_parse fl x includeImpl readableConfigs writableConfigs sub32Configs =
     sbind (checkAttrs x (''Name'' # PROPERTY_ATTRS @ (if includeImpl then IMPL_ATTRS else []))) (\<lambda>_.
     sbind (if includeImpl then parseImplAlso x Property else Inr Property) (\<lambda>p.
     sbind (parseAccess x False p readableConfigs writableConfigs) (\<lambda>(p, r, w).
     sbind (member_parse fl True True (Some ''default'') x) (\<lambda>(m, _).
     if m_isParameter p \<and> (m_isWritable p \<or> m_isIndirect p)
     then Inl ''Property is a parameter and can't be writable or indirect''
     else case offset m False property_layout of
       Inl err \<Rightarrow> Inl (layout_message err)
     | Inr (m, l) \<Rightarrow> Inr (p\<lparr>pi_member := m, m_isSub32 := sub32 l\<rparr>, r, w, sub32Configs \<or> sub32 l)))))"

subsection \<open>Ports, memories and workers\<close>

record port_meta = protocol +
  pm_name :: string
  pm_ordinal :: nat
  m_provider :: bool
  m_optional :: bool
  m_bidirectional :: bool
  m_minBufferCount :: u64
  m_bufferSize :: u64

text \<open>A port is a protocol with attributes of its own; without a protocol element it is the default one.\<close>

definition port_of :: "protocol \<Rightarrow> port_meta" where
  "port_of p = protocol.extend p \<lparr>pm_name = [], pm_ordinal = 0, m_provider = True, m_optional = False,
     m_bidirectional = False, m_minBufferCount = 1, m_bufferSize = 0\<rparr>"

definition port_parse :: "float_ops \<Rightarrow> xml \<Rightarrow> nat \<Rightarrow> string + port_meta" where
  "port_parse fl x ordinal =
     sbind (getRequiredString x ''name'') (\<lambda>nm.
     sbind (case children x ''protocol'' of [] \<Rightarrow> Inr Protocol | c # _ \<Rightarrow> protocol_parse fl c) (\<lambda>p.
     let q = port_of p in
     sbind (getBoolean x ''twoWay'' (m_isTwoWay q) False) (\<lambda>tw.
     sbind (getBoolean x ''bidirectional'' (m_bidirectional q) False) (\<lambda>bi.
     sbind (getBoolean x ''provider'' (m_provider q) False) (\<lambda>pr.
     sbind (getBoolean x ''optional'' (m_optional q) False) (\<lambda>op.
     sbind (getNumber x ''minBufferCount'' (m_minBufferCount q) 1 True) (\<lambda>(bc, _).
     sbind (getNumber x ''bufferSize'' (m_bufferSize q) 0 True) (\<lambda>(bs, _).
     Inr (q\<lparr>m_isTwoWay := tw, pm_name := nm, pm_ordinal := ordinal, m_provider := pr, m_optional := op,
            m_bidirectional := bi, m_minBufferCount := bc,
            m_bufferSize := (if bs = 0 then m_defaultBufferSize q else bs)\<rparr>)))))))))"

record memory =
  mem_name :: string
  mem_nBytes :: u64

definition memory_parse :: "xml \<Rightarrow> string + memory" where
  "memory_parse x =
     sbind (checkAttrs x [''name'', ''size'']) (\<lambda>_.
     case ezxml_cattr x ''name'' of
       None \<Rightarrow> Inl ''missing name attribute of memory element''
     | Some nm \<Rightarrow>
         sbind (getNumber x ''size'' 0 0 True) (\<lambda>(n, _).
           if n = 0 then Inl ''size attribute of memory element missing or zero''
           else Inr \<lparr>mem_name = nm, mem_nBytes = n\<rparr>))"

record implementation =
  i_name :: string
  i_model :: string
  i_specName :: string
  i_properties :: "property_meta list"
  i_ports :: "port_meta list"
  i_memories :: "memory list"
  m_totalPropertySize :: u64

fun parse_each :: "(nat \<Rightarrow> xml \<Rightarrow> string + 'a) \<Rightarrow> nat \<Rightarrow> xml list \<Rightarrow> string + 'a list" where
  "parse_each f n [] = Inr []"
| "parse_each f n (x # xs) = sbind (f n x) (\<lambda>r. sbind (parse_each f (n + 1) xs) (\<lambda>rs. Inr (r # rs)))"

text \<open>
  The array of memories has an entry for every \<^verbatim>\<open>localMemory\<close> and every \<^verbatim>\<open>memory\<close> child; the two loops
  that fill it both visit the \<^verbatim>\<open>memory\<close> children, and an entry outside of the array is a memory error.
\<close>

definition parse_memories :: "xml \<Rightarrow> string + memory list" where
  "parse_memories x =
     (let n = countChildren x ''localMemory'' + countChildren x ''memory'' in
      sbind (parse_each (\<lambda>_. memory_parse) 0 (children x ''memory'' @ children x ''memory'')) (\<lambda>ms.
      if length ms > n then Inl ''store outside of the array''
      else Inr (ms @ replicate (n - length ms) \<lparr>mem_name = [], mem_nBytes = 0\<rparr>)))"

definition implementation_parse :: "float_ops \<Rightarrow> xml \<Rightarrow> string + implementation" where
  "implementation_parse fl x =
     sbind (getRequiredString x ''name'') (\<lambda>nm.
     sbind (getRequiredString x ''model'') (\<lambda>model.
     let spec = getOptionalString x [] ''specName'' in
     sbind (parse_each (\<lambda>n c. sbind (property_parse fl c True False False False) (\<lambda>(p, _). Inr p)) 0 (children x ''property'')) (\<lambda>props.
     sbind (parse_each (\<lambda>n c. port_parse fl c n) 0 (children x ''port'')) (\<lambda>ports.
     sbind (parse_memories x) (\<lambda>mems.
     Inr \<lparr>i_name = nm, i_model = model, i_specName = (if spec = [] then nm else spec),
          i_properties = props, i_ports = ports, i_memories = mems,
          m_totalPropertySize = sum_list (map (\<lambda>p. m_nBytes (attrs (pi_member p))) props)\<rparr>)))))"

fun index_where :: "('a \<Rightarrow> bool) \<Rightarrow> nat \<Rightarrow> 'a list \<Rightarrow> nat option" where
  "index_where f n [] = None"
| "index_where f n (x # xs) = (if f x then Some n else index_where f (n + 1) xs)"

definition whichProperty :: "implementation \<Rightarrow> string \<Rightarrow> string + nat" where
  "whichProperty i ident =
     (case index_where (\<lambda>p. strcaseq (m_name (attrs (pi_member p))) ident) 0 (i_properties i) of
        None \<Rightarrow> Inl ''Unknown property'' | Some n \<Rightarrow> Inr n)"

definition findProperty :: "implementation \<Rightarrow> string \<Rightarrow> string + property_meta" where
  "findProperty i ident = sbind (whichProperty i ident) (\<lambda>n. Inr (i_properties i ! n))"

definition findPort :: "implementation \<Rightarrow> string \<Rightarrow> port_meta option" where
  "findPort i ident = find (\<lambda>p. strcaseq (pm_name p) ident) (i_ports i)"

end
