(* ===== verification/MetadataProps.thy ===== *)
theory MetadataProps
  imports Metadata ValueRoundtrip
begin

text \<open>
  What the metadata parsers guarantee: the types that are accepted, the access flags of properties,
  and that the buffer size of a protocol is enough for its messages.
\<close>

subsection \<open>Accepted types\<close>

text \<open>
  Structures have members with distinct names, recursive types an element type that is a sequence,
  and the number of items of an array is the product of its dimensions, none of which is zero.
\<close>

fun parsed :: "member \<Rightarrow> bool" where
  "parsed (Member a ms t) \<longleftrightarrow>
     m_align a = 1 \<and> m_nItems a = fold (*) (m_arrayDimensions a) 1 \<and> 0 \<notin> set (m_arrayDimensions a) \<and>
     distinct (map (\<lambda>m. m_name (attrs m)) ms) \<and> list_all parsed ms \<and> pred_option parsed t \<and>
     (m_baseType a = OCPI_Struct \<longleftrightarrow> ms \<noteq> []) \<and> (m_baseType a = OCPI_Type \<longleftrightarrow> t \<noteq> None) \<and>
     pred_option (\<lambda>m. m_isSequence (attrs m)) t"

text \<open>Every string and every sequence has a bound.\<close>

fun has_bounds :: "member \<Rightarrow> bool" where
  "has_bounds (Member a ms t) \<longleftrightarrow>
     (m_baseType a = OCPI_String \<longrightarrow> m_stringLength a \<noteq> 0) \<and> (m_isSequence a \<longrightarrow> m_sequenceLength a \<noteq> 0) \<and>
     list_all has_bounds ms \<and> pred_option has_bounds t"

lemma members_loop_Inr:
  "members_loop allowed cs names abbs = Inr ms \<Longrightarrow>
   length ms = length cs \<and> distinct (map (\<lambda>m. m_name (attrs m)) ms) \<and>
   set (map (\<lambda>m. m_name (attrs m)) ms) \<inter> set names = {} \<and>
   (\<forall>m\<in>set ms. \<exists>c ab. (c, Inr (m, ab)) \<in> set cs)"
proof (induction cs arbitrary: names abbs ms)
  case (Cons c cs)
  obtain mx r where c: "c = (mx, r)" by fastforce
  obtain m ab ms' where r: "r = Inr (m, ab)" "m_name (attrs m) \<notin> set names" "ms = m # ms'"
    "members_loop allowed cs (m_name (attrs m) # names) (if ab = [] then abbs else ab # abbs) = Inr ms'"
    using Cons.prems by (auto simp: c split: if_splits)
  from Cons.IH [OF r(4)] show ?case using r(1-3) by (auto simp: c) blast
qed simp

lemma tagged_subset: "set (tagged tag cs) \<subseteq> set cs" "length (tagged tag cs) \<le> length cs"
  by (auto simp: tagged_def split: option.splits)

lemma parse_enums_keeps:
  "parse_enums fl x a = Inr b \<Longrightarrow> \<exists>es. b = a\<lparr>m_enums := es\<rparr>"
  by (auto simp: parse_enums_def split: option.splits sum.splits)

lemma parse_stringLength_keeps:
  "parse_stringLength fixd x a = Inr b \<Longrightarrow> \<exists>n. b = a\<lparr>m_stringLength := n\<rparr> \<and> (fixd \<longrightarrow> n \<noteq> 0)"
  by (auto simp: parse_stringLength_def split: if_splits)

lemma parse_arrays_keeps:
  assumes "parse_arrays fl x a = Inr b" "m_arrayDimensions a = []" "m_nItems a = 1"
  shows "\<exists>ds. b = a\<lparr>m_arrayDimensions := ds, m_nItems := fold (*) ds 1\<rparr> \<and> 0 \<notin> set ds"
proof -
  obtain n f where g: "getNumber x ''ArrayLength'' 0 0 False = Inr (n, f)"
    using assms(1) by (auto simp: parse_arrays_def)
  show ?thesis
  proof (cases f)
    case True
    then show ?thesis using assms(1) g by (intro exI [of _ "[n]"]) (auto simp: parse_arrays_def split: if_splits)
  next
    case False
    then have "b = a \<or> (\<exists>ds. b = a\<lparr>m_arrayDimensions := ds, m_nItems := fold (*) ds 1\<rparr> \<and> 0 \<notin> set ds)"
      using assms g by (auto simp: parse_arrays_def Let_def split: if_splits option.splits sum.splits)
    moreover have "a = a\<lparr>m_arrayDimensions := [], m_nItems := fold (*) [] 1\<rparr>" using assms(2,3) by simp
    ultimately show ?thesis by (metis empty_iff list.set(1))
  qed
qed

lemma parse_sequence_keeps:
  "parse_sequence fixd x a = Inr b \<Longrightarrow>
   \<exists>n f. b = a\<lparr>m_sequenceLength := n, m_isSequence := f\<rparr> \<and> (fixd \<longrightarrow> f \<longrightarrow> n \<noteq> 0)"
  by (auto simp: parse_sequence_def split: if_splits)

lemma named_scalar:
  "base_named s = Some bt \<Longrightarrow> \<not> strcaseq s ''struct'' \<Longrightarrow> \<not> strcaseq s ''type'' \<Longrightarrow> bt \<noteq> OCPI_Struct \<and> bt \<noteq> OCPI_Type"
proof -
  assume a: "base_named s = Some bt" "\<not> strcaseq s ''struct''" "\<not> strcaseq s ''type''"
  then obtain n where n: "(n, bt) \<in> set baseTypeNames" "lower s = lower n"
    unfolding base_named_def map_option_eq_Some find_Some_iff by (auto simp: strcaseq_def) (metis nth_mem)
  have "lower ''Struct'' = lower ''struct''" "lower ''Type'' = lower ''type''"
    by (simp_all add: lower_def tolower_def isupper_def code_inject [symmetric])
  moreover have "bt = OCPI_Struct \<Longrightarrow> n = ''Struct''" "bt = OCPI_Type \<Longrightarrow> n = ''Type''"
    using n(1) by (auto simp: baseTypeNames_def)
  ultimately show ?thesis using a n(2) by (auto simp: strcaseq_def)
qed

definition base_ok :: "bool \<Rightarrow> vtype \<Rightarrow> (xml \<times> (string + member \<times> string)) list \<Rightarrow>
    (xml \<times> (string + member \<times> string)) list \<Rightarrow> vtype \<times> member list \<times> member option \<Rightarrow> bool" where
  "base_ok fixd a structs types r \<longleftrightarrow> (case r of (b, ms, ty) \<Rightarrow>
     (\<exists>bt es n. b = a\<lparr>m_baseType := bt, m_enums := es, m_stringLength := n\<rparr> \<and> (fixd \<and> bt = OCPI_String \<longrightarrow> n \<noteq> 0) \<and>
        (bt = OCPI_Struct \<longleftrightarrow> ms \<noteq> []) \<and> (bt = OCPI_Type \<longleftrightarrow> ty \<noteq> None) \<and> pred_option (\<lambda>m. m_isSequence (attrs m)) ty) \<and>
     distinct (map (\<lambda>m. m_name (attrs m)) ms) \<and> (\<forall>m\<in>set ms. \<exists>c ab. (c, Inr (m, ab)) \<in> set structs) \<and>
     (\<forall>m. ty = Some m \<longrightarrow> (\<exists>c ab. (c, Inr (m, ab)) \<in> set types)) \<and> length ms \<le> length structs)"

lemma base_okI:
  assumes "b = a\<lparr>m_baseType := bt, m_enums := es, m_stringLength := n\<rparr>" "fixd \<and> bt = OCPI_String \<longrightarrow> n \<noteq> 0"
    "bt = OCPI_Struct \<longleftrightarrow> ms \<noteq> []" "bt = OCPI_Type \<longleftrightarrow> ty \<noteq> None" "pred_option (\<lambda>m. m_isSequence (attrs m)) ty"
    "distinct (map (\<lambda>m. m_name (attrs m)) ms)" "\<forall>m\<in>set ms. \<exists>c ab. (c, Inr (m, ab)) \<in> set structs"
    "\<forall>m. ty = Some m \<longrightarrow> (\<exists>c ab. (c, Inr (m, ab)) \<in> set types)" "length ms \<le> length structs"
  shows "base_ok fixd a structs types (b, ms, ty)"
  unfolding base_ok_def prod.case using assms by blast

lemma parse_base_Inr:
  assumes p: "parse_base fl fixd hdf x a structs types = Inr r"
  shows "base_ok fixd a structs types r"
proof -
  let ?tn = "case ezxml_cattr x ''Type'' of None \<Rightarrow> ''ULong'' | Some s \<Rightarrow> s"
  consider (S) "strcaseq ?tn ''struct''" | (T) "\<not> strcaseq ?tn ''struct''" "strcaseq ?tn ''type''"
    | (P) "\<not> strcaseq ?tn ''struct''" "\<not> strcaseq ?tn ''type''" by blast
  then show ?thesis
  proof cases
    case S
    then obtain ms where l: "members_loop (member_attr_names hdf) (tagged ''member'' structs) [] [] = Inr ms" "ms \<noteq> []"
      and r: "r = (a\<lparr>m_baseType := OCPI_Struct\<rparr>, ms, None)"
      using p by (auto simp: parse_base_def Let_def split: if_splits)
    have b: "a\<lparr>m_baseType := OCPI_Struct\<rparr> = a\<lparr>m_baseType := OCPI_Struct, m_enums := m_enums a, m_stringLength := m_stringLength a\<rparr>" by simp
    note m = members_loop_Inr [OF l(1)]
    show ?thesis unfolding r
    proof (rule base_okI [OF b])
      show "\<forall>m\<in>set ms. \<exists>c ab. (c, Inr (m, ab)) \<in> set structs" using m tagged_subset(1) [of "''member''" structs] by blast
    qed (use m l tagged_subset(2) [of "''member''" structs] in auto)
  next
    case T
    then obtain xt m ab rs where g: "tagged ''type'' types = (xt, Inr (m, ab)) # rs" "m_isSequence (attrs m)"
      and r: "r = (a\<lparr>m_baseType := OCPI_Type\<rparr>, [], Some m)"
      using p by (auto simp: parse_base_def Let_def split: if_splits list.splits)
    have b: "a\<lparr>m_baseType := OCPI_Type\<rparr> = a\<lparr>m_baseType := OCPI_Type, m_enums := m_enums a, m_stringLength := m_stringLength a\<rparr>" by simp
    have "(xt, Inr (m, ab)) \<in> set types" using tagged_subset(1) [of "''type''" types] g(1) by auto
    then show ?thesis unfolding r by (intro base_okI [OF b]) (use g(2) in auto)
  next
    case P
    then obtain bt a1 b where bt: "(if bt = OCPI_Enum then parse_enums fl x (a\<lparr>m_baseType := bt\<rparr>) else Inr (a\<lparr>m_baseType := bt\<rparr>)) = Inr a1"
      "(if bt = OCPI_String then parse_stringLength fixd x a1 else Inr a1) = Inr b" "base_named ?tn = Some bt"
      and r: "r = (b, [], None)"
      using p by (cases "base_named ?tn") (auto simp: parse_base_def Let_def)
    have ns: "bt \<noteq> OCPI_Struct" "bt \<noteq> OCPI_Type" using P bt(3) named_scalar by auto
    obtain es where a1: "a1 = a\<lparr>m_baseType := bt, m_enums := es\<rparr>"
    proof (cases "bt = OCPI_Enum")
      case True
      then show ?thesis using parse_enums_keeps [of fl x "a\<lparr>m_baseType := bt\<rparr>" a1] bt(1) that by auto
    next
      case False
      then have "a1 = a\<lparr>m_baseType := bt\<rparr>" using bt(1) by simp
      then show ?thesis by (intro that [of "m_enums a"]) simp
    qed
    have "\<exists>n. b = a1\<lparr>m_stringLength := n\<rparr> \<and> (fixd \<and> bt = OCPI_String \<longrightarrow> n \<noteq> 0)"
    proof (cases "bt = OCPI_String")
      case True
      then show ?thesis using parse_stringLength_keeps [of fixd x a1 b] bt(2) by auto
    next
      case False
      then show ?thesis using bt(2) by (intro exI [of _ "m_stringLength a1"]) simp
    qed
    then obtain n where n: "b = a1\<lparr>m_stringLength := n\<rparr>" "fixd \<and> bt = OCPI_String \<longrightarrow> n \<noteq> 0" by blast
    have b: "b = a\<lparr>m_baseType := bt, m_enums := es, m_stringLength := n\<rparr>" by (simp add: n(1) a1)
    show ?thesis unfolding r by (rule base_okI [OF b n(2)]) (use ns in auto)
  qed
qed

lemma member_parse_steps:
  assumes "member_parse fl fixd hasName hasDefault (Elem tag ats ch) = Inr (m, ab)"
  obtains b ms ty a1 a2 where
    "parse_base fl fixd hasDefault (Elem tag ats ch) (ValueType OCPI_none False\<lparr>m_name := getOptionalString (Elem tag ats ch) [] ''Name''\<rparr>)
       (map (\<lambda>c. (c, member_parse fl fixd True hasDefault c)) ch) (map (\<lambda>c. (c, member_parse fl fixd False None c)) ch) = Inr (b, ms, ty)"
    "parse_arrays fl (Elem tag ats ch) b = Inr a1" "parse_sequence fixd (Elem tag ats ch) a1 = Inr a2"
    "m = Member a2 ms ty" "hasName \<longrightarrow> ezxml_cattr (Elem tag ats ch) ''Name'' \<noteq> None"
proof (cases "ezxml_cattr (Elem tag ats ch) ''Name'' = None \<and> hasName")
  case True
  then show ?thesis using assms by simp
next
  case False
  from assms [unfolded member_parse.simps Let_def if_not_P [OF False] sbind_eq_Inr_iff]
  obtain k r where "(case r of (a, ms, ty) \<Rightarrow>
        if ezxml_cattr (Elem tag ats ch) ''StringLength'' \<noteq> None \<and> m_baseType a \<noteq> OCPI_String
        then Inl ''StringLength attribute only valid for string types''
        else sbind (parse_arrays fl (Elem tag ats ch) a) (\<lambda>a.
             sbind (parse_sequence fixd (Elem tag ats ch) a) (\<lambda>a.
             sbind (check_default fl (Elem tag ats ch) hasDefault (Member a ms ty)) (\<lambda>_.
             sbind (check_format (Elem tag ats ch)) (\<lambda>_.
             Inr (Member a ms ty, getOptionalString (Elem tag ats ch) [] ''Abbrev'')))))) = Inr (m, ab)"
    "parse_base fl fixd hasDefault (Elem tag ats ch) (ValueType OCPI_none False\<lparr>m_name := getOptionalString (Elem tag ats ch) [] ''Name''\<rparr>)
       (map (\<lambda>c. (c, member_parse fl fixd True hasDefault c)) ch) (map (\<lambda>c. (c, member_parse fl fixd False None c)) ch) = Inr r"
    by blast
  then show ?thesis using that False by (cases r) (auto split: if_splits)
qed

lemma member_parse_Inr:
  "member_parse fl fixd hasName hasDefault x = Inr (m, ab) \<Longrightarrow>
   parsed m \<and> (fixd \<longrightarrow> has_bounds m) \<and> (hasName \<longrightarrow> ezxml_cattr x ''Name'' = Some (m_name (attrs m)))"
proof (induction x arbitrary: hasName hasDefault m ab)
  case (Elem tag ats ch)
  let ?x = "Elem tag ats ch"
  let ?a = "ValueType OCPI_none False\<lparr>m_name := getOptionalString ?x [] ''Name''\<rparr>"
  let ?ss = "map (\<lambda>c. (c, member_parse fl fixd True hasDefault c)) ch" and ?ts = "map (\<lambda>c. (c, member_parse fl fixd False None c)) ch"
  obtain b ms ty a1 a2 where
    b: "parse_base fl fixd hasDefault ?x ?a ?ss ?ts = Inr (b, ms, ty)"
    and a1: "parse_arrays fl ?x b = Inr a1" and a2: "parse_sequence fixd ?x a1 = Inr a2"
    and m: "m = Member a2 ms ty" and nm: "hasName \<longrightarrow> ezxml_cattr ?x ''Name'' \<noteq> None"
    by (rule member_parse_steps [OF Elem.prems])
  note bo = parse_base_Inr [OF b, unfolded base_ok_def prod.case]
  obtain bt es n where b': "b = ?a\<lparr>m_baseType := bt, m_enums := es, m_stringLength := n\<rparr>" "fixd \<and> bt = OCPI_String \<longrightarrow> n \<noteq> 0"
    "bt = OCPI_Struct \<longleftrightarrow> ms \<noteq> []" "bt = OCPI_Type \<longleftrightarrow> ty \<noteq> None" "pred_option (\<lambda>m. m_isSequence (attrs m)) ty"
    using bo by blast
  have "m_arrayDimensions b = []" "m_nItems b = 1" by (simp_all add: b'(1) ValueType_def)
  from parse_arrays_keeps [OF a1 this] obtain ds where ds: "a1 = b\<lparr>m_arrayDimensions := ds, m_nItems := fold (*) ds 1\<rparr>" "0 \<notin> set ds" by blast
  obtain k f where kf: "a2 = a1\<lparr>m_sequenceLength := k, m_isSequence := f\<rparr>" "fixd \<longrightarrow> f \<longrightarrow> k \<noteq> 0"
    using parse_sequence_keeps [OF a2] by blast
  have ih: "parsed m' \<and> (fixd \<longrightarrow> has_bounds m')" if "m' \<in> set ms \<or> ty = Some m'" for m'
  proof -
    have "(\<exists>c ab. (c, Inr (m', ab)) \<in> set ?ss) \<or> (\<exists>c ab. (c, Inr (m', ab)) \<in> set ?ts)" using that bo by blast
    then have "\<exists>c\<in>set ch. \<exists>ab hn hd. member_parse fl fixd hn hd c = Inr (m', ab)"
      unfolding set_map image_iff bex_simps prod.inject by metis
    then show ?thesis using Elem.IH by blast
  qed
  have "parsed m" using bo ih ds(2) b'(3-5) by (auto simp: m kf(1) ds(1) b'(1) ValueType_def list_all_iff pred_option_def)
  moreover have "fixd \<longrightarrow> has_bounds m" using ih b'(2) kf(2) by (auto simp: m kf(1) ds(1) b'(1) list_all_iff pred_option_def)
  moreover have "hasName \<longrightarrow> ezxml_cattr ?x ''Name'' = Some (m_name (attrs m))"
    using nm by (auto simp: m kf(1) ds(1) b'(1) getOptionalString_def)
  ultimately show ?case by blast
qed

lemma parseAccess_flags:
  assumes "parseAccess x addAccess q r w = Inr (q', r', w')"
  shows "m_isInitial q' \<longrightarrow> m_isWritable q'" "m_isVolatile q' \<longrightarrow> m_isReadable q'"
    "r' = (r \<or> m_isReadable q')" "w' = (w \<or> m_isWritable q')"
proof -
  obtain br bw bi bv where "q' = q\<lparr>m_isReadable := br \<or> bv, m_isWritable := bw \<or> bi, m_isInitial := bi, m_isVolatile := bv\<rparr>"
    "r' = (r \<or> br \<or> bv)" "w' = (w \<or> bw \<or> bi)"
    using assms unfolding parseAccess_def sbind_eq_Inr_iff Let_def
    by (metis (no_types, lifting) Inl_Inr_False Inr_inject prod.inject)
  then show "m_isInitial q' \<longrightarrow> m_isWritable q'" "m_isVolatile q' \<longrightarrow> m_isReadable q'"
    "r' = (r \<or> m_isReadable q')" "w' = (w \<or> m_isWritable q')" by auto
qed

text \<open>
  Claim C16: a property that is accepted has a well-formed type whose strings and sequences are
  bounded at every level, it was laid out by itself, and its access flags are consistent:
  initial properties are writable, volatile ones readable, parameters neither writable nor
  indirect.
\<close>
theorem accepted_property:
  assumes "property_parse fl x includeImpl r w s = Inr (p, r', w', s')"
  shows "(\<exists>m l. offset m False property_layout = Inr (pi_member p, l) \<and> parsed m \<and> has_bounds m) \<and>
    (m_isInitial p \<longrightarrow> m_isWritable p) \<and> (m_isVolatile p \<longrightarrow> m_isReadable p) \<and>
    (m_isParameter p \<longrightarrow> \<not> m_isWritable p \<and> \<not> m_isIndirect p) \<and>
    r' = (r \<or> m_isReadable p) \<and> w' = (w \<or> m_isWritable p)"
proof -
  obtain q t where a: "parseAccess x False q r w = Inr t"
    and t: "(case t of (p, r, w) \<Rightarrow>
     sbind (member_parse fl True True (Some ''default'') x) (\<lambda>(m, _).
     if m_isParameter p \<and> (m_isWritable p \<or> m_isIndirect p)
     then Inl ''Property is a parameter and can't be writable or indirect''
     else case offset m False property_layout of
       Inl err \<Rightarrow> Inl (layout_message err)
     | Inr (m, l) \<Rightarrow> Inr (p\<lparr>pi_member := m, m_isSub32 := sub32 l\<rparr>, r, w, s \<or> sub32 l))) = Inr (p, r', w', s')"
    using assms unfolding property_parse_def sbind_eq_Inr_iff by blast
  obtain q2 r2 w2 where t2: "t = (q2, r2, w2)" by (cases t)
  obtain m ab where m: "member_parse fl True True (Some ''default'') x = Inr (m, ab)" using t t2 by auto
  have n: "\<not> (m_isParameter q2 \<and> (m_isWritable q2 \<or> m_isIndirect q2))" using t t2 m by auto
  obtain m' l where l: "offset m False property_layout = Inr (m', l)" and p: "p = q2\<lparr>pi_member := m', m_isSub32 := sub32 l\<rparr>" "r' = r2" "w' = w2"
    using t t2 m n by (cases "offset m False property_layout") auto
  note f = parseAccess_flags [OF a [unfolded t2]]
  show ?thesis using member_parse_Inr [OF m] n l p f by auto
qed

definition ex_property_xml :: xml where
  "ex_property_xml = Elem ''property''
     [(''name'', ''tags''), (''type'', ''string''), (''stringLength'', ''15''), (''sequenceLength'', ''2K''), (''initial'', ''true'')] []"

theorem accepted_property_witness:
  "\<exists>p w s m l. property_parse ex_floats ex_property_xml True False False False = Inr (p, False, w, s) \<and> m_isInitial p \<and> m_isWritable p \<and>
     offset m False property_layout = Inr (pi_member p, l) \<and> parsed m \<and> has_bounds m"
proof -
  have "case property_parse ex_floats ex_property_xml True False False False of
     Inl _ \<Rightarrow> False | Inr (p, r, w, s) \<Rightarrow> m_isInitial p \<and> \<not> r"
    by code_simp
  then obtain p w s where "property_parse ex_floats ex_property_xml True False False False = Inr (p, False, w, s)" "m_isInitial p"
    by (auto split: sum.splits)
  then show ?thesis using accepted_property by blast
qed

subsection \<open>Layout and bounds\<close>

text \<open>The numbers in a type are small: no count and no number of items wraps around.\<close>

fun counts32 :: "member \<Rightarrow> bool" where
  "counts32 (Member a ms t) \<longleftrightarrow>
     list_all (\<lambda>d. unat d < 2 ^ 32) (m_arrayDimensions a) \<and> prod_list (map unat (m_arrayDimensions a)) < 2 ^ 64 \<and>
     unat (m_stringLength a) < 2 ^ 32 \<and> unat (m_sequenceLength a) < 2 ^ 32 \<and>
     list_all counts32 ms \<and> pred_option counts32 t"

lemma sequence_bytes_keeps:
  assumes "sequence_bytes a nB isTop l = Inr (n, a', l')"
  shows "m_arrayDimensions a' = m_arrayDimensions a" "m_stringLength a' = m_stringLength a" "m_sequenceLength a' = m_sequenceLength a"
    "minSizeBits l' = minSizeBits l" "unBounded l' = (unBounded l \<or> m_isSequence a \<and> m_sequenceLength a = 0)"
  using assms by (auto simp: sequence_bytes_def Let_def split: if_splits)

lemma finish_offset_keeps:
  assumes "finish_offset a nB isTop l = Inr (a', l')"
  shows "m_arrayDimensions a' = m_arrayDimensions a" "m_stringLength a' = m_stringLength a" "m_sequenceLength a' = m_sequenceLength a"
    "minSizeBits l' = minSizeBits l" "unBounded l' = (unBounded l \<or> m_isSequence a \<and> m_sequenceLength a = 0)"
proof -
  obtain n1 n2 a2 l2 where s: "sequence_bytes (a\<lparr>m_dataAlign := m_align a\<rparr>) n1 isTop l = Inr (n2, a2, l2)"
    and k: "a' = a2\<lparr>m_nBytes := low32 n2, m_offset := roundUp (argOffset l2) (m_align a2)\<rparr>"
      "minSizeBits l' = minSizeBits l2" "unBounded l' = unBounded l2"
    using assms by (auto simp: finish_offset_def round_to_def Let_def split: if_splits)
  show "m_arrayDimensions a' = m_arrayDimensions a" "m_stringLength a' = m_stringLength a" "m_sequenceLength a' = m_sequenceLength a"
    "minSizeBits l' = minSizeBits l" "unBounded l' = (unBounded l \<or> m_isSequence a \<and> m_sequenceLength a = 0)"
    using sequence_bytes_keeps [OF s] k by simp_all
qed

lemma scalar_offset_keeps:
  assumes "scalar_offset a l = (nB, a', l')"
  shows "m_arrayDimensions a' = m_arrayDimensions a" "m_stringLength a' = m_stringLength a" "m_sequenceLength a' = m_sequenceLength a"
    "m_isSequence a' = m_isSequence a" "unBounded l' = (unBounded l \<or> m_baseType a = OCPI_String \<and> m_stringLength a = 0)"
  using assms by (auto simp: scalar_offset_def Let_def split: if_splits)

lemma layout_bounds:
  "offset m isTop l = Inr (m', l') \<Longrightarrow> parsed m \<Longrightarrow>
   (unBounded l \<longrightarrow> unBounded l') \<and> (\<not> unBounded l' \<longrightarrow> has_bounds m) \<and> counts32 m' = counts32 m"
  "alignMembers ms isTop l = Inr (ms', l') \<Longrightarrow> list_all parsed ms \<Longrightarrow>
   (unBounded l \<longrightarrow> unBounded l') \<and> (\<not> unBounded l' \<longrightarrow> list_all has_bounds ms) \<and> list_all counts32 ms' = list_all counts32 ms"
proof (induction m isTop l and ms isTop l arbitrary: m' l' and ms' l' rule: offset_alignMembers.induct)
  case (1 a ms t isTop l)
  consider (Struct) "m_baseType a = OCPI_Struct" | (Type) "m_baseType a = OCPI_Type"
    | (plain) "m_baseType a \<noteq> OCPI_Struct" "m_baseType a \<noteq> OCPI_Type" by blast
  then show ?case
  proof cases
    case Struct
    then obtain ms1 l1 a1 where s: "alignMembers ms False (inner a l) = Inr (ms1, l1)"
      and f: "finish_offset (sized a l1) (argOffset l1) isTop (outer l l1) = Inr (a1, l')" and m': "m' = Member a1 ms1 t"
      using "1.prems"(1) by auto
    note k = finish_offset_keeps [OF f]
    have i: "(unBounded (inner a l) \<longrightarrow> unBounded l1) \<and> (\<not> unBounded l1 \<longrightarrow> list_all has_bounds ms) \<and>
        list_all counts32 ms1 = list_all counts32 ms"
      using "1.IH"(1) [OF Struct s] "1.prems"(2) by simp
    show ?thesis using i k Struct "1.prems"(2) m'
      by (auto simp: inner_def outer_def sized_def)
  next
    case Type
    then obtain m1 m2 l1 a1 where t: "t = Some m1" and s: "offset m1 False (inner a l) = Inr (m2, l1)"
      and f: "finish_offset (sized a l1) (argOffset l1) isTop (outer l l1) = Inr (a1, l')" and m': "m' = Member a1 ms (Some m2)"
      using "1.prems"(1) by (auto split: option.splits)
    note k = finish_offset_keeps [OF f]
    have i: "(unBounded (inner a l) \<longrightarrow> unBounded l1) \<and> (\<not> unBounded l1 \<longrightarrow> has_bounds m1) \<and> counts32 m2 = counts32 m1"
      using "1.IH"(2) [OF Type t s] "1.prems"(2) by (simp add: t)
    show ?thesis using i k Type "1.prems"(2) m'
      by (auto simp: inner_def outer_def sized_def t)
  next
    case plain
    obtain nB a1 l1 where sc: "scalar_offset a l = (nB, a1, l1)" by (metis surj_pair)
    obtain a2 where f: "finish_offset a1 nB isTop l1 = Inr (a2, l')" and m': "m' = Member a2 ms t"
      using "1.prems"(1) sc unfolding offset_plain [OF plain] by auto
    show ?thesis using finish_offset_keeps [OF f] scalar_offset_keeps [OF sc] plain "1.prems"(2) m'
      by (auto simp: pred_option_def)
  qed
next
  case (3 m ms isTop l)
  then obtain m1 l1 ms1 where s: "offset m isTop l = Inr (m1, l1)" "alignMembers ms isTop l1 = Inr (ms1, l')"
    and ms': "ms' = m1 # ms1" by auto
  show ?case using "3.IH"(1) [OF s(1)] "3.IH"(2) [OF s(2)] "3.prems"(2) by (auto simp: ms')
qed simp

subsection \<open>The summary of a protocol\<close>

definition value_widths :: "u64 set" where "value_widths = {8, 16, 32, 64}"

lemma scalar_width:
  assumes "scalar_offset a l = (nB, a', l')" "minSizeBits l \<in> insert 0 value_widths"
    "m_baseType a \<noteq> OCPI_Struct" "m_baseType a \<noteq> OCPI_Type" "m_baseType a \<noteq> OCPI_none"
  shows "minSizeBits l' \<in> value_widths"
proof -
  let ?b = "if m_baseType a = OCPI_String then 8 else (baseTypeSizes (m_baseType a) + 7) div 8 * 8"
  have b: "?b \<in> value_widths" using assms(3-5) by (cases "m_baseType a") (simp_all add: value_widths_def)
  have "minSizeBits l' \<in> {?b, minSizeBits l} \<and> (minSizeBits l = 0 \<longrightarrow> minSizeBits l' = ?b)"
    using assms(1) by (auto simp: scalar_offset_def Let_def split: if_splits)
  then show ?thesis using b assms(2) by auto
qed

lemma layout_width:
  "offset m isTop l = Inr (m', l') \<Longrightarrow> parsed m \<Longrightarrow> minSizeBits l \<in> insert 0 value_widths \<Longrightarrow> minSizeBits l' \<in> value_widths"
  "alignMembers ms isTop l = Inr (ms', l') \<Longrightarrow> list_all parsed ms \<Longrightarrow> minSizeBits l \<in> insert 0 value_widths \<Longrightarrow>
   minSizeBits l' \<in> (if ms = [] then {minSizeBits l} else value_widths)"
proof (induction m isTop l and ms isTop l arbitrary: m' l' and ms' l' rule: offset_alignMembers.induct)
  case (1 a ms t isTop l)
  consider (Struct) "m_baseType a = OCPI_Struct" | (Type) "m_baseType a = OCPI_Type"
    | (plain) "m_baseType a \<noteq> OCPI_Struct" "m_baseType a \<noteq> OCPI_Type" by blast
  then show ?case
  proof cases
    case Struct
    then obtain ms1 l1 a1 where s: "alignMembers ms False (inner a l) = Inr (ms1, l1)"
      and f: "finish_offset (sized a l1) (argOffset l1) isTop (outer l l1) = Inr (a1, l')"
      using "1.prems"(1) by auto
    show ?thesis using "1.IH"(1) [OF Struct s] finish_offset_keeps(4) [OF f] "1.prems"(2,3) Struct
      by (simp add: inner_def outer_def)
  next
    case Type
    then obtain m1 m2 l1 a1 where t: "t = Some m1" and s: "offset m1 False (inner a l) = Inr (m2, l1)"
      and f: "finish_offset (sized a l1) (argOffset l1) isTop (outer l l1) = Inr (a1, l')"
      using "1.prems"(1) by (auto split: option.splits)
    show ?thesis using "1.IH"(2) [OF Type t s] finish_offset_keeps(4) [OF f] "1.prems"(2,3) t
      by (simp add: inner_def outer_def)
  next
    case plain
    obtain nB a1 l1 where sc: "scalar_offset a l = (nB, a1, l1)" by (metis surj_pair)
    obtain a2 where f: "finish_offset a1 nB isTop l1 = Inr (a2, l')"
      using "1.prems"(1) sc unfolding offset_plain [OF plain] by auto
    have "m_baseType a \<noteq> OCPI_none" using "1.prems"(1) none_traps by fastforce
    then show ?thesis using scalar_width [OF sc "1.prems"(3) plain] finish_offset_keeps(4) [OF f] by simp
  qed
next
  case (3 m ms isTop l)
  then obtain m1 l1 ms1 where s: "offset m isTop l = Inr (m1, l1)" "alignMembers ms isTop l1 = Inr (ms1, l')" by auto
  show ?case using "3.IH"(1) [OF s(1)] "3.IH"(2) [OF s(2)] "3.prems"(2,3) by (auto split: if_splits)
qed simp

text \<open>Documents whose elements have fewer than \<open>2 ^ 26\<close> children.\<close>

fun small_doc :: "xml \<Rightarrow> bool" where
  "small_doc (Elem tag ats ch) \<longleftrightarrow> length ch < 2 ^ 26 \<and> list_all small_doc ch"

lemma member_parse_type_ok:
  "member_parse fl fixd hasName hasDefault x = Inr (m, ab) \<Longrightarrow> small_doc x \<Longrightarrow> type_ok m"
proof (induction x arbitrary: hasName hasDefault m ab)
  case (Elem tag ats ch)
  let ?x = "Elem tag ats ch"
  let ?ss = "map (\<lambda>c. (c, member_parse fl fixd True hasDefault c)) ch" and ?ts = "map (\<lambda>c. (c, member_parse fl fixd False None c)) ch"
  obtain b ms ty a1 a2 where
    b: "parse_base fl fixd hasDefault ?x (ValueType OCPI_none False\<lparr>m_name := getOptionalString ?x [] ''Name''\<rparr>) ?ss ?ts = Inr (b, ms, ty)"
    and m: "m = Member a2 ms ty"
    by (rule member_parse_steps [OF Elem.prems(1)])
  note bo = parse_base_Inr [OF b, unfolded base_ok_def prod.case]
  have ih: "type_ok m'" if "m' \<in> set ms \<or> ty = Some m'" for m'
  proof -
    have "(\<exists>c ab. (c, Inr (m', ab)) \<in> set ?ss) \<or> (\<exists>c ab. (c, Inr (m', ab)) \<in> set ?ts)" using that bo by blast
    then have "\<exists>c\<in>set ch. \<exists>ab hn hd. member_parse fl fixd hn hd c = Inr (m', ab)"
      unfolding set_map image_iff bex_simps prod.inject by metis
    then show ?thesis using Elem.IH Elem.prems(2) by (auto simp: list_all_iff)
  qed
  have "m_align a2 = 1" using member_parse_Inr [OF Elem.prems(1)] by (simp add: m)
  moreover have "length ms < 2 ^ 30" using bo Elem.prems(2) by auto
  ultimately show ?case using ih by (auto simp: m good_align_def list_all_iff pred_option_def)
qed

lemma parseMembers_Inr:
  assumes "parseMembers fl x fixd tag hasDefault = Inr ms"
  shows "list_all parsed ms" "small_doc x \<Longrightarrow> list_all type_ok ms \<and> length ms < 2 ^ 26"
proof -
  let ?cs = "map (\<lambda>c. (c, member_parse fl fixd True hasDefault c)) (x_child x)"
  note l = members_loop_Inr [OF assms [unfolded parseMembers_def]]
  have c: "\<exists>c\<in>set (x_child x). \<exists>ab. member_parse fl fixd True hasDefault c = Inr (m, ab)" if "m \<in> set ms" for m
  proof -
    obtain c ab where "(c, Inr (m, ab)) \<in> set (tagged tag ?cs)" using l \<open>m \<in> set ms\<close> by blast
    then have "(c, Inr (m, ab)) \<in> set ?cs" using tagged_subset(1) by blast
    then show ?thesis by (auto simp: eq_commute)
  qed
  show "list_all parsed ms" using c member_parse_Inr unfolding list_all_iff by blast
  assume s: "small_doc x"
  have x: "length (x_child x) < 2 ^ 26" "\<forall>c\<in>set (x_child x). small_doc c" using s by (cases x; simp add: list_all_iff)+
  have "length ms = length (tagged tag ?cs)" using l by blast
  then have "length ms < 2 ^ 26" using tagged_subset(2) [of tag ?cs] x(1) by simp
  moreover have "list_all type_ok ms"
    unfolding list_all_iff using c member_parse_type_ok x(2) by blast
  ultimately show "list_all type_ok ms \<and> length ms < 2 ^ 26" by simp
qed

lemma unat_product:
  assumes "unat (n :: u64) * prod_list (map unat ds) < 2 ^ 64" "0 \<notin> set ds"
  shows "unat (fold (*) ds n) = unat n * prod_list (map unat ds)"
  using assms
proof (induction ds arbitrary: n)
  case (Cons d ds)
  have p: "1 \<le> prod_list (map unat ds)" using Cons.prems(2) by (induction ds) (auto simp: unat_gt_0 Suc_le_eq)
  have "unat n * unat d * 1 \<le> unat n * unat d * prod_list (map unat ds)" using p by (rule mult_le_mono2)
  moreover have "unat n * unat d * prod_list (map unat ds) < 2 ^ 64" using Cons.prems(1) by (simp add: mult.assoc)
  ultimately have "unat n * unat d < 2 ^ 64" by linarith
  then have u: "unat (d * n) = unat n * unat d" by (simp add: unat_word_ariths mult.commute)
  show ?case using Cons.IH [of "d * n"] Cons.prems by (simp add: u mult.assoc)
qed simp

lemma bounded_members: "parsed m \<Longrightarrow> has_bounds m \<Longrightarrow> counts32 m \<Longrightarrow> bounded m"
proof (induction m)
  case (Member a ms t)
  then show ?case using unat_product [of 1 "m_arrayDimensions a"] by (auto simp: list_all_iff pred_option_def)
qed

lemma op_parse_Inr:
  assumes "op_parse fl c p = Inr (op, q)"
  obtains args l where "parseMembers fl c False ''argument'' None = Inr args"
    "alignMembers args (m_topFixedSequence op) (op_layout p) = Inr (op_args op, l)" "m_myOffset op = argOffset l"
    "m_dataValueWidth q = minSizeBits l" "m_isUnbounded q = unBounded l" "m_maxMessageValues q = m_maxMessageValues p"
    "p_operations q = p_operations p"
proof -
  obtain nm where nm: "ezxml_cattr c ''Name'' = Some nm" using assms by (cases "ezxml_cattr c ''Name''") (auto simp: op_parse_def)
  obtain two where two: "getBoolean c ''TwoWay'' False False = Inr two" using assms nm by (auto simp: op_parse_def)
  obtain args where a: "parseMembers fl c False ''argument'' None = Inr args" using assms nm two by (auto simp: op_parse_def Let_def)
  let ?p = "if two then p\<lparr>m_isTwoWay := True\<rparr> else p"
  have o: "op_layout ?p = op_layout p" by (simp add: op_layout_def)
  obtain args' l where l: "alignMembers args (top_fixed args) (op_layout p) = Inr (args', l)"
    using assms nm two a o by (auto simp: op_parse_def Let_def split: sum.splits)
  have "op = \<lparr>op_name = nm, op_args = args', m_myOffset = argOffset l, m_topFixedSequence = top_fixed args\<rparr> \<and>
      q = ?p\<lparr>m_dataValueWidth := minSizeBits l, m_diverseDataSizes := diverseSizes l, m_isUnbounded := unBounded l\<rparr>"
    using assms nm two a o l by (auto simp: op_parse_def Let_def)
  then show ?thesis using that [OF a, of l] l by simp
qed

text \<open>How the summary of a protocol develops over its operations.\<close>

definition grows :: "protocol \<Rightarrow> protocol \<Rightarrow> bool" where
  "grows p q \<longleftrightarrow> (m_isUnbounded p \<longrightarrow> m_isUnbounded q) \<and> m_maxMessageValues p \<le> m_maxMessageValues q \<and>
     (m_dataValueWidth p \<in> value_widths \<longrightarrow> m_dataValueWidth q \<in> value_widths)"

lemma grows_trans: "grows p q \<Longrightarrow> grows q r \<Longrightarrow> grows p r"
  by (auto simp: grows_def)

lemma finishOperation_keeps:
  "m_isUnbounded (finishOperation op p) = m_isUnbounded p" "m_dataValueWidth (finishOperation op p) = m_dataValueWidth p"
  "p_operations (finishOperation op p) = p_operations p"
  "m_maxMessageValues (finishOperation op p) = max (m_myOffset op) (m_maxMessageValues p)"
  by (auto simp: finishOperation_def Let_def max_def not_less word_gt_0)

text \<open>An operation with the arguments it was parsed from, within the summary \<open>p\<close> of its protocol.\<close>

definition accounted :: "float_ops \<Rightarrow> xml list \<Rightarrow> protocol \<Rightarrow> operation \<Rightarrow> bool" where
  "accounted fl ch p op \<longleftrightarrow>
     (\<exists>c\<in>set ch. \<exists>args l l'. parseMembers fl c False ''argument'' None = Inr args \<and>
        alignMembers args (m_topFixedSequence op) l = Inr (op_args op, l') \<and> argOffset l = 0 \<and> m_myOffset op = argOffset l' \<and>
        (\<not> m_isUnbounded p \<longrightarrow> \<not> unBounded l') \<and> m_myOffset op \<le> m_maxMessageValues p \<and>
        (args \<noteq> [] \<longrightarrow> m_dataValueWidth p \<in> value_widths))"

lemma accounted_grows: "accounted fl ch p op \<Longrightarrow> grows p q \<Longrightarrow> accounted fl ch q op"
  unfolding accounted_def grows_def by (meson order_trans)

lemma accounted_Cons: "accounted fl ch p op \<Longrightarrow> accounted fl (c # ch) p op"
  by (auto simp: accounted_def)

lemma operation_step:
  assumes "op_parse fl c p = Inr (op, q)" "m_dataValueWidth p \<in> insert 0 value_widths"
  defines "r \<equiv> finishOperation op (q\<lparr>p_operations := p_operations q @ [op]\<rparr>)"
  shows "grows p r" "accounted fl [c] r op" "p_operations r = p_operations p @ [op]" "m_dataValueWidth r \<in> insert 0 value_widths"
    "small_doc c \<Longrightarrow> unat (m_maxMessageValues r) \<le> max (unat (m_maxMessageValues p)) (2 ^ 59)"
proof -
  obtain args l where a: "parseMembers fl c False ''argument'' None = Inr args"
    "alignMembers args (m_topFixedSequence op) (op_layout p) = Inr (op_args op, l)" "m_myOffset op = argOffset l"
    "m_dataValueWidth q = minSizeBits l" "m_isUnbounded q = unBounded l" "m_maxMessageValues q = m_maxMessageValues p"
    "p_operations q = p_operations p"
    by (rule op_parse_Inr [OF assms(1)])
  note k = finishOperation_keeps [of op "q\<lparr>p_operations := p_operations q @ [op]\<rparr>", folded r_def, simplified] and ms = parseMembers_Inr [OF a(1)]
  have m0: "minSizeBits (op_layout p) = m_dataValueWidth p" by (simp add: op_layout_def)
  have w: "minSizeBits l \<in> (if args = [] then {m_dataValueWidth p} else value_widths)"
    using layout_width(2) [OF a(2) ms(1), unfolded m0, OF assms(2)] .
  have b: "m_isUnbounded p \<longrightarrow> unBounded l" using layout_bounds(2) [OF a(2) ms(1)] by (simp add: op_layout_def)
  show "grows p r" using w b a(4-6) assms(2) by (auto simp: grows_def k split: if_splits)
  show "accounted fl [c] r op"
  proof -
    have "argOffset (op_layout p) = 0" by (simp add: op_layout_def)
    moreover have "\<not> m_isUnbounded r \<longrightarrow> \<not> unBounded l" "m_myOffset op \<le> m_maxMessageValues r" by (simp_all add: k a(5))
    moreover have "args \<noteq> [] \<longrightarrow> m_dataValueWidth r \<in> value_widths" using w by (simp add: k a(4) split: if_splits)
    ultimately show ?thesis unfolding accounted_def using a(1-3) by auto
  qed
  show "p_operations r = p_operations p @ [op]" by (simp add: k a(7))
  show "m_dataValueWidth r \<in> insert 0 value_widths" using w assms(2) a(4) by (simp add: k split: if_splits)
  assume "small_doc c"
  then have t: "list_all type_ok args" "length args < 2 ^ 26" using ms(2) by simp_all
  have "unat (argOffset l) \<le> length args * 2 ^ 33"
    using layout_sound(2) [OF a(2) t(1)] t(2) by (auto simp: laid_steps_def op_layout_def)
  also have "length args * 2 ^ 33 \<le> 2 ^ 26 * (2 ^ 33 :: nat)" using t(2) by (intro mult_le_mono1) simp
  finally have "unat (argOffset l) \<le> 2 ^ 59" by simp
  then show "unat (m_maxMessageValues r) \<le> max (unat (m_maxMessageValues p)) (2 ^ 59)"
    by (simp add: k a(3,6) max_def word_le_nat_alt)
qed

lemma parse_operations_Inr:
  assumes "parse_operations fl ch p = Inr q" "m_dataValueWidth p \<in> insert 0 value_widths"
  shows "grows p q \<and> (\<exists>ops. p_operations q = p_operations p @ ops \<and> (\<forall>op\<in>set ops. accounted fl ch q op)) \<and>
    (list_all small_doc ch \<longrightarrow> unat (m_maxMessageValues q) \<le> max (unat (m_maxMessageValues p)) (2 ^ 59))"
  using assms
proof (induction ch arbitrary: p)
  case Nil
  then show ?case by (simp add: grows_def)
next
  case (Cons c ch)
  obtain op r where o: "op_parse fl c p = Inr (op, r)" using Cons.prems(1) by (auto simp: sbind_eq_Inr_iff)
  let ?r = "finishOperation op (r\<lparr>p_operations := p_operations r @ [op]\<rparr>)"
  have q: "parse_operations fl ch ?r = Inr q" using Cons.prems(1) o by simp
  note s = operation_step [OF o Cons.prems(2)]
  obtain ops where ops: "p_operations q = p_operations ?r @ ops" "\<forall>op\<in>set ops. accounted fl ch q op" and g: "grows ?r q"
    and m: "list_all small_doc ch \<longrightarrow> unat (m_maxMessageValues q) \<le> max (unat (m_maxMessageValues ?r)) (2 ^ 59)"
    using Cons.IH [OF q s(4)] by blast
  have "accounted fl (c # ch) q op" using accounted_grows [OF s(2) g] by (simp add: accounted_def)
  then have "\<forall>op\<in>set (op # ops). accounted fl (c # ch) q op" using ops(2) accounted_Cons by auto
  moreover have "p_operations q = p_operations p @ (op # ops)" using ops(1) s(3) by simp
  moreover have "list_all small_doc (c # ch) \<longrightarrow> unat (m_maxMessageValues q) \<le> max (unat (m_maxMessageValues p)) (2 ^ 59)"
    using m s(5) by auto
  ultimately show ?case using grows_trans [OF s(1) g] by blast
qed

lemma buffer_covers_values:
  assumes "w \<in> value_widths" "unat m \<le> 2 ^ 59"
  shows "unat m \<le> unat (bits_to_bytes ((m + (bits_to_bytes w - 1)) div bits_to_bytes w * w))"
    "unat (bits_to_bytes ((m + (bits_to_bytes w - 1)) div bits_to_bytes w * w)) \<le> 2 ^ 60"
proof -
  have *: "unat m \<le> unat (bits_to_bytes ((m + (b - 1)) div b * (8 * b))) \<and>
      unat (bits_to_bytes ((m + (b - 1)) div b * (8 * b))) \<le> 2 ^ 60" if b: "unat b = n" "n \<in> {1, 2, 4, 8}" for b n
  proof -
    have n: "0 < n" "n \<le> 8" using b(2) by auto
    have "1 \<le> b" using b n by (simp add: word_le_nat_alt)
    then have "unat (b - 1) = n - 1" using b(1) by (simp add: unat_sub)
    then have s: "unat (m + (b - 1)) = unat m + (n - 1)" using assms(2) n by (simp add: unat_word_ariths)
    let ?d = "(unat m + (n - 1)) div n"
    have d: "?d * n \<le> unat m + (n - 1)" by simp
    have ge: "unat m \<le> ?d * n" using b(2) by auto
    have e: "unat ((m + (b - 1)) div b) = ?d" by (simp add: unat_div_distrib s b(1))
    have up: "?d * n \<le> 2 ^ 59 + 8" using d assms(2) n by linarith
    then have "8 * (?d * n) \<le> 8 * (2 ^ 59 + 8)" by (rule mult_le_mono2)
    then have "?d * (8 * n) \<le> 8 * (2 ^ 59 + 8)" by (simp add: mult.left_commute)
    then have f: "unat ((m + (b - 1)) div b * (8 * b)) = ?d * (8 * n)"
      using e b n by (simp add: unat_word_ariths)
    have "?d * (8 * n) + 7 \<le> 8 * (2 ^ 59 + 8) + 7" using \<open>?d * (8 * n) \<le> 8 * (2 ^ 59 + 8)\<close> by (rule add_right_mono)
    then have "?d * (8 * n) + 7 < 2 ^ 64" by (rule le_less_trans) simp
    then have "unat ((m + (b - 1)) div b * (8 * b) + 7) = ?d * (8 * n) + 7" using f by (simp add: unat_word_ariths)
    then have "unat (bits_to_bytes ((m + (b - 1)) div b * (8 * b))) = (?d * (8 * n) + 7) div 8"
      unfolding bits_to_bytes_def unat_div_distrib by simp
    also have "?d * (8 * n) = 8 * (?d * n)" by (rule mult.left_commute)
    also have "(8 * (?d * n) + 7) div 8 = ?d * n" by simp
    finally have u: "unat (bits_to_bytes ((m + (b - 1)) div b * (8 * b))) = ?d * n" .
    show ?thesis unfolding u using ge le_trans [OF up, of "2 ^ 60"] by simp
  qed
  have w: "w = 8 * bits_to_bytes w \<and> unat (bits_to_bytes w) \<in> {1, 2, 4, 8}"
    using assms(1) by (auto simp: value_widths_def bits_to_bytes_def)
  note h = * [OF refl conjunct2 [OF w], unfolded conjunct1 [OF w, symmetric]]
  show "unat m \<le> unat (bits_to_bytes ((m + (bits_to_bytes w - 1)) div bits_to_bytes w * w))"
    "unat (bits_to_bytes ((m + (bits_to_bytes w - 1)) div bits_to_bytes w * w)) \<le> 2 ^ 60"
    using h by auto
qed

text \<open>The summary of a protocol with operations, without attributes that override it.\<close>

definition no_overrides :: "xml \<Rightarrow> bool" where
  "no_overrides x \<longleftrightarrow> list_all (\<lambda>n. ezxml_cattr x n = None) [''datavaluewidth'', ''maxmessagevalues'', ''defaultbuffersize'']"

lemma protocol_summary:
  assumes "protocol_parse fl x = Inr p" "x_child x \<noteq> []" "no_overrides x" "\<not> m_isUnbounded p"
  obtains q where "parse_operations fl (x_child x) (Protocol\<lparr>m_dataValueWidth := 0\<rparr>) = Inr q" "\<not> m_isUnbounded q"
    "p_operations p = p_operations q" "m_dataValueWidth p = m_dataValueWidth q"
    "m_dataValueWidth q \<noteq> 0 \<longrightarrow> m_defaultBufferSize p = bits_to_bytes
       ((m_maxMessageValues q + (bits_to_bytes (m_dataValueWidth q) - 1)) div bits_to_bytes (m_dataValueWidth q) * m_dataValueWidth q)"
proof -
  have no: "ezxml_cattr x ''datavaluewidth'' = None" "ezxml_cattr x ''maxmessagevalues'' = None" "ezxml_cattr x ''defaultbuffersize'' = None"
    using assms(3) by (simp_all add: no_overrides_def)
  obtain r where r: "parse_detailed fl x (Protocol\<lparr>m_dataValueWidth := 0\<rparr>) = Inr r"
    and p: "p = finishParse (r\<lparr>m_defaultBufferSize := if m_isUnbounded r then 0 else bits_to_bytes (m_maxMessageValues r * m_dataValueWidth r)\<rparr>)"
    using assms(1,2) no(3) by (auto simp: protocol_parse_def Let_def count_operations_def getNumber_def split: if_splits)
  obtain q z g where q: "parse_operations fl (x_child x) (Protocol\<lparr>m_dataValueWidth := 0\<rparr>) = Inr q"
    and rq: "r = bytes_to_values (q\<lparr>m_zeroLengthMessages := z, m_dataValueGranularity := g\<rparr>)"
  proof -
    obtain q z g f where d: "parse_operations fl (x_child x) (Protocol\<lparr>m_dataValueWidth := 0\<rparr>) = Inr q"
      "getBoolean x ''ZeroLengthMessages'' (m_zeroLengthMessages q) False = Inr z"
      "getNumber x ''datavaluegranularity'' 0 (m_dataValueGranularity q) True = Inr (g, f)"
      using r by (auto simp: parse_detailed_def)
    have n: "getNumber x ''datavaluewidth'' 0 v True = Inr (v, False)" "getNumber x ''maxmessagevalues'' v 0 False = Inr (v, False)" for v
      by (simp_all add: getNumber_def no)
    show thesis using r by (intro that [OF d(1), of g z]) (auto simp: parse_detailed_def d n override_width_def Let_def)
  qed
  show ?thesis
    by (rule that [OF q]) (use assms(4) in \<open>auto simp: p rq finishParse_def bytes_to_values_def Let_def split: if_splits\<close>)
qed


definition ex_protocol_xml :: xml where
  "ex_protocol_xml = Elem ''Protocol'' []
     [Elem ''Operation'' [(''Name'', ''go'')]
       [Elem ''Argument'' [(''Name'', ''gain''), (''Type'', ''Double'')] [],
        Elem ''Argument'' [(''Name'', ''taps''), (''Type'', ''Short''), (''ArrayLength'', ''3'')] []]]"

definition plain_counts :: "member \<Rightarrow> bool" where
  "plain_counts m = (case m of
     Member a [] None \<Rightarrow> m_arrayDimensions a \<in> {[], [3]} \<and> m_stringLength a = 0 \<and> m_sequenceLength a = 0 | _ \<Rightarrow> False)"

lemma plain_counts: "plain_counts m \<Longrightarrow> counts32 m"
  by (auto simp: plain_counts_def split: member.splits list.splits option.splits)

lemma ex_protocol_parses:
  "case protocol_parse ex_floats ex_protocol_xml of
     Inl _ \<Rightarrow> False
   | Inr p \<Rightarrow> m_defaultBufferSize p = 14 \<and> \<not> m_isUnbounded p \<and>
       (case p_operations p of [op] \<Rightarrow> \<not> m_topFixedSequence op \<and> list_all plain_counts (op_args op) | _ \<Rightarrow> False)"
  by code_simp


text \<open>
  For an operation with a sequence as its only argument the buffer size leaves out the count, which
  is stored nevertheless when a message is read: a message of the maximum length does not fit.
\<close>

definition ex_top_xml :: xml where
  "ex_top_xml = Elem ''Protocol'' []
     [Elem ''Operation'' [(''Name'', ''go'')]
       [Elem ''Argument'' [(''Name'', ''bytes''), (''Type'', ''UChar''), (''SequenceLength'', ''4'')] []]]"

lemma top_sequence_exceeds_buffer:
  "case protocol_parse ex_floats ex_top_xml of
     Inl _ \<Rightarrow> False
   | Inr p \<Rightarrow> m_defaultBufferSize p = 4 \<and>
       protocol_read True 0 (p_operations p) (replicate 4 0) 4 0 [RSequence 4, RData [1, 2, 3, 4]] = Inl BufferExceeded"
  by code_simp

end
