(* ===== verification/ExprEval.thy ===== *)
theory ExprEval
  imports CLib "HOL-Library.Signed_Division"
begin

text \<open>
  The evaluator of expressions over properties, \<^verbatim>\<open>core/local/util/misc/src/OcpiExprEvaluator.cxx\<close>:
  the scanner, the reduction of a part of the token array to a value, and the loop that reads the
  tokens and reduces on closing parentheses, at the end, and before an operator of lower precedence.

  The token array is the list of the tokens before the current one. Numbers are \<^verbatim>\<open>int64_t\<close>; where
  the arithmetic of C++ leaves the result of an operation undefined, the model fails with
  \<open>Undefined\<close>.
\<close>

unbundle bit_operations_syntax

subsection \<open>Operators\<close>

datatype opcode =
    OpCond1 | OpCond2 | OpLor | OpLand | OpBor | OpXor | OpBand | OpEq | OpNeq | OpLt | OpGt | OpLe | OpGe
  | OpSl | OpSr | OpPlus | OpMinus | OpMult | OpDiv | OpMod | OpUMinus | OpUPlus | OpTilde | OpNot | OpLpar | OpRpar
  | OpEnd | OpString | OpIdent | OpNumber | OpLimit

text \<open>The table of the operators: the code, the text and whether strings are allowed as the right operand.\<close>

definition ALLOPS :: "(opcode \<times> string \<times> bool) list" where
  "ALLOPS =
     [(OpCond1, ''?'', True), (OpCond2, '':'', True), (OpLor, ''||'', True), (OpLand, ''&&'', True),
      (OpBor, ''|'', False), (OpXor, ''^'', False), (OpBand, ''&'', False),
      (OpEq, ''=='', True), (OpNeq, ''!='', True), (OpLt, ''<'', True), (OpGt, ''>'', True), (OpLe, ''<='', True), (OpGe, ''>='', True),
      (OpSl, ''<<'', False), (OpSr, ''>>'', False), (OpPlus, ''+'', False), (OpMinus, ''-'', False), (OpMult, ''*'', False),
      (OpDiv, ''/'', False), (OpMod, ''%'', False), (OpUMinus, '''', False), (OpUPlus, '''', False), (OpTilde, ''~'', False),
      (OpNot, ''!'', False), (OpLpar, ''('', False), (OpRpar, '')'', False)]"

fun op_number :: "opcode \<Rightarrow> nat" where
  "op_number OpCond1 = 0" | "op_number OpCond2 = 1" | "op_number OpLor = 2" | "op_number OpLand = 3"
| "op_number OpBor = 4" | "op_number OpXor = 5" | "op_number OpBand = 6" | "op_number OpEq = 7"
| "op_number OpNeq = 8" | "op_number OpLt = 9" | "op_number OpGt = 10" | "op_number OpLe = 11"
| "op_number OpGe = 12" | "op_number OpSl = 13" | "op_number OpSr = 14" | "op_number OpPlus = 15"
| "op_number OpMinus = 16" | "op_number OpMult = 17" | "op_number OpDiv = 18" | "op_number OpMod = 19"
| "op_number OpUMinus = 20" | "op_number OpUPlus = 21" | "op_number OpTilde = 22" | "op_number OpNot = 23"
| "op_number OpLpar = 24" | "op_number OpRpar = 25" | "op_number OpEnd = 26" | "op_number OpString = 27"
| "op_number OpIdent = 28" | "op_number OpNumber = 29" | "op_number OpLimit = 30"

definition all_opcodes :: "opcode list" where
  "all_opcodes = map fst ALLOPS @ [OpEnd, OpString, OpIdent, OpNumber, OpLimit]"

lemma op_number_inverse: "all_opcodes ! op_number p = p"
  by (cases p) (simp_all add: all_opcodes_def ALLOPS_def)

text \<open>The codes are ordered by precedence, in the order of the table.\<close>

instantiation opcode :: linorder
begin

definition less_eq_opcode :: "opcode \<Rightarrow> opcode \<Rightarrow> bool" where
  "less_eq_opcode p q \<longleftrightarrow> op_number p \<le> op_number q"

definition less_opcode :: "opcode \<Rightarrow> opcode \<Rightarrow> bool" where
  "less_opcode p q \<longleftrightarrow> op_number p < op_number q"

instance
proof
  fix p q :: opcode
  show "p \<le> q \<Longrightarrow> q \<le> p \<Longrightarrow> p = q"
    unfolding less_eq_opcode_def using op_number_inverse by (metis le_antisym)
qed (auto simp: less_eq_opcode_def less_opcode_def)

end

text \<open>The table has no entry behind \<open>OpEnd\<close>: reading it for a value leaves the array.\<close>

definition opStringOk :: "opcode \<Rightarrow> bool option" where
  "opStringOk p =
     (if p > OpEnd then None
      else Some (case map_of (map (\<lambda>(n, _, b). (n, b)) ALLOPS) p of None \<Rightarrow> False | Some b \<Rightarrow> b))"

subsection \<open>Scanner\<close>

datatype expr_error = Message string | Undefined | Uninitialised | OutsideTable | OutsideTokens | Overrun'

text \<open>The loop over the operators: a one character match goes on, a two character match ends it.\<close>

fun match_ops :: "(opcode \<times> string \<times> bool) list \<Rightarrow> string \<Rightarrow> opcode \<Rightarrow> opcode \<times> nat" where
  "match_ops [] cp p = (p, 0)"
| "match_ops ((n, [], _) # ns) cp p = match_ops ns cp p"
| "match_ops ((n, [a], _) # ns) cp p = match_ops ns cp (if take 1 cp = [a] then n else p)"
| "match_ops ((n, a # b # _, _) # ns) cp p = (if take 2 cp = [a, b] then (n, 1) else match_ops ns cp p)"

fun scan_quoted :: "string \<Rightarrow> expr_error + string \<times> string" where
  "scan_quoted [] = Inl (Message ''missing close quote on string'')"
| "scan_quoted (c # cs) =
     (if c = CHR 0x22 then Inr ([], cs)
      else if c = CHR 0x5C then
        (case cs of [] \<Rightarrow> Inl Overrun' | d # ds \<Rightarrow> sbind (scan_quoted ds) (\<lambda>(t, r). Inr (c # d # t, r)))
      else sbind (scan_quoted cs) (\<lambda>(t, r). Inr (c # t, r)))"

definition ident_char :: "char \<Rightarrow> bool" where
  "ident_char c \<longleftrightarrow> isalpha c \<or> c = CHR ''_'' \<or> isdigit c"

definition number_char :: "char \<Rightarrow> bool" where
  "number_char c \<longleftrightarrow> isdigit c \<or> c = CHR ''.'' \<or> c = CHR ''e''"

text \<open>A lexeme: the code, the text of the buffer from its start, and its own text.\<close>

record lexeme =
  lx_op :: opcode
  lx_start :: string
  lx_text :: string

definition lex :: "string \<Rightarrow> expr_error + lexeme \<times> string" where
  "lex s =
     (let cp = dropWhile isspace s in
      if cp = [] then Inr (\<lparr>lx_op = OpEnd, lx_start = [], lx_text = []\<rparr>, [])
      else if isalpha (hd cp) \<or> hd cp = CHR ''_'' then
        Inr (\<lparr>lx_op = OpIdent, lx_start = cp, lx_text = takeWhile ident_char cp\<rparr>, dropWhile isspace (dropWhile ident_char cp))
      else if hd cp = CHR 0x22 then
        sbind (scan_quoted (tl cp)) (\<lambda>(t, r).
          Inr (\<lparr>lx_op = OpString, lx_start = tl cp, lx_text = t\<rparr>, dropWhile isspace r))
      else if isdigit (hd cp) then
        Inr (\<lparr>lx_op = OpNumber, lx_start = cp, lx_text = takeWhile number_char cp\<rparr>, dropWhile isspace (dropWhile number_char cp))
      else case match_ops ALLOPS cp OpLimit of (p, n) \<Rightarrow>
        if p = OpLimit then Inl (Message ''illegal token'')
        else Inr (\<lparr>lx_op = p, lx_start = cp, lx_text = []\<rparr>, dropWhile isspace (drop (n + 1) cp)))"

lemma scan_quoted_shorter: "scan_quoted s = Inr (t, r) \<Longrightarrow> length r < length s"
proof (induction s arbitrary: t r rule: scan_quoted.induct)
  case (2 c cs)
  then show ?case by (fastforce split: if_splits list.splits)
qed simp

lemma lex_shorter:
  assumes "lex s = Inr (l, r)" "lx_op l \<noteq> OpEnd"
  shows "length r < length s"
proof -
  define cp where "cp = dropWhile isspace s"
  note l = assms(1) [unfolded lex_def Let_def cp_def [symmetric]]
  have cp: "cp \<noteq> []" using l assms(2) by auto
  have len: "length cp \<le> length s" "\<And>q xs. length (dropWhile q xs) \<le> length xs" unfolding cp_def by (rule length_dropWhile_le)+
  have part: "length (dropWhile q cp) < length cp" if "q (hd cp)" for q
    using that cp len(2) by (cases cp) (auto simp: less_Suc_eq_le length_dropWhile_le)
  have "\<exists>q. r = dropWhile isspace q \<and> length q < length cp"
  proof -
    consider (Id) "isalpha (hd cp) \<or> hd cp = CHR ''_''" "r = dropWhile isspace (dropWhile ident_char cp)"
      | (St) t q where "scan_quoted (tl cp) = Inr (t, q)" "r = dropWhile isspace q"
      | (Nu) "isdigit (hd cp)" "r = dropWhile isspace (dropWhile number_char cp)" | (Op) n where "r = dropWhile isspace (drop (n + 1) cp)"
      using l cp by (auto split: if_splits prod.splits)
    then show ?thesis
    proof cases
      case Id
      then show ?thesis using part [of ident_char] by (auto simp: ident_char_def)
    next
      case St
      then show ?thesis using scan_quoted_shorter [OF St(1)] by (intro exI [of _ q]) simp
    next
      case Nu
      then show ?thesis using part [of number_char] by (auto simp: number_char_def)
    next
      case Op
      then show ?thesis using cp by (intro exI [of _ "drop (n + 1) cp"]) (cases cp; simp)
    qed
  qed
  then show ?thesis using len by (metis le_less_trans less_le_trans)
qed

text \<open>All lexemes of the buffer, with the end.\<close>

function lex_all :: "string \<Rightarrow> expr_error + lexeme list" where
  "lex_all s =
     (case lex s of
        Inl e \<Rightarrow> Inl e
      | Inr (l, r) \<Rightarrow> if lx_op l = OpEnd then Inr [l] else sbind (lex_all r) (\<lambda>ls. Inr (l # ls)))"
  by pat_completeness auto
termination by (relation "measure length") (auto intro: lex_shorter)

declare lex_all.simps [simp del]

subsection \<open>Values and arithmetic\<close>

datatype token = TOp opcode | TString string | TNumber int

fun tok_op :: "token \<Rightarrow> opcode" where
  "tok_op (TOp p) = p"
| "tok_op (TString s) = OpString"
| "tok_op (TNumber n) = OpNumber"

text \<open>The number of a token; it is not initialised for other tokens.\<close>

fun number_of :: "token \<Rightarrow> expr_error + int" where
  "number_of (TNumber n) = Inr n"
| "number_of _ = Inl Uninitialised"

fun string2Number :: "token \<Rightarrow> token" where
  "string2Number (TString s) = TNumber (if s = [] then 0 else 1)"
| "string2Number t = t"

definition int64 :: "int \<Rightarrow> expr_error + int" where
  "int64 i = (if - 0x8000000000000000 \<le> i \<and> i < 0x8000000000000000 then Inr i else Inl Undefined)"

definition is_num_op :: "opcode \<Rightarrow> bool" where
  "is_num_op p \<longleftrightarrow> p \<in> {OpMinus, OpPlus, OpMult, OpDiv, OpMod, OpXor, OpBor, OpBand, OpSl, OpSr}"

fun num_op :: "opcode \<Rightarrow> int \<Rightarrow> int \<Rightarrow> expr_error + int" where
  "num_op OpMinus a b = int64 (a - b)"
| "num_op OpPlus a b = int64 (a + b)"
| "num_op OpMult a b = int64 (a * b)"
| "num_op OpDiv a b = (if b = 0 then Inl Undefined else int64 (a sdiv b))"
| "num_op OpMod a b = (if b = 0 then Inl Undefined else sbind (int64 (a sdiv b)) (\<lambda>_. Inr (a smod b)))"
| "num_op OpXor a b = Inr (a XOR b)"
| "num_op OpBor a b = Inr (a OR b)"
| "num_op OpBand a b = Inr (a AND b)"
| "num_op OpSl a b = (if b < 0 \<or> b \<ge> 64 \<or> a < 0 then Inl Undefined else int64 (push_bit (nat b) a))"
| "num_op OpSr a b = (if b < 0 \<or> b \<ge> 64 then Inl Undefined else Inr (drop_bit (nat b) a))"
| "num_op _ a b = Inl Undefined"

definition is_cmp_op :: "opcode \<Rightarrow> bool" where
  "is_cmp_op p \<longleftrightarrow> p \<in> {OpEq, OpNeq, OpLt, OpGt, OpLe, OpGe}"

fun cmp_op :: "opcode \<Rightarrow> int \<Rightarrow> int \<Rightarrow> bool" where
  "cmp_op OpEq a b = (a = b)"
| "cmp_op OpNeq a b = (a \<noteq> b)"
| "cmp_op OpLt a b = (a < b)"
| "cmp_op OpGt a b = (a > b)"
| "cmp_op OpLe a b = (a \<le> b)"
| "cmp_op OpGe a b = (a \<ge> b)"
| "cmp_op _ a b = False"

definition c_str :: "string \<Rightarrow> string" where
  "c_str s = takeWhile (\<lambda>c. code c \<noteq> 0) s"

fun strcasecmp :: "string \<Rightarrow> string \<Rightarrow> int" where
  "strcasecmp [] [] = 0"
| "strcasecmp [] (d # ds) = - int (code (tolower d))"
| "strcasecmp (c # cs) [] = int (code (tolower c))"
| "strcasecmp (c # cs) (d # ds) =
     (if tolower c = tolower d then strcasecmp cs ds else int (code (tolower c)) - int (code (tolower d)))"

definition truth :: "bool \<Rightarrow> token" where
  "truth b = TNumber (if b then 1 else 0)"

subsection \<open>Reduction\<close>

text \<open>
  One turn of the loop in \<^verbatim>\<open>reduce\<close>: \<open>t\<close> is the value at the end, \<open>p\<close> the token \<^verbatim>\<open>t[-1]\<close> and \<open>rest\<close>
  are the tokens \<^verbatim>\<open>t[-2]\<close>, \<^verbatim>\<open>t[-3]\<close> and so on down to the start of the part.
\<close>

definition reduce_step :: "token \<Rightarrow> token \<Rightarrow> token list \<Rightarrow> expr_error + token list" where
  "reduce_step t p rest =
     (let opr = tok_op p in
      if tok_op t = OpString \<and> opStringOk opr = None then Inl OutsideTable
      else if tok_op t = OpString \<and> opStringOk opr = Some False then Inl (Message ''operator illegal for string'')
      else if tok_op t \<le> OpEnd then Inl (Message ''operator syntax'')
      else if opr = OpTilde then sbind (number_of t) (\<lambda>n. Inr (TNumber (NOT n) # rest))
      else if opr = OpNot then
        Inr (truth (case t of TString s \<Rightarrow> s \<noteq> [] | TNumber n \<Rightarrow> n \<noteq> 0 | _ \<Rightarrow> False) # rest)
      else if opr = OpUPlus then sbind (number_of t) (\<lambda>n. Inr (TNumber n # rest))
      else if opr = OpUMinus then sbind (number_of t) (\<lambda>n. sbind (int64 (- n)) (\<lambda>n. Inr (TNumber n # rest)))
      else if is_num_op opr then
        (case rest of
           [] \<Rightarrow> Inl OutsideTokens
         | t2 # rs \<Rightarrow> sbind (number_of t2) (\<lambda>a. sbind (number_of t) (\<lambda>b. sbind (num_op opr a b) (\<lambda>r. Inr (TNumber r # rs)))))
      else if is_cmp_op opr then
        (case rest of
           [] \<Rightarrow> Inl OutsideTokens
         | t2 # rs \<Rightarrow>
             if tok_op t2 \<noteq> tok_op t then Inl (Message ''string and non-string with binary operator'')
             else Inr (truth (case (t2, t) of
                 (TString a, TString b) \<Rightarrow> cmp_op opr (strcasecmp (c_str a) (c_str b)) 0
               | (TNumber a, TNumber b) \<Rightarrow> cmp_op opr a b
               | _ \<Rightarrow> False) # rs))
      else if opr = OpLor \<or> opr = OpLand then
        (case rest of
           [] \<Rightarrow> Inl OutsideTokens
         | t2 # rs \<Rightarrow>
             sbind (number_of (string2Number t2)) (\<lambda>a. sbind (number_of (string2Number t)) (\<lambda>b.
             Inr (truth (if opr = OpLor then a \<noteq> 0 \<or> b \<noteq> 0 else a \<noteq> 0 \<and> b \<noteq> 0) # rs))))
      else if opr = OpCond2 then
        (if length rest < 3 \<or> tok_op (rest ! 1) \<noteq> OpCond1 \<or> tok_op (rest ! 0) \<le> OpEnd
         then Inl (Message ''bad conditional operator syntax'')
         else sbind (number_of (string2Number (rest ! 2))) (\<lambda>c. Inr ((if c \<noteq> 0 then rest ! 0 else t) # drop 3 rest)))
      else Inl (Message ''bad operator syntax''))"

lemma reduce_step_Inr:
  assumes "reduce_step t p rest = Inr ts"
  obtains v n where "ts = v # drop n rest" "tok_op v > OpEnd" "n \<le> length rest"
proof -
  have gt: "OpEnd < OpNumber" "OpEnd < OpString" by (simp_all add: less_opcode_def)
  have t: "tok_op t > OpEnd" using assms by (auto simp: reduce_step_def Let_def split: if_splits)
  have "(\<exists>n. ts = TNumber n # rest) \<or> (\<exists>n r rs. rest = r # rs \<and> ts = TNumber n # rs) \<or>
      (3 \<le> length rest \<and> (ts = t # drop 3 rest \<or> ts = rest ! 0 # drop 3 rest \<and> tok_op (rest ! 0) > OpEnd))"
    using assms by (auto simp: reduce_step_def Let_def truth_def not_le not_less split: if_splits list.splits)
  then consider (A) n where "ts = TNumber n # rest" | (B) n r rs where "rest = r # rs" "ts = TNumber n # rs"
    | (C) "3 \<le> length rest" "ts = t # drop 3 rest" | (D) "3 \<le> length rest" "ts = rest ! 0 # drop 3 rest" "tok_op (rest ! 0) > OpEnd"
    by blast
  then show ?thesis
  proof cases
    case A
    then show ?thesis using that [of "TNumber n" 0] gt by simp
  next
    case B
    then show ?thesis using that [of "TNumber n" 1] gt by simp
  next
    case C
    then show ?thesis using that t by blast
  next
    case D
    then show ?thesis using that by blast
  qed
qed

text \<open>The loop, on the tokens of a part in reverse order: a single token is the result.\<close>

function reduce_loop :: "token list \<Rightarrow> expr_error + token" where
  "reduce_loop [] = Inl (Message ''bad expression syntax'')"
| "reduce_loop [v] = Inr v"
| "reduce_loop (t # p # rest) =
     (case reduce_step t p rest of Inl e \<Rightarrow> Inl e | Inr ts \<Rightarrow> reduce_loop ts)"
  by pat_completeness auto
termination
proof (relation "measure length")
  fix t p rest ts
  assume "reduce_step t p rest = Inr ts"
  then show "(ts, t # p # rest) \<in> measure length" by (elim reduce_step_Inr) auto
qed simp

text \<open>
  The tokens after the reduction of those from \<open>start\<close> on. With parentheses the value replaces the
  left one.
\<close>

definition reduce :: "token list \<Rightarrow> nat \<Rightarrow> bool \<Rightarrow> expr_error + token list" where
  "reduce ts start parens =
     sbind (reduce_loop (rev (drop start ts))) (\<lambda>v. Inr (take (if parens then start - 1 else start) ts @ [v]))"

subsection \<open>Parser\<close>

datatype expr_value = ENumber int | EString string

type_synonym resolver = "string \<Rightarrow> string + expr_value"

fun value_token :: "expr_value \<Rightarrow> token" where
  "value_token (ENumber n) = TNumber n"
| "value_token (EString s) = TString s"

record expr_state =
  tokens_before :: "token list"
  lpar :: "nat option"
  nParens :: nat

definition push :: "token \<Rightarrow> expr_state \<Rightarrow> expr_state" where
  "push t st = st\<lparr>tokens_before := tokens_before st @ [t]\<rparr>"

text \<open>The search for the left parenthesis around the one at an index.\<close>

fun find_lpar :: "token list \<Rightarrow> nat \<Rightarrow> expr_error + nat" where
  "find_lpar ts 0 = Inl OutsideTokens"
| "find_lpar ts (Suc i) = (if tok_op (ts ! i) = OpLpar then Inr i else find_lpar ts i)"

definition parse_ident :: "resolver option \<Rightarrow> string \<Rightarrow> expr_error + token" where
  "parse_ident resolver ident =
     (case resolver of
        None \<Rightarrow> Inl (Message ''no symbols are available for this expression'')
      | Some getValue \<Rightarrow> (case getValue ident of Inl err \<Rightarrow> Inl (Message err) | Inr v \<Rightarrow> Inr (value_token v)))"

definition close_paren :: "expr_state \<Rightarrow> expr_error + expr_state" where
  "close_paren st =
     (if nParens st = 0 then Inl (Message ''unmatched parens'')
      else case lpar st of
        None \<Rightarrow> Inl OutsideTokens
      | Some l \<Rightarrow>
          sbind (reduce (tokens_before st) (l + 1) True) (\<lambda>ts.
          if nParens st - 1 = 0 then Inr \<lparr>tokens_before = ts, lpar = None, nParens = 0\<rparr>
          else sbind (find_lpar ts l) (\<lambda>l'. Inr \<lparr>tokens_before = ts, lpar = Some l', nParens = nParens st - 1\<rparr>)))"

definition binary :: "opcode \<Rightarrow> expr_state \<Rightarrow> expr_error + expr_state" where
  "binary opr st =
     (let ts = tokens_before st; t = length ts in
      if ts = [] \<or> tok_op (last ts) < OpEnd then Inl (Message ''binary operator with no value on left side'')
      else if t > (case lpar st of None \<Rightarrow> 0 | Some l \<Rightarrow> l) + 2 \<and> opr < tok_op (ts ! (t - 2)) then
        sbind (reduce ts (case lpar st of None \<Rightarrow> 0 | Some l \<Rightarrow> l + 1) False) (\<lambda>ts.
        Inr (push (TOp opr) (st\<lparr>tokens_before := ts\<rparr>)))
      else Inr (push (TOp opr) st))"

definition parse_lexeme :: "resolver option \<Rightarrow> lexeme \<Rightarrow> expr_state \<Rightarrow> expr_error + expr_state" where
  "parse_lexeme resolver l st =
     (let opr = lx_op l; ts = tokens_before st in
      if opr = OpString then Inr (push (TString (lx_text l)) st)
      else if opr = OpNumber then
        (case strtoll 0 (lx_start l) of (v, n, _) \<Rightarrow>
           if n \<noteq> length (lx_text l) then Inl (Message ''bad number syntax'') else Inr (push (TNumber v) st))
      else if opr = OpIdent then sbind (parse_ident resolver (lx_text l)) (\<lambda>t. Inr (push t st))
      else if opr = OpLpar then Inr (push (TOp OpLpar) (st\<lparr>nParens := nParens st + 1, lpar := Some (length ts)\<rparr>))
      else if opr = OpRpar then close_paren st
      else if opr = OpEnd then sbind (reduce ts 0 False) (\<lambda>ts. Inr (push (TOp OpEnd) (st\<lparr>tokens_before := ts\<rparr>)))
      else if opr = OpTilde \<or> opr = OpNot then Inr (push (TOp opr) st)
      else if (opr = OpPlus \<or> opr = OpMinus) \<and> (ts = [] \<or> tok_op (last ts) < OpRpar)
        then Inr (push (TOp (if opr = OpPlus then OpUPlus else OpUMinus)) st)
      else binary opr st)"

fun parse_lexemes :: "resolver option \<Rightarrow> lexeme list \<Rightarrow> expr_state \<Rightarrow> expr_error + expr_state" where
  "parse_lexemes resolver [] st = Inr st"
| "parse_lexemes resolver (l # ls) st = sbind (parse_lexeme resolver l st) (parse_lexemes resolver ls)"

definition parse_result :: "token \<Rightarrow> expr_value" where
  "parse_result t = (case t of TNumber n \<Rightarrow> ENumber n | TString s \<Rightarrow> EString s | TOp _ \<Rightarrow> EString [])"

definition evalExpression :: "string \<Rightarrow> resolver option \<Rightarrow> expr_error + expr_value" where
  "evalExpression s resolver =
     sbind (lex_all s) (\<lambda>ls.
     sbind (parse_lexemes resolver ls \<lparr>tokens_before = [], lpar = None, nParens = 0\<rparr>) (\<lambda>st.
     Inr (parse_result (hd (tokens_before st)))))"

subsection \<open>The evaluator stays within its tokens\<close>

text \<open>
  On the tokens in reverse order: every binary operator has a value to its left, and the positions
  of the left parentheses, the last one first.
\<close>

definition is_binary :: "token \<Rightarrow> bool" where
  "is_binary t \<longleftrightarrow> tok_op t \<le> OpMod"

fun bin_ok :: "token list \<Rightarrow> bool" where
  "bin_ok [] \<longleftrightarrow> True"
| "bin_ok (t # r) \<longleftrightarrow> (is_binary t \<longrightarrow> r \<noteq> [] \<and> tok_op (hd r) \<ge> OpEnd) \<and> bin_ok r"

fun open_parens :: "token list \<Rightarrow> nat list" where
  "open_parens [] = []"
| "open_parens (t # r) = (if tok_op t = OpLpar then length r # open_parens r else open_parens r)"

definition paren_ok :: "expr_state \<Rightarrow> bool" where
  "paren_ok st \<longleftrightarrow>
     nParens st = length (open_parens (rev (tokens_before st))) \<and>
     lpar st = (case open_parens (rev (tokens_before st)) of [] \<Rightarrow> None | l # _ \<Rightarrow> Some l)"

definition state_ok :: "expr_state \<Rightarrow> bool" where
  "state_ok st \<longleftrightarrow> paren_ok st \<and> bin_ok (rev (tokens_before st))"

lemma open_parens_split:
  "\<exists>xs ys. r = xs @ ys \<and> (\<forall>x\<in>set xs. tok_op x \<noteq> OpLpar) \<and>
     (case open_parens r of [] \<Rightarrow> ys = [] | l # ls \<Rightarrow> \<exists>p zs. ys = p # zs \<and> tok_op p = OpLpar \<and> length zs = l \<and> open_parens zs = ls)"
proof (induction r)
  case (Cons t r)
  show ?case
  proof (cases "tok_op t = OpLpar")
    case True
    then show ?thesis by (intro exI [of _ "[]"] exI [of _ "t # r"]) auto
  next
    case False
    then have e: "open_parens (t # r) = open_parens r" by simp
    obtain xs ys where "r = xs @ ys" "\<forall>x\<in>set xs. tok_op x \<noteq> OpLpar"
      "case open_parens r of [] \<Rightarrow> ys = [] | l # ls \<Rightarrow> \<exists>p zs. ys = p # zs \<and> tok_op p = OpLpar \<and> length zs = l \<and> open_parens zs = ls"
      using Cons.IH by blast
    then show ?thesis unfolding e using False by (intro exI [of _ "t # xs"] exI [of _ ys]) simp
  qed
qed simp

lemma find_lpar_open:
  "find_lpar (rev ys @ zs) (length ys) = (case open_parens ys of [] \<Rightarrow> Inl OutsideTokens | l # _ \<Rightarrow> Inr l)"
proof (induction ys arbitrary: zs)
  case (Cons y ys)
  then show ?case using Cons.IH [of "y # zs"] by (simp add: nth_append)
qed simp

lemma op_less_simps [simp]:
  "OpEnd < OpNumber" "OpEnd < OpString" "\<not> OpNumber \<le> OpMod" "\<not> OpString \<le> OpMod" "\<not> OpNumber < OpEnd" "\<not> OpString < OpEnd"
  "\<not> OpNumber < OpRpar" "\<not> OpString < OpRpar" "\<not> OpNumber \<le> OpEnd" "\<not> OpString \<le> OpEnd"
  by (simp_all add: less_opcode_def less_eq_opcode_def)

lemma value_not_binary: "tok_op t \<ge> OpEnd \<Longrightarrow> \<not> is_binary t"
  by (auto simp: is_binary_def less_eq_opcode_def)

lemma bin_ok_drop: "bin_ok r \<Longrightarrow> bin_ok (drop n r)"
proof (induction r arbitrary: n)
  case (Cons t r)
  then show ?case by (cases n) auto
qed simp

lemma sbind_eq_Inl_iff: "sbind m f = Inl e \<longleftrightarrow> m = Inl e \<or> (\<exists>a. m = Inr a \<and> f a = Inl e)"
  by (cases m) auto

lemma number_of_inside: "number_of x \<noteq> Inl OutsideTokens"
  by (cases x) simp_all

lemma num_op_inside: "num_op q i j \<noteq> Inl OutsideTokens"
  by (cases q) (simp_all add: int64_def sbind_eq_Inl_iff)

lemma reduce_step_safe: "bin_ok (t # p # rest) \<Longrightarrow> reduce_step t p rest \<noteq> Inl OutsideTokens"
proof -
  assume b: "bin_ok (t # p # rest)"
  have m: "is_num_op q \<or> is_cmp_op q \<or> q = OpLor \<or> q = OpLand \<Longrightarrow> q \<le> OpMod" for q
    by (auto simp: is_num_op_def is_cmp_op_def less_eq_opcode_def)
  have e: "rest \<noteq> []" if "is_num_op (tok_op p) \<or> is_cmp_op (tok_op p) \<or> tok_op p = OpLor \<or> tok_op p = OpLand"
    using b m [OF that] by (simp add: is_binary_def)
  show ?thesis
  proof (cases rest)
    case Nil
    then have no: "is_num_op (tok_op p) = False" "is_cmp_op (tok_op p) = False" "(tok_op p = OpLor) = False" "(tok_op p = OpLand) = False"
      using e by auto
    show ?thesis unfolding reduce_step_def Let_def no if_False by (simp add: Nil sbind_eq_Inl_iff number_of_inside int64_def)
  next
    case (Cons t2 rs)
    then show ?thesis unfolding reduce_step_def Let_def
      by (simp add: sbind_eq_Inl_iff number_of_inside num_op_inside int64_def)
  qed
qed

lemma reduce_loop_safe:
  "bin_ok r \<Longrightarrow> reduce_loop r \<noteq> Inl OutsideTokens \<and> (\<forall>v. reduce_loop r = Inr v \<longrightarrow> tok_op v > OpEnd \<or> r = [v])"
proof (induction r rule: reduce_loop.induct)
  case (3 t p rest)
  show ?case
  proof (cases "reduce_step t p rest")
    case (Inl e)
    then show ?thesis using reduce_step_safe [OF "3.prems"] by auto
  next
    case (Inr ts)
    obtain v n where ts: "ts = v # drop n rest" "tok_op v > OpEnd" by (rule reduce_step_Inr [OF Inr])
    have "bin_ok (drop n rest)" using bin_ok_drop [of rest n] "3.prems" by simp
    then have "bin_ok ts" using value_not_binary [of v] ts by simp
    then show ?thesis using "3.IH" [OF Inr] Inr ts by auto
  qed
qed auto

text \<open>The part of the tokens after a left parenthesis, or all of them.\<close>

lemma bin_ok_part: "bin_ok (xs @ ys) \<Longrightarrow> ys = [] \<or> tok_op (hd ys) = OpLpar \<Longrightarrow> bin_ok xs"
proof (induction xs)
  case (Cons x xs)
  then show ?case by (cases xs) (auto simp: less_eq_opcode_def)
qed simp

lemma state_ok_push:
  "state_ok st \<Longrightarrow> tok_op t \<noteq> OpLpar \<Longrightarrow> \<not> is_binary t \<or> tokens_before st \<noteq> [] \<and> tok_op (last (tokens_before st)) \<ge> OpEnd \<Longrightarrow>
   state_ok (push t st)"
  by (auto simp: state_ok_def paren_ok_def push_def hd_rev split: list.splits)

text \<open>The value \<open>v\<close> that replaces the tokens \<open>xs\<close> (in reverse order) of such a part.\<close>

lemma part_value:
  assumes "bin_ok (xs @ ys)" "ys = [] \<or> tok_op (hd ys) = OpLpar" "reduce_loop xs = Inr v"
  shows "tok_op v > OpEnd \<or> xs = [v]" "\<not> is_binary v"
proof -
  have b: "bin_ok xs" by (rule bin_ok_part [OF assms(1,2)])
  show v: "tok_op v > OpEnd \<or> xs = [v]" using reduce_loop_safe [OF b] assms(3) by auto
  show "\<not> is_binary v" using v b value_not_binary [of v] by (auto simp: less_imp_le)
qed

definition part_start :: "expr_state \<Rightarrow> nat" where
  "part_start st = (case lpar st of None \<Rightarrow> 0 | Some l \<Rightarrow> l + 1)"

definition is_part :: "expr_state \<Rightarrow> token list \<Rightarrow> token list \<Rightarrow> bool" where
  "is_part st xs ys \<longleftrightarrow>
     tokens_before st = rev ys @ rev xs \<and> (\<forall>x\<in>set xs. tok_op x \<noteq> OpLpar) \<and>
     (ys = [] \<and> nParens st = 0 \<and> lpar st = None \<or>
      ys \<noteq> [] \<and> tok_op (hd ys) = OpLpar \<and> lpar st = Some (length (tl ys)) \<and> nParens st = Suc (length (open_parens (tl ys))))"

lemma current_part: "paren_ok st \<Longrightarrow> \<exists>xs ys. is_part st xs ys"
proof -
  assume ok: "paren_ok st"
  obtain xs ys where s: "rev (tokens_before st) = xs @ ys" "\<forall>x\<in>set xs. tok_op x \<noteq> OpLpar"
    "case open_parens (rev (tokens_before st)) of [] \<Rightarrow> ys = []
     | l # ls \<Rightarrow> \<exists>p zs. ys = p # zs \<and> tok_op p = OpLpar \<and> length zs = l \<and> open_parens zs = ls"
    using open_parens_split by blast
  have t: "tokens_before st = rev ys @ rev xs" using s(1) by (metis rev_append rev_rev_ident)
  have "is_part st xs ys"
  proof (cases "open_parens (rev (tokens_before st))")
    case Nil
    then show ?thesis using s t ok by (simp add: is_part_def paren_ok_def)
  next
    case (Cons l ls)
    then show ?thesis using s t ok by (auto simp: is_part_def paren_ok_def)
  qed
  then show ?thesis by blast
qed

lemma reduce_part:
  assumes "is_part st xs ys"
  shows "reduce (tokens_before st) (part_start st) False = sbind (reduce_loop xs) (\<lambda>v. Inr (rev ys @ [v]))"
    "nParens st \<noteq> 0 \<Longrightarrow> reduce (tokens_before st) (length (tl ys) + 1) True = sbind (reduce_loop xs) (\<lambda>v. Inr (rev (tl ys) @ [v]))"
proof -
  have l: "part_start st = length ys" using assms by (cases ys) (auto simp: is_part_def part_start_def)
  show "reduce (tokens_before st) (part_start st) False = sbind (reduce_loop xs) (\<lambda>v. Inr (rev ys @ [v]))"
    using assms unfolding l by (simp add: is_part_def reduce_def)
  assume "nParens st \<noteq> 0"
  then obtain p zs where "ys = p # zs" using assms by (cases ys) (auto simp: is_part_def)
  then show "reduce (tokens_before st) (length (tl ys) + 1) True = sbind (reduce_loop xs) (\<lambda>v. Inr (rev (tl ys) @ [v]))"
    using assms by (simp add: is_part_def reduce_def)
qed

lemma part_ok:
  assumes "is_part st xs ys" "bin_ok (rev (tokens_before st))"
  shows "bin_ok xs" "bin_ok ys" "bin_ok (tl ys)"
    "reduce_loop xs = Inr v \<Longrightarrow> (tok_op v > OpEnd \<or> xs = [v]) \<and> \<not> is_binary v \<and> tok_op v \<noteq> OpLpar"
proof -
  have b: "bin_ok (xs @ ys)" "ys = [] \<or> tok_op (hd ys) = OpLpar" using assms by (auto simp: is_part_def)
  show x: "bin_ok xs" by (rule bin_ok_part [OF b])
  show "bin_ok ys" using bin_ok_drop [OF b(1), of "length xs"] by simp
  then show "bin_ok (tl ys)" by (cases ys) simp_all
  assume r: "reduce_loop xs = Inr v"
  have v: "tok_op v > OpEnd \<or> xs = [v]" using reduce_loop_safe [OF x] r by auto
  moreover have "\<not> is_binary v" using v x value_not_binary [of v] by (auto simp: less_imp_le)
  moreover have "tok_op v \<noteq> OpLpar" using v assms(1) by (auto simp: is_part_def less_opcode_def)
  ultimately show "(tok_op v > OpEnd \<or> xs = [v]) \<and> \<not> is_binary v \<and> tok_op v \<noteq> OpLpar" by blast
qed

text \<open>A step fails without leaving the tokens, or keeps the invariant.\<close>

definition safe :: "expr_error + expr_state \<Rightarrow> bool" where
  "safe r = (case r of Inl e \<Rightarrow> e \<noteq> OutsideTokens | Inr st \<Rightarrow> state_ok st)"

lemma safe_simps [simp]: "safe (Inl e) \<longleftrightarrow> e \<noteq> OutsideTokens" "safe (Inr st) \<longleftrightarrow> state_ok st"
  by (simp_all add: safe_def)

lemma safe_reduced:
  assumes "is_part st xs ys" "bin_ok (rev (tokens_before st))"
    and "\<And>v. reduce_loop xs = Inr v \<Longrightarrow> safe (f v)"
  shows "safe (sbind (reduce_loop xs) f)"
  using reduce_loop_safe [OF part_ok(1) [OF assms(1,2)]] assms(3) by (cases "reduce_loop xs") auto

lemma close_paren_safe:
  assumes ok: "state_ok st"
  shows "safe (close_paren st)"
proof (cases "nParens st = 0")
  case False
  have b: "paren_ok st" "bin_ok (rev (tokens_before st))" using ok by (simp_all add: state_ok_def)
  obtain xs ys where p: "is_part st xs ys" using current_part [OF b(1)] by blast
  have l: "lpar st = Some (length (tl ys))" "nParens st - 1 = length (open_parens (tl ys))"
    using p False by (auto simp: is_part_def)
  have "safe (sbind (sbind (reduce_loop xs) (\<lambda>v. Inr (rev (tl ys) @ [v]))) (\<lambda>ts.
      if nParens st - 1 = 0 then Inr \<lparr>tokens_before = ts, lpar = None, nParens = 0\<rparr>
      else sbind (find_lpar ts (length (tl ys))) (\<lambda>l'. Inr \<lparr>tokens_before = ts, lpar = Some l', nParens = nParens st - 1\<rparr>)))"
    unfolding sbind_assoc
  proof (rule safe_reduced [OF p b(2)])
    fix v
    assume "reduce_loop xs = Inr v"
    from part_ok(4) [OF p b(2) this] have v: "\<not> is_binary v" "tok_op v \<noteq> OpLpar" by auto
    show "safe (sbind (Inr (rev (tl ys) @ [v])) (\<lambda>ts.
      if nParens st - 1 = 0 then Inr \<lparr>tokens_before = ts, lpar = None, nParens = 0\<rparr>
      else sbind (find_lpar ts (length (tl ys))) (\<lambda>l'. Inr \<lparr>tokens_before = ts, lpar = Some l', nParens = nParens st - 1\<rparr>)))"
      unfolding l(2) using v part_ok(3) [OF p b(2)] find_lpar_open [of "tl ys" "[v]"]
      by (cases "open_parens (tl ys)") (simp_all add: state_ok_def paren_ok_def)
  qed
  then show ?thesis unfolding close_paren_def if_not_P [OF False] l(1) option.case reduce_part(2) [OF p False] .
qed (simp add: close_paren_def)

lemma binary_safe:
  assumes ok: "state_ok st" and opr: "opr \<noteq> OpLpar"
  shows "safe (binary opr st)"
proof (cases "tokens_before st = [] \<or> tok_op (last (tokens_before st)) < OpEnd")
  case False
  let ?ts = "tokens_before st"
  have b: "paren_ok st" "bin_ok (rev (tokens_before st))" using ok by (simp_all add: state_ok_def)
  obtain xs ys where p: "is_part st xs ys" using current_part [OF b(1)] by blast
  have lst: "?ts \<noteq> []" "tok_op (last ?ts) \<ge> OpEnd" using False by auto
  have pushed: "safe (Inr (push (TOp opr) st))" using state_ok_push [OF ok] lst opr by simp
  have reduced: "safe (sbind (sbind (reduce_loop xs) (\<lambda>v. Inr (rev ys @ [v]))) (\<lambda>ts. Inr (push (TOp opr) (st\<lparr>tokens_before := ts\<rparr>))))"
    unfolding sbind_assoc
  proof (rule safe_reduced [OF p b(2)])
    fix v
    assume "reduce_loop xs = Inr v"
    from part_ok(4) [OF p b(2) this] have v: "tok_op v > OpEnd \<or> xs = [v]" "\<not> is_binary v" "tok_op v \<noteq> OpLpar" by auto
    have "\<forall>x\<in>set xs. tok_op x \<noteq> OpLpar" using p by (simp add: is_part_def)
    then have "open_parens (xs @ ys) = open_parens ys" by (induction xs) auto
    then have "state_ok (st\<lparr>tokens_before := rev ys @ [v]\<rparr>)"
      using b(1) v(2,3) part_ok(2) [OF p b(2)] p by (simp add: state_ok_def paren_ok_def is_part_def)
    moreover have "tok_op v \<ge> OpEnd" using v(1) lst(2) p by (auto simp: is_part_def)
    ultimately show "safe (sbind (Inr (rev ys @ [v])) (\<lambda>ts. Inr (push (TOp opr) (st\<lparr>tokens_before := ts\<rparr>))))"
      using opr by (simp add: state_ok_push)
  qed
  show ?thesis using False pushed reduced reduce_part(1) [OF p] unfolding binary_def Let_def part_start_def by simp
qed (simp add: binary_def)

lemma parse_lexeme_safe:
  assumes ok: "state_ok st" and "lx_op l \<noteq> OpEnd"
  shows "safe (parse_lexeme res l st)"
proof -
  have val: "state_ok (push t st)" if "tok_op t > OpMod" "tok_op t \<noteq> OpLpar" for t
    using state_ok_push [OF ok that(2)] that(1) by (simp add: is_binary_def)
  have vt: "tok_op (value_token v) > OpMod" "tok_op (value_token v) \<noteq> OpLpar" for v by (cases v; simp add: less_opcode_def)+
  have open': "state_ok (push (TOp OpLpar) (st\<lparr>nParens := nParens st + 1, lpar := Some (length (tokens_before st))\<rparr>))"
    using ok by (simp add: state_ok_def paren_ok_def push_def is_binary_def less_eq_opcode_def)
  have op: "OpNumber > OpMod" "OpString > OpMod" "OpTilde > OpMod" "OpNot > OpMod" "OpUPlus > OpMod" "OpUMinus > OpMod" "OpEnd > OpMod"
    by (simp_all add: less_opcode_def)
  have ident: "safe (sbind (parse_ident res s) (\<lambda>t. Inr (push t st)))" for s
    using val vt by (auto simp: parse_ident_def split: option.splits sum.splits)
  have number: "safe (case strtoll 0 s of (v, n, _) \<Rightarrow> if n \<noteq> k then Inl (Message e) else Inr (push (TNumber v) st))" for s k e
    using val op by (simp split: prod.splits)
  note [simp] = val open' [simplified] op ident number close_paren_safe [OF ok] binary_safe [OF ok]
  show ?thesis using assms(2) unfolding parse_lexeme_def Let_def by simp
qed

lemma parse_end_safe: "state_ok st \<Longrightarrow> lx_op l = OpEnd \<Longrightarrow> parse_lexeme res l st \<noteq> Inl OutsideTokens"
proof -
  assume "state_ok st" and l: "lx_op l = OpEnd"
  then have "bin_ok (rev (tokens_before st))" by (simp add: state_ok_def)
  from reduce_loop_safe [OF this] show ?thesis
    by (simp add: parse_lexeme_def l reduce_def sbind_eq_Inl_iff)
qed

lemma parse_lexemes_safe:
  "state_ok st \<Longrightarrow> \<forall>l\<in>set (butlast ls). lx_op l \<noteq> OpEnd \<Longrightarrow> parse_lexemes res ls st \<noteq> Inl OutsideTokens"
proof (induction ls arbitrary: st)
  case (Cons l ls)
  show ?case
  proof (cases "lx_op l = OpEnd")
    case True
    then have "ls = []" using Cons.prems(2) by (auto split: if_splits)
    then show ?thesis using parse_end_safe [OF Cons.prems(1) True] by (simp add: sbind_eq_Inl_iff)
  next
    case False
    have "\<forall>l\<in>set (butlast ls). lx_op l \<noteq> OpEnd" using Cons.prems(2) by (auto split: if_splits)
    then show ?thesis using parse_lexeme_safe [OF Cons.prems(1) False, of res] Cons.IH
      by (cases "parse_lexeme res l st") auto
  qed
qed simp

lemma lex_all_ends: "lex_all s = Inr ls \<Longrightarrow> ls \<noteq> [] \<and> lx_op (last ls) = OpEnd \<and> (\<forall>l\<in>set (butlast ls). lx_op l \<noteq> OpEnd)"
proof (induction s arbitrary: ls rule: lex_all.induct)
  case (1 s)
  then obtain l r where l: "lex s = Inr (l, r)" by (subst (asm) lex_all.simps) (auto split: sum.splits)
  show ?case
  proof (cases "lx_op l = OpEnd")
    case True
    then show ?thesis using "1.prems" l by (subst (asm) lex_all.simps) auto
  next
    case False
    then obtain ls' where "lex_all r = Inr ls'" "ls = l # ls'" using "1.prems" l by (subst (asm) lex_all.simps) auto
    then show ?thesis using "1.IH" [OF l refl False] False by auto
  qed
qed

lemma lex_inside: "lex s \<noteq> Inl OutsideTokens"
proof -
  have "scan_quoted t \<noteq> Inl OutsideTokens" for t
    by (induction t rule: scan_quoted.induct) (auto simp: sbind_eq_Inl_iff split: list.splits)
  then show ?thesis by (auto simp: lex_def Let_def sbind_eq_Inl_iff split: prod.splits)
qed

lemma lex_all_inside: "lex_all s \<noteq> Inl OutsideTokens"
proof (induction s rule: lex_all.induct)
  case (1 s)
  then show ?case using lex_inside [of s]
    by (subst lex_all.simps) (auto simp: sbind_eq_Inl_iff split: sum.splits prod.splits)
qed


end
