(* ===== verification/ExprSemantics.thy ===== *)
theory ExprSemantics
  imports ExprEval
begin

text \<open>
  A reference semantics of expressions as trees, and that the evaluator computes it for the text of
  an expression in which every operation is in parentheses.
\<close>

subsection \<open>Expression trees\<close>

datatype expr =
    Num nat | Str string | Var string
  | Unary opcode expr | Binary opcode expr expr | Conditional expr expr expr

fun is_true :: "expr_value \<Rightarrow> bool" where
  "is_true (ENumber n) \<longleftrightarrow> n \<noteq> 0"
| "is_true (EString s) \<longleftrightarrow> s \<noteq> []"

definition as_number :: "bool \<Rightarrow> expr_value" where
  "as_number b = ENumber (if b then 1 else 0)"

fun unary_value :: "opcode \<Rightarrow> expr_value \<Rightarrow> expr_error + expr_value" where
  "unary_value p (EString s) = Inl (Message ''operator illegal for string'')"
| "unary_value OpUMinus (ENumber n) = sbind (int64 (- n)) (\<lambda>m. Inr (ENumber m))"
| "unary_value OpTilde (ENumber n) = Inr (ENumber (- n - 1))"
| "unary_value p (ENumber n) = Inr (ENumber n)"

text \<open>Arithmetic works on numbers, comparison on operands of the same kind, logical operators on truth values.\<close>

definition binary_value :: "opcode \<Rightarrow> expr_value \<Rightarrow> expr_value \<Rightarrow> expr_error + expr_value" where
  "binary_value p x y =
     (if p = OpLor then Inr (as_number (is_true x \<or> is_true y))
      else if p = OpLand then Inr (as_number (is_true x \<and> is_true y))
      else if is_cmp_op p then
        (case (x, y) of
           (ENumber a, ENumber b) \<Rightarrow> Inr (as_number (cmp_op p a b))
         | (EString a, EString b) \<Rightarrow> Inr (as_number (cmp_op p (strcasecmp (c_str a) (c_str b)) 0))
         | _ \<Rightarrow> Inl (Message ''string and non-string with binary operator''))
      else
        (case (x, y) of
           (_, EString b) \<Rightarrow> Inl (Message ''operator illegal for string'')
         | (EString a, _) \<Rightarrow> Inl Uninitialised
         | (ENumber a, ENumber b) \<Rightarrow> sbind (num_op p a b) (\<lambda>n. Inr (ENumber n))))"

fun value_of_expr :: "(string \<Rightarrow> string + expr_value) \<Rightarrow> expr \<Rightarrow> expr_error + expr_value" where
  "value_of_expr env (Num n) = Inr (ENumber (int n))"
| "value_of_expr env (Str s) = Inr (EString s)"
| "value_of_expr env (Var v) = (case env v of Inl e \<Rightarrow> Inl (Message e) | Inr x \<Rightarrow> Inr x)"
| "value_of_expr env (Unary p e) = sbind (value_of_expr env e) (unary_value p)"
| "value_of_expr env (Binary p a b) =
     sbind (value_of_expr env a) (\<lambda>x. sbind (value_of_expr env b) (binary_value p x))"
| "value_of_expr env (Conditional c a b) =
     sbind (value_of_expr env c) (\<lambda>t. sbind (value_of_expr env a) (\<lambda>x. sbind (value_of_expr env b) (\<lambda>y.
     Inr (if is_true t then x else y))))"

definition binary_ops :: "opcode list" where
  "binary_ops = [OpLor, OpLand, OpBor, OpXor, OpBand, OpEq, OpNeq, OpLt, OpGt, OpLe, OpGe, OpSl, OpSr, OpPlus, OpMinus, OpMult, OpDiv, OpMod]"

fun wf_expr :: "expr \<Rightarrow> bool" where
  "wf_expr (Num n) \<longleftrightarrow> int n < 0x8000000000000000"
| "wf_expr (Str s) \<longleftrightarrow> list_all (\<lambda>c. c \<noteq> CHR 0x22 \<and> c \<noteq> CHR 0x5C \<and> code c \<noteq> 0) s"
| "wf_expr (Var v) \<longleftrightarrow> v \<noteq> [] \<and> \<not> isdigit (hd v) \<and> list_all ident_char v"
| "wf_expr (Unary p e) \<longleftrightarrow> p \<in> {OpUMinus, OpUPlus, OpTilde} \<and> wf_expr e"
| "wf_expr (Binary p a b) \<longleftrightarrow> p \<in> set binary_ops \<and> wf_expr a \<and> wf_expr b"
| "wf_expr (Conditional c a b) \<longleftrightarrow> wf_expr c \<and> wf_expr a \<and> wf_expr b"

subsection \<open>Text\<close>

definition op_text :: "opcode \<Rightarrow> string" where
  "op_text p = (if p = OpUMinus then ''-'' else if p = OpUPlus then ''+'' else fst (the (map_of ALLOPS p)))"

fun expr_words :: "expr \<Rightarrow> string list" where
  "expr_words (Num n) = [dec_digits n]"
| "expr_words (Str s) = [CHR 0x22 # s @ [CHR 0x22]]"
| "expr_words (Var v) = [v]"
| "expr_words (Unary p e) = [''('', op_text p] @ expr_words e @ ['')'']"
| "expr_words (Binary p a b) = [''(''] @ expr_words a @ [op_text p] @ expr_words b @ ['')'']"
| "expr_words (Conditional c a b) = [''(''] @ expr_words c @ [''?''] @ expr_words a @ ['':''] @ expr_words b @ ['')'']"

definition spaced :: "string list \<Rightarrow> string" where
  "spaced ws = concat (map (\<lambda>w. w @ '' '') ws)"

definition expr_text :: "expr \<Rightarrow> string" where
  "expr_text e = spaced (expr_words e)"

subsection \<open>Scanning the text\<close>

text \<open>What a piece of text does to the state of the parser, whatever follows it.\<close>

definition effect :: "resolver option \<Rightarrow> string \<Rightarrow> (expr_state \<Rightarrow> expr_error + expr_state) \<Rightarrow> bool" where
  "effect res w f \<longleftrightarrow>
     (\<forall>s ls. lex_all s = Inr ls \<longrightarrow> (\<exists>ls'. lex_all (w @ s) = Inr (ls' @ ls) \<and> (\<forall>st. parse_lexemes res ls' st = f st)))"

lemma parse_lexemes_append: "parse_lexemes res (xs @ ys) st = sbind (parse_lexemes res xs st) (parse_lexemes res ys)"
proof (induction xs arbitrary: st)
  case (Cons x xs)
  then have "parse_lexemes res (xs @ ys) = (\<lambda>st. sbind (parse_lexemes res xs st) (parse_lexemes res ys))" by (rule ext)
  then show ?case by (simp add: sbind_assoc)
qed simp

lemma effect_append:
  assumes v: "effect res v f" and w: "effect res w g"
  shows "effect res (v @ w) (\<lambda>st. sbind (f st) g)"
  unfolding effect_def
proof (intro allI impI)
  fix s ls
  assume "lex_all s = Inr ls"
  then obtain ws where ws: "lex_all (w @ s) = Inr (ws @ ls)" "\<forall>st. parse_lexemes res ws st = g st" using w unfolding effect_def by blast
  then obtain vs where vs: "lex_all (v @ w @ s) = Inr (vs @ ws @ ls)" "\<forall>st. parse_lexemes res vs st = f st" using v unfolding effect_def by blast
  have "parse_lexemes res ws = g" using ws(2) by blast
  then show "\<exists>ls'. lex_all ((v @ w) @ s) = Inr (ls' @ ls) \<and> (\<forall>st. parse_lexemes res ls' st = sbind (f st) g)"
    using vs by (intro exI [of _ "vs @ ws"]) (simp add: parse_lexemes_append)
qed

lemma lex_skip: "lex (dropWhile isspace s) = lex s"
  by (simp add: lex_def dropWhile_idem)

lemma lex_all_skip: "lex_all (dropWhile isspace s) = lex_all s"
  by (subst (1 2) lex_all.simps) (simp add: lex_skip)

lemma effect_word:
  assumes "\<And>s. \<exists>l. lex (w @ CHR '' '' # s) = Inr (l, dropWhile isspace s) \<and> lx_op l \<noteq> OpEnd \<and> (\<forall>st. parse_lexeme res l st = f st)"
  shows "effect res (w @ '' '') f"
  unfolding effect_def
proof (intro allI impI)
  fix s ls
  assume s: "lex_all s = Inr ls"
  obtain l where l: "lex (w @ CHR '' '' # s) = Inr (l, dropWhile isspace s)" "lx_op l \<noteq> OpEnd" "\<forall>st. parse_lexeme res l st = f st"
    using assms by blast
  have "lex_all (w @ CHR '' '' # s) = Inr (l # ls)" by (subst lex_all.simps) (simp add: l lex_all_skip s)
  moreover have "sbind x (parse_lexemes res []) = x" for x by (cases x) simp_all
  ultimately show "\<exists>ls'. lex_all ((w @ '' '') @ s) = Inr (ls' @ ls) \<and> (\<forall>st. parse_lexemes res ls' st = f st)"
    using l(3) by (intro exI [of _ "[l]"]) simp
qed

text \<open>The operators and parentheses.\<close>

lemma space_isspace: "isspace (CHR '' '')"
  by (simp add: isspace_def)

lemma lex_punct:
  assumes "match_ops ALLOPS (c # cs @ CHR '' '' # s) OpLimit = (p, length cs)" "p \<noteq> OpLimit"
    "\<not> isspace c" "\<not> isalpha c" "c \<noteq> CHR ''_''" "c \<noteq> CHR 0x22" "\<not> isdigit c"
  shows "lex ((c # cs) @ CHR '' '' # s) = Inr (\<lparr>lx_op = p, lx_start = c # cs @ CHR '' '' # s, lx_text = []\<rparr>, dropWhile isspace s)"
  using assms by (simp add: lex_def space_isspace)

lemma op_text_binary:
  "map op_text binary_ops = [''||'', ''&&'', ''|'', ''^'', ''&'', ''=='', ''!='', ''<'', ''>'', ''<='', ''>='', ''<<'', ''>>'', ''+'', ''-'', ''*'', ''/'', ''%'']"
  by (simp add: binary_ops_def op_text_def ALLOPS_def)

lemma digit_no_space: "isdigit c \<Longrightarrow> \<not> isspace c \<and> \<not> isalpha c \<and> c \<noteq> CHR ''_'' \<and> c \<noteq> CHR 0x22 \<and> number_char c"
  by (auto simp: isdigit_def isspace_def isalpha_def isupper_def number_char_def)

lemma takeWhile_word:
  "list_all P w \<Longrightarrow> \<not> P c \<Longrightarrow> takeWhile P (w @ c # s) = w" "list_all P w \<Longrightarrow> \<not> P c \<Longrightarrow> dropWhile P (w @ c # s) = c # s"
  by (induction w) simp_all

lemma strtoll_decimal:
  assumes "int n < 0x8000000000000000"
  shows "strtoll 0 (dec_digits n @ CHR '' '' # s) = (int n, length (dec_digits n), False)"
proof -
  have "ends_number (CHR '' '' # s)"
    by (simp add: ends_number_def digit_value_def isdigit_def isalpha_def isupper_def tolower_def)
  from scan_number_print [OF this, of "int n"] show ?thesis using assms by (simp add: strtoll_def print_int_def)
qed

lemma effect_number:
  assumes "int n < 0x8000000000000000"
  shows "effect res (dec_digits n @ '' '') (\<lambda>st. Inr (push (TNumber (int n)) st))"
proof (rule effect_word)
  fix s
  let ?w = "dec_digits n"
  obtain c cs where w: "?w = c # cs" using dec_digits_nonempty [of n] by (cases ?w) auto
  have c: "isdigit c" using dec_digits_isdigit [of n] w by auto
  have n: "list_all number_char ?w" using dec_digits_isdigit digit_no_space by (auto simp: list_all_iff)
  have sp: "\<not> number_char (CHR '' '')" by (simp add: number_char_def isdigit_def)
  have t: "takeWhile number_char (?w @ CHR '' '' # s) = ?w" "dropWhile number_char (?w @ CHR '' '' # s) = CHR '' '' # s"
    by (rule takeWhile_word [OF n sp])+
  have d: "dropWhile isspace (?w @ CHR '' '' # s) = ?w @ CHR '' '' # s" using digit_no_space [OF c] w by simp
  have h: "hd (?w @ CHR '' '' # s) = c" "?w @ CHR '' '' # s \<noteq> []" using w by auto
  have "lex (?w @ CHR '' '' # s) = Inr (\<lparr>lx_op = OpNumber, lx_start = ?w @ CHR '' '' # s, lx_text = ?w\<rparr>, dropWhile isspace s)"
    unfolding lex_def Let_def d h(1) using digit_no_space [OF c] c h(2) t space_isspace by simp
  then show "\<exists>l. lex (?w @ CHR '' '' # s) = Inr (l, dropWhile isspace s) \<and> lx_op l \<noteq> OpEnd \<and>
      (\<forall>st. parse_lexeme res l st = Inr (push (TNumber (int n)) st))"
    by (simp add: parse_lexeme_def strtoll_decimal [OF assms])
qed

lemma scan_quoted_plain:
  "list_all (\<lambda>c. c \<noteq> CHR 0x22 \<and> c \<noteq> CHR 0x5C \<and> code c \<noteq> 0) t \<Longrightarrow> scan_quoted (t @ CHR 0x22 # s) = Inr (t, s)"
  by (induction t) simp_all

lemma effect_string:
  assumes "list_all (\<lambda>c. c \<noteq> CHR 0x22 \<and> c \<noteq> CHR 0x5C \<and> code c \<noteq> 0) t"
  shows "effect res ((CHR 0x22 # t @ [CHR 0x22]) @ '' '') (\<lambda>st. Inr (push (TString t) st))"
proof (rule effect_word)
  fix s
  have "lex (CHR 0x22 # t @ CHR 0x22 # CHR '' '' # s) =
      Inr (\<lparr>lx_op = OpString, lx_start = t @ CHR 0x22 # CHR '' '' # s, lx_text = t\<rparr>, dropWhile isspace s)"
    unfolding lex_def using scan_quoted_plain [OF assms] by (simp add: isspace_def isalpha_def isupper_def)
  then show "\<exists>l. lex ((CHR 0x22 # t @ [CHR 0x22]) @ CHR '' '' # s) = Inr (l, dropWhile isspace s) \<and> lx_op l \<noteq> OpEnd \<and>
      (\<forall>st. parse_lexeme res l st = Inr (push (TString t) st))"
    by (simp add: parse_lexeme_def)
qed

lemma effect_symbol:
  assumes "v \<noteq> []" "\<not> isdigit (hd v)" "list_all ident_char v"
  shows "effect res (v @ '' '') (\<lambda>st. sbind (parse_ident res v) (\<lambda>t. Inr (push t st)))"
proof (rule effect_word)
  fix s
  obtain c cs where v: "v = c # cs" using assms(1) by (cases v) auto
  have c: "isalpha c \<or> c = CHR ''_''" using assms v by (simp add: ident_char_def)
  then have ns: "\<not> isspace c" by (auto simp: isspace_def isalpha_def isupper_def)
  have sp: "\<not> ident_char (CHR '' '')" by (simp add: ident_char_def isdigit_def isalpha_def isupper_def)
  have t: "takeWhile ident_char (v @ CHR '' '' # s) = v" "dropWhile ident_char (v @ CHR '' '' # s) = CHR '' '' # s"
    by (rule takeWhile_word [OF assms(3) sp])+
  have d: "dropWhile isspace (v @ CHR '' '' # s) = v @ CHR '' '' # s" "hd (v @ CHR '' '' # s) = c" using ns v by simp_all
  have "lex (v @ CHR '' '' # s) = Inr (\<lparr>lx_op = OpIdent, lx_start = v @ CHR '' '' # s, lx_text = v\<rparr>, dropWhile isspace s)"
    unfolding lex_def Let_def d using c t space_isspace by simp
  then show "\<exists>l. lex (v @ CHR '' '' # s) = Inr (l, dropWhile isspace s) \<and> lx_op l \<noteq> OpEnd \<and>
      (\<forall>st. parse_lexeme res l st = sbind (parse_ident res v) (\<lambda>t. Inr (push t st)))"
    by (simp add: parse_lexeme_def)
qed

subsection \<open>Parsing the text\<close>

text \<open>The steps for one expression, in the order of its text.\<close>

definition open_paren :: "expr_state \<Rightarrow> expr_error + expr_state" where
  "open_paren st = Inr (push (TOp OpLpar) (st\<lparr>nParens := nParens st + 1, lpar := Some (length (tokens_before st))\<rparr>))"

definition unary_step :: "opcode \<Rightarrow> expr_state \<Rightarrow> expr_error + expr_state" where
  "unary_step p st =
     (if p = OpTilde then Inr (push (TOp p) st)
      else if tokens_before st = [] \<or> tok_op (last (tokens_before st)) < OpRpar then Inr (push (TOp p) st)
      else binary (if p = OpUMinus then OpMinus else OpPlus) st)"

definition binary_step :: "opcode \<Rightarrow> expr_state \<Rightarrow> expr_error + expr_state" where
  "binary_step p st =
     (if (p = OpPlus \<or> p = OpMinus) \<and> (tokens_before st = [] \<or> tok_op (last (tokens_before st)) < OpRpar)
      then Inr (push (TOp (if p = OpPlus then OpUPlus else OpUMinus)) st) else binary p st)"

fun steps :: "resolver option \<Rightarrow> expr \<Rightarrow> expr_state \<Rightarrow> expr_error + expr_state" where
  "steps res (Num n) st = Inr (push (TNumber (int n)) st)"
| "steps res (Str s) st = Inr (push (TString s) st)"
| "steps res (Var v) st = sbind (parse_ident res v) (\<lambda>t. Inr (push t st))"
| "steps res (Unary p e) st = sbind (sbind (sbind (open_paren st) (unary_step p)) (steps res e)) close_paren"
| "steps res (Binary p a b) st =
     sbind (sbind (sbind (sbind (open_paren st) (steps res a)) (binary_step p)) (steps res b)) close_paren"
| "steps res (Conditional c a b) st =
     sbind (sbind (sbind (sbind (sbind (sbind (open_paren st) (steps res c)) (binary_step OpCond1)) (steps res a))
       (binary_step OpCond2)) (steps res b)) close_paren"

text \<open>An operator is scanned as itself; the sign operators are scanned as the binary ones.\<close>

definition scanned :: "opcode \<Rightarrow> opcode" where
  "scanned p = (if p = OpUMinus then OpMinus else if p = OpUPlus then OpPlus else p)"

definition text_ops :: "opcode list" where
  "text_ops = [OpCond1, OpCond2, OpTilde, OpUMinus, OpUPlus, OpLpar, OpRpar] @ binary_ops"

lemma match_ops_take: "match_ops ops (take 2 cp) p = match_ops ops cp p"
  by (induction ops cp p rule: match_ops.induct) (simp_all add: min_def)

definition text_op_ok :: "opcode \<Rightarrow> bool" where
  "text_op_ok p \<longleftrightarrow>
     match_ops ALLOPS (take 2 (op_text p @ '' '')) OpLimit = (scanned p, length (op_text p) - 1) \<and> op_text p \<noteq> [] \<and>
     \<not> isspace (hd (op_text p)) \<and> \<not> isalpha (hd (op_text p)) \<and> hd (op_text p) \<noteq> CHR ''_'' \<and> hd (op_text p) \<noteq> CHR 0x22 \<and>
     \<not> isdigit (hd (op_text p)) \<and> scanned p \<notin> set [OpLimit, OpEnd, OpString, OpNumber, OpIdent, OpNot]"

lemma text_ops_scanned: "list_all text_op_ok text_ops"
  by code_simp

lemma text_op_facts:
  assumes "p \<in> set text_ops"
  shows "match_ops ALLOPS (take 2 (op_text p @ '' '')) OpLimit = (scanned p, length (op_text p) - 1)" "op_text p \<noteq> []"
    "\<not> isspace (hd (op_text p))" "\<not> isalpha (hd (op_text p))" "hd (op_text p) \<noteq> CHR ''_''" "hd (op_text p) \<noteq> CHR 0x22" "\<not> isdigit (hd (op_text p))"
    "scanned p \<notin> set [OpLimit, OpEnd, OpString, OpNumber, OpIdent, OpNot]"
proof -
  have "text_op_ok p" using text_ops_scanned assms unfolding list_all_iff by (rule bspec)
  note * = this [unfolded text_op_ok_def]
  show "match_ops ALLOPS (take 2 (op_text p @ '' '')) OpLimit = (scanned p, length (op_text p) - 1)" using * by (rule conjunct1)
  show "op_text p \<noteq> []" "\<not> isspace (hd (op_text p))" "\<not> isalpha (hd (op_text p))" "hd (op_text p) \<noteq> CHR ''_''"
    "hd (op_text p) \<noteq> CHR 0x22" "\<not> isdigit (hd (op_text p))"
    "scanned p \<notin> set [OpLimit, OpEnd, OpString, OpNumber, OpIdent, OpNot]"
    using conjunct2 [OF *] by iprover+
qed

lemma match_text_op:
  assumes "op_text p = c # cs" "match_ops ALLOPS (take 2 (op_text p @ '' '')) OpLimit = (q, length (op_text p) - 1)"
  shows "match_ops ALLOPS (c # cs @ CHR '' '' # s) OpLimit = (q, length cs)"
proof -
  have e: "take 2 (c # cs @ CHR '' '' # s) = take 2 (op_text p @ '' '')" unfolding assms(1) by (cases cs) simp_all
  have "match_ops ALLOPS (c # cs @ CHR '' '' # s) OpLimit = match_ops ALLOPS (take 2 (c # cs @ CHR '' '' # s)) OpLimit"
    by (rule match_ops_take [symmetric])
  also have "\<dots> = (q, length (op_text p) - 1)" unfolding e by (rule assms(2))
  also have "length (op_text p) - 1 = length cs" by (simp add: assms(1))
  finally show ?thesis .
qed

lemma lex_operator:
  assumes "p \<in> set text_ops"
  shows "lex (op_text p @ CHR '' '' # s) = Inr (\<lparr>lx_op = scanned p, lx_start = op_text p @ CHR '' '' # s, lx_text = []\<rparr>, dropWhile isspace s)"
proof -
  note t = text_op_facts [OF assms]
  obtain c cs where c: "op_text p = c # cs" using t(2) by (meson neq_Nil_conv)
  have "scanned p \<noteq> OpLimit" using t(8) by auto
  from lex_punct [OF match_text_op [OF c t(1)] this] t(3-7) show ?thesis unfolding c by simp
qed

definition op_step :: "opcode \<Rightarrow> expr_state \<Rightarrow> expr_error + expr_state" where
  "op_step p = (if p = OpLpar then open_paren else if p = OpRpar then close_paren
     else if p \<in> {OpTilde, OpUMinus, OpUPlus} then unary_step p else binary_step p)"

lemma effect_operator:
  assumes "p \<in> set text_ops"
  shows "effect res (op_text p @ '' '') (op_step p)"
proof (rule effect_word)
  fix s
  let ?l = "\<lparr>lx_op = scanned p, lx_start = op_text p @ CHR '' '' # s, lx_text = []\<rparr>"
  note l = lex_operator [OF assms] text_op_facts(8) [OF assms]
  have q: "scanned p \<noteq> OpString" "scanned p \<noteq> OpNumber" "scanned p \<noteq> OpIdent" "scanned p \<noteq> OpEnd" "scanned p \<noteq> OpNot" using l(2) by auto
  have "parse_lexeme res ?l st = op_step p st" for st
  proof (cases "p \<in> {OpTilde, OpUMinus, OpUPlus, OpLpar, OpRpar}")
    case True
    then show ?thesis by (auto simp: scanned_def parse_lexeme_def op_step_def unary_step_def open_paren_def)
  next
    case False
    then have sp: "scanned p = p" by (simp add: scanned_def)
    show ?thesis using False q unfolding sp by (simp add: parse_lexeme_def Let_def sp op_step_def binary_step_def)
  qed
  then show "\<exists>l. lex (op_text p @ CHR '' '' # s) = Inr (l, dropWhile isspace s) \<and> lx_op l \<noteq> OpEnd \<and> (\<forall>st. parse_lexeme res l st = op_step p st)"
    using l(1) q(4) by (intro exI [of _ ?l]) simp
qed

lemma spaced_simps: "spaced [] = []" "spaced (w # ws) = (w @ '' '') @ spaced ws" "spaced (ws @ vs) = spaced ws @ spaced vs"
  by (simp_all add: spaced_def)

lemma effect_parens: "effect res (''('' @ '' '') open_paren" "effect res ('')'' @ '' '') close_paren"
  using effect_operator [of OpLpar res] effect_operator [of OpRpar res]
  by (simp_all add: op_text_def ALLOPS_def text_ops_def op_step_def)

lemma effect_expr: "wf_expr e \<Longrightarrow> effect res (spaced (expr_words e)) (steps res e)"
proof (induction e)
  case (Num n)
  then show ?case using effect_number [of n res] by (simp add: spaced_simps)
next
  case (Str s)
  then show ?case using effect_string [of s res] by (simp add: spaced_simps)
next
  case (Var v)
  then show ?case using effect_symbol [of v res] by (simp add: spaced_simps)
next
  case (Unary p e)
  then have "effect res (op_text p @ '' '') (unary_step p)"
    using effect_operator [of p res] by (auto simp: text_ops_def op_step_def)
  from effect_append [OF effect_append [OF effect_append [OF effect_parens(1) this] Unary.IH] effect_parens(2)] Unary.prems
  show ?case by (simp add: spaced_simps)
next
  case (Binary p a b)
  have p: "p \<in> set text_ops" "p \<notin> {OpLpar, OpRpar, OpTilde, OpUMinus, OpUPlus}"
    using Binary.prems by (auto simp: text_ops_def binary_ops_def)
  then have "effect res (op_text p @ '' '') (binary_step p)" using effect_operator [OF p(1), of res] by (simp add: op_step_def)
  from effect_append [OF effect_append [OF effect_append [OF effect_append [OF effect_parens(1) Binary.IH(1)] this] Binary.IH(2)] effect_parens(2)] Binary.prems
  show ?case by (simp add: spaced_simps)
next
  case (Conditional c a b)
  have o: "effect res (''?'' @ '' '') (binary_step OpCond1)" "effect res ('':'' @ '' '') (binary_step OpCond2)"
    using effect_operator [of OpCond1 res] effect_operator [of OpCond2 res] by (simp_all add: op_text_def ALLOPS_def text_ops_def op_step_def)
  from effect_append [OF effect_append [OF effect_append [OF effect_append [OF effect_append [OF effect_append
      [OF effect_parens(1) Conditional.IH(1)] o(1)] Conditional.IH(2)] o(2)] Conditional.IH(3)] effect_parens(2)] Conditional.prems
  show ?case by (simp add: spaced_simps)
qed

subsection \<open>The value of the text\<close>

text \<open>The state inside the parenthesis that was opened in \<open>st\<close>, after the tokens \<open>xs\<close>.\<close>

definition inside_paren :: "expr_state \<Rightarrow> token list \<Rightarrow> expr_state" where
  "inside_paren st xs =
     \<lparr>tokens_before = tokens_before st @ TOp OpLpar # xs, lpar = Some (length (tokens_before st)), nParens = nParens st + 1\<rparr>"

lemma open_paren_inside: "open_paren st = Inr (inside_paren st [])"
  by (simp add: open_paren_def inside_paren_def push_def)

lemma push_inside: "push t (inside_paren st xs) = inside_paren st (xs @ [t])"
  by (simp add: inside_paren_def push_def)

lemma paren_ok_inside:
  assumes "paren_ok st" "list_all (\<lambda>t. tok_op t \<noteq> OpLpar) xs"
  shows "paren_ok (inside_paren st xs)"
proof -
  have "open_parens (rev xs @ TOp OpLpar # r) = length r # open_parens r" for r
    using assms(2) by (induction xs rule: rev_induct) auto
  then show ?thesis using assms(1) by (simp add: paren_ok_def inside_paren_def)
qed

lemma close_paren_inside:
  assumes "paren_ok st"
  shows "close_paren (inside_paren st xs) = sbind (reduce_loop (rev xs)) (\<lambda>v. Inr (push v st))"
proof -
  let ?ts = "tokens_before st"
  have r: "reduce (?ts @ TOp OpLpar # xs) (length ?ts + 1) True = sbind (reduce_loop (rev xs)) (\<lambda>v. Inr (?ts @ [v]))"
    by (simp add: reduce_def)
  have f: "find_lpar (?ts @ zs) (length ?ts) = (case open_parens (rev ?ts) of [] \<Rightarrow> Inl OutsideTokens | l # _ \<Rightarrow> Inr l)" for zs
    using find_lpar_open [of "rev ?ts" zs] by simp
  show ?thesis
  proof (cases "reduce_loop (rev xs)")
    case (Inr v)
    show ?thesis
    proof (cases "open_parens (rev ?ts)")
      case Nil
      then have "lpar st = None" "nParens st = 0" using assms by (simp_all add: paren_ok_def)
      then show ?thesis using r Inr by (cases st) (simp add: close_paren_def inside_paren_def push_def)
    next
      case (Cons l ls)
      then have "lpar st = Some l" "nParens st \<noteq> 0" using assms by (simp_all add: paren_ok_def)
      then show ?thesis using r Inr f [of "[v]"] Cons by (cases st) (simp add: close_paren_def inside_paren_def push_def)
    qed
  qed (use r in \<open>simp add: close_paren_def inside_paren_def\<close>)
qed

lemma value_token_op: "tok_op (value_token v) \<in> {OpNumber, OpString}"
  by (cases v) simp_all

lemma binary_step_inside:
  assumes "xs \<noteq> []" "last xs = value_token v" "length xs = 1 \<or> \<not> p < tok_op (xs ! (length xs - 2))"
  shows "binary_step p (inside_paren st xs) = Inr (inside_paren st (xs @ [TOp p]))"
proof -
  have l: "last (tokens_before st @ TOp OpLpar # xs) = value_token v" using assms(1,2) by simp
  have v: "\<not> tok_op (value_token v) < OpRpar" "\<not> tok_op (value_token v) < OpEnd" using value_token_op [of v] by auto
  have n: "(tokens_before st @ TOp OpLpar # xs) ! (length (tokens_before st) + Suc (length xs) - 2) = xs ! (length xs - 2)" if "1 < length xs"
  proof -
    have "length (tokens_before st) + Suc (length xs) - 2 = length (tokens_before st) + Suc (length xs - 2)" using that by simp
    then show ?thesis by (simp only: nth_append_length_plus nth_Cons_Suc)
  qed
  show ?thesis
    using l v n assms(3) by (auto simp: binary_step_def binary_def inside_paren_def push_def Let_def)
qed

lemma binary_op_facts:
  "list_all (\<lambda>p. opStringOk p = Some (is_cmp_op p \<or> p = OpLor \<or> p = OpLand) \<and> is_num_op p = (\<not> (is_cmp_op p \<or> p = OpLor \<or> p = OpLand)) \<and>
     p \<notin> set [OpTilde, OpNot, OpUPlus, OpUMinus]) binary_ops"
  by code_simp

lemma reduce_binary:
  assumes "p \<in> set binary_ops"
  shows "reduce_loop [value_token y, TOp p, value_token x] = sbind (binary_value p x y) (\<lambda>v. Inr (value_token v))"
proof -
  have p: "opStringOk p = Some (is_cmp_op p \<or> p = OpLor \<or> p = OpLand)" "is_num_op p = (\<not> (is_cmp_op p \<or> p = OpLor \<or> p = OpLand))"
    "p \<noteq> OpTilde" "p \<noteq> OpNot" "p \<noteq> OpUPlus" "p \<noteq> OpUMinus"
    using binary_op_facts assms unfolding list_all_iff by auto
  have lg: "\<not> is_cmp_op OpLor" "\<not> is_cmp_op OpLand" "\<not> is_num_op OpLor" "\<not> is_num_op OpLand" by (simp_all add: is_cmp_op_def is_num_op_def)
  have ok: "opStringOk OpLor = Some True" "opStringOk OpLand = Some True" by (simp_all add: opStringOk_def ALLOPS_def less_opcode_def)
  show ?thesis
    by (cases x; cases y)
      (auto simp: reduce_step_def Let_def p lg ok binary_value_def truth_def as_number_def sbind_def split: sum.splits)
qed

lemma reduce_unary:
  assumes "p \<in> {OpUMinus, OpUPlus, OpTilde}"
  shows "reduce_loop [value_token x, TOp p] = sbind (unary_value p x) (\<lambda>v. Inr (value_token v))"
proof -
  have "opStringOk OpUMinus = Some False" "opStringOk OpUPlus = Some False" "opStringOk OpTilde = Some False"
    by (simp_all add: opStringOk_def ALLOPS_def less_opcode_def)
  then show ?thesis using assms
    by (cases x) (auto simp: reduce_step_def Let_def sbind_def not_int_def split: sum.splits)
qed

lemma reduce_conditional:
  "reduce_loop [value_token y, TOp OpCond2, value_token x, TOp OpCond1, value_token t] = Inr (value_token (if is_true t then x else y))"
proof -
  have "opStringOk OpCond2 = Some True" by (simp add: opStringOk_def ALLOPS_def less_opcode_def)
  moreover have "\<not> is_num_op OpCond2" "\<not> is_cmp_op OpCond2" by (simp_all add: is_num_op_def is_cmp_op_def)
  ultimately show ?thesis using value_token_op [of x] value_token_op [of y]
    by (cases t) (auto simp: reduce_step_def Let_def)
qed

lemma steps_value:
  "paren_ok st \<Longrightarrow> wf_expr e \<Longrightarrow>
   steps (Some env) e st = sbind (value_of_expr env e) (\<lambda>v. Inr (push (value_token v) st))"
proof (induction e arbitrary: st)
  case (Var v)
  then show ?case by (simp add: parse_ident_def split: sum.splits)
next
  case (Unary p e)
  have us: "unary_step p (inside_paren st []) = Inr (inside_paren st [TOp p])"
    using Unary.prems(2) by (auto simp: unary_step_def inside_paren_def push_def less_opcode_def)
  have "paren_ok (inside_paren st [TOp p])" using Unary.prems by (intro paren_ok_inside) auto
  then show ?case using Unary us
    by (cases "value_of_expr env e") (simp_all add: open_paren_inside push_inside close_paren_inside reduce_unary sbind_assoc del: reduce_loop.simps)
next
  case (Binary p a b)
  have a: "steps (Some env) a (inside_paren st []) = sbind (value_of_expr env a) (\<lambda>v. Inr (inside_paren st [value_token v]))"
    using Binary by (simp add: paren_ok_inside push_inside)
  have b: "steps (Some env) b (inside_paren st [value_token x, TOp p]) = sbind (value_of_expr env b) (\<lambda>v. Inr (inside_paren st [value_token x, TOp p, value_token v]))" for x
  proof -
    have "paren_ok (inside_paren st [value_token x, TOp p])"
      using Binary.prems value_token_op [of x] by (intro paren_ok_inside) (auto simp: binary_ops_def)
    then show ?thesis using Binary by (simp add: push_inside)
  qed
  have o: "binary_step p (inside_paren st [value_token x]) = Inr (inside_paren st [value_token x, TOp p])" for x
    using binary_step_inside [of "[value_token x]" x p st] by simp
  show ?case using Binary.prems
    by (cases "value_of_expr env a"; cases "value_of_expr env b")
      (simp_all add: open_paren_inside a b o close_paren_inside reduce_binary sbind_assoc del: reduce_loop.simps)
next
  case (Conditional c a b)
  have ok: "paren_ok (inside_paren st [])" "paren_ok (inside_paren st [value_token t, TOp OpCond1])"
    "paren_ok (inside_paren st [value_token t, TOp OpCond1, value_token x, TOp OpCond2])" for t x
    using Conditional.prems(1) value_token_op [of t] value_token_op [of x] by (auto intro!: paren_ok_inside)
  have o: "binary_step OpCond1 (inside_paren st [value_token t]) = Inr (inside_paren st [value_token t, TOp OpCond1])"
    "binary_step OpCond2 (inside_paren st [value_token t, TOp OpCond1, value_token x]) =
       Inr (inside_paren st [value_token t, TOp OpCond1, value_token x, TOp OpCond2])" for t x
    using binary_step_inside [of "[value_token t]" t OpCond1 st] binary_step_inside [of "[value_token t, TOp OpCond1, value_token x]" x OpCond2 st]
    by (simp_all add: less_opcode_def)
  show ?case using Conditional.prems Conditional.IH ok
    by (cases "value_of_expr env c"; cases "value_of_expr env a"; cases "value_of_expr env b")
      (simp_all add: open_paren_inside push_inside o close_paren_inside reduce_conditional del: reduce_loop.simps)
qed simp_all



subsection \<open>Expressions without parentheses\<close>

text \<open>Operators of the same precedence are evaluated from right to left.\<close>

lemma difference_from_the_right: "evalExpression ''10 - 3 - 2'' None = Inr (ENumber 9)"
  by code_simp

text \<open>
  An operator of lower precedence than the last one reduces everything before it, whatever the
  precedence of the earlier operators.
\<close>

lemma lower_precedence_reduces_all: "evalExpression ''1 || 0 * 2 && 0'' None = Inr (ENumber 0)"
  by code_simp

text \<open>The colon reduces a branch with an operator together with the question mark, which fails.\<close>

lemma conditional_with_operator_fails: "evalExpression ''1 ? 2 + 3 : 4'' None = Inl (Message ''bad operator syntax'')"
  by code_simp

text \<open>The logical complement returns the truth value of its operand.\<close>

lemma complement_keeps_truth: "evalExpression ''!0'' None = Inr (ENumber 0)" "evalExpression ''!1'' None = Inr (ENumber 1)"
  by code_simp+

text \<open>A single operator is accepted as an empty string.\<close>

lemma operator_alone_accepted: "evalExpression ''('' None = Inr (EString [])"
  by code_simp

text \<open>A complement at the start of an expression applies to the sum, in parentheses to the operand.\<close>

lemma complement_depends_on_parens:
  "evalExpression ''~1 + 1'' None = Inr (ENumber (- 3))" "evalExpression ''(~1 + 1)'' None = Inr (ENumber (- 1))"
  by code_simp+

text \<open>A string after a value reads the table of operators behind its end.\<close>

lemma value_before_string_leaves_table: "evalExpression (''1 '' @ [CHR 0x22, CHR ''a'', CHR 0x22]) None = Inl OutsideTable"
  by code_simp

end
