(* ===== verification/Cdr.thy ===== *)
theory Cdr
  imports Prelude
begin

text \<open>
  The CDR engine of \<^verbatim>\<open>core/local/util/ior\<close> (\<^verbatim>\<open>OcpiUtilCDR.cxx\<close>, \<^verbatim>\<open>OcpiUtilCDR.h\<close>): the
  encoder, the decoder, their alignment rules and byte swapping. The platform's byte order
  is the argument \<open>le\<close> (true: little-endian). Positions are \<open>nat\<close>: they are bounded by the
  size of a \<^verbatim>\<open>std::string\<close>, far below the range of \<^verbatim>\<open>unsigned long\<close>. A decoder that has
  thrown is abandoned by every caller, so an error result carries no decoder.

  \<open>decodes\<close> is the logic in which round trips are proved, and the locale \<open>codec\<close> is the
  contract between a \<open>put\<close> and its \<open>get\<close>; every pair of the engine is an interpretation.
\<close>

subsection \<open>Byte order and byte swapping\<close>

definition nativeByteorder :: "bool \<Rightarrow> bool" where
  "nativeByteorder le = (let cv = mem_repr le 4 0x01020304 in if cv ! 0 = 1 then False else True)"

definition copyswap2 :: "octets \<Rightarrow> octets" where
  "copyswap2 psrc = [psrc ! 1, psrc ! 0]"

definition copyswap4 :: "octets \<Rightarrow> octets" where
  "copyswap4 psrc = [psrc ! 3, psrc ! 2, psrc ! 1, psrc ! 0]"

definition copyswap8 :: "octets \<Rightarrow> octets" where
  "copyswap8 psrc = copyswap4 (drop 4 psrc) @ copyswap4 psrc"

subsection \<open>The encoder\<close>

record encoder =
  enc_data :: octets

definition Encoder :: encoder where
  "Encoder = \<lparr>enc_data = []\<rparr>"

definition enc_append :: "octets \<Rightarrow> encoder \<Rightarrow> encoder" where
  "enc_append bs e = e\<lparr>enc_data := enc_data e @ bs\<rparr>"

definition enc_align :: "nat \<Rightarrow> encoder \<Rightarrow> encoder" where
  "enc_align modulus e =
     (let curpos = length (enc_data e);
          newpos = modulus * ((curpos + modulus - 1) div modulus)
      in enc_append (replicate (newpos - curpos) (of_char CHR ''x'')) e)"

definition putBoolean :: "bool \<Rightarrow> encoder \<Rightarrow> encoder" where
  "putBoolean value e = (if value then enc_append [1] e else enc_append [0] e)"

definition putOctet :: "u8 \<Rightarrow> encoder \<Rightarrow> encoder" where
  "putOctet value e = enc_append [value] e"

definition putUShort :: "bool \<Rightarrow> u16 \<Rightarrow> encoder \<Rightarrow> encoder" where
  "putUShort le value e = enc_append (mem_repr le 2 (unat value)) (enc_align 2 e)"

definition putULong :: "bool \<Rightarrow> u32 \<Rightarrow> encoder \<Rightarrow> encoder" where
  "putULong le value e = enc_append (mem_repr le 4 (unat value)) (enc_align 4 e)"

text \<open>An \<^verbatim>\<open>int32_t\<close> is the word with its bits; \<open>sint\<close> reads its value.\<close>

definition putLong :: "bool \<Rightarrow> u32 \<Rightarrow> encoder \<Rightarrow> encoder" where
  "putLong le value e = enc_append (mem_repr le 4 (unat value)) (enc_align 4 e)"

definition putULongLong :: "bool \<Rightarrow> u64 \<Rightarrow> encoder \<Rightarrow> encoder" where
  "putULongLong le value e = enc_append (mem_repr le 8 (unat value)) (enc_align 8 e)"

definition putString :: "bool \<Rightarrow> octets \<Rightarrow> encoder \<Rightarrow> encoder" where
  "putString le value e =
     enc_append [0] (enc_append value (putULong le (of_nat (length value + 1)) e))"

definition putOctetSeq :: "bool \<Rightarrow> octets \<Rightarrow> encoder \<Rightarrow> encoder" where
  "putOctetSeq le value e = enc_append value (putULong le (of_nat (length value)) e)"

subsection \<open>The decoder\<close>

text \<open>
  \<open>InvalidData\<close> is the exception of the source. \<open>ReadPastEnd\<close> marks a copy out of the
  buffer with a count beyond its end, which C++ leaves undefined.
\<close>

datatype cdr_error = InvalidData | ReadPastEnd

record decoder =
  m_dataByteorder :: bool
  m_nativeByteorder :: bool
  m_pos :: nat
  m_len :: nat
  m_data :: octets

type_synonym 'a dec = "decoder \<Rightarrow> cdr_error + 'a \<times> decoder"

definition dreturn :: "'a \<Rightarrow> 'a dec" where
  "dreturn a d = Inr (a, d)"

definition dbind :: "'a dec \<Rightarrow> ('a \<Rightarrow> 'b dec) \<Rightarrow> 'b dec" where
  "dbind g h d = (case g d of Inl x \<Rightarrow> Inl x | Inr (a, d') \<Rightarrow> h a d')"

definition Decoder_ptr :: "bool \<Rightarrow> octets \<Rightarrow> nat \<Rightarrow> decoder" where
  "Decoder_ptr le data sz =
     \<lparr>m_dataByteorder = nativeByteorder le, m_nativeByteorder = nativeByteorder le,
      m_pos = 0, m_len = sz, m_data = data\<rparr>"

definition Decoder :: "bool \<Rightarrow> octets \<Rightarrow> decoder" where
  "Decoder le data =
     \<lparr>m_dataByteorder = nativeByteorder le, m_nativeByteorder = nativeByteorder le,
      m_pos = 0, m_len = length data, m_data = data\<rparr>"

definition set_byteorder :: "bool \<Rightarrow> unit dec" where
  "set_byteorder bo d = Inr ((), d\<lparr>m_dataByteorder := bo\<rparr>)"

definition byteorder :: "decoder \<Rightarrow> bool" where
  "byteorder d = m_dataByteorder d"

definition dec_align :: "nat \<Rightarrow> decoder \<Rightarrow> decoder" where
  "dec_align modulus d = d\<lparr>m_pos := modulus * ((m_pos d + modulus - 1) div modulus)\<rparr>"

definition remainingData :: "decoder \<Rightarrow> nat" where
  "remainingData d = (if m_pos d > m_len d then 0 else m_len d - m_pos d)"

definition getBoolean :: "bool dec" where
  "getBoolean d =
     (if m_pos d + 1 > m_len d then Inl InvalidData
      else if m_data d ! m_pos d = 0 then Inr (False, d\<lparr>m_pos := m_pos d + 1\<rparr>)
      else if m_data d ! m_pos d = 1 then Inr (True, d\<lparr>m_pos := m_pos d + 1\<rparr>)
      else Inl InvalidData)"

definition getOctet :: "u8 dec" where
  "getOctet d =
     (if m_pos d + 1 > m_len d then Inl InvalidData
      else Inr (m_data d ! m_pos d, d\<lparr>m_pos := m_pos d + 1\<rparr>))"

definition getUShort :: "u16 dec" where
  "getUShort d0 =
     (let d = dec_align 2 d0 in
      if m_pos d + 2 > m_len d then Inl InvalidData
      else let src = take 2 (drop (m_pos d) (m_data d));
               value = (if m_dataByteorder d = m_nativeByteorder d then src else copyswap2 src)
           in Inr (of_nat (mem_value (m_nativeByteorder d) value), d\<lparr>m_pos := m_pos d + 2\<rparr>))"

definition getULong :: "u32 dec" where
  "getULong d0 =
     (let d = dec_align 4 d0 in
      if m_pos d + 4 > m_len d then Inl InvalidData
      else let src = take 4 (drop (m_pos d) (m_data d));
               value = (if m_dataByteorder d = m_nativeByteorder d then src else copyswap4 src)
           in Inr (of_nat (mem_value (m_nativeByteorder d) value), d\<lparr>m_pos := m_pos d + 4\<rparr>))"

definition getLong :: "u32 dec" where
  "getLong d0 =
     (let d = dec_align 4 d0 in
      if m_pos d + 4 > m_len d then Inl InvalidData
      else let src = take 4 (drop (m_pos d) (m_data d));
               value = (if m_dataByteorder d = m_nativeByteorder d then src else copyswap4 src)
           in Inr (of_nat (mem_value (m_nativeByteorder d) value), d\<lparr>m_pos := m_pos d + 4\<rparr>))"

definition getULongLong :: "u64 dec" where
  "getULongLong d0 =
     (let d = dec_align 8 d0 in
      if m_pos d + 8 > m_len d then Inl InvalidData
      else let src = take 8 (drop (m_pos d) (m_data d));
               value = (if m_dataByteorder d = m_nativeByteorder d then src else copyswap8 src)
           in Inr (of_nat (mem_value (m_nativeByteorder d) value), d\<lparr>m_pos := m_pos d + 8\<rparr>))"

text \<open>\<^verbatim>\<open>value.assign (m_data+m_pos, n)\<close>: copies \<open>n\<close> bytes, wherever the buffer ends.\<close>

definition assign_from :: "decoder \<Rightarrow> nat \<Rightarrow> cdr_error + octets" where
  "assign_from d n =
     (if m_pos d + n > length (m_data d) then Inl ReadPastEnd
      else Inr (take n (drop (m_pos d) (m_data d))))"

text \<open>The count \<^verbatim>\<open>length-1\<close> is computed in \<^verbatim>\<open>uint32_t\<close>, so it wraps for \<^verbatim>\<open>length == 0\<close>.\<close>

definition getString :: "octets dec" where
  "getString = dbind getULong (\<lambda>len d.
     if m_pos d + unat len > m_len d then Inl InvalidData
     else sbind (assign_from d (unat (len - 1)))
            (\<lambda>value. Inr (value, d\<lparr>m_pos := m_pos d + unat len\<rparr>)))"

definition getOctetSeq :: "octets dec" where
  "getOctetSeq = dbind getULong (\<lambda>len d.
     if m_pos d + unat len > m_len d then Inl InvalidData
     else sbind (assign_from d (unat len))
            (\<lambda>value. Inr (value, d\<lparr>m_pos := m_pos d + unat len\<rparr>)))"


subsection \<open>Basic facts\<close>

lemma nativeByteorder_eq [simp]: "nativeByteorder le = le"
proof -
  have four: "(4::nat) = Suc (Suc (Suc (Suc 0)))" by simp
  show ?thesis
    unfolding nativeByteorder_def mem_repr_def four by simp
qed

lemma copyswap_rev:
  "length bs = 2 \<Longrightarrow> copyswap2 bs = rev bs"
  "length bs = 4 \<Longrightarrow> copyswap4 bs = rev bs"
  "length bs = 8 \<Longrightarrow> copyswap8 bs = rev bs"
  by (auto simp: copyswap2_def copyswap4_def copyswap8_def numeral_eq_Suc length_Suc_conv)

text \<open>The four integer getters are one routine at different widths.\<close>

definition get_uint :: "nat \<Rightarrow> 'w::len word dec" where
  "get_uint n d0 =
     (let d = dec_align n d0 in
      if m_pos d + n > m_len d then Inl InvalidData
      else let src = take n (drop (m_pos d) (m_data d));
               value = (if m_dataByteorder d = m_nativeByteorder d then src else rev src)
           in Inr (of_nat (mem_value (m_nativeByteorder d) value), d\<lparr>m_pos := m_pos d + n\<rparr>))"

definition put_uint :: "nat \<Rightarrow> bool \<Rightarrow> 'w::len word \<Rightarrow> encoder \<Rightarrow> encoder" where
  "put_uint n le value e = enc_append (mem_repr le n (unat value)) (enc_align n e)"

lemma put_uint_eqs:
  "putUShort = put_uint 2" "putULong = put_uint 4" "putLong = put_uint 4"
  "putULongLong = put_uint 8"
  by (auto simp: fun_eq_iff put_uint_def putUShort_def putULong_def putLong_def putULongLong_def)

text \<open>A decoder over a real buffer: its length does not exceed the data.\<close>

definition wf_decoder :: "decoder \<Rightarrow> bool" where
  "wf_decoder d \<longleftrightarrow> m_len d \<le> length (m_data d)"

lemma get_uint_eqs:
  assumes "wf_decoder d"
  shows "getUShort d = get_uint 2 d" "getULong d = get_uint 4 d" "getLong d = get_uint 4 d"
    "getULongLong d = get_uint 8 d"
  using assms
  by (auto simp: get_uint_def getUShort_def getULong_def getLong_def getULongLong_def Let_def
      wf_decoder_def dec_align_def copyswap_rev)

lemma length_enc_append [simp]: "enc_data (enc_append bs e) = enc_data e @ bs"
  by (simp add: enc_append_def)

lemma align_up_ge: "0 < m \<Longrightarrow> (n::nat) \<le> m * ((n + m - 1) div m)"
proof -
  assume m: "0 < m"
  have "m * ((n + m - 1) div m) + (n + m - 1) mod m = n + m - 1"
    by simp
  moreover have "(n + m - 1) mod m < m" using m by simp
  ultimately show ?thesis by linarith
qed

lemma length_enc_align:
  "0 < m \<Longrightarrow> length (enc_data (enc_align m e)) =
     m * ((length (enc_data e) + m - 1) div m)"
  using align_up_ge [of m "length (enc_data e)"] by (simp add: enc_align_def Let_def)

lemma prefix_enc_align: "prefix (enc_data e) (enc_data (enc_align m e))"
  by (simp add: enc_align_def Let_def)

lemma prefix_put_uint: "prefix (enc_data e) (enc_data (put_uint n le v e))"
  by (simp add: put_uint_def enc_align_def Let_def)

subsection \<open>A logic of decoding\<close>

text \<open>
  \<open>decodes le g v e e'\<close>: on any decoder whose data byte order is \<open>le\<close>, whose buffer starts
  with what encoder \<open>e'\<close> holds and which stands where encoder \<open>e\<close> ended, the routine \<open>g\<close>
  succeeds with \<open>v\<close> and stops where \<open>e'\<close> ended. The decoding machine's own byte order is
  not constrained.
\<close>

definition stands_at :: "bool \<Rightarrow> decoder \<Rightarrow> encoder \<Rightarrow> bool" where
  "stands_at le d e \<longleftrightarrow>
     m_dataByteorder d = le \<and> m_len d = length (m_data d) \<and> m_pos d = length (enc_data e)"

definition seek :: "encoder \<Rightarrow> decoder \<Rightarrow> decoder" where
  "seek e d = d\<lparr>m_pos := length (enc_data e)\<rparr>"

definition decodes ::
    "bool \<Rightarrow> 'a dec \<Rightarrow> 'a \<Rightarrow> encoder \<Rightarrow> encoder \<Rightarrow> bool" where
  "decodes le g v e e' \<longleftrightarrow> prefix (enc_data e) (enc_data e') \<and>
     (\<forall>d. stands_at le d e \<longrightarrow> prefix (enc_data e') (m_data d) \<longrightarrow> g d = Inr (v, seek e' d))"

lemma stands_at_seek [simp]: "stands_at le d e \<Longrightarrow> stands_at le (seek e' d) e'"
  by (simp add: stands_at_def seek_def)

lemma seek_simps [simp]:
  "m_data (seek e d) = m_data d" "seek e' (seek e d) = seek e' d"
  "m_pos (seek e d) = length (enc_data e)" "m_len (seek e d) = m_len d"
  by (simp_all add: seek_def)

lemma decodesI:
  assumes "prefix (enc_data e) (enc_data e')"
    and "\<And>d. stands_at le d e \<Longrightarrow> prefix (enc_data e') (m_data d) \<Longrightarrow> g d = Inr (v, seek e' d)"
  shows "decodes le g v e e'"
  using assms by (simp add: decodes_def)

lemma decodesD:
  assumes "decodes le g v e e'" "stands_at le d e" "prefix (enc_data e') (m_data d)"
  shows "g d = Inr (v, seek e' d)"
  using assms by (simp add: decodes_def)

lemma decodes_prefix: "decodes le g v e e' \<Longrightarrow> prefix (enc_data e) (enc_data e')"
  by (simp add: decodes_def)

lemma decodes_return [codec_intros]: "decodes le (dreturn v) v e e"
  by (auto intro!: decodesI simp: dreturn_def seek_def stands_at_def)

lemma decodes_bind [codec_intros]:
  assumes g: "decodes le g a e e1" and h: "decodes le (h a) b e1 e2"
  shows "decodes le (dbind g h) b e e2"
proof (rule decodesI)
  show "prefix (enc_data e) (enc_data e2)"
    using decodes_prefix [OF g] decodes_prefix [OF h] by (rule prefix_order.trans)
next
  fix d assume d: "stands_at le d e" "prefix (enc_data e2) (m_data d)"
  have "prefix (enc_data e1) (m_data d)"
    using decodes_prefix [OF h] d(2) by (rule prefix_order.trans)
  with g d(1) have "g d = Inr (a, seek e1 d)" by (rule decodesD)
  moreover have "h a (seek e1 d) = Inr (b, seek e2 (seek e1 d))"
    using d by (intro decodesD [OF h]) auto
  ultimately show "dbind g h d = Inr (b, seek e2 d)"
    by (simp add: dbind_def)
qed

lemma stands_at_room:
  assumes "stands_at le d e" "prefix (enc_data e') (m_data d)"
  shows "length (enc_data e') \<le> m_len d"
  using assms by (auto simp: stands_at_def dest: prefix_length_le)

lemma decodes_uint:
  fixes v :: "'w::len word"
  assumes "0 < n" and w: "LENGTH('w) \<le> 8 * n"
  shows "decodes le (get_uint n) v e (put_uint n le v e)"
proof (rule decodesI)
  show "prefix (enc_data e) (enc_data (put_uint n le v e))" by (rule prefix_put_uint)
next
  fix d assume d: "stands_at le d e" and p: "prefix (enc_data (put_uint n le v e)) (m_data d)"
  let ?a = "enc_align n e"
  have pos: "m_pos (dec_align n d) = length (enc_data ?a)"
    using d assms(1) by (simp add: dec_align_def stands_at_def length_enc_align)
  have bytes: "take n (drop (length (enc_data ?a)) (m_data d)) = mem_repr le n (unat v)"
    using prefix_take_drop [of "enc_data ?a" "mem_repr le n (unat v)" "m_data d"] p
    by (simp add: put_uint_def)
  have room: "length (enc_data ?a) + n \<le> m_len d"
    using stands_at_room [OF d p] by (simp add: put_uint_def)
  have val: "of_nat (unat v mod 256 ^ n) = v"
    using w by (simp add: unat_mod_256_power)
  have seek: "(dec_align n d)\<lparr>m_pos := length (enc_data ?a) + n\<rparr> = seek (put_uint n le v e) d"
    by (simp add: seek_def put_uint_def dec_align_def)
  show "get_uint n d = Inr (v, seek (put_uint n le v e) d)"
    using d room bytes val seek pos
    by (cases "m_nativeByteorder d = le")
      (auto simp: get_uint_def Let_def stands_at_def dec_align_def mem_value_repr
        mem_value_def mem_repr_def le_val_le_bytes)
qed

subsection \<open>The contract between a put and its get\<close>

text \<open>
  \<open>codec put get ok\<close>: what \<open>put\<close> marshals, \<open>get\<close> unmarshals, for the values that satisfy
  \<open>ok\<close>. The client lemmas (sequences of values) are proved once, here.
\<close>

fun put_seq :: "(bool \<Rightarrow> 'a \<Rightarrow> encoder \<Rightarrow> encoder) \<Rightarrow> bool \<Rightarrow> 'a list \<Rightarrow> encoder \<Rightarrow> encoder" where
  "put_seq put le [] e = e"
| "put_seq put le (v # vs) e = put_seq put le vs (put le v e)"

fun get_seq :: "'a dec \<Rightarrow> nat \<Rightarrow> 'a list dec" where
  "get_seq get 0 = dreturn []"
| "get_seq get (Suc n) = dbind get (\<lambda>v. dbind (get_seq get n) (\<lambda>vs. dreturn (v # vs)))"

locale codec =
  fixes put :: "bool \<Rightarrow> 'a \<Rightarrow> encoder \<Rightarrow> encoder"
    and get :: "'a dec"
    and ok :: "'a \<Rightarrow> bool"
  assumes decodes_put: "ok v \<Longrightarrow> decodes le get v e (put le v e)"
begin

lemma put_prefix: "ok v \<Longrightarrow> prefix (enc_data e) (enc_data (put le v e))"
  using decodes_put by (rule decodes_prefix)

lemma decodes_seq:
  "list_all ok vs \<Longrightarrow> decodes le (get_seq get (length vs)) vs e (put_seq put le vs e)"
proof (induction vs arbitrary: e)
  case Nil
  show ?case by (simp add: decodes_return)
next
  case (Cons v vs)
  then have "decodes le get v e (put le v e)"
    and "decodes le (get_seq get (length vs)) vs (put le v e) (put_seq put le vs (put le v e))"
    by (auto intro: decodes_put)
  then show ?case by (auto intro!: decodes_bind decodes_return)
qed

end

text \<open>A codec whose encodings have at least \<open>w\<close> bytes: a sequence is bounded by the data left.\<close>

locale sized_codec = codec +
  fixes w :: nat
  assumes put_grows: "ok v \<Longrightarrow> length (enc_data e) + w \<le> length (enc_data (put le v e))"
begin

lemma seq_grows:
  "list_all ok vs \<Longrightarrow>
     length (enc_data e) + w * length vs \<le> length (enc_data (put_seq put le vs e))"
proof (induction vs arbitrary: e)
  case (Cons v vs)
  have "length (enc_data e) + w \<le> length (enc_data (put le v e))"
    using Cons.prems by (intro put_grows) simp
  also have "\<dots> + w * length vs \<le> length (enc_data (put_seq put le vs (put le v e)))"
    using Cons by simp
  finally show ?case by simp
qed simp

end

lemma stands_at_wf: "stands_at le d e \<Longrightarrow> wf_decoder d"
  by (simp add: stands_at_def wf_decoder_def)

lemma decodes_cong:
  assumes "decodes le g v e e'" "\<And>d. wf_decoder d \<Longrightarrow> f d = g d"
  shows "decodes le f v e e'"
proof (rule decodesI)
  show "prefix (enc_data e) (enc_data e')" using assms(1) by (rule decodes_prefix)
next
  fix d assume d: "stands_at le d e" "prefix (enc_data e') (m_data d)"
  have "f d = g d" using d(1) by (intro assms(2) stands_at_wf)
  with decodesD [OF assms(1) d] show "f d = Inr (v, seek e' d)" by simp
qed

lemma enc_append_nth:
  "prefix (enc_data (enc_append [x] e)) (m_data d) \<Longrightarrow> m_data d ! length (enc_data e) = x"
  by (simp add: prefix_nth)

lemma decodes_boolean [codec_intros]: "decodes le getBoolean v e (putBoolean v e)"
proof (rule decodesI)
  show "prefix (enc_data e) (enc_data (putBoolean v e))" by (simp add: putBoolean_def)
next
  fix d assume d: "stands_at le d e" "prefix (enc_data (putBoolean v e)) (m_data d)"
  have "m_data d ! length (enc_data e) = (if v then 1 else 0)"
    using d(2) by (intro enc_append_nth) (auto simp: putBoolean_def split: if_splits)
  with d(1) stands_at_room [OF d] show "getBoolean d = Inr (v, seek (putBoolean v e) d)"
    by (auto simp: getBoolean_def stands_at_def putBoolean_def seek_def split: if_splits)
qed

lemma decodes_octet [codec_intros]: "decodes le getOctet v e (putOctet v e)"
proof (rule decodesI)
  show "prefix (enc_data e) (enc_data (putOctet v e))" by (simp add: putOctet_def)
next
  fix d assume d: "stands_at le d e" "prefix (enc_data (putOctet v e)) (m_data d)"
  have "m_data d ! length (enc_data e) = v"
    using d(2) by (intro enc_append_nth) (simp add: putOctet_def)
  with d(1) stands_at_room [OF d] show "getOctet d = Inr (v, seek (putOctet v e) d)"
    by (auto simp: getOctet_def stands_at_def putOctet_def seek_def)
qed

lemma decodes_ushort [codec_intros]: "decodes le getUShort v e (putUShort le v e)"
  unfolding put_uint_eqs by (rule decodes_cong [OF decodes_uint get_uint_eqs(1)]) simp_all

lemma decodes_ulong [codec_intros]: "decodes le getULong v e (putULong le v e)"
  unfolding put_uint_eqs by (rule decodes_cong [OF decodes_uint get_uint_eqs(2)]) simp_all

lemma decodes_long [codec_intros]: "decodes le getLong v e (putLong le v e)"
  unfolding put_uint_eqs by (rule decodes_cong [OF decodes_uint get_uint_eqs(3)]) simp_all

lemma decodes_ulonglong [codec_intros]: "decodes le getULongLong v e (putULongLong le v e)"
  unfolding put_uint_eqs by (rule decodes_cong [OF decodes_uint get_uint_eqs(4)]) simp_all

text \<open>A counted block: the count, then at least that many bytes, of which \<open>value\<close> is returned.\<close>

definition take_block :: "u32 \<Rightarrow> u32 \<Rightarrow> octets dec" where
  "take_block len cnt d =
     (if m_pos d + unat len > m_len d then Inl InvalidData
      else sbind (assign_from d (unat cnt)) (\<lambda>value. Inr (value, d\<lparr>m_pos := m_pos d + unat len\<rparr>)))"

lemma getString_block: "getString = dbind getULong (\<lambda>len. take_block len (len - 1))"
  by (simp add: getString_def take_block_def fun_eq_iff dbind_def split: sum.splits)

lemma getOctetSeq_block: "getOctetSeq = dbind getULong (\<lambda>len. take_block len len)"
  by (simp add: getOctetSeq_def take_block_def fun_eq_iff dbind_def split: sum.splits)

lemma decodes_block:
  assumes "unat len = length bs + length pad" "unat cnt = length bs"
  shows "decodes le (take_block len cnt) bs e (enc_append pad (enc_append bs e))"
proof (rule decodesI)
  show "prefix (enc_data e) (enc_data (enc_append pad (enc_append bs e)))" by simp
next
  fix d
  assume d: "stands_at le d e" and p: "prefix (enc_data (enc_append pad (enc_append bs e))) (m_data d)"
  have "take (length bs) (drop (length (enc_data e)) (m_data d)) = bs"
    using p by (auto simp: prefix_def)
  with stands_at_room [OF d p] d assms
  show "take_block len cnt d = Inr (bs, seek (enc_append pad (enc_append bs e)) d)"
    by (auto simp: take_block_def assign_from_def stands_at_def seek_def add_ac)
qed

text \<open>The lengths a \<^verbatim>\<open>uint32_t\<close> count can hold.\<close>

definition string_ok :: "octets \<Rightarrow> bool" where
  "string_ok s \<longleftrightarrow> length s + 1 < 2 ^ 32"

definition seq_ok :: "octets \<Rightarrow> bool" where
  "seq_ok s \<longleftrightarrow> length s < 2 ^ 32"

lemma decodes_string [codec_intros]:
  assumes "string_ok v"
  shows "decodes le getString v e (putString le v e)"
proof -
  have len: "unat (of_nat (length v + 1) :: u32) = length v + length [0::u8]"
    using assms unat_of_nat_u32 [of "length v + 1"] by (simp add: string_ok_def)
  have cnt: "unat (of_nat (length v + 1) - 1 :: u32) = length v"
    using assms unat_of_nat_u32 [of "length v"] by (simp add: string_ok_def)
  show ?thesis
    unfolding getString_block putString_def
    by (rule decodes_bind [OF decodes_ulong]) (rule decodes_block [OF len cnt])
qed

lemma decodes_octetseq [codec_intros]:
  assumes "seq_ok v"
  shows "decodes le getOctetSeq v e (putOctetSeq le v e)"
proof -
  have len: "unat (of_nat (length v) :: u32) = length v + length ([] :: octets)"
    and cnt: "unat (of_nat (length v) :: u32) = length v"
    using assms by (simp_all add: unat_of_nat_u32 seq_ok_def)
  have put: "putOctetSeq le v e = enc_append [] (enc_append v (putULong le (of_nat (length v)) e))"
    by (simp add: putOctetSeq_def enc_append_def)
  show ?thesis
    unfolding getOctetSeq_block put
    by (rule decodes_bind [OF decodes_ulong]) (rule decodes_block [OF len cnt])
qed

interpretation cdr_boolean: codec "\<lambda>_. putBoolean" getBoolean "\<lambda>_. True"
  by unfold_locales (rule decodes_boolean)

interpretation cdr_octet: codec "\<lambda>_. putOctet" getOctet "\<lambda>_. True"
  by unfold_locales (rule decodes_octet)

interpretation cdr_ushort: codec putUShort getUShort "\<lambda>_. True"
  by unfold_locales (rule decodes_ushort)

lemma putULong_grows: "length (enc_data e) + 4 \<le> length (enc_data (putULong le v e))"
  using prefix_length_le [OF prefix_enc_align, of e 4] by (simp add: putULong_def)

interpretation cdr_ulong: sized_codec putULong getULong "\<lambda>_. True" 4
  by unfold_locales (rule decodes_ulong, rule putULong_grows)

interpretation cdr_long: codec putLong getLong "\<lambda>_. True"
  by unfold_locales (rule decodes_long)

interpretation cdr_ulonglong: codec putULongLong getULongLong "\<lambda>_. True"
  by unfold_locales (rule decodes_ulonglong)

interpretation cdr_string: codec putString getString string_ok
  by unfold_locales (rule decodes_string)

lemma putOctetSeq_grows: "length (enc_data e) + 4 \<le> length (enc_data (putOctetSeq le v e))"
  using putULong_grows [of e le "of_nat (length v)"] by (simp add: putOctetSeq_def)

interpretation cdr_octetseq: sized_codec putOctetSeq getOctetSeq seq_ok 4
  by unfold_locales (auto intro: decodes_octetseq putOctetSeq_grows)

text \<open>
  Every encapsulation of the sources starts with the encoder's byte order; the decoder reads
  it and switches to it.
\<close>

lemma encapsulation:
  assumes "decodes le g v (putBoolean (nativeByteorder le) Encoder) e'"
  shows "dbind getBoolean (\<lambda>bo. dbind (set_byteorder bo) (\<lambda>_. g)) (Decoder le' (enc_data e')) =
     Inr (v, seek e' (Decoder le' (enc_data e'))\<lparr>m_dataByteorder := le\<rparr>)"
proof -
  let ?d = "Decoder le' (enc_data e')" and ?e = "putBoolean le Encoder"
  have p: "prefix (enc_data ?e) (enc_data e')"
    using decodes_prefix [OF assms] by simp
  have "stands_at le' ?d Encoder" by (simp add: stands_at_def Decoder_def Encoder_def)
  then have "getBoolean ?d = Inr (le, seek ?e ?d)"
    using decodes_boolean p by (intro decodesD) (simp_all add: Decoder_def)
  moreover have "g ((seek ?e ?d)\<lparr>m_dataByteorder := le\<rparr>) =
      Inr (v, seek e' ((seek ?e ?d)\<lparr>m_dataByteorder := le\<rparr>))"
    using assms by (intro decodesD [of le g v ?e]) (simp_all add: stands_at_def Decoder_def seek_def)
  ultimately show ?thesis
    by (simp add: dbind_def set_byteorder_def seek_def)
qed

subsection \<open>Heterogeneous streams\<close>

text \<open>
  The engine as its clients use it: any sequence of typed values. \<open>get_like i\<close> is the getter
  of the type of \<open>i\<close>.
\<close>

datatype cdr_item =
    IBoolean bool
  | IOctet u8
  | IUShort u16
  | IULong u32
  | ILong u32
  | IULongLong u64
  | IString octets
  | IOctetSeq octets

fun put_item :: "bool \<Rightarrow> cdr_item \<Rightarrow> encoder \<Rightarrow> encoder" where
  "put_item le (IBoolean v) = putBoolean v"
| "put_item le (IOctet v) = putOctet v"
| "put_item le (IUShort v) = putUShort le v"
| "put_item le (IULong v) = putULong le v"
| "put_item le (ILong v) = putLong le v"
| "put_item le (IULongLong v) = putULongLong le v"
| "put_item le (IString v) = putString le v"
| "put_item le (IOctetSeq v) = putOctetSeq le v"

definition dmap :: "('a \<Rightarrow> 'b) \<Rightarrow> 'a dec \<Rightarrow> 'b dec" where
  "dmap f g = dbind g (\<lambda>x. dreturn (f x))"

fun get_like :: "cdr_item \<Rightarrow> cdr_item dec" where
  "get_like (IBoolean _) = dmap IBoolean getBoolean"
| "get_like (IOctet _) = dmap IOctet getOctet"
| "get_like (IUShort _) = dmap IUShort getUShort"
| "get_like (IULong _) = dmap IULong getULong"
| "get_like (ILong _) = dmap ILong getLong"
| "get_like (IULongLong _) = dmap IULongLong getULongLong"
| "get_like (IString _) = dmap IString getString"
| "get_like (IOctetSeq _) = dmap IOctetSeq getOctetSeq"

fun item_ok :: "cdr_item \<Rightarrow> bool" where
  "item_ok (IString v) = string_ok v"
| "item_ok (IOctetSeq v) = seq_ok v"
| "item_ok _ = True"

fun put_items :: "bool \<Rightarrow> cdr_item list \<Rightarrow> encoder \<Rightarrow> encoder" where
  "put_items le [] e = e"
| "put_items le (i # is) e = put_items le is (put_item le i e)"

fun get_items :: "cdr_item list \<Rightarrow> cdr_item list dec" where
  "get_items [] = dreturn []"
| "get_items (i # is) = dbind (get_like i) (\<lambda>v. dbind (get_items is) (\<lambda>vs. dreturn (v # vs)))"

lemma decodes_map [codec_intros]: "decodes le g v e e' \<Longrightarrow> decodes le (dmap f g) (f v) e e'"
  unfolding dmap_def by (rule decodes_bind [OF _ decodes_return])

lemma decodes_item: "item_ok i \<Longrightarrow> decodes le (get_like i) i e (put_item le i e)"
  by (cases i) (auto intro: codec_intros)

lemma decodes_items: "list_all item_ok is \<Longrightarrow> decodes le (get_items is) is e (put_items le is e)"
proof (induction "is" arbitrary: e)
  case Nil
  show ?case by (simp add: decodes_return)
next
  case (Cons i "is")
  then have "decodes le (get_like i) i e (put_item le i e)"
    and "decodes le (get_items is) is (put_item le i e) (put_items le is (put_item le i e))"
    by (auto intro: decodes_item)
  then show ?case by (auto intro!: decodes_bind decodes_return)
qed

text \<open>A getter on a buffer that ends before the value's last byte reports \<open>InvalidData\<close>.\<close>

definition cut_before :: "decoder \<Rightarrow> encoder \<Rightarrow> bool" where
  "cut_before d e' \<longleftrightarrow> prefix (m_data d) (enc_data e') \<and> length (m_data d) < length (enc_data e')"

lemma get_uint_cut:
  assumes "0 < n" "stands_at le d e" "cut_before d (put_uint n le v e)"
  shows "get_uint n d = Inl InvalidData"
proof -
  have "length (m_data d) < length (enc_data (enc_align n e)) + n"
    using assms(3) by (simp add: cut_before_def put_uint_def)
  then show ?thesis
    using assms(1,2) by (simp add: get_uint_def Let_def dec_align_def stands_at_def length_enc_align)
qed

lemma get_cut:
  assumes "stands_at le d e"
  shows "cut_before d (putUShort le v2 e) \<Longrightarrow> getUShort d = Inl InvalidData"
    "cut_before d (putULong le v4 e) \<Longrightarrow> getULong d = Inl InvalidData"
    "cut_before d (putLong le v4 e) \<Longrightarrow> getLong d = Inl InvalidData"
    "cut_before d (putULongLong le v8 e) \<Longrightarrow> getULongLong d = Inl InvalidData"
  using get_uint_cut [OF _ assms, of 2 v2] get_uint_cut [OF _ assms, of 4 v4]
    get_uint_cut [OF _ assms, of 8 v8] stands_at_wf [OF assms]
  by (simp_all add: get_uint_eqs put_uint_eqs)

lemma get_octet_cut:
  assumes "stands_at le d e" "cut_before d (enc_append [x] e)"
  shows "getBoolean d = Inl InvalidData" "getOctet d = Inl InvalidData"
  using assms by (simp_all add: getBoolean_def getOctet_def stands_at_def cut_before_def)

lemma counted_cut:
  assumes d: "stands_at le d e" and c: "cut_before d (enc_append bs (putULong le len e))"
    and n: "unat len = length bs"
  shows "dbind getULong (\<lambda>l. take_block l (cnt l)) d = Inl InvalidData"
proof (cases "length (m_data d) < length (enc_data (putULong le len e))")
  case True
  then have "cut_before d (putULong le len e)"
    using c prefix_cut [of "m_data d" "enc_data (putULong le len e)" bs]
    by (simp add: cut_before_def)
  then show ?thesis
    using get_cut(2) [OF d] by (simp add: dbind_def)
next
  case False
  then have "prefix (enc_data (putULong le len e)) (m_data d)"
    using c by - (rule prefix_cover [of _ _ bs], simp_all add: cut_before_def)
  then have g: "getULong d = Inr (len, seek (putULong le len e) d)"
    by (rule decodesD [OF decodes_ulong d])
  have "m_len d < length (enc_data (putULong le len e)) + unat len"
    using c d n by (simp add: cut_before_def stands_at_def)
  then show ?thesis
    by (simp add: dbind_def g take_block_def)
qed

lemma get_like_cut:
  assumes "item_ok i" "stands_at le d e" "cut_before d (put_item le i e)"
  shows "get_like i d = Inl InvalidData"
proof (cases i)
  case (IString v)
  have n: "unat (of_nat (length v + 1) :: u32) = length (v @ [0])"
    using assms(1) IString unat_of_nat_u32 [of "length v + 1"] by (simp add: string_ok_def)
  have "cut_before d (enc_append (v @ [0]) (putULong le (of_nat (length v + 1)) e))"
    using assms(3) IString by (simp add: putString_def cut_before_def)
  from counted_cut [OF assms(2) this n] show ?thesis
    by (simp add: IString getString_block dmap_def dbind_def split: sum.splits)
next
  case (IOctetSeq v)
  have n: "unat (of_nat (length v) :: u32) = length v"
    using assms(1) IOctetSeq by (simp add: unat_of_nat_u32 seq_ok_def)
  have "cut_before d (enc_append v (putULong le (of_nat (length v)) e))"
    using assms(3) IOctetSeq by (simp add: putOctetSeq_def cut_before_def)
  from counted_cut [OF assms(2) this n] show ?thesis
    by (simp add: IOctetSeq getOctetSeq_block dmap_def dbind_def split: sum.splits)
qed (use assms(3) get_cut [OF assms(2)] get_octet_cut [OF assms(2)] in
      \<open>auto simp: dmap_def dbind_def putBoolean_def putOctet_def split: if_splits\<close>)

lemma get_items_cut:
  assumes "list_all item_ok is" "stands_at le d e" "length (enc_data e) \<le> length (m_data d)"
    "cut_before d (put_items le is e)"
  shows "get_items is d = Inl InvalidData"
  using assms
proof (induction "is" arbitrary: d e)
  case Nil
  then show ?case by (simp add: cut_before_def)
next
  case (Cons i "is")
  let ?e1 = "put_item le i e"
  have p: "prefix (enc_data ?e1) (enc_data (put_items le (i # is) e))"
    using decodes_prefix [OF decodes_items [of "is" le ?e1]] Cons.prems(1) by simp
  show ?case
  proof (cases "length (m_data d) < length (enc_data ?e1)")
    case True
    have "prefix (m_data d) (enc_data ?e1)"
      using Cons.prems(4) p True
      by - (rule prefix_length_prefix [of _ "enc_data (put_items le (i # is) e)"],
        simp_all add: cut_before_def)
    with True Cons.prems have "get_like i d = Inl InvalidData"
      by (intro get_like_cut [of i le d e]) (simp_all add: cut_before_def)
    then show ?thesis by (simp add: dbind_def)
  next
    case False
    have pd: "prefix (enc_data ?e1) (m_data d)"
      using Cons.prems(4) p False
      by - (rule prefix_length_prefix [of _ "enc_data (put_items le (i # is) e)"],
        simp_all add: cut_before_def)
    have "get_like i d = Inr (i, seek ?e1 d)"
      using Cons.prems(1,2) pd by (intro decodesD [OF decodes_item]) simp_all
    moreover have "get_items is (seek ?e1 d) = Inl InvalidData"
      using Cons.prems prefix_length_le [OF pd]
      by (intro Cons.IH [of _ ?e1]) (simp_all add: cut_before_def)
    ultimately show ?thesis by (simp add: dbind_def)
  qed
qed

lemma set_byteorder_Decoder:
  "dbind (set_byteorder le) (\<lambda>_. g) (Decoder le' data) = g ((Decoder le' data)\<lparr>m_dataByteorder := le\<rparr>)"
  by (simp add: dbind_def set_byteorder_def)

lemma Decoder_stands_at: "stands_at le ((Decoder le' data)\<lparr>m_dataByteorder := le\<rparr>) Encoder"
  by (simp add: stands_at_def Decoder_def Encoder_def)

lemma Decoder_simps [simp]:
  "m_data (Decoder le data) = data" "m_len (Decoder le data) = length data"
  "m_pos (Decoder le data) = 0" "wf_decoder (Decoder le data)"
  by (simp_all add: Decoder_def wf_decoder_def)

lemma get_uint_bounds:
  assumes "0 < n" "get_uint n d = Inr (v, d')"
  shows "m_pos d < m_pos d' \<and> m_pos d' \<le> m_len d \<and> d' = d\<lparr>m_pos := m_pos d'\<rparr>"
  using assms(2) align_up_ge [OF assms(1), of "m_pos d"] assms(1)
  by (auto simp: get_uint_def Let_def dec_align_def split: if_splits)

lemma getULong_bounds:
  assumes "wf_decoder d" "getULong d = Inr (v, d')"
  shows "m_pos d < m_pos d' \<and> m_pos d' \<le> m_len d \<and> d' = d\<lparr>m_pos := m_pos d'\<rparr>"
  using assms get_uint_bounds [of 4 d v d'] by (simp add: get_uint_eqs)

lemma counted_bounds:
  assumes "wf_decoder d" "dbind getULong (\<lambda>l. take_block l (cnt l)) d = Inr (v, d')"
  shows "m_pos d < m_pos d' \<and> m_pos d' \<le> m_len d \<and> d' = d\<lparr>m_pos := m_pos d'\<rparr>"
proof -
  obtain l d1 where g: "getULong d = Inr (l, d1)" and t: "take_block l (cnt l) d1 = Inr (v, d')"
    using assms(2) by (auto simp: dbind_def split: sum.splits)
  have "m_pos d < m_pos d1" "d1 = d\<lparr>m_pos := m_pos d1\<rparr>"
    using getULong_bounds [OF assms(1) g] by simp_all
  moreover have "m_pos d1 \<le> m_pos d'" "m_pos d' \<le> m_len d1" "d' = d1\<lparr>m_pos := m_pos d'\<rparr>"
    using t by (auto simp: take_block_def split: if_splits)
  ultimately show ?thesis
    by (cases d; cases d1; cases d') auto
qed

subsection \<open>Properties of the engine\<close>

text \<open>
  Claim C1: any sequence of typed values marshalled by the encoder on a machine of one byte
  order is unmarshalled to exactly those values by the decoder on a machine of any byte order,
  once the decoder is told the encoder's byte order, and the whole stream is consumed. Strings
  and octet sequences are of a length their 32-bit count can hold.
\<close>
theorem cdr_stream_roundtrip:
  assumes "list_all item_ok items"
  shows "\<exists>d. dbind (set_byteorder le) (\<lambda>_. get_items items)
           (Decoder le' (enc_data (put_items le items Encoder))) = Inr (items, d) \<and>
         remainingData d = 0"
proof -
  let ?e = "put_items le items Encoder"
  have "get_items items ((Decoder le' (enc_data ?e))\<lparr>m_dataByteorder := le\<rparr>) =
      Inr (items, seek ?e ((Decoder le' (enc_data ?e))\<lparr>m_dataByteorder := le\<rparr>))"
    using decodes_items [OF assms, of le Encoder] Decoder_stands_at
    by (rule decodesD) (simp add: Decoder_def)
  then show ?thesis
    unfolding set_byteorder_Decoder by (intro exI conjI) (assumption, simp add: remainingData_def)
qed

theorem cdr_stream_roundtrip_witness:
  "list_all item_ok [IBoolean True, IULong 7, IString [104, 105], IUShort 258] \<and>
   (\<exists>d. dbind (set_byteorder False) (\<lambda>_. get_items [IBoolean True, IULong 7, IString [104, 105], IUShort 258])
         (Decoder True (enc_data (put_items False [IBoolean True, IULong 7, IString [104, 105], IUShort 258] Encoder)))
      = Inr ([IBoolean True, IULong 7, IString [104, 105], IUShort 258], d) \<and> remainingData d = 0)"
proof -
  have h: "list_all item_ok [IBoolean True, IULong 7, IString [104, 105], IUShort 258]"
    by (simp add: string_ok_def)
  show ?thesis
    using h cdr_stream_roundtrip [OF h, of False True] by blast
qed

text \<open>
  Claim C28: a stream cut anywhere before its last byte is rejected with \<open>InvalidData\<close>; no
  prefix of an encoding is taken for a complete one.
\<close>
theorem cdr_truncation_rejected:
  assumes "list_all item_ok items" and "n < length (enc_data (put_items le items Encoder))"
  shows "dbind (set_byteorder le) (\<lambda>_. get_items items)
     (Decoder le' (take n (enc_data (put_items le items Encoder)))) = Inl InvalidData"
proof -
  let ?d = "(Decoder le' (take n (enc_data (put_items le items Encoder))))\<lparr>m_dataByteorder := le\<rparr>"
  have "get_items items ?d = Inl InvalidData"
    using assms
    by (intro get_items_cut [OF _ Decoder_stands_at])
      (simp_all add: Encoder_def cut_before_def Decoder_def take_is_prefix)
  then show ?thesis by (simp add: set_byteorder_Decoder)
qed

theorem cdr_truncation_rejected_witness:
  "dbind (set_byteorder True) (\<lambda>_. get_items [IOctet 3, IULong 7])
     (Decoder True (take 7 (enc_data (put_items True [IOctet 3, IULong 7] Encoder)))) = Inl InvalidData"
  by (rule cdr_truncation_rejected)
    (simp_all add: Encoder_def putOctet_def putULong_def enc_align_def)

text \<open>
  A getter that succeeds on a decoder over a real buffer moves forward, stays within
  the buffer and changes nothing but the position.
\<close>
theorem cdr_get_in_bounds:
  assumes "wf_decoder d" and "get_like i d = Inr (v, d')"
  shows "m_pos d < m_pos d' \<and> m_pos d' \<le> m_len d \<and> d' = d\<lparr>m_pos := m_pos d'\<rparr>"
proof (cases i)
  case (IString s)
  then show ?thesis
    using assms counted_bounds [OF assms(1), of "\<lambda>l. l - 1"]
    by (auto simp: dmap_def dbind_def dreturn_def getString_block split: sum.splits)
next
  case (IOctetSeq s)
  then show ?thesis
    using assms counted_bounds [OF assms(1), of "\<lambda>l. l"]
    by (auto simp: dmap_def dbind_def dreturn_def getOctetSeq_block split: sum.splits)
qed (use assms in
      \<open>auto simp: dmap_def dbind_def dreturn_def getBoolean_def getOctet_def get_uint_eqs
        split: sum.splits if_splits dest: get_uint_bounds [rotated]\<close>)

theorem cdr_get_in_bounds_witness:
  "wf_decoder (Decoder True [5, 6]) \<and>
   (\<exists>d'. get_like (IOctet 0) (Decoder True [5, 6]) = Inr (IOctet 5, d') \<and>
     m_pos (Decoder True [5, 6]) < m_pos d' \<and> m_pos d' \<le> m_len (Decoder True [5, 6]) \<and>
     d' = (Decoder True [5, 6])\<lparr>m_pos := m_pos d'\<rparr>)"
proof -
  let ?d' = "(Decoder True [5, 6])\<lparr>m_pos := 1\<rparr>"
  have h: "get_like (IOctet 0) (Decoder True [5, 6]) = Inr (IOctet 5, ?d')"
    by (simp add: dmap_def dbind_def dreturn_def getOctet_def Decoder_def)
  have w: "wf_decoder (Decoder True [5, 6])" by simp
  show ?thesis using w h cdr_get_in_bounds [OF w h] by blast
qed

text \<open>
  Over a real buffer, \<^verbatim>\<open>getString\<close> copies past the end of its buffer exactly when the
  marshalled length is zero and the buffer does not hold another $2^{32}-1$ bytes: the length is
  tested before one is subtracted from it in 32-bit arithmetic.
\<close>
theorem getString_overread_iff:
  assumes "wf_decoder d"
  shows "getString d = Inl ReadPastEnd \<longleftrightarrow>
     (\<exists>d'. getULong d = Inr (0, d') \<and> length (m_data d) < m_pos d' + (2 ^ 32 - 1))"
proof (cases "getULong d")
  case (Inl x)
  then show ?thesis
    using assms by (auto simp: getString_block dbind_def getULong_def Let_def split: if_splits)
next
  case (Inr p)
  obtain l d' where g: "getULong d = Inr (l, d')" using Inr by (cases p) simp
  have d': "m_len d' = m_len d" "m_data d' = m_data d" "m_pos d' \<le> m_len d"
    using getULong_bounds [OF assms g] by (metis decoder.select_convs decoder.surjective decoder.update_convs(3))+
  show ?thesis
  proof (cases "l = 0")
    case True
    with g d' show ?thesis
      by (auto simp: getString_block dbind_def take_block_def assign_from_def unat_minus_one_u32)
  next
    case False
    have "unat (l - 1) = unat l - 1" using False by (simp add: unat_minus_one)
    with False g d' assms show ?thesis
      by (auto simp: getString_block dbind_def take_block_def assign_from_def wf_decoder_def)
  qed
qed

theorem getString_overread_iff_witness:
  "wf_decoder (Decoder True [0, 0, 0, 0, 9]) \<and>
   getString (Decoder True [0, 0, 0, 0, 9]) = Inl ReadPastEnd"
proof -
  have w: "wf_decoder (Decoder True [0, 0, 0, 0, 9])" by simp
  have g: "getULong (Decoder True [0, 0, 0, 0, 9]) =
      Inr (0, (Decoder True [0, 0, 0, 0, 9])\<lparr>m_pos := 4\<rparr>)"
    by (simp add: getULong_def dec_align_def Decoder_def mem_value_def)
  show ?thesis using w g getString_overread_iff [OF w] by simp
qed

end
