(* ===== verification/Iop.thy ===== *)
theory Iop
  imports Cdr
begin

text \<open>
  Interoperable object references, \<^verbatim>\<open>core/local/util/ior\<close> (\<^verbatim>\<open>OcpiUtilIOP.cxx\<close>,
  \<^verbatim>\<open>OcpiUtilIIOP.cxx\<close>): the hexadecimal form, IORs and their profiles, multiple component
  profiles, the component encapsulations, the IIOP profile body and the translation of an IOR to
  a corbaloc string. Everything rests on the CDR contract: each encapsulation is proved to
  round-trip with the rules of \<open>decodes\<close>, on machines of any two byte orders.
\<close>

unbundle bit_operations_syntax

text \<open>
  The exceptions of this code are strings. \<open>Unexpected\<close> is an exception that leaves a function
  whose \<^verbatim>\<open>throw(...)\<close> list does not have it (\<^verbatim>\<open>std::unexpected\<close>, the program ends);
  \<open>Undefined\<close> is undefined behaviour (a copy past the end of a buffer).
\<close>

datatype iop_error = Thrown string | Unexpected | Undefined

definition TAG_INTERNET_IOP :: u32 where "TAG_INTERNET_IOP = 0"
definition TAG_MULTIPLE_COMPONENTS :: u32 where "TAG_MULTIPLE_COMPONENTS = 1"
definition TAG_ALTERNATE_IIOP_ADDRESS :: u32 where "TAG_ALTERNATE_IIOP_ADDRESS = 3"
definition TAG_OMNIORB_UNIX_TRANS :: u32 where "TAG_OMNIORB_UNIX_TRANS = 0x41545402"
definition TAG_OMNIORB_OCPI_TRANS :: u32 where "TAG_OMNIORB_OCPI_TRANS = 0x41545405"

lemmas tag_defs = TAG_INTERNET_IOP_def TAG_MULTIPLE_COMPONENTS_def TAG_ALTERNATE_IIOP_ADDRESS_def
  TAG_OMNIORB_UNIX_TRANS_def TAG_OMNIORB_OCPI_TRANS_def

subsection \<open>Hexadecimal\<close>

definition hc2i :: "u8 \<Rightarrow> int" where
  "hc2i c =
     (let n = unat c in
      if n = 9 \<or> n = 10 \<or> n = 13 \<or> n = 32 then -2
      else if 48 \<le> n \<and> n \<le> 57 then int n - 48
      else if 65 \<le> n \<and> n \<le> 70 then int n - 55
      else if 97 \<le> n \<and> n \<le> 102 then int n - 87
      else -1)"

definition skip_blank :: "octets \<Rightarrow> octets" where
  "skip_blank src = dropWhile (\<lambda>c. hc2i c = -2) src"

lemma length_skip_blank: "length (skip_blank src) \<le> length src"
  by (simp add: skip_blank_def length_dropWhile_le)

function hex2blob :: "octets \<Rightarrow> octets option" where
  "hex2blob src =
     (case skip_blank src of
        [] \<Rightarrow> Some []
      | h1 # src1 \<Rightarrow>
          if hc2i h1 = -1 then None
          else (case skip_blank src1 of
                  [] \<Rightarrow> None
                | h2 # src2 \<Rightarrow>
                    if hc2i h2 = -1 then None
                    else (case hex2blob src2 of
                            None \<Rightarrow> None
                          | Some res \<Rightarrow>
                              Some ((push_bit 4 (of_int (hc2i h1)) OR of_int (hc2i h2)) # res))))"
  by pat_completeness auto
termination
proof (relation "measure length")
  fix src h1 src1 h2 src2
  assume "skip_blank src = h1 # src1" "skip_blank src1 = h2 # src2"
  then show "(src2, src) \<in> measure length"
    using length_skip_blank [of src] length_skip_blank [of src1] by simp
qed simp

declare hex2blob.simps [simp del]

definition i2hc :: "u8 \<Rightarrow> u8" where
  "i2hc n = oct ''0123456789abcdef'' ! unat n"

fun blob2hex :: "octets \<Rightarrow> octets" where
  "blob2hex [] = []"
| "blob2hex (b # bs) = i2hc (drop_bit 4 b) # i2hc (b AND 15) # blob2hex bs"

lemma hex_digits: "list_all (\<lambda>k. hc2i (oct ''0123456789abcdef'' ! k) = int k) [0..<16]"
  by code_simp

lemma hc2i_i2hc: "unat n < 16 \<Longrightarrow> hc2i (i2hc n) = uint n"
  using hex_digits by (simp add: list_all_iff i2hc_def)

lemma nibble_bounds: "unat (drop_bit 4 (b :: u8)) < 16" "unat (b AND 15) < 16"
proof -
  have "unat (drop_bit 4 b) = unat b div 16"
    using unat_u8_less [of b]
    by (simp add: unsigned_drop_bit_eq drop_bit_eq_div [where 'a = nat] take_bit_nat_eq_self)
  then show "unat (drop_bit 4 b) < 16"
    using unat_u8_less [of b] by simp
  have "unat (b AND 15) \<le> unat (15 :: u8)"
    by (rule word_and_le1 [THEN word_le_nat_alt [THEN iffD1]])
  then show "unat (b AND 15) < 16" by simp
qed

lemma nibbles_join: "push_bit 4 (drop_bit 4 b) OR (b AND 15) = (b :: u8)"
proof -
  have low: "b AND 15 = take_bit 4 b"
    by (simp add: take_bit_eq_mask mask_eq_exp_minus_1)
  show ?thesis
    unfolding low by (rule bit_word_eqI) (auto simp: bit_simps not_le)
qed

lemma uint_not_neg [simp]: "uint w \<noteq> - 1" "uint w \<noteq> - 2"
  using uint_ge_0 [of w] by linarith+

lemma hex2blob_digits:
  assumes "unat h < 16" "unat l < 16"
  shows "hex2blob (i2hc h # i2hc l # src) = map_option (Cons (push_bit 4 h OR l)) (hex2blob src)"
  using assms
  by (subst hex2blob.simps) (simp add: skip_blank_def hc2i_i2hc split: option.split)

lemma hex2blob_blob2hex: "hex2blob (blob2hex bs) = Some bs"
proof (induction bs)
  case Nil
  show ?case by (subst hex2blob.simps) (simp add: skip_blank_def)
next
  case (Cons b bs)
  then show ?case by (simp add: hex2blob_digits nibble_bounds nibbles_join)
qed

text \<open>The result fits the buffer of \<^verbatim>\<open>length/2\<close> bytes the source allocates for it.\<close>

lemma hex2blob_fits: "hex2blob src = Some res \<Longrightarrow> length res \<le> length src div 2"
proof (induction src arbitrary: res rule: hex2blob.induct)
  case (1 src)
  show ?case
  proof (cases "skip_blank src")
    case Nil
    with "1.prems" show ?thesis by (simp add: hex2blob.simps [of src])
  next
    case (Cons h1 src1)
    then obtain h2 src2 res' where s: "skip_blank src1 = h2 # src2"
      and h1: "hc2i h1 \<noteq> -1" and h2: "hc2i h2 \<noteq> -1"
      and r: "hex2blob src2 = Some res'" and res: "length res = Suc (length res')"
      using "1.prems" by (auto simp: hex2blob.simps [of src] split: list.splits if_splits option.splits)
    have "length res' \<le> length src2 div 2"
      by (rule "1.IH" [OF Cons h1 s h2 r])
    moreover have "length src2 + 2 \<le> length src"
      using length_skip_blank [of src] length_skip_blank [of src1] Cons s by simp
    ultimately show ?thesis using res by linarith
  qed
qed

subsection \<open>Lists of tagged data\<close>

record tagged_profile =
  p_tag :: u32
  profile_data :: octets

record tagged_component =
  c_tag :: u32
  component_data :: octets

text \<open>
  IORs, multiple component profiles and IIOP profile bodies each keep a list of tagged data with
  the same operations. \<open>tagged_store\<close> is what they promise: additions go to the end, and a tag
  finds the first entry that has it.
\<close>

locale tagged_store =
  fixes entries :: "'s \<Rightarrow> (u32 \<times> octets) list"
    and add :: "u32 \<Rightarrow> octets \<Rightarrow> 's \<Rightarrow> 's"
    and has :: "u32 \<Rightarrow> 's \<Rightarrow> bool"
    and tdata :: "u32 \<Rightarrow> 's \<Rightarrow> iop_error + octets"
    and nth_entry :: "nat \<Rightarrow> 's \<Rightarrow> iop_error + u32 \<times> octets"
    and count :: "'s \<Rightarrow> nat"
  assumes entries_add: "entries (add t x s) = entries s @ [(t, x)]"
    and has_iff: "has t s \<longleftrightarrow> t \<in> fst ` set (entries s)"
    and tdata_eq: "tdata t s = (case map_of (entries s) t of
        None \<Rightarrow> Inl (Thrown ''tag not found'') | Some x \<Rightarrow> Inr x)"
    and nth_eq: "nth_entry i s = (if i \<ge> length (entries s) then Inl (Thrown ''invalid index'')
        else Inr (entries s ! i))"
    and count_eq: "count s = length (entries s)"
begin

lemma has_add: "has t (add t' x s) \<longleftrightarrow> t = t' \<or> has t s"
  by (auto simp: has_iff entries_add)

lemma tdata_ok_iff_has: "(\<exists>x. tdata t s = Inr x) \<longleftrightarrow> has t s"
proof -
  have "t \<in> fst ` set (entries s) \<longleftrightarrow> map_of (entries s) t \<noteq> None"
    by (simp add: map_of_eq_None_iff)
  then show ?thesis by (auto simp: tdata_eq has_iff split: option.splits)
qed

lemma tdata_add:
  "tdata t (add t' x s) = (if has t s then tdata t s else if t = t' then Inr x
     else Inl (Thrown ''tag not found''))"
  by (auto simp: tdata_eq has_iff entries_add map_add_def map_of_eq_None_iff [symmetric] split: option.splits)

lemma nth_add_last: "nth_entry (count s) (add t x s) = Inr (t, x)"
  by (simp add: nth_eq count_eq entries_add)

lemma count_add: "count (add t x s) = Suc (count s)"
  by (simp add: count_eq entries_add)

lemma nth_in_range_iff: "(\<exists>e. nth_entry i s = Inr e) \<longleftrightarrow> i < count s"
  by (auto simp: nth_eq count_eq)

end

subsection \<open>Interoperable object references\<close>

record ior =
  m_type_id :: octets
  m_corbaloc :: octets
  m_profiles :: "tagged_profile list"

definition IOR :: ior where
  "IOR = \<lparr>m_type_id = [], m_corbaloc = [], m_profiles = []\<rparr>"

definition IOR_copy :: "ior \<Rightarrow> ior" where
  "IOR_copy other = \<lparr>m_type_id = m_type_id other, m_corbaloc = [], m_profiles = m_profiles other\<rparr>"

definition IOR_assign :: "ior \<Rightarrow> ior \<Rightarrow> ior" where
  "IOR_assign this other = this\<lparr>m_type_id := m_type_id other, m_profiles := m_profiles other\<rparr>"

text \<open>
  The guard on a marshalled element count: \<^verbatim>\<open>n*8 > cd.remainingData()\<close>, the product in 32 bits.
\<close>

definition check_count :: "u32 \<Rightarrow> unit dec" where
  "check_count n d = (if unat (n * 8) > remainingData d then Inl InvalidData else Inr ((), d))"

definition getTaggedProfile :: "tagged_profile dec" where
  "getTaggedProfile = dbind getULong (\<lambda>t. dbind getOctetSeq (\<lambda>x.
     dreturn \<lparr>p_tag = t, profile_data = x\<rparr>))"

definition putTaggedProfile :: "bool \<Rightarrow> tagged_profile \<Rightarrow> encoder \<Rightarrow> encoder" where
  "putTaggedProfile le p e = putOctetSeq le (profile_data p) (putULong le (p_tag p) e)"

definition getTaggedComponent :: "tagged_component dec" where
  "getTaggedComponent = dbind getULong (\<lambda>t. dbind getOctetSeq (\<lambda>x.
     dreturn \<lparr>c_tag = t, component_data = x\<rparr>))"

definition putTaggedComponent :: "bool \<Rightarrow> tagged_component \<Rightarrow> encoder \<Rightarrow> encoder" where
  "putTaggedComponent le c e = putOctetSeq le (component_data c) (putULong le (c_tag c) e)"

definition ior_body :: "(octets \<times> tagged_profile list) dec" where
  "ior_body = dbind getString (\<lambda>type_id. dbind getULong (\<lambda>numProfiles. dbind (check_count numProfiles) (\<lambda>_.
     dbind (get_seq getTaggedProfile (unat numProfiles)) (\<lambda>profiles. dreturn (type_id, profiles)))))"

text \<open>
  \<^verbatim>\<open>IOR::decode\<close> works on an existing object: the result is what it throws, if anything, and the
  object afterwards, which the handler of \<^verbatim>\<open>InvalidData\<close> clears.
\<close>

definition ior_decode :: "bool \<Rightarrow> octets \<Rightarrow> ior \<Rightarrow> iop_error option \<times> ior" where
  "ior_decode le data this =
     (case dbind getBoolean (\<lambda>bo. dbind (set_byteorder bo) (\<lambda>_. ior_body)) (Decoder le data) of
        Inr ((type_id, profiles), _) \<Rightarrow> (None, this\<lparr>m_type_id := type_id, m_profiles := profiles\<rparr>)
      | Inl InvalidData \<Rightarrow> (Some (Thrown ''invalid data''), this\<lparr>m_type_id := [], m_profiles := []\<rparr>)
      | Inl ReadPastEnd \<Rightarrow> (Some Undefined, this))"

definition ior_encode :: "bool \<Rightarrow> ior \<Rightarrow> octets" where
  "ior_encode le this = enc_data
     (put_seq putTaggedProfile le (m_profiles this)
       (putULong le (of_nat (length (m_profiles this)))
         (putString le (m_type_id this)
           (putBoolean (nativeByteorder le) Encoder))))"

definition IOR_data :: "bool \<Rightarrow> octets \<Rightarrow> iop_error + ior" where
  "IOR_data le data = (case ior_decode le data IOR of (None, i) \<Rightarrow> Inr i | (Some x, _) \<Rightarrow> Inl x)"

text \<open>\<open>chr_at s i\<close> is \<^verbatim>\<open>s[i]\<close> of a C string: the terminating zero at its end.\<close>

definition chr_at :: "octets \<Rightarrow> nat \<Rightarrow> u8" where
  "chr_at s i = (if i < length s then s ! i else 0)"

definition c_str :: "octets \<Rightarrow> octets" where
  "c_str s = takeWhile (\<lambda>c. c \<noteq> 0) s"

definition decode_ior_string :: "octets \<Rightarrow> octets \<Rightarrow> bool \<times> octets" where
  "decode_ior_string ior0 out =
     (let ior = dropWhile (\<lambda>c. c \<in> set (oct '' '') \<union> {9, 13, 10}) ior0 in
      if ior = [] \<or>
         (chr_at ior 0 \<noteq> of_char CHR ''I'' \<and> chr_at ior 0 \<noteq> of_char CHR ''i'') \<or>
         (chr_at ior 1 \<noteq> of_char CHR ''O'' \<and> chr_at ior 1 \<noteq> of_char CHR ''o'') \<or>
         (chr_at ior 2 \<noteq> of_char CHR ''R'' \<and> chr_at ior 2 \<noteq> of_char CHR ''r'') \<or>
         chr_at ior 3 \<noteq> of_char CHR '':''
      then (True, out)
      else case hex2blob (drop 4 ior) of None \<Rightarrow> (False, out) | Some res \<Rightarrow> (True, res))"

definition IOR_uri :: "bool \<Rightarrow> octets \<Rightarrow> iop_error + ior" where
  "IOR_uri le uri =
     (let (good, data) = decode_ior_string (c_str uri) [] in
      if \<not> good then Inl (Thrown ''Cannot parse stringified IOR'')
      else IOR_data le data)"

definition string_to_ior :: "bool \<Rightarrow> octets \<Rightarrow> iop_error + ior" where
  "string_to_ior le s =
     (let (r, blob) = decode_ior_string (c_str s) [] in
      if r then Inl (Thrown ''can not read ior string'')
      else IOR_data le blob)"

definition ior_to_string :: "bool \<Rightarrow> ior \<Rightarrow> octets" where
  "ior_to_string le i = oct ''IOR:'' @ blob2hex (ior_encode le i)"

definition ior_type_id :: "ior \<Rightarrow> octets" where
  "ior_type_id this = m_type_id this"

definition ior_set_type_id :: "octets \<Rightarrow> ior \<Rightarrow> ior" where
  "ior_set_type_id i this = this\<lparr>m_type_id := i\<rparr>"

definition addProfile :: "u32 \<Rightarrow> octets \<Rightarrow> ior \<Rightarrow> ior" where
  "addProfile t x this = this\<lparr>m_profiles := m_profiles this @ [\<lparr>p_tag = t, profile_data = x\<rparr>]\<rparr>"

definition hasProfile :: "u32 \<Rightarrow> ior \<Rightarrow> bool" where
  "hasProfile t this = list_ex (\<lambda>p. p_tag p = t) (m_profiles this)"

definition profileData :: "u32 \<Rightarrow> ior \<Rightarrow> iop_error + octets" where
  "profileData t this = (case find (\<lambda>p. p_tag p = t) (m_profiles this) of
     None \<Rightarrow> Inl (Thrown ''tag not found'') | Some p \<Rightarrow> Inr (profile_data p))"

definition numProfiles :: "ior \<Rightarrow> nat" where
  "numProfiles this = length (m_profiles this)"

definition getProfile :: "nat \<Rightarrow> ior \<Rightarrow> iop_error + tagged_profile" where
  "getProfile idx this = (if idx \<ge> length (m_profiles this) then Inl (Thrown ''invalid index'')
     else Inr (m_profiles this ! idx))"

subsection \<open>Multiple component profiles\<close>

record mcprofile =
  m_components :: "tagged_component list"

definition MultipleComponentProfile :: mcprofile where
  "MultipleComponentProfile = \<lparr>m_components = []\<rparr>"

definition mcp_body :: "tagged_component list dec" where
  "mcp_body = dbind getULong (\<lambda>numComponents. dbind (check_count numComponents) (\<lambda>_.
     get_seq getTaggedComponent (unat numComponents)))"

definition mcp_decode :: "bool \<Rightarrow> octets \<Rightarrow> mcprofile \<Rightarrow> iop_error option \<times> mcprofile" where
  "mcp_decode le data this =
     (case dbind getBoolean (\<lambda>bo. dbind (set_byteorder bo) (\<lambda>_. mcp_body)) (Decoder le data) of
        Inr (cs, _) \<Rightarrow> (None, this\<lparr>m_components := cs\<rparr>)
      | Inl InvalidData \<Rightarrow> (Some (Thrown ''invalid data''), this\<lparr>m_components := []\<rparr>)
      | Inl ReadPastEnd \<Rightarrow> (Some Undefined, this))"

definition mcp_encode :: "bool \<Rightarrow> mcprofile \<Rightarrow> octets" where
  "mcp_encode le this = enc_data
     (put_seq putTaggedComponent le (m_components this)
       (putULong le (of_nat (length (m_components this)))
         (putBoolean (nativeByteorder le) Encoder)))"

definition MultipleComponentProfile_data :: "bool \<Rightarrow> octets \<Rightarrow> iop_error + mcprofile" where
  "MultipleComponentProfile_data le data =
     (case mcp_decode le data MultipleComponentProfile of (None, m) \<Rightarrow> Inr m | (Some x, _) \<Rightarrow> Inl x)"

definition mcp_assign :: "mcprofile \<Rightarrow> mcprofile \<Rightarrow> mcprofile" where
  "mcp_assign this other = this\<lparr>m_components := m_components other\<rparr>"

definition mcp_addComponent :: "u32 \<Rightarrow> octets \<Rightarrow> mcprofile \<Rightarrow> mcprofile" where
  "mcp_addComponent t x this =
     this\<lparr>m_components := m_components this @ [\<lparr>c_tag = t, component_data = x\<rparr>]\<rparr>"

definition mcp_hasComponent :: "u32 \<Rightarrow> mcprofile \<Rightarrow> bool" where
  "mcp_hasComponent t this = list_ex (\<lambda>c. c_tag c = t) (m_components this)"

definition mcp_componentData :: "u32 \<Rightarrow> mcprofile \<Rightarrow> iop_error + octets" where
  "mcp_componentData t this = (case find (\<lambda>c. c_tag c = t) (m_components this) of
     None \<Rightarrow> Inl (Thrown ''tag not found'') | Some c \<Rightarrow> Inr (component_data c))"

definition mcp_numComponents :: "mcprofile \<Rightarrow> nat" where
  "mcp_numComponents this = length (m_components this)"

definition mcp_getComponent :: "nat \<Rightarrow> mcprofile \<Rightarrow> iop_error + tagged_component" where
  "mcp_getComponent idx this =
     (if idx \<ge> length (m_components this) then Inl (Thrown ''invalid index'')
      else Inr (m_components this ! idx))"

subsection \<open>Component encapsulations\<close>

record orb_type_component =
  orb_type :: u32

definition orb_assign :: "orb_type_component \<Rightarrow> u32 \<Rightarrow> orb_type_component" where
  "orb_assign this type = this\<lparr>orb_type := type\<rparr>"

definition orb_decode ::
    "bool \<Rightarrow> octets \<Rightarrow> orb_type_component \<Rightarrow> iop_error option \<times> orb_type_component" where
  "orb_decode le data this =
     (case dbind getBoolean (\<lambda>bo. dbind (set_byteorder bo) (\<lambda>_. getULong)) (Decoder le data) of
        Inr (t, _) \<Rightarrow> (None, this\<lparr>orb_type := t\<rparr>)
      | Inl InvalidData \<Rightarrow> (Some (Thrown ''invalid data''), this\<lparr>orb_type := 0\<rparr>)
      | Inl ReadPastEnd \<Rightarrow> (Some Undefined, this))"

definition orb_encode :: "bool \<Rightarrow> orb_type_component \<Rightarrow> octets" where
  "orb_encode le this = enc_data (putULong le (orb_type this) (putBoolean (nativeByteorder le) Encoder))"

record alt_iiop_address =
  HostID :: octets
  alt_port :: u16

definition alt_assign :: "alt_iiop_address \<Rightarrow> alt_iiop_address \<Rightarrow> alt_iiop_address" where
  "alt_assign this other = this\<lparr>HostID := HostID other, alt_port := alt_port other\<rparr>"

definition alt_body :: "(octets \<times> u16) dec" where
  "alt_body = dbind getString (\<lambda>h. dbind getUShort (\<lambda>p. dreturn (h, p)))"

definition alt_decode ::
    "bool \<Rightarrow> octets \<Rightarrow> alt_iiop_address \<Rightarrow> iop_error option \<times> alt_iiop_address" where
  "alt_decode le data this =
     (case dbind getBoolean (\<lambda>bo. dbind (set_byteorder bo) (\<lambda>_. alt_body)) (Decoder le data) of
        Inr ((h, p), _) \<Rightarrow> (None, this\<lparr>HostID := h, alt_port := p\<rparr>)
      | Inl InvalidData \<Rightarrow> (Some (Thrown ''invalid data''), this\<lparr>HostID := [], alt_port := 0\<rparr>)
      | Inl ReadPastEnd \<Rightarrow> (Some Undefined, this))"

definition alt_encode :: "bool \<Rightarrow> alt_iiop_address \<Rightarrow> octets" where
  "alt_encode le this = enc_data
     (putUShort le (alt_port this)
       (putString le (HostID this) (putBoolean (nativeByteorder le) Encoder)))"

subsection \<open>The IIOP profile body\<close>

record profile_body =
  ver_major :: u8
  ver_minor :: u8
  host :: octets
  port :: u16
  object_key :: octets
  components :: "tagged_component list"

definition ProfileBody :: profile_body where
  "ProfileBody = \<lparr>ver_major = 0, ver_minor = 0, host = [], port = 0, object_key = [], components = []\<rparr>"

text \<open>
  The body of \<^verbatim>\<open>ProfileBody::decode\<close>. The version test throws a string, which the handler of
  \<^verbatim>\<open>InvalidData\<close> does not catch, so the fields read so far stay: \<open>None\<close> in the result.
\<close>

definition pb_rest :: "u8 \<Rightarrow> (octets \<times> u16 \<times> octets \<times> tagged_component list) dec" where
  "pb_rest minor = dbind getString (\<lambda>h. dbind getUShort (\<lambda>p. dbind getOctetSeq (\<lambda>k.
     if minor \<ge> 1
     then dbind getULong (\<lambda>numComponents. dbind (check_count numComponents) (\<lambda>_.
            dbind (get_seq getTaggedComponent (unat numComponents)) (\<lambda>cs. dreturn (h, p, k, cs))))
     else dreturn (h, p, k, []))))"

definition pb_body :: "(u8 \<times> u8 \<times> (octets \<times> u16 \<times> octets \<times> tagged_component list) option) dec" where
  "pb_body = dbind getOctet (\<lambda>major. dbind getOctet (\<lambda>minor.
     if major \<noteq> 1 \<or> minor > 3 then dreturn (major, minor, None)
     else dbind (pb_rest minor) (\<lambda>r. dreturn (major, minor, Some r))))"

definition pb_decode :: "bool \<Rightarrow> octets \<Rightarrow> profile_body \<Rightarrow> iop_error option \<times> profile_body" where
  "pb_decode le data this =
     (case dbind getBoolean (\<lambda>bo. dbind (set_byteorder bo) (\<lambda>_. pb_body)) (Decoder le data) of
        Inr ((major, minor, None), _) \<Rightarrow>
          (Some (Thrown ''unknown IIOP version''), this\<lparr>ver_major := major, ver_minor := minor\<rparr>)
      | Inr ((major, minor, Some (h, p, k, cs)), _) \<Rightarrow>
          (None, this\<lparr>ver_major := major, ver_minor := minor, host := h, port := p, object_key := k,
                   components := cs\<rparr>)
      | Inl InvalidData \<Rightarrow>
          (Some (Thrown ''invalid data''),
           this\<lparr>ver_major := 0, ver_minor := 0, host := [], port := 0, object_key := [],
             components := []\<rparr>)
      | Inl ReadPastEnd \<Rightarrow> (Some Undefined, this))"

definition pb_put :: "bool \<Rightarrow> profile_body \<Rightarrow> encoder \<Rightarrow> encoder" where
  "pb_put le this e =
     (let e1 = putOctetSeq le (object_key this) (putUShort le (port this) (putString le (host this)
                 (putOctet (ver_minor this) (putOctet (ver_major this) e))))
      in if ver_minor this \<ge> 1
         then put_seq putTaggedComponent le (components this)
                (putULong le (of_nat (length (components this))) e1)
         else e1)"

definition pb_encode :: "bool \<Rightarrow> profile_body \<Rightarrow> iop_error + octets" where
  "pb_encode le this =
     (if ver_major this \<noteq> 1 \<or> ver_minor this > 3 then Inl (Thrown ''unknown IIOP version'')
      else Inr (enc_data (pb_put le this (putBoolean (nativeByteorder le) Encoder))))"

definition ProfileBody_data :: "bool \<Rightarrow> octets \<Rightarrow> iop_error + profile_body" where
  "ProfileBody_data le data =
     (case pb_decode le data ProfileBody of (None, b) \<Rightarrow> Inr b | (Some x, _) \<Rightarrow> Inl x)"

definition pb_assign :: "profile_body \<Rightarrow> profile_body \<Rightarrow> profile_body" where
  "pb_assign this other =
     this\<lparr>ver_major := ver_major other, ver_minor := ver_minor other, host := host other,
       port := port other, object_key := object_key other, components := components other\<rparr>"

definition pb_addComponent :: "u32 \<Rightarrow> octets \<Rightarrow> profile_body \<Rightarrow> profile_body" where
  "pb_addComponent t x this =
     this\<lparr>components := components this @ [\<lparr>c_tag = t, component_data = x\<rparr>]\<rparr>"

definition pb_hasComponent :: "u32 \<Rightarrow> profile_body \<Rightarrow> bool" where
  "pb_hasComponent t this = list_ex (\<lambda>c. c_tag c = t) (components this)"

definition pb_componentData :: "u32 \<Rightarrow> profile_body \<Rightarrow> iop_error + octets" where
  "pb_componentData t this = (case find (\<lambda>c. c_tag c = t) (components this) of
     None \<Rightarrow> Inl (Thrown ''tag not found'') | Some c \<Rightarrow> Inr (component_data c))"

definition pb_numComponents :: "profile_body \<Rightarrow> nat" where
  "pb_numComponents this = length (components this)"

definition pb_getComponent :: "nat \<Rightarrow> profile_body \<Rightarrow> iop_error + tagged_component" where
  "pb_getComponent idx this =
     (if idx \<ge> length (components this) then Inl (Thrown ''invalid index'')
      else Inr (components this ! idx))"

subsection \<open>From an IOR to a corbaloc string\<close>

fun dec_str :: "nat \<Rightarrow> octets" where
  "dec_str n = (if n < 10 then [of_nat (48 + n)] else dec_str (n div 10) @ [of_nat (48 + n mod 10)])"

declare dec_str.simps [simp del]

definition doAddress :: "octets \<Rightarrow> ior \<Rightarrow> ior" where
  "doAddress addr this =
     this\<lparr>m_corbaloc := m_corbaloc this @
       (if m_corbaloc this = [] then oct ''corbaloc:'' else oct '','') @ addr\<rparr>"

definition doIPAddress :: "nat \<Rightarrow> nat \<Rightarrow> octets \<Rightarrow> u16 \<Rightarrow> ior \<Rightarrow> ior" where
  "doIPAddress major minor hst prt this =
     doAddress (oct ''iiop:'' @ dec_str major @ oct ''.'' @ dec_str minor @ oct ''@'' @ c_str hst @
       oct '':'' @ dec_str (unat prt)) this"

text \<open>The two omniORB transports; an \<open>InvalidData\<close> here leaves a \<^verbatim>\<open>throw(std::string)\<close> function.\<close>

definition unix_trans :: "octets dec" where
  "unix_trans = dbind getBoolean (\<lambda>bo. dbind (set_byteorder bo) (\<lambda>_.
     dbind getString (\<lambda>hst. getString)))"

definition ocpi_trans :: "octets dec" where
  "ocpi_trans = dbind getBoolean (\<lambda>bo. dbind (set_byteorder bo) (\<lambda>_. getString))"

definition do_trans :: "bool \<Rightarrow> octets dec \<Rightarrow> octets \<Rightarrow> octets \<Rightarrow> ior \<Rightarrow> iop_error option \<times> ior" where
  "do_trans le g scheme data this =
     (case g (Decoder le data) of
        Inr (a, _) \<Rightarrow> (None, doAddress (scheme @ a) this)
      | Inl InvalidData \<Rightarrow> (Some Unexpected, this)
      | Inl ReadPastEnd \<Rightarrow> (Some Undefined, this))"

text \<open>The case \<open>TAG_OMNIORB_UNIX_TRANS\<close> has no \<^verbatim>\<open>break\<close> and runs into the next one.\<close>

definition doComponent :: "bool \<Rightarrow> tagged_component \<Rightarrow> ior \<Rightarrow> iop_error option \<times> ior" where
  "doComponent le tc this =
     (if c_tag tc = TAG_ALTERNATE_IIOP_ADDRESS then
        (case alt_decode le (component_data tc) \<lparr>HostID = [], alt_port = 0\<rparr> of
           (None, aiac) \<Rightarrow> (None, doIPAddress 1 2 (HostID aiac) (alt_port aiac) this)
         | (Some x, _) \<Rightarrow> (Some x, this))
      else if c_tag tc = TAG_OMNIORB_UNIX_TRANS then
        (case do_trans le unix_trans (oct ''omniunix:'') (component_data tc) this of
           (None, this1) \<Rightarrow> do_trans le ocpi_trans (oct ''omniocpi:'') (component_data tc) this1
         | (Some x, this1) \<Rightarrow> (Some x, this1))
      else if c_tag tc = TAG_OMNIORB_OCPI_TRANS then
        do_trans le ocpi_trans (oct ''omniocpi:'') (component_data tc) this
      else (None, this))"

fun doComponents :: "bool \<Rightarrow> tagged_component list \<Rightarrow> ior \<Rightarrow> iop_error option \<times> ior" where
  "doComponents le [] this = (None, this)"
| "doComponents le (tc # tcs) this =
     (case doComponent le tc this of
        (None, this1) \<Rightarrow> doComponents le tcs this1
      | (Some x, this1) \<Rightarrow> (Some x, this1))"

definition is_alnum :: "u8 \<Rightarrow> bool" where
  "is_alnum c = (let n = unat c in (48 \<le> n \<and> n \<le> 57) \<or> (65 \<le> n \<and> n \<le> 90) \<or> (97 \<le> n \<and> n \<le> 122))"

definition key_chars :: octets where
  "key_chars = oct '';/:?.@&=+$,-_!~*()''"

definition key_char :: "u8 \<Rightarrow> octets" where
  "key_char c =
     (if is_alnum c then [c]
      else if c \<in> set key_chars then [c]
      else [of_char CHR ''%'', i2hc (drop_bit 4 c AND 15), i2hc (c AND 15)])"

definition doKey :: "octets \<Rightarrow> ior \<Rightarrow> ior" where
  "doKey key this = this\<lparr>m_corbaloc := m_corbaloc this @ oct ''/'' @ concat (map key_char key)\<rparr>"

fun corbaloc_profiles ::
    "bool \<Rightarrow> tagged_profile list \<Rightarrow> bool \<Rightarrow> ior \<Rightarrow> iop_error option \<times> bool \<times> ior" where
  "corbaloc_profiles le [] key this = (None, key, this)"
| "corbaloc_profiles le (tp # tps) key this =
     (if p_tag tp = TAG_INTERNET_IOP then
        (case ProfileBody_data le (profile_data tp) of
           Inl x \<Rightarrow> (Some x, key, this)
         | Inr iiop \<Rightarrow>
             (case doComponents le (components iiop)
                     (doIPAddress (unat (ver_major iiop)) (unat (ver_minor iiop)) (host iiop) (port iiop) this) of
                (Some x, this1) \<Rightarrow> (Some x, key, this1)
              | (None, this1) \<Rightarrow> corbaloc_profiles le tps True (doKey (object_key iiop) this1)))
      else if p_tag tp = TAG_MULTIPLE_COMPONENTS then
        (case MultipleComponentProfile_data le (profile_data tp) of
           Inl x \<Rightarrow> (Some x, key, this)
         | Inr mcp \<Rightarrow>
             (case doComponents le (m_components mcp) this of
                (Some x, this1) \<Rightarrow> (Some x, key, this1)
              | (None, this1) \<Rightarrow> corbaloc_profiles le tps key this1))
      else corbaloc_profiles le tps key this)"

definition corbaloc :: "bool \<Rightarrow> ior \<Rightarrow> (iop_error + octets) \<times> ior" where
  "corbaloc le this =
     (if m_corbaloc this = [] then
        (case corbaloc_profiles le (m_profiles this) False this of
           (Some x, _, this1) \<Rightarrow> (Inl x, this1)
         | (None, key, this1) \<Rightarrow>
             if \<not> key then (Inl (Thrown ''No object key found in IOR''), this1)
             else (Inr (m_corbaloc this1), this1))
      else (Inr (m_corbaloc this), this))"

definition to_lower8 :: "u8 \<Rightarrow> u8" where
  "to_lower8 c = (if 65 \<le> unat c \<and> unat c \<le> 90 then c + 32 else c)"

definition ior2corbaloc :: "bool \<Rightarrow> octets \<Rightarrow> iop_error + octets" where
  "ior2corbaloc le sior =
     (if map to_lower8 (take 9 (c_str sior)) = oct ''corbaloc:'' then Inr (c_str sior)
      else sbind (IOR_uri le sior) (\<lambda>i. fst (corbaloc le i)))"

subsection \<open>Round trips of the encapsulations\<close>

lemma decodes_check_count:
  assumes g: "decodes le g v e e'"
    and room: "length (enc_data e) + 8 * unat n \<le> length (enc_data e')"
  shows "decodes le (dbind (check_count n) (\<lambda>_. g)) v e e'"
proof (rule decodesI)
  show "prefix (enc_data e) (enc_data e')" using g by (rule decodes_prefix)
next
  fix d assume d: "stands_at le d e" "prefix (enc_data e') (m_data d)"
  have "unat (n * 8) \<le> 8 * unat n"
    using unat_word_ariths(2) [of n 8] by simp
  then have "check_count n d = Inr ((), d)"
    using room stands_at_room [OF d] d(1) by (simp add: check_count_def remainingData_def stands_at_def)
  with decodesD [OF g d] show "dbind (check_count n) (\<lambda>_. g) d = Inr (v, seek e' d)"
    by (simp add: dbind_def)
qed

lemma decodes_profile:
  "seq_ok (profile_data v) \<Longrightarrow> decodes le getTaggedProfile v e (putTaggedProfile le v e)"
  unfolding getTaggedProfile_def putTaggedProfile_def
  by (cases v) (simp, (rule codec_intros | assumption)+)

lemma putTaggedProfile_grows:
  "length (enc_data e) + 8 \<le> length (enc_data (putTaggedProfile le v e))"
  using putOctetSeq_grows [of "putULong le (p_tag v) e" le "profile_data v"]
    putULong_grows [of e le "p_tag v"] by (simp add: putTaggedProfile_def)

lemma decodes_component:
  "seq_ok (component_data v) \<Longrightarrow> decodes le getTaggedComponent v e (putTaggedComponent le v e)"
  unfolding getTaggedComponent_def putTaggedComponent_def
  by (cases v) (simp, (rule codec_intros | assumption)+)

lemma putTaggedComponent_grows:
  "length (enc_data e) + 8 \<le> length (enc_data (putTaggedComponent le v e))"
  using putOctetSeq_grows [of "putULong le (c_tag v) e" le "component_data v"]
    putULong_grows [of e le "c_tag v"] by (simp add: putTaggedComponent_def)

interpretation cdr_profile:
  sized_codec putTaggedProfile getTaggedProfile "\<lambda>p. seq_ok (profile_data p)" 8
  by unfold_locales (rule decodes_profile, assumption, rule putTaggedProfile_grows)

interpretation cdr_component:
  sized_codec putTaggedComponent getTaggedComponent "\<lambda>c. seq_ok (component_data c)" 8
  by unfold_locales (rule decodes_component, assumption, rule putTaggedComponent_grows)

text \<open>A counted sequence, as all four encapsulations have it: count, guard, elements.\<close>

lemma decodes_counted_profiles:
  assumes "length ps < 2 ^ 32" "list_all (\<lambda>p. seq_ok (profile_data p)) ps"
  shows "decodes le (dbind getULong (\<lambda>n. dbind (check_count n) (\<lambda>_. get_seq getTaggedProfile (unat n))))
     ps e (put_seq putTaggedProfile le ps (putULong le (of_nat (length ps)) e))"
  using cdr_profile.decodes_seq [OF assms(2)] cdr_profile.seq_grows [OF assms(2)] assms(1)
  by (intro decodes_bind [OF decodes_ulong [of le "of_nat (length ps)" e]] decodes_check_count)
    (simp_all add: unat_of_nat_u32)

lemma decodes_counted_components:
  assumes "length cs < 2 ^ 32" "list_all (\<lambda>c. seq_ok (component_data c)) cs"
  shows "decodes le (dbind getULong (\<lambda>n. dbind (check_count n) (\<lambda>_. get_seq getTaggedComponent (unat n))))
     cs e (put_seq putTaggedComponent le cs (putULong le (of_nat (length cs)) e))"
  using cdr_component.decodes_seq [OF assms(2)] cdr_component.seq_grows [OF assms(2)] assms(1)
  by (intro decodes_bind [OF decodes_ulong [of le "of_nat (length cs)" e]] decodes_check_count)
    (simp_all add: unat_of_nat_u32)

definition components_ok :: "tagged_component list \<Rightarrow> bool" where
  "components_ok cs \<longleftrightarrow> length cs < 2 ^ 32 \<and> list_all (\<lambda>c. seq_ok (component_data c)) cs"

definition ior_ok :: "ior \<Rightarrow> bool" where
  "ior_ok i \<longleftrightarrow> string_ok (m_type_id i) \<and> length (m_profiles i) < 2 ^ 32 \<and>
     list_all (\<lambda>p. seq_ok (profile_data p)) (m_profiles i)"

definition pb_ok :: "profile_body \<Rightarrow> bool" where
  "pb_ok b \<longleftrightarrow> ver_major b = 1 \<and> ver_minor b \<le> 3 \<and> string_ok (host b) \<and> seq_ok (object_key b) \<and>
     components_ok (components b) \<and> (ver_minor b = 0 \<longrightarrow> components b = [])"

lemma dbind_assoc: "dbind (dbind f g) h = dbind f (\<lambda>x. dbind (g x) h)"
  by (auto simp: dbind_def fun_eq_iff split: sum.splits)

lemma decodes_ior_body:
  assumes "ior_ok i"
  shows "decodes le ior_body (m_type_id i, m_profiles i) e
     (put_seq putTaggedProfile le (m_profiles i)
       (putULong le (of_nat (length (m_profiles i))) (putString le (m_type_id i) e)))"
proof -
  let ?seq = "\<lambda>tid. dbind (dbind getULong (\<lambda>n. dbind (check_count n) (\<lambda>_. get_seq getTaggedProfile (unat n))))
     (\<lambda>ps. dreturn (tid, ps))"
  have "ior_body = dbind getString ?seq"
    by (simp add: ior_body_def dbind_assoc)
  moreover have "decodes le (dbind getString ?seq) (m_type_id i, m_profiles i) e
     (put_seq putTaggedProfile le (m_profiles i)
       (putULong le (of_nat (length (m_profiles i))) (putString le (m_type_id i) e)))"
    using assms unfolding ior_ok_def
    by (intro decodes_bind [OF decodes_string] decodes_bind [OF decodes_counted_profiles])
      (auto intro: decodes_return)
  ultimately show ?thesis by simp
qed

lemma ior_decode_encode:
  assumes "ior_ok i"
  shows "ior_decode le' (ior_encode le i) this =
     (None, this\<lparr>m_type_id := m_type_id i, m_profiles := m_profiles i\<rparr>)"
  using encapsulation [OF decodes_ior_body [OF assms], of le' le]
  by (simp add: ior_decode_def ior_encode_def)

lemma decodes_pb_rest:
  assumes "pb_ok b"
  shows "decodes le (pb_rest (ver_minor b)) (host b, port b, object_key b, components b)
     (putOctet (ver_minor b) (putOctet (ver_major b) e)) (pb_put le b e)"
proof -
  let ?seq = "\<lambda>h p k. dbind (dbind getULong (\<lambda>n. dbind (check_count n) (\<lambda>_. get_seq getTaggedComponent (unat n))))
     (\<lambda>cs. dreturn (h, p, k, cs))"
  have seq: "decodes le (?seq (host b) (port b) (object_key b)) (host b, port b, object_key b, components b) e1
      (put_seq putTaggedComponent le (components b) (putULong le (of_nat (length (components b))) e1))" for e1
    using assms unfolding pb_ok_def components_ok_def
    by (intro decodes_bind [OF decodes_counted_components]) (auto intro: decodes_return)
  have ok: "string_ok (host b)" "seq_ok (object_key b)" using assms by (simp_all add: pb_ok_def)
  have z: "\<not> 1 \<le> ver_minor b \<Longrightarrow> components b = []"
    using assms by (auto simp: pb_ok_def not_le word_less_1)
  show ?thesis
    unfolding pb_rest_def pb_put_def Let_def
    by (rule decodes_bind [OF decodes_string [OF ok(1)]], rule decodes_bind [OF decodes_ushort [of le "port b"]],
        rule decodes_bind [OF decodes_octetseq [OF ok(2)]])
      (use seq z in \<open>simp add: dbind_assoc decodes_return\<close>)
qed

lemma decodes_pb_body:
  assumes "pb_ok b"
  shows "decodes le pb_body (ver_major b, ver_minor b, Some (host b, port b, object_key b, components b))
     e (pb_put le b e)"
proof -
  have v: "\<not> (ver_major b \<noteq> 1 \<or> ver_minor b > 3)" using assms by (auto simp: pb_ok_def)
  have rest: "decodes le (dbind (pb_rest (ver_minor b)) (\<lambda>r. dreturn (ver_major b, ver_minor b, Some r)))
      (ver_major b, ver_minor b, Some (host b, port b, object_key b, components b))
      (putOctet (ver_minor b) (putOctet (ver_major b) e)) (pb_put le b e)"
    by (rule decodes_bind [OF decodes_pb_rest [OF assms] decodes_return])
  show ?thesis
    unfolding pb_body_def
    by (rule decodes_bind [OF decodes_octet [of le "ver_major b"]],
        rule decodes_bind [OF decodes_octet [of le "ver_minor b"]])
      (subst if_not_P [OF v], rule rest)
qed

lemma pb_decode_encode:
  assumes "pb_ok b"
  shows "\<exists>data. pb_encode le b = Inr data \<and> pb_decode le' data this =
     (None, this\<lparr>ver_major := ver_major b, ver_minor := ver_minor b, host := host b, port := port b,
        object_key := object_key b, components := components b\<rparr>)"
  using assms encapsulation [OF decodes_pb_body [OF assms], of le' le]
  by (auto simp: pb_decode_def pb_encode_def pb_ok_def)

lemma decodes_mcp_body:
  assumes "components_ok (m_components m)"
  shows "decodes le mcp_body (m_components m) e
     (put_seq putTaggedComponent le (m_components m) (putULong le (of_nat (length (m_components m))) e))"
  unfolding mcp_body_def using assms
  by (intro decodes_counted_components) (simp_all add: components_ok_def)

lemma mcp_decode_encode:
  assumes "components_ok (m_components m)"
  shows "mcp_decode le' (mcp_encode le m) this = (None, this\<lparr>m_components := m_components m\<rparr>)"
  using encapsulation [OF decodes_mcp_body [OF assms], of le' le]
  by (simp add: mcp_decode_def mcp_encode_def)

lemma orb_decode_encode: "orb_decode le' (orb_encode le c) this = (None, this\<lparr>orb_type := orb_type c\<rparr>)"
  using encapsulation [OF decodes_ulong [of le "orb_type c"], of le']
  by (simp add: orb_decode_def orb_encode_def)

lemma decodes_alt_body:
  assumes "string_ok (HostID a)"
  shows "decodes le alt_body (HostID a, alt_port a) e (putUShort le (alt_port a) (putString le (HostID a) e))"
  unfolding alt_body_def
  by (rule decodes_bind [OF decodes_string [OF assms]],
      rule decodes_bind [OF decodes_ushort decodes_return])

lemma alt_decode_encode:
  assumes "string_ok (HostID a)"
  shows "alt_decode le' (alt_encode le a) this = (None, this\<lparr>HostID := HostID a, alt_port := alt_port a\<rparr>)"
  using encapsulation [OF decodes_alt_body [OF assms], of le' le]
  by (simp add: alt_decode_def alt_encode_def)

subsection \<open>The three tagged stores\<close>

lemma find_map_of:
  "find (\<lambda>x. f x = t) xs = None \<longleftrightarrow> map_of (map (\<lambda>x. (f x, g x)) xs) t = None"
  "find (\<lambda>x. f x = t) xs = Some y \<Longrightarrow> map_of (map (\<lambda>x. (f x, g x)) xs) t = Some (g y)"
  by (induction xs) (auto split: if_splits)

lemma find_case_map_of:
  "(case find (\<lambda>x. f x = t) xs of None \<Rightarrow> a | Some y \<Rightarrow> Inr (g y)) =
   (case map_of (map (\<lambda>x. (f x, g x)) xs) t of None \<Rightarrow> a | Some y \<Rightarrow> Inr y)"
  using find_map_of(1) [of f t xs g] find_map_of(2) [of f t xs _ g] by (cases "find (\<lambda>x. f x = t) xs") auto

definition ior_entries :: "ior \<Rightarrow> (u32 \<times> octets) list" where
  "ior_entries i = map (\<lambda>p. (p_tag p, profile_data p)) (m_profiles i)"

definition comp_entries :: "tagged_component list \<Rightarrow> (u32 \<times> octets) list" where
  "comp_entries cs = map (\<lambda>c. (c_tag c, component_data c)) cs"

interpretation ior_store: tagged_store ior_entries addProfile hasProfile profileData
  "\<lambda>i s. map_sum id (\<lambda>p. (p_tag p, profile_data p)) (getProfile i s)" numProfiles
  by unfold_locales
    (auto simp: ior_entries_def addProfile_def hasProfile_def profileData_def getProfile_def
      numProfiles_def find_case_map_of list_ex_iff image_iff)

interpretation mcp_store: tagged_store "\<lambda>m. comp_entries (m_components m)"
  mcp_addComponent mcp_hasComponent mcp_componentData
  "\<lambda>i s. map_sum id (\<lambda>c. (c_tag c, component_data c)) (mcp_getComponent i s)" mcp_numComponents
  by unfold_locales
    (auto simp: comp_entries_def mcp_addComponent_def mcp_hasComponent_def mcp_componentData_def
      mcp_getComponent_def mcp_numComponents_def find_case_map_of list_ex_iff image_iff)

interpretation pb_store: tagged_store "\<lambda>b. comp_entries (components b)"
  pb_addComponent pb_hasComponent pb_componentData
  "\<lambda>i s. map_sum id (\<lambda>c. (c_tag c, component_data c)) (pb_getComponent i s)" pb_numComponents
  by unfold_locales
    (auto simp: comp_entries_def pb_addComponent_def pb_hasComponent_def pb_componentData_def
      pb_getComponent_def pb_numComponents_def find_case_map_of list_ex_iff image_iff)

subsection \<open>Stringified references\<close>

lemma blob2hex_nonzero: "0 \<notin> set (blob2hex bs)"
proof -
  have "list_all (\<lambda>k. oct ''0123456789abcdef'' ! k \<noteq> 0) [0..<16]" by code_simp
  then have "unat n < 16 \<Longrightarrow> i2hc n \<noteq> 0" for n by (simp add: i2hc_def list_all_iff)
  then show ?thesis
    using nibble_bounds by (induction bs) (auto simp: eq_commute [of 0])
qed

lemma c_str_nonzero: "0 \<notin> set s \<Longrightarrow> c_str s = s"
  unfolding c_str_def by (rule takeWhile_eq_all_conv [THEN iffD2]) auto

lemma c_str_ior_to_string: "c_str (ior_to_string le i) = ior_to_string le i"
  using blob2hex_nonzero by (intro c_str_nonzero) (simp add: ior_to_string_def oct_def)

lemma decode_ior_string_print: "decode_ior_string (ior_to_string le i) out = (True, ior_encode le i)"
  by (simp add: decode_ior_string_def ior_to_string_def oct_def chr_at_def hex2blob_blob2hex)

lemma IOR_data_empty: "IOR_data le [] = Inl (Thrown ''invalid data'')"
  by (simp add: IOR_data_def ior_decode_def dbind_def getBoolean_def)

lemma decode_ior_string_false: "decode_ior_string s out = (False, blob) \<Longrightarrow> blob = out"
  by (auto simp: decode_ior_string_def Let_def split: if_splits option.splits)

subsection \<open>Escaping of object keys\<close>

text \<open>The reading of a corbaloc key: \<^verbatim>\<open>%\<close> and two hexadecimal digits stand for a byte.\<close>

fun unescape :: "octets \<Rightarrow> octets" where
  "unescape [] = []"
| "unescape (c # h # l # r) =
     (if c = of_char CHR ''%'' then (push_bit 4 (of_int (hc2i h)) OR of_int (hc2i l)) # unescape r
      else c # unescape (h # l # r))"
| "unescape (c # cs) = c # unescape cs"

lemma unescape_plain: "c \<noteq> of_char CHR ''%'' \<Longrightarrow> unescape (c # r) = c # unescape r"
  by (cases r rule: unescape.cases) auto

lemma high_nibble_and: "drop_bit 4 (c :: u8) AND 15 = drop_bit 4 c"
proof -
  have "drop_bit 4 c AND 15 = take_bit 4 (drop_bit 4 c)"
    by (simp add: take_bit_eq_mask mask_eq_exp_minus_1)
  moreover have "take_bit 4 (drop_bit 4 c) = drop_bit 4 c"
    by (rule bit_word_eqI) (auto simp: bit_simps dest: bit_imp_le_length)
  ultimately show ?thesis by simp
qed

lemma unescape_key_char: "unescape (key_char c @ r) = c # unescape r"
proof (cases "is_alnum c \<or> c \<in> set key_chars")
  case True
  then have "c \<noteq> of_char CHR ''%''"
    by (auto simp: is_alnum_def key_chars_def oct_def)
  with True show ?thesis by (auto simp: key_char_def unescape_plain)
next
  case False
  then show ?thesis
    by (simp add: key_char_def high_nibble_and hc2i_i2hc nibble_bounds nibbles_join)
qed

lemma unescape_key: "unescape (concat (map key_char key)) = key"
  by (induction key) (simp_all add: unescape_key_char)

subsection \<open>Properties\<close>

text \<open>
  Claim C29: an IOR encoded on a machine of either byte order and constructed from that encoding
  on a machine of either byte order is a copy of the IOR: same type id, same profiles with the
  same tags and data in the same order.
\<close>
theorem ior_roundtrip:
  assumes "ior_ok i"
  shows "IOR_data le' (ior_encode le i) = Inr (IOR_copy i)"
  using ior_decode_encode [OF assms, of le' le IOR]
  by (simp add: IOR_data_def IOR_copy_def IOR_def)

theorem ior_roundtrip_witness:
  "ior_ok (addProfile 7 [1, 2, 3] (ior_set_type_id [72, 105] IOR)) \<and>
   IOR_data False (ior_encode True (addProfile 7 [1, 2, 3] (ior_set_type_id [72, 105] IOR))) =
     Inr (IOR_copy (addProfile 7 [1, 2, 3] (ior_set_type_id [72, 105] IOR)))"
proof -
  have h: "ior_ok (addProfile 7 [1, 2, 3] (ior_set_type_id [72, 105] IOR))"
    by (simp add: ior_ok_def addProfile_def ior_set_type_id_def IOR_def string_ok_def seq_ok_def)
  show ?thesis using h ior_roundtrip [OF h] by blast
qed

text \<open>
  Claim C30: the stringified form that \<^verbatim>\<open>ior_to_string\<close> prints is read back by the IOR constructor
  for C strings as a copy of the IOR.
\<close>
theorem ior_string_roundtrip:
  assumes "ior_ok i"
  shows "IOR_uri le' (ior_to_string le i) = Inr (IOR_copy i)"
  using ior_decode_encode [OF assms, of le' le IOR]
  by (simp add: IOR_uri_def c_str_ior_to_string decode_ior_string_print IOR_data_def IOR_copy_def IOR_def)

theorem ior_string_roundtrip_witness:
  "ior_ok (addProfile 0 [200] IOR) \<and>
   IOR_uri True (ior_to_string False (addProfile 0 [200] IOR)) = Inr (IOR_copy (addProfile 0 [200] IOR))"
proof -
  have h: "ior_ok (addProfile 0 [200] IOR)"
    by (simp add: ior_ok_def addProfile_def IOR_def string_ok_def seq_ok_def)
  show ?thesis using h ior_string_roundtrip [OF h] by blast
qed

text \<open>
  \<^verbatim>\<open>string_to_ior\<close> throws on every input, also on what \<^verbatim>\<open>ior_to_string\<close> printed: it reads
  the success result of \<^verbatim>\<open>decode_ior_string\<close> as failure, and on failure decodes an empty blob.
\<close>
theorem string_to_ior_never_succeeds:
  "string_to_ior le s \<noteq> Inr i \<and>
   string_to_ior le' (ior_to_string le j) = Inl (Thrown ''can not read ior string'')"
proof
  show "string_to_ior le s \<noteq> Inr i"
    by (auto simp: string_to_ior_def IOR_data_empty split: prod.splits if_splits dest!: decode_ior_string_false)
  show "string_to_ior le' (ior_to_string le j) = Inl (Thrown ''can not read ior string'')"
    by (simp add: string_to_ior_def c_str_ior_to_string decode_ior_string_print)
qed

text \<open>
  Claim C31: an IIOP profile body of a supported version (1.0 to 1.3; components only from 1.1 on)
  is encoded, and decoding the result on any machine restores every field of it in the target
  object.
\<close>
theorem profile_body_roundtrip:
  assumes "pb_ok b"
  shows "\<exists>data. pb_encode le b = Inr data \<and> pb_decode le' data this = (None, b)"
  using pb_decode_encode [OF assms, of le le' this] by (cases this; cases b) simp

theorem profile_body_roundtrip_witness:
  "\<exists>data. pb_encode True \<lparr>ver_major = 1, ver_minor = 2, host = [104], port = 80, object_key = [1],
      components = [\<lparr>c_tag = 3, component_data = [9]\<rparr>]\<rparr> = Inr data \<and>
    pb_decode False data ProfileBody = (None, \<lparr>ver_major = 1, ver_minor = 2, host = [104], port = 80,
      object_key = [1], components = [\<lparr>c_tag = 3, component_data = [9]\<rparr>]\<rparr>)"
  by (rule profile_body_roundtrip) (simp add: pb_ok_def components_ok_def string_ok_def seq_ok_def)

text \<open>
  A hexadecimal string decodes into at most half its length in bytes, which is what the
  buffer of \<^verbatim>\<open>hex2blob\<close> has room for, and the hexadecimal form of a blob decodes to the blob.
\<close>
theorem hex2blob_safe:
  "hex2blob (blob2hex bs) = Some bs \<and> (\<forall>res. hex2blob src = Some res \<longrightarrow> length res \<le> length src div 2)"
  using hex2blob_blob2hex hex2blob_fits by blast

theorem hex2blob_safe_witness:
  "hex2blob (oct ''0a 7F'') = Some [10, 127] \<and> length [10, 127 :: u8] \<le> length (oct ''0a 7F'') div 2"
proof -
  have h: "hex2blob (oct ''0a 7F'') = Some [10, 127]"
    by code_simp
  show ?thesis using h hex2blob_safe [of "[]" "oct ''0a 7F''"] by blast
qed

text \<open>
  Adding a profile never changes what an already present tag yields; a new tag yields
  the added data, and the added profile is the last one by index.
\<close>
theorem ior_profile_lookup:
  "profileData t (addProfile t' x i) =
     (if hasProfile t i then profileData t i else if t = t' then Inr x
      else Inl (Thrown ''tag not found'')) \<and>
   getProfile (numProfiles i) (addProfile t' x i) = Inr \<lparr>p_tag = t', profile_data = x\<rparr>"
  using ior_store.tdata_add by (simp add: getProfile_def addProfile_def numProfiles_def)

text \<open>
  The object key part of a corbaloc string, with its escapes read, is the object key,
  whatever bytes the key has.
\<close>
theorem corbaloc_key_roundtrip:
  "\<exists>out. m_corbaloc (doKey key i) = m_corbaloc i @ oct ''/'' @ out \<and> unescape out = key"
  by (simp add: doKey_def unescape_key)

text \<open>
  When \<^verbatim>\<open>corbaloc()\<close> throws after having collected an address, the next call on the
  same object returns the unfinished string as if it were a complete corbaloc.
\<close>
theorem corbaloc_partial_result_cached:
  assumes "corbaloc le this = (Inl x, this1)" and "m_corbaloc this1 \<noteq> []"
  shows "corbaloc le this1 = (Inr (m_corbaloc this1), this1)"
  using assms(2) by (simp add: corbaloc_def)

theorem corbaloc_partial_result_cached_witness:
  "\<exists>i this1. corbaloc True i = (Inl (Thrown ''No object key found in IOR''), this1) \<and>
     m_corbaloc this1 \<noteq> [] \<and> corbaloc True this1 = (Inr (m_corbaloc this1), this1)"
proof -
  let ?a = "\<lparr>HostID = [104], alt_port = 5\<rparr>"
  let ?m = "\<lparr>m_components = [\<lparr>c_tag = 3, component_data = alt_encode True ?a\<rparr>]\<rparr>"
  let ?i = "addProfile 1 (mcp_encode True ?m) IOR"
  let ?j = "doIPAddress 1 2 [104] 5 ?i"
  have len: "length (alt_encode True ?a) < 2 ^ 32"
    by (simp add: alt_encode_def putUShort_def putString_def putULong_def putBoolean_def Encoder_def
        enc_align_def)
  have m: "MultipleComponentProfile_data True (mcp_encode True ?m) = Inr ?m"
    using len mcp_decode_encode [of ?m True True]
    by (simp add: MultipleComponentProfile_data_def components_ok_def seq_ok_def MultipleComponentProfile_def)
  have a: "alt_decode True (alt_encode True ?a) \<lparr>HostID = [], alt_port = 0\<rparr> = (None, ?a)"
    using alt_decode_encode [of ?a True True] by (simp add: string_ok_def)
  have h: "corbaloc True ?i = (Inl (Thrown ''No object key found in IOR''), ?j)"
    by (simp add: corbaloc_def addProfile_def IOR_def tag_defs m doComponent_def a)
  have n: "m_corbaloc ?j \<noteq> []"
    by (simp add: doIPAddress_def doAddress_def oct_def)
  show ?thesis using h n corbaloc_partial_result_cached [OF h n] by blast
qed

text \<open>
  The element count guard of the decoders computes the product with 8 in 32 bits:
  below $2^{29}$ elements it accepts exactly the counts that fit the remaining data, and for
  $2^{29}$ elements it accepts any data, even none.
\<close>
theorem check_count_wraps:
  "(unat n < 2 ^ 29 \<longrightarrow> (check_count n d = Inr ((), d)) = (8 * unat n \<le> remainingData d)) \<and>
   check_count (2 ^ 29) d = Inr ((), d)"
proof -
  have "unat (n * 8) = 8 * unat n" if "unat n < 2 ^ 29"
    using that by (simp add: unat_word_ariths)
  moreover have "unat ((2 ^ 29 :: u32) * 8) = 0" by simp
  ultimately show ?thesis by (auto simp: check_count_def simp del: word_arith_power_alt)
qed

theorem check_count_wraps_witness:
  "unat (2 :: u32) < 2 ^ 29 \<and>
   (check_count 2 (Decoder True [1, 2, 3]) = Inr ((), Decoder True [1, 2, 3])) =
     (8 * unat (2 :: u32) \<le> remainingData (Decoder True [1, 2, 3]))"
  using check_count_wraps [of 2 "Decoder True [1, 2, 3]"] by simp

end
