(* ===== verification/PValues.thy ===== *)
theory PValues
  imports Prelude
begin

text \<open>
  Parameter lists, \<^verbatim>\<open>core/local/util/property/src/OcpiUtilPValue.cxx\<close>: named, typed values that
  every creation and connection call of the runtime takes. A list ends at the entry with a null
  name, so it is a HOL list; a null list pointer behaves as the empty list. Names compare without
  case.
\<close>

subsection \<open>Case-insensitive comparison\<close>

definition to_lower :: "char \<Rightarrow> char" where
  "to_lower c = (let n = of_char c :: nat in if 65 \<le> n \<and> n \<le> 90 then char_of (n + 32) else c)"

definition strcaseeq :: "string \<Rightarrow> string \<Rightarrow> bool" where
  "strcaseeq s t \<longleftrightarrow> map to_lower s = map to_lower t"

text \<open>\<open>strncaseeq s t n\<close> is \<^verbatim>\<open>!strncasecmp(s, t, n)\<close> for \<open>n \<le> length s\<close>.\<close>

definition strncaseeq :: "string \<Rightarrow> string \<Rightarrow> nat \<Rightarrow> bool" where
  "strncaseeq s t n \<longleftrightarrow> map to_lower (take n s) = map to_lower (take n t)"

lemma strcaseeq_refl [simp]: "strcaseeq s s"
  by (simp add: strcaseeq_def)

lemma strcaseeq_sym: "strcaseeq s t \<Longrightarrow> strcaseeq t s"
  by (simp add: strcaseeq_def)

lemma strcaseeq_trans: "strcaseeq s t \<Longrightarrow> strcaseeq t u \<Longrightarrow> strcaseeq s u"
  by (simp add: strcaseeq_def)

subsection \<open>Values\<close>

text \<open>The types of \<^verbatim>\<open>OCPI_PROPERTY_DATA_TYPES\<close>; floating point values by their bits.\<close>

datatype pv =
    VBool bool | VChar u8 | VDouble u64 | VFloat u32 | VShort u16 | VLong u32 | VUChar u8
  | VULong u32 | VUShort u16 | VLongLong u64 | VULongLong u64 | VString string

record pvalue =
  pv_name :: string
  pv_val :: pv

type_synonym pvalues = "pvalue list"

text \<open>The \<^verbatim>\<open>ApiError\<close> of a parameter of the wrong type: the parameter's name and the type asked for.\<close>

datatype pv_error = NotA string string

definition pvlength :: "pvalues \<Rightarrow> nat" where
  "pvlength p = length p"

fun pvfind :: "pvalues \<Rightarrow> string \<Rightarrow> pvalue option" where
  "pvfind [] name = None"
| "pvfind (p # ps) name = (if strcaseeq (pv_name p) name then Some p else pvfind ps name)"

text \<open>The finders are instances of one macro, \<^verbatim>\<open>find##pretty\<close>.\<close>

definition findULong :: "pvalues \<Rightarrow> string \<Rightarrow> pv_error + u32 option" where
  "findULong p name = (case pvfind p name of
     None \<Rightarrow> Inr None
   | Some fp \<Rightarrow> (case pv_val fp of VULong v \<Rightarrow> Inr (Some v) | _ \<Rightarrow> Inl (NotA name ''ULong'')))"

definition findString :: "pvalues \<Rightarrow> string \<Rightarrow> pv_error + string option" where
  "findString p name = (case pvfind p name of
     None \<Rightarrow> Inr None
   | Some fp \<Rightarrow> (case pv_val fp of VString v \<Rightarrow> Inr (Some v) | _ \<Rightarrow> Inl (NotA name ''String'')))"

definition findBool :: "pvalues \<Rightarrow> string \<Rightarrow> pv_error + bool option" where
  "findBool p name = (case pvfind p name of
     None \<Rightarrow> Inr None
   | Some fp \<Rightarrow> (case pv_val fp of VBool v \<Rightarrow> Inr (Some v) | _ \<Rightarrow> Inl (NotA name ''Bool'')))"

definition findUChar :: "pvalues \<Rightarrow> string \<Rightarrow> pv_error + u8 option" where
  "findUChar p name = (case pvfind p name of
     None \<Rightarrow> Inr None
   | Some fp \<Rightarrow> (case pv_val fp of VUChar v \<Rightarrow> Inr (Some v) | _ \<Rightarrow> Inl (NotA name ''UChar'')))"

text \<open>
  \<open>assigned var s\<close>: the value that the parameter text \<open>s\<close> assigns to \<open>var\<close>, if it does:
  \<^verbatim>\<open>var=value\<close>, or \<^verbatim>\<open>=value\<close> for every variable.
\<close>

definition assigned :: "string \<Rightarrow> string \<Rightarrow> string option" where
  "assigned var s =
     (let len = (if s \<noteq> [] \<and> hd s = CHR ''='' then 0 else length var) in
      if len = 0 \<or> (strncaseeq var s len \<and> len < length s \<and> s ! len = CHR ''='')
      then Some (drop (len + 1) s) else None)"

fun findAssign :: "pvalues \<Rightarrow> string \<Rightarrow> string \<Rightarrow> pv_error + string option" where
  "findAssign [] name var = Inr None"
| "findAssign (p # ps) name var =
     (if strcaseeq (pv_name p) name then
        (case pv_val p of
           VString s \<Rightarrow> (case assigned var s of Some v \<Rightarrow> Inr (Some v) | None \<Rightarrow> findAssign ps name var)
         | _ \<Rightarrow> Inl (NotA name ''string''))
      else findAssign ps name var)"

text \<open>The search from index \<open>nxt\<close> on; \<open>n\<close> is the index of the head of the list.\<close>

fun findAssignNext_from ::
    "pvalues \<Rightarrow> nat \<Rightarrow> string \<Rightarrow> string option \<Rightarrow> nat \<Rightarrow> pv_error + (string \<times> nat) option" where
  "findAssignNext_from [] n name var nxt = Inr None"
| "findAssignNext_from (p # ps) n name var nxt =
     (if n \<ge> nxt \<and> strcaseeq (pv_name p) name then
        (case pv_val p of
           VString s \<Rightarrow>
             (case var of
                None \<Rightarrow> Inr (Some (s, n + 1))
              | Some v \<Rightarrow>
                  (case assigned v s of
                     Some x \<Rightarrow> Inr (Some (x, n + 1))
                   | None \<Rightarrow> findAssignNext_from ps (n + 1) name var nxt))
         | _ \<Rightarrow> Inl (NotA name ''string''))
      else findAssignNext_from ps (n + 1) name var nxt)"

definition findAssignNext ::
    "pvalues \<Rightarrow> string \<Rightarrow> string option \<Rightarrow> nat \<Rightarrow> pv_error + (string \<times> nat) option" where
  "findAssignNext p name var nxt = findAssignNext_from p 0 name var nxt"

subsection \<open>Facts\<close>

lemma pvfind_iff: "pvfind p name = find (\<lambda>v. strcaseeq (pv_name v) name) p"
  by (induction p) auto

lemma pvfind_append:
  "pvfind (p @ q) name = (case pvfind p name of None \<Rightarrow> pvfind q name | Some v \<Rightarrow> Some v)"
  by (induction p) auto

lemma pvfind_cong: "strcaseeq n n' \<Longrightarrow> pvfind p n = pvfind p n'"
  by (induction p) (auto intro: strcaseeq_trans strcaseeq_sym)

text \<open>The values a list assigns to a variable, in order: what repeated searches enumerate.\<close>

fun assign_at :: "string \<Rightarrow> string option \<Rightarrow> pvalue \<Rightarrow> string option" where
  "assign_at name var p =
     (case pv_val p of
        VString s \<Rightarrow> if strcaseeq (pv_name p) name
          then (case var of None \<Rightarrow> Some s | Some v \<Rightarrow> assigned v s) else None
      | _ \<Rightarrow> None)"

definition all_strings :: "string \<Rightarrow> pvalues \<Rightarrow> bool" where
  "all_strings name p \<longleftrightarrow>
     list_all (\<lambda>v. strcaseeq (pv_name v) name \<longrightarrow> (\<exists>s. pv_val v = VString s)) p"

fun assignments_from :: "pvalues \<Rightarrow> nat \<Rightarrow> string \<Rightarrow> string option \<Rightarrow> nat \<Rightarrow> (nat \<times> string) list" where
  "assignments_from [] n name var nxt = []"
| "assignments_from (p # ps) n name var nxt =
     (case (if n \<ge> nxt then assign_at name var p else None) of
        None \<Rightarrow> assignments_from ps (n + 1) name var nxt
      | Some x \<Rightarrow> (n, x) # assignments_from ps (n + 1) name var nxt)"

lemma findAssignNext_from_hd:
  assumes "all_strings name p"
  shows "findAssignNext_from p n name var nxt =
     Inr (case assignments_from p n name var nxt of [] \<Rightarrow> None | (i, x) # _ \<Rightarrow> Some (x, i + 1))"
  using assms
proof (induction p arbitrary: n)
  case (Cons q ps)
  have ps: "all_strings name ps" using Cons.prems by (simp add: all_strings_def)
  show ?case
    using Cons.prems Cons.IH [OF ps, of "n + 1"]
    by (auto simp: all_strings_def split: option.split pv.splits)
qed simp

lemma assignments_from_Suc:
  assumes "assignments_from p n name var nxt = (i, x) # rest"
  shows "assignments_from p n name var (i + 1) = rest"
proof -
  have skip: "assignments_from q m name var k' = assignments_from q m name var k"
    if "k \<le> m" "k' \<le> m" for q m k k'
    using that by (induction q arbitrary: m) (auto split: option.splits)
  show ?thesis using assms
  proof (induction p arbitrary: n)
    case (Cons q ps)
    show ?case
    proof (cases "if n \<ge> nxt then assign_at name var q else None")
      case None
      with Cons.prems have r: "assignments_from ps (n + 1) name var nxt = (i, x) # rest" by simp
      have "n + 1 \<le> i"
        using r by (induction ps arbitrary: n) (fastforce split: option.splits if_splits)+
      with None Cons.IH [OF r] show ?thesis by simp
    next
      case (Some y)
      with Cons.prems have "i = n" "rest = assignments_from ps (n + 1) name var nxt" "nxt \<le> n"
        by (auto split: if_splits)
      with skip [of "n + 1" "n + 1" nxt ps] show ?thesis by simp
    qed
  qed simp
qed

text \<open>
  On a list whose parameters of the given name are all strings, repeated calls of
  \<^verbatim>\<open>findAssignNext\<close>, each starting where the last one ended, deliver the assignments to the
  variable one by one, in list order, and then report that there are no more.
\<close>
theorem findAssignNext_enumerates:
  assumes "all_strings name p"
  shows "findAssignNext p name var nxt =
     (case assignments_from p 0 name var nxt of
        [] \<Rightarrow> Inr None
      | (i, x) # rest \<Rightarrow> Inr (Some (x, i + 1))) \<and>
     (\<forall>i x rest. assignments_from p 0 name var nxt = (i, x) # rest \<longrightarrow>
        assignments_from p 0 name var (i + 1) = rest)"
  using findAssignNext_from_hd [OF assms, of 0 var nxt] assignments_from_Suc
  by (auto simp: findAssignNext_def split: list.splits)

theorem findAssignNext_enumerates_witness:
  "all_strings ''io'' [\<lparr>pv_name = ''IO'', pv_val = VString ''a=1''\<rparr>, \<lparr>pv_name = ''io'', pv_val = VString ''=2''\<rparr>] \<and>
   findAssignNext [\<lparr>pv_name = ''IO'', pv_val = VString ''a=1''\<rparr>, \<lparr>pv_name = ''io'', pv_val = VString ''=2''\<rparr>]
     ''io'' (Some ''A'') 1 = Inr (Some (''2'', 2))"
proof -
  let ?p = "[\<lparr>pv_name = ''IO'', pv_val = VString ''a=1''\<rparr>, \<lparr>pv_name = ''io'', pv_val = VString ''=2''\<rparr>]"
  have h: "all_strings ''io'' ?p" by (simp add: all_strings_def)
  have a: "assignments_from ?p 0 ''io'' (Some ''A'') 1 = [(1, ''2'')]"
    by (simp add: assigned_def strcaseeq_def)
  show ?thesis
    using h conjunct1 [OF findAssignNext_enumerates [OF h, of "Some ''A''" 1]]
    by (simp only: a list.case prod.case) simp
qed

end
