(* ===== verification/Ports.thy ===== *)
theory Ports
  imports Cdr PValues Iop UtilMisc
begin

text \<open>
  Worker ports and their connection, \<^verbatim>\<open>core/container/interfaces/src/OcpiContainerPort.cxx\<close>:
  the transfer descriptors (\<^verbatim>\<open>OcpiRDTInterface.h\<close>), their marshalling for remote connections, the
  negotiation of transfer roles, and the port parameters. Address offsets and flags have their
  default width of 32 bits (\<^verbatim>\<open>OCPI_EP_SIZE_BITS\<close>, \<^verbatim>\<open>OCPI_EP_FLAG_BITS\<close>); \<^verbatim>\<open>OCPI_UTRUNCATE\<close> is
  the conversion it is in a release build.
\<close>

subsection \<open>Descriptors\<close>

text \<open>Descriptor types, roles and option bits: the values of the source's enumerations.\<close>

definition ConsumerDescT :: u32 where "ConsumerDescT = 1"
definition ProducerDescT :: u32 where "ProducerDescT = 3"

definition ActiveMessage :: int where "ActiveMessage = 0"
definition ActiveFlowControl :: int where "ActiveFlowControl = 1"
definition ActiveOnly :: int where "ActiveOnly = 2"
definition Passive :: int where "Passive = 3"
definition MaxRole :: int where "MaxRole = 4"
definition NoRole :: int where "NoRole = 5"
definition MandatedRole :: nat where "MandatedRole = 5"

lemmas role_defs = ActiveMessage_def ActiveFlowControl_def ActiveOnly_def Passive_def MaxRole_def
  NoRole_def MandatedRole_def

record oob_data =
  port_id :: u64
  oep :: octets \<comment> \<open>the text in the array of 256 characters\<close>
  cookie :: u64
  oob_address :: u64
  oob_size :: u32
  mailBox :: u16
  maxCount :: u16

record desc_t =
  nBuffers :: u32
  dataBufferBaseAddr :: u32
  dataBufferPitch :: u32
  dataBufferSize :: u32
  metaDataBaseAddr :: u32
  metaDataPitch :: u32
  fullFlagBaseAddr :: u32
  fullFlagSize :: u32
  fullFlagPitch :: u32
  fullFlagValue :: u32
  emptyFlagBaseAddr :: u32
  emptyFlagSize :: u32
  emptyFlagPitch :: u32
  emptyFlagValue :: u32
  oob :: oob_data

record descriptors =
  d_type :: u32
  role :: int
  options :: u32
  desc :: desc_t

definition zero_desc :: desc_t where
  "zero_desc =
     \<lparr>nBuffers = 0, dataBufferBaseAddr = 0, dataBufferPitch = 0, dataBufferSize = 0,
      metaDataBaseAddr = 0, metaDataPitch = 0, fullFlagBaseAddr = 0, fullFlagSize = 0,
      fullFlagPitch = 0, fullFlagValue = 0, emptyFlagBaseAddr = 0, emptyFlagSize = 0,
      emptyFlagPitch = 0, emptyFlagValue = 0,
      oob = \<lparr>port_id = 0, oep = [], cookie = 0, oob_address = 0, oob_size = 0, mailBox = 0,
             maxCount = 0\<rparr>\<rparr>"

subsection \<open>Marshalling of descriptors\<close>

definition putOffset :: "bool \<Rightarrow> u32 \<Rightarrow> encoder \<Rightarrow> encoder" where "putOffset = putULong"
definition putFlag :: "bool \<Rightarrow> u32 \<Rightarrow> encoder \<Rightarrow> encoder" where "putFlag = putULong"
definition getOffset :: "u32 dec" where "getOffset = getULong"
definition getFlag :: "u32 dec" where "getFlag = getULong"

definition packPortDesc :: "bool \<Rightarrow> descriptors \<Rightarrow> octets" where
  "packPortDesc le x =
     (let d = desc x;
          p = putBoolean (nativeByteorder le) Encoder;
          p = putULong le (d_type x) p;
          p = putULong le (of_int (role x)) p;
          p = putULong le (options x) p;
          p = putULong le (nBuffers d) p;
          p = putOffset le (dataBufferBaseAddr d) p;
          p = putULong le (dataBufferPitch d) p;
          p = putULong le (dataBufferSize d) p;
          p = putOffset le (metaDataBaseAddr d) p;
          p = putULong le (metaDataPitch d) p;
          p = putOffset le (fullFlagBaseAddr d) p;
          p = putULong le (fullFlagSize d) p;
          p = putULong le (fullFlagPitch d) p;
          p = putFlag le (fullFlagValue d) p;
          p = putOffset le (emptyFlagBaseAddr d) p;
          p = putULong le (emptyFlagSize d) p;
          p = putULong le (emptyFlagPitch d) p;
          p = putFlag le (emptyFlagValue d) p;
          p = putULongLong le (port_id (oob d)) p;
          p = putString le (oep (oob d)) p;
          p = putULongLong le (cookie (oob d)) p
      in enc_data p)"

text \<open>
  Unpacking stores each field as it is read, so a failure leaves the descriptor with the fields
  read before it. A step reads a value and stores it.
\<close>

type_synonym unpack_step = "descriptors \<times> decoder \<Rightarrow> cdr_error + descriptors \<times> decoder"

definition rd :: "'a dec \<Rightarrow> ('a \<Rightarrow> descriptors \<Rightarrow> descriptors) \<Rightarrow> unpack_step" where
  "rd g upd = (\<lambda>(x, d). case g d of Inl e \<Rightarrow> Inl e | Inr (v, d') \<Rightarrow> Inr (upd v x, d'))"

fun unpack_run ::
    "unpack_step list \<Rightarrow> descriptors \<times> decoder \<Rightarrow> cdr_error option \<times> descriptors \<times> decoder" where
  "unpack_run [] (x, d) = (None, x, d)"
| "unpack_run (s # ss) (x, d) =
     (case s (x, d) of Inl e \<Rightarrow> (Some e, x, d) | Inr y \<Rightarrow> unpack_run ss y)"

definition unpack_fields :: "unpack_step list" where
  "unpack_fields =
     [rd getULong (\<lambda>v. d_type_update (\<lambda>_. v)),
      rd getLong (\<lambda>v. role_update (\<lambda>_. sint v)),
      rd getULong (\<lambda>v. options_update (\<lambda>_. v)),
      rd getULong (\<lambda>v. desc_update (nBuffers_update (\<lambda>_. v))),
      rd getOffset (\<lambda>v. desc_update (dataBufferBaseAddr_update (\<lambda>_. v))),
      rd getULong (\<lambda>v. desc_update (dataBufferPitch_update (\<lambda>_. v))),
      rd getULong (\<lambda>v. desc_update (dataBufferSize_update (\<lambda>_. v))),
      rd getOffset (\<lambda>v. desc_update (metaDataBaseAddr_update (\<lambda>_. v))),
      rd getULong (\<lambda>v. desc_update (metaDataPitch_update (\<lambda>_. v))),
      rd getOffset (\<lambda>v. desc_update (fullFlagBaseAddr_update (\<lambda>_. v))),
      rd getULong (\<lambda>v. desc_update (fullFlagSize_update (\<lambda>_. v))),
      rd getULong (\<lambda>v. desc_update (fullFlagPitch_update (\<lambda>_. v))),
      rd getFlag (\<lambda>v. desc_update (fullFlagValue_update (\<lambda>_. v))),
      rd getOffset (\<lambda>v. desc_update (emptyFlagBaseAddr_update (\<lambda>_. v))),
      rd getULong (\<lambda>v. desc_update (emptyFlagSize_update (\<lambda>_. v))),
      rd getULong (\<lambda>v. desc_update (emptyFlagPitch_update (\<lambda>_. v))),
      rd getFlag (\<lambda>v. desc_update (emptyFlagValue_update (\<lambda>_. v))),
      rd getULongLong (\<lambda>v. desc_update (oob_update (port_id_update (\<lambda>_. v))))]"

text \<open>
  The end of the message: the endpoint text is tested against its array, then the cookie is read
  and both are stored. \<open>None\<close> is undefined behaviour of the string getter.
\<close>

definition unpack_tail :: "descriptors \<Rightarrow> decoder \<Rightarrow> bool option \<times> descriptors" where
  "unpack_tail x d =
     (case getString d of
        Inl InvalidData \<Rightarrow> (Some False, x)
      | Inl ReadPastEnd \<Rightarrow> (None, x)
      | Inr (s, d1) \<Rightarrow>
          if length s + 1 > 256 then (Some False, x)
          else (case getULongLong d1 of
                  Inl _ \<Rightarrow> (Some False, x)
                | Inr (c, d2) \<Rightarrow>
                    (Some True, desc_update (oob_update (oep_update (\<lambda>_. c_str s) \<circ> cookie_update (\<lambda>_. c))) x)))"

definition unpackPortDesc :: "bool \<Rightarrow> octets \<Rightarrow> descriptors \<Rightarrow> bool option \<times> descriptors" where
  "unpackPortDesc le data x =
     (case unpack_run (rd (dbind getBoolean set_byteorder) (\<lambda>_ x. x) # unpack_fields)
             (x, Decoder le data) of
        (Some InvalidData, x1, _) \<Rightarrow> (Some False, x1)
      | (Some ReadPastEnd, x1, _) \<Rightarrow> (None, x1)
      | (None, x1, d1) \<Rightarrow> unpack_tail x1 d1)"

subsection \<open>Transfer roles\<close>

text \<open>
  \<open>PortThrow\<close> is an exception with its message; \<open>RoleTable\<close> is an access outside the table of
  complementary roles, which C++ leaves undefined.
\<close>

datatype port_error = PortThrow string | PvThrow pv_error | RoleTable | AssertFailed

definition has_opt :: "u32 \<Rightarrow> int \<Rightarrow> bool" where
  "has_opt opts r = bit opts (nat r)"

definition mandated :: "u32 \<Rightarrow> bool" where
  "mandated opts = bit opts MandatedRole"

fun first_role :: "u32 \<Rightarrow> int list \<Rightarrow> int option" where
  "first_role opts [] = None"
| "first_role opts (n # ns) = (if has_opt opts n then Some n else first_role opts ns)"

definition defaultRole :: "int \<Rightarrow> u32 \<Rightarrow> port_error option \<times> int" where
  "defaultRole r opts =
     (if r = NoRole then
        (case first_role opts [0, 1, 2, 3] of
           Some n \<Rightarrow> (None, n)
         | None \<Rightarrow> (Some (PortThrow ''Container port has no transfer roles''), r))
      else (None, r))"

definition otherRoles :: "int list" where
  "otherRoles = [ActiveFlowControl, ActiveMessage, Passive, ActiveOnly]"

definition other_role :: "int \<Rightarrow> int option" where
  "other_role r = (if 0 \<le> r \<and> r < 4 then Some (otherRoles ! nat r) else None)"

fun first_pair :: "u32 \<Rightarrow> u32 \<Rightarrow> int list \<Rightarrow> (int \<times> int) option" where
  "first_pair uopts popts [] = None"
| "first_pair uopts popts (i # is) =
     (if has_opt uopts i \<and> has_opt popts (otherRoles ! nat i) then Some (i, otherRoles ! nat i)
      else first_pair uopts popts is)"

text \<open>The part of \<^verbatim>\<open>chooseRoles\<close> after the defaults, in the order of the source's tests.\<close>

definition no_preferences :: "int \<Rightarrow> u32 \<Rightarrow> int \<Rightarrow> u32 \<Rightarrow> port_error option \<times> int \<times> int" where
  "no_preferences u uopts p popts =
     (case first_pair uopts popts [0, 1, 2, 3] of
        Some (i, j) \<Rightarrow> (None, i, j)
      | None \<Rightarrow> (Some (PortThrow ''No compatible combination of roles exist''), u, p))"

definition both_prefer :: "int \<Rightarrow> u32 \<Rightarrow> int \<Rightarrow> u32 \<Rightarrow> int \<Rightarrow> int \<Rightarrow> port_error option \<times> int \<times> int" where
  "both_prefer u uopts p popts pOther uOther =
     (if p = uOther then (None, u, p)
      else if u = ActiveFlowControl \<and> has_opt popts ActiveMessage then (None, u, ActiveMessage)
      else if u = ActiveMessage \<and> has_opt popts ActiveFlowControl then (None, u, ActiveFlowControl)
      else if p = ActiveFlowControl \<and> has_opt uopts ActiveMessage then (None, ActiveFlowControl, p)
      else if u = ActiveOnly \<and> has_opt popts Passive then (None, u, Passive)
      else if p = Passive \<and> has_opt popts ActiveOnly then (None, u, ActiveOnly)
      else if u < p \<and> has_opt popts uOther then (None, u, uOther)
      else if has_opt uopts pOther then (None, pOther, p)
      else if has_opt popts uOther then (None, u, uOther)
      else no_preferences u uopts p popts)"

definition no_mandated_match :: port_error where
  "no_mandated_match = PortThrow ''No compatible role available against mandated role''"

definition chooseRoles :: "int \<Rightarrow> u32 \<Rightarrow> int \<Rightarrow> u32 \<Rightarrow> port_error option \<times> int \<times> int" where
  "chooseRoles u0 uopts p0 popts =
     (case defaultRole u0 uopts of
        (Some e, u) \<Rightarrow> (Some e, u, p0)
      | (None, u) \<Rightarrow>
     (case defaultRole p0 popts of
        (Some e, p) \<Rightarrow> (Some e, u, p)
      | (None, p) \<Rightarrow>
     (case (other_role p, other_role u) of
        (Some pOther, Some uOther) \<Rightarrow>
          if mandated popts then
            if u = pOther then (None, u, p)
            else if mandated uopts then
              (Some (PortThrow ''Incompatible mandated transfer roles''), u, p)
            else if has_opt uopts pOther then (None, pOther, p)
            else (Some no_mandated_match, u, p)
          else if p \<noteq> NoRole then
            if mandated uopts then
              if p = uOther then (None, u, p)
              else if has_opt popts uOther then (None, u, uOther)
              else (Some no_mandated_match, u, p)
            else if u \<noteq> NoRole then both_prefer u uopts p popts pOther uOther
            else if has_opt uopts pOther then (None, pOther, p)
            else no_preferences u uopts p popts
          else if mandated uopts then
            if has_opt popts uOther then (None, u, uOther) else (Some no_mandated_match, u, p)
          else if u \<noteq> NoRole then
            if has_opt popts uOther then (None, u, uOther) else no_preferences u uopts p popts
          else no_preferences u uopts p popts
      | _ \<Rightarrow> (Some RoleTable, u, p))))"

subsection \<open>Ports and their parameters\<close>

text \<open>
  A port is its metadata, its direction, its connection data and its container. \<open>PortThrow\<close> carries
  the format of the message.
\<close>

record meta_port =
  mp_name :: string
  minBufferCount :: u64
  m_minBufferSize :: u64
  mp_bufferSize :: u64

record port =
  m_metaPort :: meta_port
  m_isProvider :: bool
  p_data :: descriptors
  m_canBeExternal :: bool
  m_container :: nat

definition DEFAULT_NBUFFERS :: u64 where "DEFAULT_NBUFFERS = 2"
definition DEFAULT_BUFFER_SIZE :: u32 where "DEFAULT_BUFFER_SIZE = 2 * 1024"
definition BUFFER_ALIGNMENT :: u64 where "BUFFER_ALIGNMENT = 16"

definition set_nBuffers :: "u32 \<Rightarrow> descriptors \<Rightarrow> descriptors" where
  "set_nBuffers n x = x\<lparr>desc := (desc x)\<lparr>nBuffers := n\<rparr>\<rparr>"

definition set_bufferSize :: "u32 \<Rightarrow> descriptors \<Rightarrow> descriptors" where
  "set_bufferSize n x = x\<lparr>desc := (desc x)\<lparr>dataBufferSize := n\<rparr>\<rparr>"

definition set_mandate :: "descriptors \<Rightarrow> descriptors" where
  "set_mandate x = x\<lparr>options := set_bit MandatedRole (options x)\<rparr>"

definition parse_role :: "string \<Rightarrow> int option" where
  "parse_role s =
     (if strcaseeq s ''passive'' then Some Passive
      else if strcaseeq s ''active'' \<or> strcaseeq s ''activemessage'' then Some ActiveMessage
      else if strcaseeq s ''flowcontrol'' \<or> strcaseeq s ''activeflowcontrol'' then Some ActiveFlowControl
      else if strcaseeq s ''activeonly'' then Some ActiveOnly
      else None)"

text \<open>The three parameters are taken one after the other; an error keeps what was set before it.\<close>

definition set_xferRole :: "pvalues \<Rightarrow> descriptors \<Rightarrow> port_error option \<times> descriptors" where
  "set_xferRole params x =
     (case findString params ''xferRole'' of
        Inl e \<Rightarrow> (Some (PvThrow e), x)
      | Inr None \<Rightarrow> (None, x)
      | Inr (Some s) \<Rightarrow>
          (case parse_role s of
             None \<Rightarrow> (Some (PortThrow ''xferRole property must be passive|active|flowcontrol|activeonly''), x)
           | Some r \<Rightarrow>
               if \<not> has_opt (options x) r
               then (Some (PortThrow ''xferRole of %s not supported by port %s''), x)
               else (None, set_mandate (x\<lparr>role := r\<rparr>))))"

definition set_bufferSize_param :: "meta_port \<Rightarrow> pvalues \<Rightarrow> descriptors \<Rightarrow> port_error option \<times> descriptors" where
  "set_bufferSize_param mp params x =
     (case findULong params ''bufferSize'' of
        Inl e \<Rightarrow> (Some (PvThrow e), x)
      | Inr None \<Rightarrow> set_xferRole params x
      | Inr (Some ul) \<Rightarrow>
          if ucast ul < m_minBufferSize mp
          then (Some (PortThrow ''bufferSize is below worker's minimum''), x)
          else set_xferRole params (set_bufferSize ul x))"

definition setPortParams :: "meta_port \<Rightarrow> pvalues \<Rightarrow> descriptors \<Rightarrow> port_error option \<times> descriptors" where
  "setPortParams mp params x =
     (case findULong params ''bufferCount'' of
        Inl e \<Rightarrow> (Some (PvThrow e), x)
      | Inr None \<Rightarrow> set_bufferSize_param mp params x
      | Inr (Some ul) \<Rightarrow>
          if ucast ul < minBufferCount mp
          then (Some (PortThrow ''bufferCount is below worker's minimum''), x)
          else set_bufferSize_param mp params (set_nBuffers ul x))"

definition PortData :: "meta_port \<Rightarrow> bool \<Rightarrow> u32 \<Rightarrow> pvalues \<Rightarrow> port_error option \<times> descriptors" where
  "PortData mp isProvider xferOptions params =
     setPortParams mp params
       \<lparr>d_type = (if isProvider then ConsumerDescT else ProducerDescT), role = NoRole, options = xferOptions,
        desc = zero_desc\<lparr>
          nBuffers := ucast (if DEFAULT_NBUFFERS > minBufferCount mp then DEFAULT_NBUFFERS else minBufferCount mp),
          dataBufferSize :=
            (let s = ucast (mp_bufferSize mp) in if s = 0 then DEFAULT_BUFFER_SIZE else s)\<rparr>\<rparr>"

definition setConnectParams :: "pvalues \<Rightarrow> port \<Rightarrow> port_error option \<times> port" where
  "setConnectParams params p =
     (case setPortParams (m_metaPort p) params (p_data p) of (e, x) \<Rightarrow> (e, p\<lparr>p_data := x\<rparr>))"

definition mergeConnectParams :: "pvalues \<Rightarrow> string option \<Rightarrow> pvalues \<Rightarrow> pv_error + pvalues" where
  "mergeConnectParams otherParams preferred toParams =
     sbind (findString otherParams ''protocol'') (\<lambda>t1.
     sbind (if t1 \<noteq> None then Inr t1 else findString otherParams ''transport'') (\<lambda>t2.
     sbind (if t2 \<noteq> None then Inr t2 else findString otherParams ''endpoint'') (\<lambda>t3.
     Inr (case (if t3 \<noteq> None then t3 else preferred) of
            None \<Rightarrow> toParams
          | Some transport \<Rightarrow> toParams @ [\<lparr>pv_name = ''transport'', pv_val = VString transport\<rparr>]))))"

text \<open>
  The negotiation of one side with the descriptors of the other; the logging of roles is left out.
  The result is the error, this side's and the other side's descriptors.
\<close>

definition negotiated_size :: "descriptors \<Rightarrow> descriptors \<Rightarrow> u32" where
  "negotiated_size uDesc pDesc =
     (let maxSize = (if dataBufferSize (desc uDesc) > dataBufferSize (desc pDesc)
                     then dataBufferSize (desc uDesc) else dataBufferSize (desc pDesc))
      in ucast (roundUp (ucast maxSize) BUFFER_ALIGNMENT))"

definition negotiate :: "descriptors \<Rightarrow> descriptors \<Rightarrow> port_error option \<times> descriptors \<times> descriptors" where
  "negotiate uDesc pDesc =
     (case chooseRoles (role uDesc) (options uDesc) (role pDesc) (options pDesc) of
        (Some e, u', p') \<Rightarrow> (Some e, uDesc\<lparr>role := u'\<rparr>, pDesc\<lparr>role := p'\<rparr>)
      | (None, u', p') \<Rightarrow>
          let s = negotiated_size uDesc pDesc in
          (None, set_mandate (set_bufferSize s (uDesc\<lparr>role := u'\<rparr>)),
                 set_mandate (set_bufferSize s (pDesc\<lparr>role := p'\<rparr>))))"

definition determineRoles :: "port \<Rightarrow> descriptors \<Rightarrow> port_error option \<times> port \<times> descriptors" where
  "determineRoles me other =
     (if m_isProvider me
      then (case negotiate other (p_data me) of (e, u, p) \<Rightarrow> (e, me\<lparr>p_data := p\<rparr>, u))
      else (case negotiate (p_data me) other of (e, u, p) \<Rightarrow> (e, me\<lparr>p_data := u\<rparr>, p)))"

subsection \<open>Connecting ports\<close>

text \<open>
  The virtual functions of the container that owns a port. \<open>finishConnect\<close> returns the descriptors
  that the other side needs next, if any.
\<close>

record port_ops =
  op_preferred :: "port \<Rightarrow> string option"
  op_startConnect :: "port \<Rightarrow> descriptors option \<Rightarrow> pvalues \<Rightarrow> port_error option \<times> port"
  op_finishConnect :: "port \<Rightarrow> descriptors \<Rightarrow> (port_error + descriptors option) \<times> port"
  op_connectInside :: "port \<Rightarrow> port \<Rightarrow> pvalues \<Rightarrow> pvalues \<Rightarrow> port_error option \<times> port \<times> port"

definition applyConnectParams ::
    "port_ops \<Rightarrow> descriptors option \<Rightarrow> pvalues \<Rightarrow> port \<Rightarrow> port_error option \<times> port" where
  "applyConnectParams ops other params p =
     (case setConnectParams params p of
        (Some e, p1) \<Rightarrow> (Some e, p1)
      | (None, p1) \<Rightarrow> op_startConnect ops p1 other params)"

text \<open>The alternating calls of \<^verbatim>\<open>finishConnect\<close>, at most four, ended by the first without result.\<close>

fun finish_exchange ::
    "nat \<Rightarrow> port_ops \<Rightarrow> port_ops \<Rightarrow> port \<Rightarrow> port \<Rightarrow> descriptors \<Rightarrow> port_error option \<times> port \<times> port" where
  "finish_exchange 0 opsa opsb a b x = (None, a, b)"
| "finish_exchange (Suc n) opsa opsb a b x =
     (case op_finishConnect opsa a x of
        (Inl e, a') \<Rightarrow> (Some e, a', b)
      | (Inr None, a') \<Rightarrow> (None, a', b)
      | (Inr (Some out), a') \<Rightarrow>
          (case finish_exchange n opsb opsa b a' out of (e, b', a'') \<Rightarrow> (e, a'', b')))"

definition not_external :: port_error where
  "not_external = PortThrow ''Port %s cannot be connected external to container''"

text \<open>The steps after the parameters are merged: this port is the user, the other the provider.\<close>

definition connect_external ::
    "port_ops \<Rightarrow> port_ops \<Rightarrow> port \<Rightarrow> port \<Rightarrow> pvalues \<Rightarrow> pvalues \<Rightarrow> port_error option \<times> port \<times> port" where
  "connect_external opsu opsp u p uParams pParams =
     (if \<not> m_canBeExternal p then (Some not_external, u, p)
      else if \<not> m_canBeExternal u then (Some not_external, u, p)
      else
      (case setConnectParams pParams p of
         (Some e, p1) \<Rightarrow> (Some e, u, p1)
       | (None, p1) \<Rightarrow>
      (case setConnectParams uParams u of
         (Some e, u1) \<Rightarrow> (Some e, u1, p1)
       | (None, u1) \<Rightarrow>
      (case determineRoles u1 (p_data p1) of
         (Some e, u2, x) \<Rightarrow> (Some e, u2, p1\<lparr>p_data := x\<rparr>)
       | (None, u2, x) \<Rightarrow>
      (case op_startConnect opsp (p1\<lparr>p_data := x\<rparr>) None pParams of
         (Some e, p3) \<Rightarrow> (Some e, u2, p3)
       | (None, p3) \<Rightarrow>
      (case op_startConnect opsu u2 (Some (p_data p3)) uParams of
         (Some e, u3) \<Rightarrow> (Some e, u3, p3)
       | (None, u3) \<Rightarrow> finish_exchange 4 opsu opsp u3 p3 (p_data p3)))))))"

definition connect_user ::
    "port_ops \<Rightarrow> port_ops \<Rightarrow> port \<Rightarrow> port \<Rightarrow> pvalues \<Rightarrow> pvalues \<Rightarrow> port_error option \<times> port \<times> port" where
  "connect_user opsu opsp u p uParams pParams =
     (if m_container u = m_container p then
        (case setConnectParams pParams p of
           (Some e, p1) \<Rightarrow> (Some e, u, p1)
         | (None, p1) \<Rightarrow> op_connectInside opsu u p1 uParams pParams)
      else
        let preferred = (case op_preferred opsu u of None \<Rightarrow> op_preferred opsp p | Some t \<Rightarrow> Some t) in
        (case mergeConnectParams pParams preferred uParams of
           Inl e \<Rightarrow> (Some (PvThrow e), u, p)
         | Inr uParams1 \<Rightarrow>
        (case mergeConnectParams uParams1 preferred pParams of
           Inl e \<Rightarrow> (Some (PvThrow e), u, p)
         | Inr pParams1 \<Rightarrow> connect_external opsu opsp u p uParams1 pParams1)))"

definition connect ::
    "port_ops \<Rightarrow> port_ops \<Rightarrow> port \<Rightarrow> port \<Rightarrow> pvalues \<Rightarrow> pvalues \<Rightarrow> port_error option \<times> port \<times> port" where
  "connect ops opso me other myParams otherParams =
     (if m_isProvider me then
        if m_isProvider other then (Some (PortThrow ''Cannot connect two provider ports''), me, other)
        else (case connect_user opso ops other me otherParams myParams of (e, u, p) \<Rightarrow> (e, p, u))
      else if \<not> m_isProvider other then (Some (PortThrow ''Cannot connect to user ports''), me, other)
      else connect_user ops opso me other myParams otherParams)"

text \<open>
  The remote handshake. A local descriptor variable is uninitialised, so its first contents \<open>y\<close> are
  a parameter; the result of unpacking is not tested by the source. An empty message is the cleared
  output.
\<close>

definition pack_result ::
    "bool \<Rightarrow> (port_error + descriptors option) \<times> port \<Rightarrow> port_error option \<times> port \<times> octets" where
  "pack_result le r =
     (case r of
        (Inl e, p) \<Rightarrow> (Some e, p, [])
      | (Inr None, p) \<Rightarrow> (None, p, [])
      | (Inr (Some d), p) \<Rightarrow> (None, p, packPortDesc le d))"

definition getInitialProviderInfo ::
    "bool \<Rightarrow> port_ops \<Rightarrow> pvalues \<Rightarrow> port \<Rightarrow> port_error option \<times> port \<times> octets" where
  "getInitialProviderInfo le ops params p =
     (if \<not> m_isProvider p then (Some AssertFailed, p, [])
      else if \<not> m_canBeExternal p then (Some not_external, p, [])
      else (case applyConnectParams ops None params p of
              (Some e, p1) \<Rightarrow> (Some e, p1, [])
            | (None, p1) \<Rightarrow> (None, p1, packPortDesc le (p_data p1))))"

definition setInitialProviderInfo ::
    "bool \<Rightarrow> port_ops \<Rightarrow> descriptors \<Rightarrow> pvalues \<Rightarrow> octets \<Rightarrow> port \<Rightarrow> port_error option \<times> port \<times> octets" where
  "setInitialProviderInfo le ops y params ipi p =
     (if m_isProvider p then (Some AssertFailed, p, [])
      else if \<not> m_canBeExternal p then (Some not_external, p, [])
      else
      (let other = snd (unpackPortDesc le ipi y) in
       case applyConnectParams ops (Some other) params p of
         (Some e, p1) \<Rightarrow> (Some e, p1, [])
       | (None, p1) \<Rightarrow>
      (case determineRoles p1 other of
         (Some e, p2, _) \<Rightarrow> (Some e, p2, [])
       | (None, p2, other2) \<Rightarrow> pack_result le (op_finishConnect ops p2 other2))))"

definition setInitialUserInfo ::
    "bool \<Rightarrow> port_ops \<Rightarrow> descriptors \<Rightarrow> octets \<Rightarrow> port \<Rightarrow> port_error option \<times> port \<times> octets" where
  "setInitialUserInfo le ops y iui p =
     (if \<not> m_isProvider p then (Some AssertFailed, p, [])
      else
      (case determineRoles p (snd (unpackPortDesc le iui y)) of
         (Some e, p2, _) \<Rightarrow> (Some e, p2, [])
       | (None, p2, other2) \<Rightarrow> pack_result le (op_finishConnect ops p2 other2)))"

definition setFinalProviderInfo ::
    "bool \<Rightarrow> port_ops \<Rightarrow> descriptors \<Rightarrow> octets \<Rightarrow> port \<Rightarrow> port_error option \<times> port \<times> octets" where
  "setFinalProviderInfo le ops y fpi p =
     (if m_isProvider p then (Some AssertFailed, p, [])
      else pack_result le (op_finishConnect ops p (snd (unpackPortDesc le fpi y))))"

definition setFinalUserInfo ::
    "bool \<Rightarrow> port_ops \<Rightarrow> descriptors \<Rightarrow> octets \<Rightarrow> port \<Rightarrow> port_error option \<times> port" where
  "setFinalUserInfo le ops y fui p =
     (if m_isProvider p then (Some AssertFailed, p)
      else (case op_finishConnect ops p (snd (unpackPortDesc le fui y)) of
              (Inl e, p1) \<Rightarrow> (Some e, p1)
            | (Inr (Some _), p1) \<Rightarrow> (Some (PortThrow ''Unexpected output from setFinalUserInfo''), p1)
            | (Inr None, p1) \<Rightarrow> (None, p1)))"

subsection \<open>Descriptor round trip\<close>

definition steps_ok ::
    "bool \<Rightarrow> unpack_step list \<Rightarrow> descriptors \<Rightarrow> descriptors \<Rightarrow> encoder \<Rightarrow> encoder \<Rightarrow> bool" where
  "steps_ok le ss x x' e e' \<longleftrightarrow> prefix (enc_data e) (enc_data e') \<and>
     (\<forall>d. stands_at le d e \<longrightarrow> prefix (enc_data e') (m_data d) \<longrightarrow>
        unpack_run ss (x, d) = (None, x', seek e' d))"

lemma steps_ok_Nil: "steps_ok le [] x x e e"
  by (auto simp: steps_ok_def stands_at_def seek_def)

lemma steps_ok_Cons:
  assumes g: "decodes le g v e e1" and r: "steps_ok le ss (upd v x) x' e1 e2"
  shows "steps_ok le (rd g upd # ss) x x' e e2"
  unfolding steps_ok_def
proof (intro conjI allI impI)
  have p: "prefix (enc_data e1) (enc_data e2)" using r by (simp add: steps_ok_def)
  show "prefix (enc_data e) (enc_data e2)"
    using decodes_prefix [OF g] p by (rule prefix_order.trans)
  fix d assume d: "stands_at le d e" "prefix (enc_data e2) (m_data d)"
  have "g d = Inr (v, seek e1 d)"
    using d p by (intro decodesD [OF g]) (auto intro: prefix_order.trans)
  moreover have "unpack_run ss (upd v x, seek e1 d) = (None, x', seek e2 (seek e1 d))"
    using r d by (auto simp: steps_ok_def)
  ultimately show "unpack_run (rd g upd # ss) (x, d) = (None, x', seek e2 d)"
    by (simp add: rd_def)
qed

lemmas width_defs = putOffset_def putFlag_def getOffset_def getFlag_def

definition packed_head :: "bool \<Rightarrow> descriptors \<Rightarrow> encoder \<Rightarrow> encoder" where
  "packed_head le x p =
     (let d = desc x;
          p = putULong le (d_type x) p;
          p = putLong le (of_int (role x)) p;
          p = putULong le (options x) p;
          p = putULong le (nBuffers d) p;
          p = putULong le (dataBufferBaseAddr d) p;
          p = putULong le (dataBufferPitch d) p;
          p = putULong le (dataBufferSize d) p;
          p = putULong le (metaDataBaseAddr d) p;
          p = putULong le (metaDataPitch d) p;
          p = putULong le (fullFlagBaseAddr d) p;
          p = putULong le (fullFlagSize d) p;
          p = putULong le (fullFlagPitch d) p;
          p = putULong le (fullFlagValue d) p;
          p = putULong le (emptyFlagBaseAddr d) p;
          p = putULong le (emptyFlagSize d) p;
          p = putULong le (emptyFlagPitch d) p;
          p = putULong le (emptyFlagValue d) p
      in putULongLong le (port_id (oob d)) p)"

lemma putLong_eq: "putLong = putULong"
  by (simp add: fun_eq_iff putLong_def putULong_def)

lemma packPortDesc_head:
  "packPortDesc le x = enc_data (putULongLong le (cookie (oob (desc x)))
     (putString le (oep (oob (desc x))) (packed_head le x (putBoolean (nativeByteorder le) Encoder))))"
  by (simp add: packPortDesc_def packed_head_def Let_def width_defs putLong_eq)

text \<open>What the receiver has after the fixed fields: everything but endpoint, cookie and the rest.\<close>

definition head_received :: "descriptors \<Rightarrow> descriptors \<Rightarrow> descriptors" where
  "head_received x y =
     x\<lparr>role := sint (of_int (role x) :: u32),
       desc := (desc x)\<lparr>oob := (oob (desc y))\<lparr>port_id := port_id (oob (desc x))\<rparr>\<rparr>\<rparr>"

lemma steps_ok_done: "e = e' \<Longrightarrow> x = x' \<Longrightarrow> steps_ok le [] x x' e e'"
  by (simp add: steps_ok_Nil)

lemma unpack_fields_ok: "steps_ok le unpack_fields y (head_received x y) e (packed_head le x e)"
  unfolding unpack_fields_def packed_head_def Let_def width_defs
  by ((rule steps_ok_Cons [OF decodes_ulong] steps_ok_Cons [OF decodes_long]
        steps_ok_Cons [OF decodes_ulonglong])+,
      rule steps_ok_done, rule refl,
      cases x, cases y, cases "desc x", cases "desc y", simp add: head_received_def)

definition port_desc_ok :: "descriptors \<Rightarrow> bool" where
  "port_desc_ok x \<longleftrightarrow> - (2 ^ 31) \<le> role x \<and> role x < 2 ^ 31 \<and>
     0 \<notin> set (oep (oob (desc x))) \<and> length (oep (oob (desc x))) < 256"

text \<open>What the receiver ends with: the sender's descriptor with its own untransmitted fields.\<close>

definition received :: "descriptors \<Rightarrow> descriptors \<Rightarrow> descriptors" where
  "received x y =
     x\<lparr>desc := (desc x)\<lparr>oob := (oob (desc y))\<lparr>port_id := port_id (oob (desc x)),
        oep := oep (oob (desc x)), cookie := cookie (oob (desc x))\<rparr>\<rparr>\<rparr>"

lemma sint_of_int_u32: "- (2 ^ 31) \<le> i \<Longrightarrow> i < 2 ^ 31 \<Longrightarrow> sint (of_int i :: u32) = i"
  by (simp add: signed_of_int signed_take_bit_int_eq_self)

lemma unpack_tail_ok:
  assumes "string_ok s" "length s < 256" "0 \<notin> set s" and d: "stands_at le d e"
    and p: "prefix (enc_data (putULongLong le c (putString le s e))) (m_data d)"
  shows "unpack_tail x d =
     (Some True, desc_update (oob_update (oep_update (\<lambda>_. s) \<circ> cookie_update (\<lambda>_. c))) x)"
proof -
  have "prefix (enc_data (putString le s e)) (m_data d)"
    using decodes_prefix [OF decodes_ulonglong] p by (rule prefix_order.trans)
  then have "getString d = Inr (s, seek (putString le s e) d)"
    by (rule decodesD [OF decodes_string [OF assms(1)] d])
  moreover have "getULongLong (seek (putString le s e) d) =
      Inr (c, seek (putULongLong le c (putString le s e)) (seek (putString le s e) d))"
    using d p by (intro decodesD [OF decodes_ulonglong]) auto
  ultimately show ?thesis
    using assms(2,3) by (simp add: unpack_tail_def c_str_nonzero)
qed

lemma unpack_pack:
  assumes "port_desc_ok x"
  shows "unpackPortDesc le' (packPortDesc le x) y = (Some True, received x y)"
proof -
  let ?b = "putBoolean le Encoder" and ?h = "packed_head le x (putBoolean le Encoder)"
  let ?e = "putULongLong le (cookie (oob (desc x))) (putString le (oep (oob (desc x))) ?h)"
  let ?d = "Decoder le' (enc_data ?e)"
  let ?d1 = "(seek ?b ?d)\<lparr>m_dataByteorder := le\<rparr>"
  have s: "string_ok (oep (oob (desc x)))" using assms by (simp add: port_desc_ok_def string_ok_def)
  have ph: "prefix (enc_data ?h) (enc_data ?e)"
    by (rule decodes_prefix [OF decodes_bind [OF decodes_string [OF s] decodes_ulonglong]])
  have f: "steps_ok le unpack_fields y (head_received x y) ?b ?h" by (rule unpack_fields_ok)
  then have pb: "prefix (enc_data ?b) (enc_data ?e)"
    using ph by (auto simp: steps_ok_def intro: prefix_order.trans)
  have "stands_at le' ?d Encoder" by (simp add: stands_at_def Decoder_def Encoder_def)
  then have "getBoolean ?d = Inr (le, seek ?b ?d)"
    using decodes_boolean pb by (intro decodesD) simp_all
  then have b: "dbind getBoolean set_byteorder ?d = Inr ((), ?d1)"
    by (simp add: dbind_def set_byteorder_def)
  have st: "stands_at le ?d1 ?b" by (simp add: stands_at_def seek_def Decoder_def)
  have "unpack_run unpack_fields (y, ?d1) = (None, head_received x y, seek ?h ?d1)"
    using f st ph by (simp add: steps_ok_def seek_def)
  moreover have "unpack_tail (head_received x y) (seek ?h ?d1) = (Some True, desc_update (oob_update
      (oep_update (\<lambda>_. oep (oob (desc x))) \<circ> cookie_update (\<lambda>_. cookie (oob (desc x))))) (head_received x y))"
    using assms st by (intro unpack_tail_ok [OF s, of le _ ?h]) (auto simp: port_desc_ok_def seek_def stands_at_def)
  ultimately have "unpackPortDesc le' (packPortDesc le x) y = (Some True, desc_update (oob_update
      (oep_update (\<lambda>_. oep (oob (desc x))) \<circ> cookie_update (\<lambda>_. cookie (oob (desc x))))) (head_received x y))"
    by (simp add: unpackPortDesc_def packPortDesc_head rd_def b)
  then show ?thesis
    using assms
    by (cases x, cases y, cases "desc x")
       (simp add: received_def head_received_def sint_of_int_u32 port_desc_ok_def)
qed

text \<open>
  Claim C8: a port descriptor that is packed on one machine and unpacked on another, whatever the
  byte orders of the two, arrives: the receiver has every transmitted field of the sender, and its
  own values of the fields that are not transmitted (address, size, mailbox and maximum count of
  the endpoint).
\<close>
theorem port_desc_roundtrip:
  assumes "port_desc_ok x"
  shows "unpackPortDesc le' (packPortDesc le x) y = (Some True, received x y)"
  using assms by (rule unpack_pack)

theorem port_desc_roundtrip_witness:
  "let x = \<lparr>d_type = ProducerDescT, role = NoRole, options = 3,
            desc = zero_desc\<lparr>nBuffers := 2, dataBufferSize := 2048\<rparr>\<rparr>;
       y = \<lparr>d_type = 0, role = 0, options = 0, desc = zero_desc\<rparr>
   in port_desc_ok x \<and> unpackPortDesc True (packPortDesc False x) y = (Some True, x)"
proof -
  let ?x = "\<lparr>d_type = ProducerDescT, role = NoRole, options = 3,
            desc = zero_desc\<lparr>nBuffers := 2, dataBufferSize := 2048\<rparr>\<rparr>"
  have ok: "port_desc_ok ?x" by (simp add: port_desc_ok_def zero_desc_def role_defs)
  show ?thesis
    using ok port_desc_roundtrip [OF ok, of True False "\<lparr>d_type = 0, role = 0, options = 0, desc = zero_desc\<rparr>"]
    by (simp add: received_def zero_desc_def)
qed

subsection \<open>Correctness of the role negotiation\<close>

definition role_ok :: "int \<Rightarrow> u32 \<Rightarrow> bool" where
  "role_ok r opts \<longleftrightarrow>
     (r = NoRole \<and> \<not> mandated opts) \<or> (r \<in> {0, 1, 2, 3} \<and> has_opt opts r)"

definition roles_agree :: "int \<Rightarrow> u32 \<Rightarrow> int \<Rightarrow> u32 \<Rightarrow> bool" where
  "roles_agree u uopts p popts \<longleftrightarrow> other_role u = Some p \<and> has_opt uopts u \<and> has_opt popts p"

lemma first_role_Some: "first_role opts ns = Some r \<Longrightarrow> r \<in> set ns \<and> has_opt opts r"
  by (induction ns) (auto split: if_splits)

lemma first_role_None: "first_role opts ns = None \<longleftrightarrow> (\<forall>n\<in>set ns. \<not> has_opt opts n)"
  by (induction ns) auto

lemma defaultRole_None:
  assumes "role_ok r opts" "defaultRole r opts = (None, r')"
  shows "r' \<in> {0, 1, 2, 3}" "has_opt opts r'" "mandated opts \<Longrightarrow> r' = r"
proof -
  consider "r = NoRole" "\<not> mandated opts" "first_role opts [0, 1, 2, 3] = Some r'"
    | "r \<noteq> NoRole" "r' = r" "r \<in> {0, 1, 2, 3}" "has_opt opts r"
    using assms by (auto simp: role_ok_def defaultRole_def NoRole_def
        simp del: first_role.simps split: option.splits if_splits)
  then show "r' \<in> {0, 1, 2, 3}" "has_opt opts r'" "mandated opts \<Longrightarrow> r' = r"
    by (cases; use first_role_Some [of opts "[0, 1, 2, 3]" r'] in simp)+
qed

lemma defaultRole_Some:
  assumes "role_ok r opts" "defaultRole r opts = (Some e, r')"
  shows "\<not> mandated opts" "\<forall>n\<in>{0, 1, 2, 3}. \<not> has_opt opts n"
proof -
  have "r = NoRole" "first_role opts [0, 1, 2, 3] = None"
    using assms by (auto simp: defaultRole_def simp del: first_role.simps split: option.splits if_splits)
  then show "\<not> mandated opts" "\<forall>n\<in>{0, 1, 2, 3}. \<not> has_opt opts n"
    using assms first_role_None [of opts "[0, 1, 2, 3]"] by (simp_all add: role_ok_def NoRole_def)
qed

lemma first_pair_Some:
  "first_pair uo po ns = Some (i, j) \<Longrightarrow>
   i \<in> set ns \<and> j = otherRoles ! nat i \<and> has_opt uo i \<and> has_opt po j"
  by (induction ns) (auto split: if_splits)

lemma first_pair_None:
  "first_pair uo po ns = None \<longleftrightarrow> (\<forall>i\<in>set ns. \<not> (has_opt uo i \<and> has_opt po (otherRoles ! nat i)))"
  by (induction ns) auto

lemma otherRoles_nth [simp]:
  "otherRoles ! 0 = 1" "otherRoles ! Suc 0 = 0" "otherRoles ! 2 = 3" "otherRoles ! 3 = 2"
  by (simp_all add: otherRoles_def role_defs eval_nat_numeral)

lemma other_role_simps [simp]:
  "other_role 0 = Some 1" "other_role 1 = Some 0" "other_role 2 = Some 3" "other_role 3 = Some 2"
  by (simp_all add: other_role_def)

lemma other_role_iff:
  "other_role u = Some p \<longleftrightarrow> (u, p) \<in> {(0, 1), (1, 0), (2, 3), (3, 2)}"
proof -
  consider "u = 0" | "u = 1" | "u = 2" | "u = 3" | "u < 0 \<or> u > 3" by linarith
  then show ?thesis by cases (auto simp: other_role_def)
qed

lemma no_preferences_None:
  assumes "no_preferences u uo p po = (None, u', p')"
  shows "roles_agree u' uo p' po"
proof -
  have "first_pair uo po [0, 1, 2, 3] = Some (u', p')"
    using assms by (simp add: no_preferences_def del: first_pair.simps split: option.splits prod.splits)
  from first_pair_Some [OF this] show ?thesis
    by (auto simp: roles_agree_def other_role_iff)
qed

lemma no_preferences_Some:
  assumes "no_preferences u uo p po = (Some e, u', p')"
  shows "\<not> roles_agree a uo b po"
proof -
  have "first_pair uo po [0, 1, 2, 3] = None"
    using assms by (simp add: no_preferences_def del: first_pair.simps split: option.splits prod.splits)
  then show ?thesis
    by (auto simp: first_pair_None roles_agree_def other_role_iff simp del: first_pair.simps)
qed

text \<open>Negotiation between two settled roles, the only ones left after the defaults.\<close>

lemma chooseRoles_settled:
  assumes "defaultRole u0 uo = (None, u)" "defaultRole p0 po = (None, p)"
    and "other_role u = Some uO" "other_role p = Some pO"
  shows "chooseRoles u0 uo p0 po =
     (if mandated po then
        if u = pO then (None, u, p)
        else if mandated uo then (Some (PortThrow ''Incompatible mandated transfer roles''), u, p)
        else if has_opt uo pO then (None, pO, p) else (Some no_mandated_match, u, p)
      else if mandated uo then
        if p = uO then (None, u, p)
        else if has_opt po uO then (None, u, uO) else (Some no_mandated_match, u, p)
      else both_prefer u uo p po pO uO)"
proof -
  have "u \<noteq> NoRole" "p \<noteq> NoRole" using assms(3,4) by (auto simp: other_role_iff NoRole_def)
  with assms show ?thesis by (simp add: chooseRoles_def)
qed

lemma chooseRoles_success_settled:
  assumes "role_ok u0 uo" "role_ok p0 po" "chooseRoles u0 uo p0 po = (None, u', p')"
  obtains u p uO pO where "defaultRole u0 uo = (None, u)" "defaultRole p0 po = (None, p)"
    "other_role u = Some uO" "other_role p = Some pO" "has_opt uo u" "has_opt po p"
    "mandated uo \<Longrightarrow> u = u0" "mandated po \<Longrightarrow> p = p0"
proof -
  obtain u p where d: "defaultRole u0 uo = (None, u)" "defaultRole p0 po = (None, p)"
    using assms(3) by (auto simp: chooseRoles_def split: prod.splits option.splits)
  have "\<exists>uO. other_role u = Some uO" "\<exists>pO. other_role p = Some pO"
    using defaultRole_None [OF assms(1) d(1)] defaultRole_None [OF assms(2) d(2)] by auto
  with that d defaultRole_None [OF assms(1) d(1)] defaultRole_None [OF assms(2) d(2)]
  show thesis by blast
qed

lemma both_prefer_None:
  assumes "both_prefer u uo p po pO uO = (None, u', p')"
    and o: "other_role u = Some uO" "other_role p = Some pO" "has_opt uo u" "has_opt po p"
  shows "roles_agree u' uo p' po \<or> (u', p') = (ActiveFlowControl, ActiveFlowControl) \<or>
     (p' = ActiveOnly \<and> u' \<noteq> Passive)"
  using assms no_preferences_None [of u uo p po u' p']
  by (auto simp: both_prefer_def roles_agree_def other_role_iff role_defs split: if_splits)

lemma both_prefer_Some:
  assumes "both_prefer u uo p po pO uO = (Some e, u', p')"
  shows "\<not> roles_agree a uo b po"
  using assms no_preferences_Some [of u uo p po e u' p']
  by (auto simp: both_prefer_def split: if_splits)

text \<open>
  Claim C6: when one of the two sides has a mandated role, a negotiation that succeeds is right:
  the two roles are complementary, each side supports the role it gets, and a mandated role is
  never changed.
\<close>
theorem chooseRoles_respects_mandate:
  assumes "role_ok u uopts" "role_ok p popts" "mandated uopts \<or> mandated popts"
    and "chooseRoles u uopts p popts = (None, u', p')"
  shows "roles_agree u' uopts p' popts \<and> (mandated uopts \<longrightarrow> u' = u) \<and> (mandated popts \<longrightarrow> p' = p)"
  using chooseRoles_success_settled [OF assms(1,2,4)]
proof cases
  case (1 v q vO qO)
  show ?thesis
    using assms(3,4) 1
    by (auto simp: chooseRoles_settled [OF 1(1-4)] roles_agree_def other_role_iff split: if_splits)
qed

theorem chooseRoles_respects_mandate_witness:
  "role_ok Passive (2 ^ 5 + 2 ^ 3) \<and> role_ok NoRole 15 \<and>
   chooseRoles Passive (2 ^ 5 + 2 ^ 3) NoRole 15 = (None, Passive, ActiveOnly) \<and>
   roles_agree Passive (2 ^ 5 + 2 ^ 3) ActiveOnly 15"
proof -
  have h: "role_ok Passive (2 ^ 5 + 2 ^ 3)" "role_ok NoRole 15" "mandated (2 ^ 5 + 2 ^ 3) \<or> mandated 15"
    "chooseRoles Passive (2 ^ 5 + 2 ^ 3) NoRole 15 = (None, Passive, ActiveOnly)"
    by code_simp+
  show ?thesis using chooseRoles_respects_mandate [OF h] h by blast
qed

text \<open>
  Without a mandate, the negotiation fails only when there is no pair of complementary
  roles that the two sides support; when it succeeds, the result is such a pair or one of the two
  results of the misassigning branches (both sides \<^verbatim>\<open>ActiveFlowControl\<close>; the provider
  \<^verbatim>\<open>ActiveOnly\<close> against a user that is not passive).
\<close>
theorem chooseRoles_without_mandate:
  assumes "role_ok u uopts" "role_ok p popts" "\<not> mandated uopts" "\<not> mandated popts"
  shows "case chooseRoles u uopts p popts of
           (Some e, _) \<Rightarrow> \<not> (\<exists>a b. roles_agree a uopts b popts)
         | (None, u', p') \<Rightarrow> roles_agree u' uopts p' popts \<or>
             (u', p') = (ActiveFlowControl, ActiveFlowControl) \<or> (p' = ActiveOnly \<and> u' \<noteq> Passive)"
proof -
  have none: "\<not> roles_agree a uopts b popts"
    if "(\<forall>n\<in>{0, 1, 2, 3}. \<not> has_opt uopts n) \<or> (\<forall>n\<in>{0, 1, 2, 3}. \<not> has_opt popts n)" for a b
    using that by (auto simp: roles_agree_def other_role_iff)
  obtain eu v where u: "defaultRole u uopts = (eu, v)" by fastforce
  obtain ep q where p: "defaultRole p popts = (ep, q)" by fastforce
  show ?thesis
  proof (cases "eu = None \<and> ep = None")
    case True
    then have d: "defaultRole u uopts = (None, v)" "defaultRole p popts = (None, q)" using u p by auto
    then obtain vO qO where o: "other_role v = Some vO" "other_role q = Some qO"
      using defaultRole_None(1) [OF assms(1) d(1)] defaultRole_None(1) [OF assms(2) d(2)] by auto
    obtain e u' p' where b: "both_prefer v uopts q popts qO vO = (e, u', p')" by (cases "both_prefer v uopts q popts qO vO")
    have "chooseRoles u uopts p popts = (e, u', p')"
      using assms(3,4) b by (simp add: chooseRoles_settled [OF d o])
    then show ?thesis
      using both_prefer_None [OF _ o defaultRole_None(2) [OF assms(1) d(1)] defaultRole_None(2) [OF assms(2) d(2)]]
        both_prefer_Some b by (cases e) fastforce+
  next
    case False
    then have "(\<forall>n\<in>{0, 1, 2, 3}. \<not> has_opt uopts n) \<or> (\<forall>n\<in>{0, 1, 2, 3}. \<not> has_opt popts n)"
      using u p defaultRole_Some(2) [OF assms(1)] defaultRole_Some(2) [OF assms(2)] by (metis not_None_eq)
    moreover have "\<exists>e x. chooseRoles u uopts p popts = (Some e, x)"
      using False u p by (cases eu; cases ep) (simp_all add: chooseRoles_def)
    ultimately show ?thesis using none by fastforce
  qed
qed

theorem chooseRoles_without_mandate_witness:
  "role_ok ActiveMessage 3 \<and> role_ok ActiveOnly 12 \<and> \<not> mandated 3 \<and> \<not> mandated 12 \<and>
   \<not> (\<exists>a b. roles_agree a 3 b 12)"
proof -
  have h: "role_ok ActiveMessage 3" "role_ok ActiveOnly 12" "\<not> mandated 3" "\<not> mandated 12"
    "fst (chooseRoles ActiveMessage 3 ActiveOnly 12) \<noteq> None"
    by code_simp+
  show ?thesis
    using chooseRoles_without_mandate [OF h(1-4)] h by (auto split: prod.splits option.splits)
qed

text \<open>
  The misassigning branch is reachable: a user that prefers \<^verbatim>\<open>ActiveFlowControl\<close> and also
  supports \<^verbatim>\<open>ActiveMessage\<close>, against a provider that only supports \<^verbatim>\<open>ActiveFlowControl\<close>, is left
  with \<^verbatim>\<open>ActiveFlowControl\<close> on both sides although the complementary pair exists.
\<close>
theorem chooseRoles_misassigns:
  "chooseRoles ActiveFlowControl 3 ActiveFlowControl 2 = (None, ActiveFlowControl, ActiveFlowControl) \<and>
   \<not> roles_agree ActiveFlowControl 3 ActiveFlowControl 2 \<and>
   roles_agree ActiveMessage 3 ActiveFlowControl 2"
  by (intro conjI; code_simp)

subsection \<open>Correctness of the negotiation\<close>

lemma mandated_set_mandate [simp]: "mandated (options (set_mandate x))"
  by (simp add: mandated_def set_mandate_def bit_simps MandatedRole_def)

lemma has_opt_mandate [simp]:
  "r \<in> {0, 1, 2, 3} \<Longrightarrow> has_opt (set_bit MandatedRole opts) r = has_opt opts r"
  by (auto simp: has_opt_def bit_simps MandatedRole_def)

lemma set_bit_twice [simp]: "set_bit n (set_bit n w) = set_bit n (w :: u32)"
  by (rule bit_eqI) (auto simp: bit_simps)

lemma set_field_simps [simp]:
  "role (set_mandate x) = role x" "role (set_bufferSize n x) = role x"
  "options (set_bufferSize n x) = options x" "desc (set_mandate x) = desc x"
  "dataBufferSize (desc (set_bufferSize n x)) = n"
  "options (set_mandate x) = set_bit MandatedRole (options x)"
  by (simp_all add: set_mandate_def set_bufferSize_def)

lemma set_mandate_idem:
  "mandated (options x) \<Longrightarrow> set_mandate x = x"
proof -
  assume m: "mandated (options x)"
  have "set_bit MandatedRole (options x) = options x"
    by (rule bit_eqI) (use m in \<open>auto simp: mandated_def bit_simps\<close>)
  then show ?thesis by (cases x) (simp add: set_mandate_def)
qed

lemma set_bufferSize_same [simp]: "set_bufferSize (dataBufferSize (desc x)) x = x"
  by (cases x) (simp add: set_bufferSize_def)

lemma chooseRoles_fixed:
  assumes a: "roles_agree r uo q po" and p: "role_ok p0 po" and m: "mandated po \<longrightarrow> p0 = q" "mandated uo"
  shows "chooseRoles r uo p0 po = (None, r, q)"
proof -
  have rq: "other_role r = Some q" "has_opt uo r" "has_opt po q" "r \<in> {0, 1, 2, 3}" "q \<in> {0, 1, 2, 3}"
    using a by (auto simp: roles_agree_def other_role_iff)
  have d: "defaultRole r uo = (None, r)" using rq by (auto simp: defaultRole_def NoRole_def)
  obtain e p where dp: "defaultRole p0 po = (e, p)" by fastforce
  have "e = None"
    using defaultRole_Some(2) [OF p, of _ p] rq(3,5) dp by (cases e) auto
  with dp have dp: "defaultRole p0 po = (None, p)" by simp
  obtain pO where o: "other_role p = Some pO" using defaultRole_None(1) [OF p dp] by auto
  have "mandated po \<longrightarrow> p = q" using defaultRole_None(3) [OF p dp] m(1) by blast
  moreover have "p = q \<Longrightarrow> r = pO" using o rq(1) by (auto simp: other_role_iff)
  ultimately show ?thesis
    using m(2) rq(3) by (simp add: chooseRoles_settled [OF d dp rq(1) o])
qed

lemma unat_roundUp_16:
  "unat (roundUp (ucast (m :: u32)) 16) = (unat m + 15) div 16 * 16"
proof -
  have "unat m < 4294967296" using unsigned_less [of m] by simp
  then have "unat (ucast m :: u64) = unat m" "unat m < 4294967296"
    by (simp_all add: unsigned_ucast_eq take_bit_eq_mod)
  then show ?thesis using unat_roundUp [of 16 "ucast m"] by simp
qed

lemma round_16:
  fixes m :: nat
  defines "s \<equiv> (m + 15) div 16 * 16"
  shows "16 dvd s" "m \<le> s" "s < m + 16"
    "m \<le> 4294967280 \<Longrightarrow> s < 4294967296"
    "4294967280 < m \<Longrightarrow> m < 4294967296 \<Longrightarrow> s = 4294967296"
proof -
  have e: "s + (m + 15) mod 16 = m + 15" "(m + 15) mod 16 < 16"
    unfolding s_def by (simp_all only: div_mult_mod_eq)
  then show "m \<le> s" "s < m + 16" by linarith+
  show d: "16 dvd s" by (simp add: s_def)
  from d obtain k where k: "s = 16 * k" by (rule dvdE)
  show "s < 4294967296" if "m \<le> 4294967280" using that e k by linarith
  show "s = 4294967296" if "4294967280 < m" "m < 4294967296"
  proof -
    have "268435456 \<le> k" "k \<le> 268435456" using that e k by linarith+
    then show ?thesis using k by simp
  qed
qed

lemma unat_negotiated_size:
  "unat (negotiated_size u p) =
     ((max (unat (dataBufferSize (desc u))) (unat (dataBufferSize (desc p))) + 15) div 16 * 16) mod 2 ^ 32"
proof -
  have "(if dataBufferSize (desc u) > dataBufferSize (desc p)
         then dataBufferSize (desc u) else dataBufferSize (desc p)) =
        max (dataBufferSize (desc u)) (dataBufferSize (desc p))"
    by (auto simp: max_def)
  moreover have "unat (max a b) = max (unat a) (unat b)" for a b :: u32
    by (simp add: max_def word_le_nat_alt)
  ultimately show ?thesis
    by (simp add: negotiated_size_def BUFFER_ALIGNMENT_def unsigned_ucast_eq take_bit_eq_mod unat_roundUp_16 Let_def)
qed

lemma negotiate_None:
  assumes "negotiate u p = (None, u', p')"
  obtains r q where "chooseRoles (role u) (options u) (role p) (options p) = (None, r, q)"
    "u' = set_mandate (set_bufferSize (negotiated_size u p) (u\<lparr>role := r\<rparr>))"
    "p' = set_mandate (set_bufferSize (negotiated_size u p) (p\<lparr>role := q\<rparr>))"
  using assms by (auto simp: negotiate_def Let_def split: prod.splits option.splits)

text \<open>
  A negotiation that succeeds leaves both sides with the same buffer size and with their
  roles fixed for any later negotiation. When the larger requested size is at most \<open>2^32 - 16\<close>, the
  result is the least multiple of 16 that is not below it; a larger request is truncated to size 0.
\<close>
theorem negotiated_buffer_size:
  assumes "negotiate u p = (None, u', p')"
  shows "dataBufferSize (desc u') = dataBufferSize (desc p') \<and>
     mandated (options u') \<and> mandated (options p') \<and>
     (let m = max (unat (dataBufferSize (desc u))) (unat (dataBufferSize (desc p)));
          s = unat (dataBufferSize (desc u'))
      in if m \<le> 2 ^ 32 - 16 then 16 dvd s \<and> m \<le> s \<and> s < m + 16 else s = 0)"
proof -
  let ?m = "max (unat (dataBufferSize (desc u))) (unat (dataBufferSize (desc p)))"
  have s: "dataBufferSize (desc u') = negotiated_size u p" "dataBufferSize (desc p') = negotiated_size u p"
    "mandated (options u')" "mandated (options p')"
    using assms by (auto elim!: negotiate_None simp del: set_field_simps(6))
  have b: "?m < 4294967296"
    using unsigned_less [of "dataBufferSize (desc u)"] unsigned_less [of "dataBufferSize (desc p)"] by simp
  show ?thesis
  proof (cases "?m \<le> 4294967280")
    case True
    then show ?thesis
      using s round_16 [of ?m] by (simp add: unat_negotiated_size Let_def)
  next
    case False
    then have "(?m + 15) div 16 * 16 = 4294967296" using b by (intro round_16(5)) linarith+
    then have "unat (negotiated_size u p) = 0" by (simp only: unat_negotiated_size) simp
    then show ?thesis using False s by (auto simp: Let_def)
  qed
qed

theorem negotiated_buffer_size_witness:
  "let u = \<lparr>d_type = ProducerDescT, role = NoRole, options = 3, desc = zero_desc\<lparr>dataBufferSize := 100\<rparr>\<rparr>;
       p = \<lparr>d_type = ConsumerDescT, role = NoRole, options = 3, desc = zero_desc\<lparr>dataBufferSize := 33\<rparr>\<rparr>
   in \<exists>u' p'. negotiate u p = (None, u', p') \<and> 100 \<le> unat (dataBufferSize (desc u'))"
proof -
  let ?u = "\<lparr>d_type = ProducerDescT, role = NoRole, options = 3, desc = zero_desc\<lparr>dataBufferSize := 100\<rparr>\<rparr>"
  let ?p = "\<lparr>d_type = ConsumerDescT, role = NoRole, options = 3, desc = zero_desc\<lparr>dataBufferSize := 33\<rparr>\<rparr>"
  have "chooseRoles NoRole 3 NoRole 3 = (None, 0, 1)" by code_simp
  then obtain u' p' where n: "negotiate ?u ?p = (None, u', p')"
    by (simp add: negotiate_def Let_def)
  have "100 \<le> unat (dataBufferSize (desc u'))"
    using negotiated_buffer_size [OF n] by (auto simp: Let_def)
  with n show ?thesis by (auto simp: Let_def)
qed

lemma negotiate_again:
  assumes n: "negotiate u p = (None, u', p')"
    and a: "roles_agree (role u') (options u) (role p') (options p)"
    and p: "role_ok (role p) (options p)" "mandated (options p) \<longrightarrow> role p' = role p"
    and m: "unat (dataBufferSize (desc u)) \<le> 2 ^ 32 - 16" "unat (dataBufferSize (desc p)) \<le> 2 ^ 32 - 16"
  shows "negotiate u' p = (None, u', p')"
proof -
  let ?s = "negotiated_size u p"
  from n obtain r q where c: "chooseRoles (role u) (options u) (role p) (options p) = (None, r, q)"
    and u': "u' = set_mandate (set_bufferSize ?s (u\<lparr>role := r\<rparr>))"
    and p': "p' = set_mandate (set_bufferSize ?s (p\<lparr>role := q\<rparr>))" by (rule negotiate_None)
  have r: "role u' = r" "role p' = q" "r \<in> {0, 1, 2, 3}" using a u' p' by (auto simp: roles_agree_def other_role_iff)
  then have "roles_agree r (options u') q (options p)" using a by (simp add: roles_agree_def u')
  moreover have "mandated (options u')" using u' by (simp del: set_field_simps(6))
  ultimately have ch: "chooseRoles (role u') (options u') (role p) (options p) = (None, r, q)"
    using p r by (simp add: chooseRoles_fixed)
  let ?m = "max (unat (dataBufferSize (desc u))) (unat (dataBufferSize (desc p)))"
  have s: "unat ?s = (?m + 15) div 16 * 16"
    using m round_16(4) [of ?m] by (simp add: unat_negotiated_size)
  have "unat (dataBufferSize (desc p)) \<le> unat ?s" "16 dvd unat ?s" "unat ?s < 2 ^ 32"
    using round_16(1-2) [of ?m] s unat_u32_less [of ?s] by simp_all
  then have "unat (negotiated_size u' p) = unat ?s"
    using u' by (auto simp: unat_negotiated_size max_absorb1 elim!: dvdE)
  then have "negotiated_size u' p = ?s" by (rule unsigned_word_eqI)
  then show ?thesis
    using ch u' p' r by (simp add: negotiate_def Let_def set_mandate_idem mandated_def bit_simps
        MandatedRole_def set_mandate_def set_bufferSize_def)
qed

text \<open>
  A container whose virtual functions leave the descriptors alone and answer with the port's own.
\<close>

definition plain_ops :: "port_ops \<Rightarrow> bool" where
  "plain_ops ops \<longleftrightarrow>
     (\<forall>p x params. op_startConnect ops p x params = (None, p)) \<and>
     (\<forall>p x. op_finishConnect ops p x = (Inr (Some (p_data p)), p))"

lemma received_simps [simp]:
  "role (received x y) = role x" "options (received x y) = options x"
  "dataBufferSize (desc (received x y)) = dataBufferSize (desc x)"
  by (simp_all add: received_def)

lemma negotiate_received:
  assumes "negotiate u p = (None, u', p')"
  shows "\<exists>q. negotiate u (received p y) = (None, u', q)" "\<exists>q. negotiate (received u y) p = (None, q, p')"
  using assms by (auto simp: negotiate_def Let_def negotiated_size_def split: prod.splits option.splits)

lemma port_desc_ok_negotiated:
  assumes "negotiate u p = (None, u', p')" "port_desc_ok u" "role u' \<in> {0, 1, 2, 3}"
  shows "port_desc_ok u'"
  using assms(2,3)
  by (rule_tac negotiate_None [OF assms(1)])
     (auto simp: port_desc_ok_def set_mandate_def set_bufferSize_def)

lemma setConnectParams_simps:
  assumes "setConnectParams params p = (e, p1)"
  shows "m_isProvider p1 = m_isProvider p" "m_canBeExternal p1 = m_canBeExternal p"
  using assms by (auto simp: setConnectParams_def split: prod.splits)


definition sample_port :: "bool \<Rightarrow> u32 \<Rightarrow> port" where
  "sample_port provider n =
     \<lparr>m_metaPort = \<lparr>mp_name = ''p'', minBufferCount = 1, m_minBufferSize = 0, mp_bufferSize = 0\<rparr>,
      m_isProvider = provider,
      p_data = \<lparr>d_type = (if provider then ConsumerDescT else ProducerDescT), role = NoRole, options = 3,
                desc = zero_desc\<lparr>nBuffers := 2, dataBufferSize := n\<rparr>\<rparr>,
      m_canBeExternal = True, m_container = 0\<rparr>"

definition sample_ops :: port_ops where
  "sample_ops =
     \<lparr>op_preferred = (\<lambda>p. None), op_startConnect = (\<lambda>p x params. (None, p)),
      op_finishConnect = (\<lambda>p x. (Inr (Some (p_data p)), p)),
      op_connectInside = (\<lambda>p q a b. (None, p, q))\<rparr>"


lemma set_xferRole_None:
  assumes "set_xferRole params x = (None, y)"
  shows "desc y = desc x"
    "y = x \<or> role y \<in> {0, 1, 2, 3} \<and> has_opt (options x) (role y) \<and> mandated (options y)"
proof -
  have r: "r \<in> {0, 1, 2, 3}" if "parse_role s = Some r" for s r
    using that by (auto simp: parse_role_def role_defs split: if_splits)
  show "desc y = desc x"
    using assms by (auto simp: set_xferRole_def split: sum.splits option.splits if_splits)
  show "y = x \<or> role y \<in> {0, 1, 2, 3} \<and> has_opt (options x) (role y) \<and> mandated (options y)"
    using assms mandated_set_mandate
    by (auto simp: set_xferRole_def dest: r split: sum.splits option.splits if_splits)
qed

lemma set_bufferSize_param_None:
  assumes "set_bufferSize_param mp params x = (None, y)"
  obtains n where "set_xferRole params (set_bufferSize n x) = (None, y)"
    "n = dataBufferSize (desc x) \<or> m_minBufferSize mp \<le> ucast n"
proof (cases "findULong params ''bufferSize''")
  case (Inr r)
  with assms that [of "dataBufferSize (desc x)"] that show thesis
    by (auto simp: set_bufferSize_param_def not_less split: option.splits if_splits)
qed (use assms in \<open>simp add: set_bufferSize_param_def\<close>)

lemma setPortParams_None:
  assumes "setPortParams mp params x = (None, y)"
  obtains n s where "set_xferRole params (set_bufferSize s (set_nBuffers n x)) = (None, y)"
    "n = nBuffers (desc x) \<or> minBufferCount mp \<le> ucast n"
    "s = dataBufferSize (desc x) \<or> m_minBufferSize mp \<le> ucast s"
proof -
  have "set_nBuffers (nBuffers (desc x)) x = x" by (cases x) (simp add: set_nBuffers_def)
  then obtain n where n: "set_bufferSize_param mp params (set_nBuffers n x) = (None, y)"
    "n = nBuffers (desc x) \<or> minBufferCount mp \<le> ucast n"
    using assms by (auto simp: setPortParams_def not_less split: sum.splits option.splits if_splits) metis
  from n(1) show thesis
    by (rule set_bufferSize_param_None) (use n(2) that in \<open>auto simp: set_nBuffers_def\<close>)
qed



end
