(* ===== verification/Workers.thy ===== *)
theory Workers
  imports Prelude
begin

text \<open>
  Worker life cycle. The generic part is \<^verbatim>\<open>core/container/interfaces/src/OcpiWorker.cxx\<close>
  (\<^verbatim>\<open>Controllable\<close>, \<^verbatim>\<open>controlOp\<close>) with the table of \<^verbatim>\<open>OCPI_CONTROL_OPS\<close>; the container part is
  the RCC worker of \<^verbatim>\<open>core/container/rcc/src/OcpiRccWorker.cxx\<close>: control operations, the run
  condition and the run loop. The code of the worker itself (its dispatch table and port callbacks)
  is a parameter. Timers are left out: whether the run timer has expired is an input of a run.
\<close>

unbundle bit_operations_syntax

subsection \<open>Control states and operations\<close>

datatype control_state = EXISTS | INITIALIZED | OPERATING | SUSPENDED | FINISHED | UNUSABLE | NONE

datatype control_op =
  OpInitialize | OpStart | OpStop | OpRelease | OpBeforeQuery | OpAfterConfigure | OpTest

definition control_ops :: "(string \<times> control_op) list" where
  "control_ops =
     [(''initialize'', OpInitialize), (''start'', OpStart), (''stop'', OpStop), (''release'', OpRelease),
      (''beforeQuery'', OpBeforeQuery), (''afterConfigure'', OpAfterConfigure), (''test'', OpTest)]"

fun op_number :: "control_op \<Rightarrow> nat" where
  "op_number OpInitialize = 0"
| "op_number OpStart = 1"
| "op_number OpStop = 2"
| "op_number OpRelease = 3"
| "op_number OpBeforeQuery = 4"
| "op_number OpAfterConfigure = 5"
| "op_number OpTest = 6"

text \<open>\<^verbatim>\<open>controlTransitions\<close>: the states an operation is valid in, and the state it leads to.\<close>

fun valid_states :: "control_op \<Rightarrow> control_state list" where
  "valid_states OpInitialize = [EXISTS, NONE, NONE, NONE]"
| "valid_states OpStart = [SUSPENDED, INITIALIZED, NONE, NONE]"
| "valid_states OpStop = [OPERATING, FINISHED, NONE, NONE]"
| "valid_states OpRelease = [INITIALIZED, OPERATING, SUSPENDED, FINISHED]"
| "valid_states OpBeforeQuery = [INITIALIZED, OPERATING, SUSPENDED, FINISHED]"
| "valid_states OpAfterConfigure = [INITIALIZED, OPERATING, SUSPENDED, NONE]"
| "valid_states OpTest = [INITIALIZED, NONE, NONE, NONE]"

fun next_state :: "control_op \<Rightarrow> control_state" where
  "next_state OpInitialize = INITIALIZED"
| "next_state OpStart = OPERATING"
| "next_state OpStop = SUSPENDED"
| "next_state OpRelease = EXISTS"
| "next_state _ = NONE"

record controllable =
  m_state :: control_state
  m_controlMask :: u32

definition Controllable :: controllable where
  "Controllable = \<lparr>m_state = EXISTS, m_controlMask = 0\<rparr>"

definition setControlState :: "control_state \<Rightarrow> 'a controllable_scheme \<Rightarrow> 'a controllable_scheme" where
  "setControlState s w = w\<lparr>m_state := s\<rparr>"

fun starts_with :: "string \<Rightarrow> string \<Rightarrow> bool" where
  "starts_with s [] = True"
| "starts_with [] (_ # _) = False"
| "starts_with (c # s) (d # t) = (c = d \<and> starts_with s t)"

fun strstr :: "string \<Rightarrow> string \<Rightarrow> bool" where
  "strstr [] t = (t = [])"
| "strstr (c # s) t = (starts_with (c # s) t \<or> strstr s t)"

definition setControlOperations :: "string option \<Rightarrow> 'a controllable_scheme \<Rightarrow> 'a controllable_scheme" where
  "setControlOperations ops w =
     (case ops of
        None \<Rightarrow> w
      | Some s \<Rightarrow> w\<lparr>m_controlMask :=
          fold (\<lambda>(x, c) m. if strstr s x then set_bit (op_number c) m else m) control_ops (m_controlMask w)\<rparr>)"

datatype worker_error = WorkerThrow string | WorkerAbort

text \<open>
  \<open>controlOp\<close> takes the two virtual functions of the container's worker. The last result says
  whether the container was started, which every operation but an ignored or failed one does.
\<close>

definition controlOp ::
    "('a controllable_scheme \<Rightarrow> 'a controllable_scheme) \<Rightarrow>
     (control_op \<Rightarrow> 'a controllable_scheme \<Rightarrow> worker_error option \<times> 'a controllable_scheme) \<Rightarrow>
     control_op \<Rightarrow> 'a controllable_scheme \<Rightarrow> worker_error option \<times> 'a controllable_scheme \<times> bool" where
  "controlOp checkState operate op w0 =
     (let w = checkState w0; cs = m_state w; valid = valid_states op; nxt = next_state op in
      if cs = FINISHED \<and> (op = OpStop \<or> op = OpStart) then (None, w, False)
      else if nxt = NONE \<or> cs \<noteq> nxt then
        if cs = valid ! 0 \<or> (valid ! 1 \<noteq> NONE \<and> cs = valid ! 1) \<or>
           (valid ! 2 \<noteq> NONE \<and> cs = valid ! 2) \<or> (valid ! 3 \<noteq> NONE \<and> cs = valid ! 3)
        then (case operate op w of
                (Some e, w1) \<Rightarrow> (Some e, w1, False)
              | (None, w1) \<Rightarrow> (None, if nxt \<noteq> NONE then setControlState nxt w1 else w1, True))
        else (Some (WorkerThrow ''Control operation failed on worker''), w, False)
      else (None, w, True))"

definition beforeStart :: "'a controllable_scheme \<Rightarrow> bool" where
  "beforeStart w \<longleftrightarrow> m_state w = INITIALIZED"

definition isDone :: "'a controllable_scheme \<Rightarrow> bool" where
  "isDone w \<longleftrightarrow> m_state w = UNUSABLE \<or> m_state w = FINISHED"

text \<open>
  Waiting polls once a second: \<open>states\<close> lists the states seen by the successive polls and \<open>limit\<close> the
  number of seconds after which the timer has expired, if there is one. \<open>None\<close> is a wait that the
  listed polls do not end.
\<close>

fun worker_wait :: "nat option \<Rightarrow> control_state list \<Rightarrow> bool option" where
  "worker_wait limit [] = None"
| "worker_wait limit (s # ss) =
     (if s = UNUSABLE \<or> s = FINISHED then Some False
      else if limit = Some 0 \<or> limit = Some 1 then Some True
      else worker_wait (map_option (\<lambda>n. n - 1) limit) ss)"

subsection \<open>RCC workers\<close>

datatype rcc_result = RCC_OK | RCC_ERROR | RCC_FATAL | RCC_DONE | RCC_ADVANCE | RCC_ADVANCE_DONE

text \<open>The masks of a run condition are the list before the terminating zero; \<open>None\<close> is a null pointer.\<close>

record run_condition =
  portMasks :: "u32 list option"
  rc_timeout :: bool

text \<open>
  What the worker's code can change: the part of its context that belongs to it, and the error text
  that the container keeps for it. \<open>ctx_current\<close> tells which ports have a current buffer.
\<close>

record rcc_context =
  ctx_properties :: octets
  ctx_runCondition :: "run_condition option"
  ctx_errorString :: "string option"
  m_errorString :: "string option"
  ctx_current :: "bool list"

type_synonym worker_method = "rcc_context \<Rightarrow> rcc_result \<times> rcc_context"

text \<open>
  The run method also tells whether it asks for a new run condition, and whether a port error was
  reported to the container while it ran.
\<close>

record rcc_dispatch =
  d_initialize :: "worker_method option"
  d_start :: "worker_method option"
  d_stop :: "worker_method option"
  d_release :: "worker_method option"
  d_test :: "worker_method option"
  d_beforeQuery :: "worker_method option"
  d_afterConfigure :: "worker_method option"
  d_run :: "(bool \<Rightarrow> rcc_context \<Rightarrow> (rcc_result \<times> bool \<times> bool) \<times> rcc_context) option"
  d_runCondition :: "run_condition option"
  d_numPorts :: nat
  optionallyConnectedPorts :: u32
  propertySize :: nat

record rcc_worker = controllable +
  enabled :: bool
  m_nPorts :: nat
  connectedPorts :: u32
  m_context :: rcc_context
  m_runCondition :: run_condition
  m_defaultRunCondition :: run_condition
  runConditionSS :: u32
  worker_run_count :: nat

definition port_mask :: "nat \<Rightarrow> u32" where
  "port_mask n = NOT (push_bit n (- 1))"

definition mask_union :: "run_condition \<Rightarrow> u32" where
  "mask_union rc = (case portMasks rc of None \<Rightarrow> 0 | Some ms \<Rightarrow> fold (\<lambda>m s. s OR m) ms 0)"

text \<open>
  \<open>meta\<close> lists the optional flags of the metadata ports. The allocation of memories is left out.
\<close>

definition check_ports :: "rcc_dispatch \<Rightarrow> bool list \<Rightarrow> worker_error + nat" where
  "check_ports d meta =
     (if length meta \<noteq> 0 then
        if length meta \<noteq> d_numPorts d then Inl (WorkerThrow ''metadata port count and dispatch port count differ'')
        else if optionallyConnectedPorts d \<noteq> fold (\<lambda>n m. if meta ! n then set_bit n m else m) [0..<length meta] 0
        then Inl (WorkerThrow ''metadata optional ports and dispatch optional ports differ'')
        else Inr (length meta)
      else Inr (d_numPorts d))"

definition initializeContext :: "rcc_dispatch \<Rightarrow> bool list \<Rightarrow> worker_error + rcc_worker" where
  "initializeContext d meta =
     sbind (check_ports d meta) (\<lambda>n.
     let ourMask = port_mask n;
         dflt = \<lparr>portMasks = (if n \<noteq> 0 then Some (if ourMask = 0 then [] else [ourMask]) else None), rc_timeout = False\<rparr>;
         w = \<lparr>m_state = EXISTS, m_controlMask = 0, enabled = False, m_nPorts = n, connectedPorts = 0,
              m_context = \<lparr>ctx_properties = replicate (propertySize d) 0, ctx_runCondition = d_runCondition d,
                           ctx_errorString = None, m_errorString = None, ctx_current = replicate n False\<rparr>,
              m_runCondition = dflt, m_defaultRunCondition = dflt, runConditionSS = ourMask,
              worker_run_count = 0\<rparr>
     in if NOT ourMask AND optionallyConnectedPorts d \<noteq> 0
        then Inl (WorkerThrow ''optional port mask is invalid'')
        else (case d_runCondition d of
                None \<Rightarrow> Inr w
              | Some rc \<Rightarrow>
                  if \<exists>m\<in>set (case portMasks rc of None \<Rightarrow> [] | Some ms \<Rightarrow> ms). NOT ourMask AND m \<noteq> 0
                  then Inl (WorkerThrow ''run condition mask is invalid'')
                  else Inr (w\<lparr>m_runCondition := rc, runConditionSS := mask_union rc\<rparr>)))"

definition portIsConnected :: "nat \<Rightarrow> rcc_worker \<Rightarrow> rcc_worker" where
  "portIsConnected ordinal w = w\<lparr>connectedPorts := connectedPorts w OR push_bit ordinal 1\<rparr>"

subsection \<open>RCC control operations\<close>

definition call_method :: "worker_method option \<Rightarrow> rcc_worker \<Rightarrow> rcc_result \<times> rcc_worker" where
  "call_method f w =
     (case f of
        None \<Rightarrow> (RCC_OK, w)
      | Some g \<Rightarrow> (case g (m_context w) of (rc, c) \<Rightarrow> (rc, w\<lparr>m_context := c\<rparr>)))"

definition disable :: "rcc_worker \<Rightarrow> rcc_worker" where
  "disable w = w\<lparr>enabled := False\<rparr>"

definition mandatory :: "rcc_dispatch \<Rightarrow> rcc_worker \<Rightarrow> u32" where
  "mandatory d w = port_mask (m_nPorts w) AND NOT (optionallyConnectedPorts d)"

definition all_connected :: "rcc_dispatch \<Rightarrow> rcc_worker \<Rightarrow> bool" where
  "all_connected d w \<longleftrightarrow> mandatory d w AND connectedPorts w = mandatory d w"

text \<open>The switch over the operations: an exception, or the result of the worker's method.\<close>

fun operation_body :: "rcc_dispatch \<Rightarrow> control_op \<Rightarrow> rcc_worker \<Rightarrow> (worker_error + rcc_result) \<times> rcc_worker" where
  "operation_body d OpInitialize w = (case call_method (d_initialize d) w of (rc, w1) \<Rightarrow> (Inr rc, w1))"
| "operation_body d OpStart w =
     (if \<not> all_connected d w then (Inl (WorkerThrow ''A port of the worker is not connected''), w)
      else (case call_method (d_start d) w of
              (rc, w1) \<Rightarrow> (Inr rc, if rc = RCC_OK then w1\<lparr>enabled := True\<rparr> else w1)))"
| "operation_body d OpStop w =
     (case call_method (d_stop d) w of
        (rc, w1) \<Rightarrow> (Inr rc, if rc \<noteq> RCC_OK then w1 else setControlState SUSPENDED (disable w1)))"
| "operation_body d OpRelease w =
     (case call_method (d_release d) (disable w) of
        (rc, w1) \<Rightarrow> (Inr rc, setControlState UNUSABLE w1))"
| "operation_body d OpTest w =
     (case d_test d of
        None \<Rightarrow> (Inl (WorkerThrow ''Worker has no test implementation''), w)
      | Some f \<Rightarrow> (case call_method (Some f) w of (rc, w1) \<Rightarrow> (Inr rc, w1)))"
| "operation_body d OpBeforeQuery w = (case call_method (d_beforeQuery d) w of (rc, w1) \<Rightarrow> (Inr rc, w1))"
| "operation_body d OpAfterConfigure w = (case call_method (d_afterConfigure d) w of (rc, w1) \<Rightarrow> (Inr rc, w1))"

text \<open>The pending error text is dropped after every operation; it is the text of an exception, if any.\<close>

definition pending_error :: "rcc_worker \<Rightarrow> string option" where
  "pending_error w =
     (case ctx_errorString (m_context w) of Some e \<Rightarrow> Some e | None \<Rightarrow> m_errorString (m_context w))"

definition clear_error :: "rcc_worker \<Rightarrow> rcc_worker" where
  "clear_error w =
     (if pending_error w = None then w
      else w\<lparr>m_context := (m_context w)\<lparr>ctx_errorString := None, m_errorString := None\<rparr>\<rparr>)"

definition the_text :: "string option \<Rightarrow> string" where
  "the_text e = (case e of None \<Rightarrow> [] | Some s \<Rightarrow> s)"

definition conclude :: "rcc_result \<Rightarrow> string option \<Rightarrow> rcc_worker \<Rightarrow> worker_error option \<times> rcc_worker" where
  "conclude rc err w =
     (case rc of
        RCC_OK \<Rightarrow> (None, w)
      | RCC_ERROR \<Rightarrow> (Some (WorkerThrow (the_text err)), w)
      | RCC_FATAL \<Rightarrow> (Some (WorkerThrow (the_text err)), setControlState UNUSABLE (disable w))
      | _ \<Rightarrow> (Some (WorkerThrow ''Control operation returned invalid RCCResult''), disable w))"

definition controlOperation :: "rcc_dispatch \<Rightarrow> control_op \<Rightarrow> rcc_worker \<Rightarrow> worker_error option \<times> rcc_worker" where
  "controlOperation d op w =
     (case operation_body d op w of
        (Inl e, w1) \<Rightarrow> (Some e, w1)
      | (Inr rc, w1) \<Rightarrow> conclude rc (pending_error w1) (clear_error w1))"

definition rcc_controlOp :: "rcc_dispatch \<Rightarrow> control_op \<Rightarrow> rcc_worker \<Rightarrow> worker_error option \<times> rcc_worker \<times> bool" where
  "rcc_controlOp d = controlOp (\<lambda>w. w) (controlOperation d)"

definition portError :: "rcc_dispatch \<Rightarrow> rcc_worker \<Rightarrow> worker_error option \<times> rcc_worker" where
  "portError d w =
     (case controlOperation d OpStop (disable w) of
        (Some e, w1) \<Rightarrow> (Some e, w1)
      | (None, w1) \<Rightarrow>
          (case controlOperation d OpRelease w1 of
             (Some e, w2) \<Rightarrow> (Some e, w2)
           | (None, w2) \<Rightarrow> (None, setControlState UNUSABLE w2)))"

subsection \<open>Running a worker\<close>

text \<open>The surroundings of a run: the timer, the readiness of the ports, their callbacks and advance.\<close>

record run_env =
  e_expired :: bool
  e_ready :: "nat \<Rightarrow> bool"
  e_callBack :: "nat \<Rightarrow> worker_method option"
  e_advance :: "nat \<Rightarrow> rcc_context \<Rightarrow> rcc_context"

definition getReadyPorts :: "run_env \<Rightarrow> rcc_worker \<Rightarrow> u32" where
  "getReadyPorts env w =
     fold (\<lambda>n m. if bit (connectedPorts w AND runConditionSS w) n \<and> e_ready env n then set_bit n m else m)
       [0..<m_nPorts w] 0"

text \<open>Whether the run condition is met, by a timeout, and the ready ports.\<close>

definition run_condition_met :: "rcc_dispatch \<Rightarrow> run_env \<Rightarrow> rcc_worker \<Rightarrow> bool \<times> bool \<times> u32" where
  "run_condition_met d env w =
     (case portMasks (m_runCondition w) of
        None \<Rightarrow> (True, False, 0)
      | Some ms \<Rightarrow>
          if rc_timeout (m_runCondition w) \<and> e_expired env then (True, True, 0)
          else if ms = [] then (False, False, 0)
          else
            let readyMask = getReadyPorts env w OR (optionallyConnectedPorts d AND NOT (connectedPorts w)) in
            if readyMask = 0 then (False, False, 0)
            else (\<exists>m\<in>set ms. m AND readyMask = m, False, readyMask))"

text \<open>The callbacks, in port order, as long as \<^verbatim>\<open>mtest < readyMask\<close>.\<close>

fun run_callbacks :: "run_env \<Rightarrow> u32 \<Rightarrow> nat list \<Rightarrow> rcc_worker \<times> bool \<Rightarrow> rcc_worker \<times> bool" where
  "run_callbacks env readyMask [] (w, execute_run) = (w, execute_run)"
| "run_callbacks env readyMask (n # ns) (w, execute_run) =
     (if \<not> push_bit n 1 < readyMask then (w, execute_run)
      else (case (if bit readyMask n then e_callBack env n else None) of
              None \<Rightarrow> run_callbacks env readyMask ns (w, execute_run)
            | Some f \<Rightarrow>
                (case call_method (Some f) w of
                   (rc, w1) \<Rightarrow> run_callbacks env readyMask ns
                     (if rc \<noteq> RCC_OK then setControlState UNUSABLE (disable w1) else w1, False))))"

definition advanceAll :: "run_env \<Rightarrow> rcc_worker \<Rightarrow> rcc_worker" where
  "advanceAll env w =
     fold (\<lambda>n w. if n < length (ctx_current (m_context w)) \<and> ctx_current (m_context w) ! n
                  then w\<lparr>m_context := e_advance env n (m_context w)\<rparr> else w) [0..<m_nPorts w] w"

definition new_run_condition :: "rcc_worker \<Rightarrow> rcc_worker" where
  "new_run_condition w =
     (let rc = (case ctx_runCondition (m_context w) of Some rc \<Rightarrow> rc | None \<Rightarrow> m_defaultRunCondition w)
      in w\<lparr>m_runCondition := rc, runConditionSS := mask_union rc\<rparr>)"

definition apply_result :: "run_env \<Rightarrow> rcc_result \<Rightarrow> rcc_worker \<Rightarrow> rcc_worker" where
  "apply_result env rc w =
     (if m_state w = UNUSABLE then w
      else (case rc of
              RCC_ADVANCE \<Rightarrow> advanceAll env w
            | RCC_ADVANCE_DONE \<Rightarrow> setControlState FINISHED (disable (advanceAll env w))
            | RCC_DONE \<Rightarrow> setControlState FINISHED (disable w)
            | RCC_OK \<Rightarrow> w
            | _ \<Rightarrow> setControlState UNUSABLE (disable w)))"

definition execute_run ::
    "rcc_dispatch \<Rightarrow> run_env \<Rightarrow> (bool \<Rightarrow> rcc_context \<Rightarrow> (rcc_result \<times> bool \<times> bool) \<times> rcc_context) \<Rightarrow>
     bool \<Rightarrow> rcc_worker \<Rightarrow> worker_error option \<times> rcc_worker" where
  "execute_run d env f timeout w =
     (case f timeout (m_context w) of ((rc, newRunCondition, port_failed), c) \<Rightarrow>
      (case (if port_failed then portError d (w\<lparr>m_context := c\<rparr>) else (None, w\<lparr>m_context := c\<rparr>)) of
         (Some e, w1) \<Rightarrow> (Some e, w1)
       | (None, w1) \<Rightarrow>
           (case pending_error w1 of
              Some err \<Rightarrow> (Some (WorkerThrow (''Worker produced error during execution: '' @ err)), clear_error w1)
            | None \<Rightarrow>
                let w2 = (if newRunCondition then new_run_condition w1 else w1);
                    w3 = apply_result env rc w2
                in (None, w3\<lparr>worker_run_count := worker_run_count w3 + 1\<rparr>))))"

definition run :: "rcc_dispatch \<Rightarrow> run_env \<Rightarrow> rcc_worker \<Rightarrow> worker_error option \<times> rcc_worker \<times> bool" where
  "run d env w =
     (if \<not> enabled w then (None, w, False)
      else
        (case run_condition_met d env w of (met, timeout, readyMask) \<Rightarrow>
         if \<not> met then (None, w, False)
         else
           (case run_callbacks env readyMask [0..<32] (w, True) of (w1, exec) \<Rightarrow>
            if \<not> enabled w1 then (Some WorkerAbort, w1, False)
            else (case d_run d of
                    None \<Rightarrow> (None, w1, False)
                  | Some f \<Rightarrow>
                      if exec then (case execute_run d env f timeout w1 of (e, w2) \<Rightarrow> (e, w2, True))
                      else (None, w1, False)))))"

subsection \<open>Outcome of a control operation\<close>

definition legal :: "control_op \<Rightarrow> control_state \<Rightarrow> bool" where
  "legal op cs \<longleftrightarrow> cs \<noteq> NONE \<and> cs \<in> set (valid_states op)"

definition ignored :: "control_op \<Rightarrow> control_state \<Rightarrow> bool" where
  "ignored op cs \<longleftrightarrow> cs = FINISHED \<and> op \<in> {OpStart, OpStop} \<or> next_state op \<noteq> NONE \<and> cs = next_state op"

definition goal_state :: "control_op \<Rightarrow> control_state \<Rightarrow> control_state" where
  "goal_state op cs = (if ignored op cs \<or> next_state op = NONE then cs else next_state op)"

lemma controlOp_cases:
  assumes "m_state (checkState w) \<noteq> NONE"
  shows "controlOp checkState operate op w =
     (let w1 = checkState w; cs = m_state w1 in
      if ignored op cs then (None, w1, \<not> (cs = FINISHED \<and> op \<in> {OpStart, OpStop}))
      else if legal op cs then
        (case operate op w1 of
           (Some e, w2) \<Rightarrow> (Some e, w2, False)
         | (None, w2) \<Rightarrow> (None, if next_state op \<noteq> NONE then setControlState (next_state op) w2 else w2, True))
      else (Some (WorkerThrow ''Control operation failed on worker''), w1, False))"
  using assms
  by (cases op; cases "m_state (checkState w)")
     (simp_all add: controlOp_def ignored_def legal_def Let_def eval_nat_numeral
       split: prod.split option.split)

text \<open>
  The contract between the generic worker and its container: polling does not move the worker, a
  successful query keeps its state, and a failed operation leaves it in its state or unusable.
\<close>

locale worker_container =
  fixes checkState :: "'a controllable_scheme \<Rightarrow> 'a controllable_scheme"
    and operate :: "control_op \<Rightarrow> 'a controllable_scheme \<Rightarrow> worker_error option \<times> 'a controllable_scheme"
  assumes poll_keeps: "m_state (checkState w) = m_state w"
    and query_keeps: "operate op w = (None, w') \<Longrightarrow> next_state op = NONE \<Longrightarrow> m_state w' = m_state w"
    and failure_keeps: "operate op w = (Some e, w') \<Longrightarrow> m_state w' = m_state w \<or> m_state w' = UNUSABLE"
begin

lemma success_state:
  assumes "m_state w \<noteq> NONE" "controlOp checkState operate op w = (None, w', started)"
  shows "m_state w' = goal_state op (m_state w) \<and> (ignored op (m_state w) \<or> legal op (m_state w))"
proof -
  have "m_state (checkState w) \<noteq> NONE" using assms(1) by (simp add: poll_keeps)
  from controlOp_cases [of checkState w, OF this, of operate op] assms(2) show ?thesis
    using query_keeps [of op "checkState w"]
    by (auto simp: Let_def poll_keeps goal_state_def setControlState_def
        split: if_splits prod.splits option.splits)
qed

lemma failure_state:
  assumes "m_state w \<noteq> NONE" "controlOp checkState operate op w = (Some e, w', started)"
  shows "\<not> started \<and> (m_state w' = m_state w \<or> m_state w' = UNUSABLE) \<and>
     (\<not> legal op (m_state w) \<longrightarrow> w' = checkState w)"
proof -
  have "m_state (checkState w) \<noteq> NONE" using assms(1) by (simp add: poll_keeps)
  from controlOp_cases [of checkState w, OF this, of operate op] assms(2) show ?thesis
    using failure_keeps [of op "checkState w"]
    by (auto simp: Let_def poll_keeps split: if_splits prod.splits option.splits)
qed

lemma unusable_rejects:
  assumes "m_state w = UNUSABLE"
  shows "\<exists>e. controlOp checkState operate op w = (Some e, checkState w, False)"
proof -
  have "m_state (checkState w) \<noteq> NONE" using assms by (simp add: poll_keeps)
  from controlOp_cases [of checkState w, OF this, of operate op] assms show ?thesis
    by (cases op) (simp_all add: Let_def poll_keeps ignored_def legal_def)
qed

end

subsection \<open>RCC workers keep the contract\<close>

lemma worker_simps [simp]:
  "m_state (setControlState s w) = s" "m_state (disable v) = m_state v" "enabled (disable v) = False"
  "enabled (setControlState s v) = enabled v" "connectedPorts (setControlState s v) = connectedPorts v"
  "connectedPorts (disable v) = connectedPorts v" "m_nPorts (setControlState s v) = m_nPorts v"
  "m_nPorts (disable v) = m_nPorts v"
  by (simp_all add: setControlState_def disable_def)

lemma call_method_keeps:
  assumes "call_method f w = (rc, w')"
  shows "m_state w' = m_state w" "enabled w' = enabled w" "connectedPorts w' = connectedPorts w"
    "m_nPorts w' = m_nPorts w"
  using assms by (auto simp: call_method_def split: option.splits prod.splits)

lemma clear_error_keeps [simp]:
  "m_state (clear_error w) = m_state w" "enabled (clear_error w) = enabled w"
  "connectedPorts (clear_error w) = connectedPorts w" "m_nPorts (clear_error w) = m_nPorts w"
  by (simp_all add: clear_error_def)

lemma conclude_None: "conclude rc err w = (None, w') \<longleftrightarrow> rc = RCC_OK \<and> w' = w"
  by (cases rc) (auto simp: conclude_def)

lemma conclude_Some:
  assumes "conclude rc err w = (Some e, w')"
  shows "rc \<noteq> RCC_OK" "m_state w' = m_state w \<or> m_state w' = UNUSABLE \<and> \<not> enabled w'"
    "enabled w' \<longrightarrow> enabled w" "connectedPorts w' = connectedPorts w" "m_nPorts w' = m_nPorts w"
  using assms by (cases rc; auto simp: conclude_def)+

lemmas operation_splits = if_splits prod.splits option.splits sum.splits

lemma operation_body_keeps:
  assumes "operation_body d op w = (r, w')"
  shows "connectedPorts w' = connectedPorts w" "m_nPorts w' = m_nPorts w"
    "r \<noteq> Inr RCC_OK \<Longrightarrow> m_state w' = m_state w \<or> op = OpRelease \<and> m_state w' = UNUSABLE \<and> \<not> enabled w'"
    "next_state op = NONE \<Longrightarrow> m_state w' = m_state w"
    "op \<noteq> OpStart \<or> r \<noteq> Inr RCC_OK \<Longrightarrow> enabled w' \<Longrightarrow> enabled w"
    "op = OpStart \<Longrightarrow> enabled w' \<Longrightarrow> \<not> enabled w \<Longrightarrow> all_connected d w"
    "op \<in> {OpStop, OpRelease} \<Longrightarrow> r = Inr RCC_OK \<Longrightarrow> \<not> enabled w'"
  using assms by (cases op; auto dest: call_method_keeps split: operation_splits)+

lemma controlOperation_None:
  assumes "controlOperation d op w = (None, w')"
  obtains w1 where "operation_body d op w = (Inr RCC_OK, w1)" "w' = clear_error w1"
  using assms by (auto simp: controlOperation_def conclude_None split: operation_splits)

lemma controlOperation_Some:
  assumes "controlOperation d op w = (Some e, w')"
  obtains r w1 where "operation_body d op w = (r, w1)" "r \<noteq> Inr RCC_OK"
    "m_state w' = m_state w1 \<or> m_state w' = UNUSABLE \<and> \<not> enabled w'" "enabled w' \<longrightarrow> enabled w1"
    "connectedPorts w' = connectedPorts w1" "m_nPorts w' = m_nPorts w1"
proof -
  obtain r w1 where b: "operation_body d op w = (r, w1)" by fastforce
  show thesis
  proof (cases r)
    case (Inl x)
    with assms b show thesis by (intro that [OF b]) (auto simp: controlOperation_def)
  next
    case (Inr rc)
    with assms b have "conclude rc (pending_error w1) (clear_error w1) = (Some e, w')"
      by (simp add: controlOperation_def)
    from conclude_Some [OF this] Inr b show thesis by (intro that [OF b]) auto
  qed
qed

interpretation rcc: worker_container "\<lambda>w. w" "controlOperation d" for d
proof
  fix op :: control_op and w w' :: rcc_worker and e
  show "m_state w = m_state w" by simp
  show "m_state w' = m_state w" if "controlOperation d op w = (None, w')" "next_state op = NONE"
    using that by (auto elim!: controlOperation_None dest: operation_body_keeps(4))
  show "m_state w' = m_state w \<or> m_state w' = UNUSABLE" if "controlOperation d op w = (Some e, w')"
    using that by (rule controlOperation_Some) (metis operation_body_keeps(3))
qed

subsection \<open>Reachable workers\<close>

inductive worker_step :: "rcc_dispatch \<Rightarrow> rcc_worker \<Rightarrow> rcc_worker \<Rightarrow> bool" for d where
  control: "rcc_controlOp d op w = (e, w', s) \<Longrightarrow> worker_step d w w'"
| running: "run d env w = (e, w', s) \<Longrightarrow> worker_step d w w'"
| connected: "worker_step d w (portIsConnected n w)"
| port_failed: "portError d w = (e, w') \<Longrightarrow> worker_step d w w'"

inductive worker_reachable :: "rcc_dispatch \<Rightarrow> rcc_worker \<Rightarrow> bool" for d where
  created: "initializeContext d meta = Inr w \<Longrightarrow> worker_reachable d w"
| step: "worker_reachable d w \<Longrightarrow> worker_step d w w' \<Longrightarrow> worker_reachable d w'"

inductive_cases worker_stepE: "worker_step d w w'"

definition worker_inv :: "rcc_dispatch \<Rightarrow> rcc_worker \<Rightarrow> bool" where
  "worker_inv d w \<longleftrightarrow> m_state w \<noteq> NONE \<and> (enabled w \<longrightarrow> m_state w = OPERATING \<and> all_connected d w)"

lemma all_connected_cong:
  "connectedPorts w' = connectedPorts w \<Longrightarrow> m_nPorts w' = m_nPorts w \<Longrightarrow> all_connected d w' = all_connected d w"
  by (simp add: all_connected_def mandatory_def)

lemma all_connected_iff:
  "all_connected d w \<longleftrightarrow> (\<forall>n. bit (mandatory d w) n \<longrightarrow> bit (connectedPorts w) n)"
proof
  show "\<forall>n. bit (mandatory d w) n \<longrightarrow> bit (connectedPorts w) n" if a: "all_connected d w"
  proof (intro allI impI)
    fix n assume "bit (mandatory d w) n"
    then have "bit (mandatory d w AND connectedPorts w) n" using a by (simp only: all_connected_def)
    then show "bit (connectedPorts w) n" by (simp add: bit_and_iff)
  qed
  show "all_connected d w" if "\<forall>n. bit (mandatory d w) n \<longrightarrow> bit (connectedPorts w) n"
    using that by (auto simp: all_connected_def bit_eq_iff bit_and_iff)
qed

text \<open>\<open>shrinks w w'\<close>: the worker was at most disabled and its connections are the same.\<close>

definition shrinks :: "rcc_worker \<Rightarrow> rcc_worker \<Rightarrow> bool" where
  "shrinks w w' \<longleftrightarrow> connectedPorts w' = connectedPorts w \<and> m_nPorts w' = m_nPorts w \<and>
     (enabled w' \<longrightarrow> enabled w \<and> m_state w' = m_state w) \<and> (m_state w \<noteq> NONE \<longrightarrow> m_state w' \<noteq> NONE)"

lemma shrinks_refl [simp]: "shrinks w w"
  by (simp add: shrinks_def)

lemma shrinks_trans: "shrinks w w' \<Longrightarrow> shrinks w' w'' \<Longrightarrow> shrinks w w''"
  by (auto simp: shrinks_def)

lemma worker_inv_shrinks: "worker_inv d w \<Longrightarrow> shrinks w w' \<Longrightarrow> worker_inv d w'"
  using all_connected_cong [of w' w d] by (auto simp: worker_inv_def shrinks_def)

lemma context_shrinks [simp]: "shrinks w (w\<lparr>m_context := c\<rparr>)" "shrinks w (clear_error w)"
  "shrinks w (w\<lparr>worker_run_count := k\<rparr>)" "shrinks w (new_run_condition w)"
  by (simp_all add: shrinks_def new_run_condition_def Let_def)

lemma call_method_keeps_all:
  "call_method f w = (rc, w') \<Longrightarrow> m_state w' = m_state w \<and> enabled w' = enabled w \<and>
     connectedPorts w' = connectedPorts w \<and> m_nPorts w' = m_nPorts w"
  by (simp add: call_method_keeps)

lemma operation_OK_shrinks:
  assumes "operation_body d op w = (Inr RCC_OK, w')" "op \<noteq> OpStart"
  shows "shrinks w w'"
  using assms
  by (cases op) (auto simp: shrinks_def split: operation_splits dest!: call_method_keeps_all)

lemma controlOperation_shrinks:
  assumes "controlOperation d op w = (e, w')" "op \<noteq> OpStart \<or> e \<noteq> None"
  shows "shrinks w w'"
proof (cases e)
  case None
  from assms(1)[unfolded None] obtain w1 where b: "operation_body d op w = (Inr RCC_OK, w1)" "w' = clear_error w1"
    by (rule controlOperation_None)
  then show ?thesis
    using None assms(2) operation_OK_shrinks shrinks_trans context_shrinks(2) by metis
next
  case (Some x)
  from assms(1)[unfolded Some] obtain r w1 where b: "operation_body d op w = (r, w1)" "r \<noteq> Inr RCC_OK"
    "m_state w' = m_state w1 \<or> m_state w' = UNUSABLE \<and> \<not> enabled w'" "enabled w' \<longrightarrow> enabled w1"
    "connectedPorts w' = connectedPorts w1" "m_nPorts w' = m_nPorts w1"
    by (rule controlOperation_Some)
  have "shrinks w w1"
    using operation_body_keeps(1,2,3,5) [OF b(1)] b(2) by (auto simp: shrinks_def)
  moreover have "shrinks w1 w'" using b by (auto simp: shrinks_def)
  ultimately show ?thesis by (rule shrinks_trans)
qed

lemma shrinks_disable: "shrinks w (disable w)" "s \<noteq> NONE \<Longrightarrow> shrinks w (setControlState s (disable w))"
  by (auto simp: shrinks_def)

lemma portError_shrinks:
  assumes "portError d w = (e, w')"
  shows "shrinks w w'" "\<not> enabled w'" "e = None \<Longrightarrow> m_state w' = UNUSABLE"
proof -
  obtain e1 w1 where s: "controlOperation d OpStop (disable w) = (e1, w1)" by fastforce
  obtain e2 w2 where r: "controlOperation d OpRelease w1 = (e2, w2)" by fastforce
  have s1: "shrinks (disable w) w1" "shrinks w1 w2" using s r by (auto intro: controlOperation_shrinks)
  then have d: "\<not> enabled w1" "\<not> enabled w2" by (auto simp: shrinks_def)
  have "shrinks w w1" "shrinks w w2"
    using s1 shrinks_disable(1) shrinks_trans by blast+
  then show "shrinks w w'" "\<not> enabled w'" "e = None \<Longrightarrow> m_state w' = UNUSABLE"
    using assms s r d by (auto simp: portError_def shrinks_def split: option.splits)
qed

lemma call_method_shrinks: "call_method f w = (rc, w') \<Longrightarrow> shrinks w w'"
  using call_method_keeps by (auto simp: shrinks_def)

lemma run_callbacks_shrinks: "run_callbacks env m ns (w, x) = (w', x') \<Longrightarrow> shrinks w w'"
proof (induction ns arbitrary: w x)
  case (Cons n ns)
  let ?cb = "if bit m n then e_callBack env n else None"
  show ?case
  proof (cases "\<not> push_bit n 1 < m \<or> ?cb = None")
    case True
    with Cons show ?thesis by (auto split: if_splits)
  next
    case False
    then obtain f where f: "?cb = Some f" by blast
    obtain rc w1 where c: "call_method (Some f) w = (rc, w1)" by fastforce
    let ?w2 = "if rc \<noteq> RCC_OK then setControlState UNUSABLE (disable w1) else w1"
    have "shrinks w1 ?w2" using shrinks_disable(2) [of UNUSABLE w1] by simp
    moreover have "shrinks ?w2 w'" using False f c Cons.prems by (intro Cons.IH [of ?w2 False]) simp
    ultimately show ?thesis using call_method_shrinks [OF c] shrinks_trans by blast
  qed
qed simp

lemma advanceAll_shrinks [simp]: "shrinks w (advanceAll env w)"
proof -
  have "shrinks w (fold (\<lambda>n w. if n < length (ctx_current (m_context w)) \<and> ctx_current (m_context w) ! n
      then w\<lparr>m_context := e_advance env n (m_context w)\<rparr> else w) ns w)" for ns and w :: rcc_worker
    by (induction ns arbitrary: w) (auto intro: shrinks_trans context_shrinks(1))
  then show ?thesis by (simp add: advanceAll_def)
qed

lemma apply_result_shrinks [simp]: "shrinks w (apply_result env rc w)"
  using shrinks_disable(2) [of _ w] shrinks_trans [OF advanceAll_shrinks shrinks_disable(2)]
  by (cases rc) (auto simp: apply_result_def)

lemma finish_run_shrinks:
  "shrinks w ((apply_result env rc w)\<lparr>worker_run_count := k\<rparr>)"
  "shrinks w ((apply_result env rc (new_run_condition w))\<lparr>worker_run_count := k\<rparr>)"
  by (rule shrinks_trans [OF apply_result_shrinks context_shrinks(3)]
      shrinks_trans [OF context_shrinks(4) shrinks_trans [OF apply_result_shrinks context_shrinks(3)]])+

lemma execute_run_shrinks:
  assumes "execute_run d env f timeout w = (e, w')"
  shows "shrinks w w'"
proof -
  obtain rc nrc pf c where f: "f timeout (m_context w) = ((rc, nrc, pf), c)" by (metis surj_pair)
  obtain e1 w1 where p: "(if pf then portError d (w\<lparr>m_context := c\<rparr>) else (None, w\<lparr>m_context := c\<rparr>)) = (e1, w1)"
    by fastforce
  have "shrinks w w1"
    using p portError_shrinks(1) [of d "w\<lparr>m_context := c\<rparr>"] shrinks_trans [OF context_shrinks(1)]
    by (auto split: if_splits)
  moreover have "shrinks w1 w'"
    using assms p unfolding execute_run_def f
    by (auto simp: Let_def finish_run_shrinks split: option.splits if_splits)
  ultimately show ?thesis by (rule shrinks_trans)
qed

lemma run_shrinks:
  assumes "run d env w = (e, w', s)"
  shows "shrinks w w'"
  using assms execute_run_shrinks shrinks_trans
  by (auto simp: run_def dest!: run_callbacks_shrinks split: if_splits prod.splits option.splits)

lemma controlOp_inv:
  assumes inv: "worker_inv d w" and c: "rcc_controlOp d op w = (e, w', s)"
  shows "worker_inv d w'"
proof -
  have n: "m_state w \<noteq> NONE" using inv by (simp add: worker_inv_def)
  obtain e1 w1 where o: "controlOperation d op w = (e1, w1)" by fastforce
  note r = c [unfolded rcc_controlOp_def controlOp_cases [of "\<lambda>w. w", OF n] Let_def o prod.case]
  show ?thesis
  proof (cases "e1 = None \<and> op = OpStart \<and> \<not> ignored op (m_state w) \<and> legal op (m_state w)")
    case True
    then have o: "controlOperation d OpStart w = (None, w1)" using o by simp
    then obtain w2 where b: "operation_body d OpStart w = (Inr RCC_OK, w2)" "w1 = clear_error w2"
      by (rule controlOperation_None)
    then have "all_connected d w" by (auto split: if_splits)
    then have "all_connected d w'" "w' = setControlState OPERATING w1"
      using True r operation_body_keeps(1,2) [OF b(1)] b(2) all_connected_cong [of w' w d] by auto
    then show ?thesis by (simp add: worker_inv_def)
  next
    case False
    then consider "w' = w" | "w' = w1" "shrinks w w1"
      | "w' = setControlState (next_state op) w1" "shrinks w w1" "next_state op \<noteq> NONE" "op \<noteq> OpStart" "e1 = None"
        "legal op (m_state w)"
      using r controlOperation_shrinks [OF o] by (auto split: if_splits option.splits)
    then show ?thesis
    proof cases
      case 3
      have "\<not> enabled w1"
      proof (cases "op = OpInitialize")
        case True
        then have "m_state w = EXISTS" using 3(6) by (auto simp: legal_def)
        then show ?thesis using inv 3(2) by (auto simp: worker_inv_def shrinks_def)
      next
        case False
        then have "op \<in> {OpStop, OpRelease}" using 3(3,4) by (cases op) auto
        moreover from o 3(5) obtain w2 where b: "operation_body d op w = (Inr RCC_OK, w2)" "w1 = clear_error w2"
          by (auto elim: controlOperation_None)
        ultimately show ?thesis using operation_body_keeps(7) [OF b(1)] by simp
      qed
      then show ?thesis using 3 by (simp add: worker_inv_def)
    qed (use inv worker_inv_shrinks in auto)
  qed
qed

lemma initialize_inv: "initializeContext d meta = Inr w \<Longrightarrow> worker_inv d w"
  by (auto simp: initializeContext_def Let_def worker_inv_def split: if_splits option.splits)

lemma connected_inv: "worker_inv d w \<Longrightarrow> worker_inv d (portIsConnected n w)"
  by (auto simp: worker_inv_def portIsConnected_def all_connected_iff mandatory_def bit_or_iff)

lemma worker_step_inv: "worker_step d w w' \<Longrightarrow> worker_inv d w \<Longrightarrow> worker_inv d w'"
  by (erule worker_stepE)
     (auto intro: controlOp_inv connected_inv worker_inv_shrinks run_shrinks portError_shrinks(1))

lemma reachable_inv: "worker_reachable d w \<Longrightarrow> worker_inv d w"
  by (induction rule: worker_reachable.induct) (auto intro: initialize_inv worker_step_inv)

subsection \<open>Properties of workers\<close>


definition idle_dispatch :: rcc_dispatch where
  "idle_dispatch =
     \<lparr>d_initialize = None, d_start = None, d_stop = None, d_release = None, d_test = None,
      d_beforeQuery = None, d_afterConfigure = None, d_run = None, d_runCondition = None,
      d_numPorts = 1, optionallyConnectedPorts = 0, propertySize = 4\<rparr>"

definition the_worker :: "worker_error option \<times> rcc_worker \<times> bool \<Rightarrow> rcc_worker" where
  "the_worker r = fst (snd r)"

lemma step_control: "worker_reachable d w \<Longrightarrow> worker_reachable d (the_worker (rcc_controlOp d op w))"
  by (cases "rcc_controlOp d op w") (auto simp: the_worker_def intro: worker_reachable.step worker_step.control)


text \<open>
  Claim C3: what a control operation on an RCC worker does. When it reports success, the operation
  was legal in the worker's state or is ignored there, and the worker is in the state that the
  transition table names; when it fails, the container is not started, the worker is in its old
  state or unusable, and an operation that is not legal has changed nothing.
\<close>
theorem controlOp_outcome:
  assumes "m_state w \<noteq> NONE" "rcc_controlOp d op w = (e, w', started)"
  shows "case e of
     None \<Rightarrow> m_state w' = goal_state op (m_state w) \<and> (ignored op (m_state w) \<or> legal op (m_state w))
   | Some x \<Rightarrow> \<not> started \<and> (m_state w' = m_state w \<or> m_state w' = UNUSABLE) \<and>
       (\<not> legal op (m_state w) \<longrightarrow> w' = w)"
  using assms rcc.success_state [of w d op w' started] rcc.failure_state [of w d op _ w' started]
  by (auto simp: rcc_controlOp_def split: option.split)

definition idle_worker :: "control_state \<Rightarrow> rcc_worker" where
  "idle_worker s =
     \<lparr>m_state = s, m_controlMask = 0, enabled = False, m_nPorts = 1, connectedPorts = 1,
      m_context = \<lparr>ctx_properties = [0, 0, 0, 0], ctx_runCondition = None, ctx_errorString = None,
                   m_errorString = None, ctx_current = [False]\<rparr>,
      m_runCondition = \<lparr>portMasks = Some [1], rc_timeout = False\<rparr>,
      m_defaultRunCondition = \<lparr>portMasks = Some [1], rc_timeout = False\<rparr>,
      runConditionSS = 1, worker_run_count = 0\<rparr>"

theorem controlOp_outcome_witness:
  "\<exists>w' s. rcc_controlOp idle_dispatch OpStart (idle_worker SUSPENDED) = (None, w', s) \<and> m_state w' = OPERATING"
proof -
  obtain w' s where r: "rcc_controlOp idle_dispatch OpStart (idle_worker SUSPENDED) = (None, w', s)"
    by (auto simp: rcc_controlOp_def controlOp_def Let_def controlOperation_def call_method_def
        idle_dispatch_def conclude_def idle_worker_def all_connected_def mandatory_def port_mask_def
        clear_error_def pending_error_def)
  from controlOp_outcome [OF _ r] r show ?thesis
    by (simp add: goal_state_def ignored_def idle_worker_def)
qed

text \<open>
  An unusable worker that is not enabled stays so: every control operation is refused
  without changing it, a run does nothing, and a port error leaves it unusable and not enabled.
\<close>
theorem unusable_worker_is_final:
  assumes "m_state w = UNUSABLE" "\<not> enabled w"
  shows "(\<exists>e. rcc_controlOp d op w = (Some e, w, False)) \<and> run d env w = (None, w, False) \<and>
     m_state (snd (portError d w)) = UNUSABLE \<and> \<not> enabled (snd (portError d w))"
proof (intro conjI)
  show "\<exists>e. rcc_controlOp d op w = (Some e, w, False)"
    using rcc.unusable_rejects [OF assms(1), of d op] by (simp add: rcc_controlOp_def)
  show "run d env w = (None, w, False)" using assms(2) by (simp add: run_def)
  show "\<not> enabled (snd (portError d w))" using portError_shrinks(2) [of d w] by (metis prod.collapse)
  obtain e1 w1 where s: "controlOperation d OpStop (disable w) = (e1, w1)" by fastforce
  obtain e2 w2 where r: "controlOperation d OpRelease w1 = (e2, w2)" by fastforce
  have 1: "m_state w1 = UNUSABLE" if "e1 \<noteq> None"
    using rcc.failure_keeps [of d OpStop "disable w" _ w1] s that assms(1) by auto
  have 2: "m_state w2 = UNUSABLE" if e: "e2 \<noteq> None"
  proof -
    from r e obtain x where "controlOperation d OpRelease w1 = (Some x, w2)" by auto
    then show ?thesis
      by (rule controlOperation_Some) (auto split: prod.splits)
  qed
  show "m_state (snd (portError d w)) = UNUSABLE"
    using 1 2 s r by (auto simp: portError_def split: option.splits)
qed

theorem unusable_worker_is_final_witness:
  "\<exists>e. rcc_controlOp idle_dispatch OpRelease (idle_worker UNUSABLE) = (Some e, idle_worker UNUSABLE, False)"
proof -
  have "m_state (idle_worker UNUSABLE) = UNUSABLE" "\<not> enabled (idle_worker UNUSABLE)"
    by (simp_all add: idle_worker_def)
  from unusable_worker_is_final [OF this, of idle_dispatch OpRelease] show ?thesis by blast
qed

lemma getReadyPorts_bit:
  assumes "m_nPorts w \<le> 32"
  shows "bit (getReadyPorts env w) n \<longleftrightarrow>
     n < m_nPorts w \<and> bit (connectedPorts w) n \<and> bit (runConditionSS w) n \<and> e_ready env n"
proof -
  let ?f = "\<lambda>n (m :: u32). if bit (connectedPorts w AND runConditionSS w) n \<and> e_ready env n then set_bit n m else m"
  have "bit (fold ?f [0..<k] 0) n \<longleftrightarrow> n < k \<and> bit (connectedPorts w) n \<and> bit (runConditionSS w) n \<and> e_ready env n"
    if "k \<le> 32" for k
    using that
    by (induction k) (auto simp: bit_set_bit_iff bit_and_iff less_Suc_eq dest: bit_imp_le_length)
  then show ?thesis using assms by (simp add: getReadyPorts_def)
qed

lemma unat_push_bit_u32: "k < 32 \<Longrightarrow> unat (push_bit k 1 :: u32) = 2 ^ k"
  by (subst unsigned_push_bit_eq) (simp add: take_bit_nat_eq_self)

lemma run_callbacks_single:
  assumes "n < 32"
  shows "run_callbacks env (push_bit n 1) [0..<32] (w, True) = (w, True)"
proof -
  have le: "\<not> (push_bit m 1 :: u32) < push_bit n 1" if "n \<le> m" "m < 32" for m
    using that assms by (simp only: word_less_nat_alt unat_push_bit_u32 order.strict_trans1) simp
  have "run_callbacks env (push_bit n 1) [k..<32] (w, True) = (w, True)" if "k \<le> 32" for k
    using that
  proof (induction k rule: inc_induct)
    case (step m)
    have "\<not> bit (push_bit n 1 :: u32) m" if "\<not> n \<le> m" using that by (simp only: bit_push_bit_iff) simp
    with step le [of m] show ?case
      by (cases "n \<le> m") (simp_all add: upt_rec [of m] del: push_bit_of_1)
  qed simp
  from this [of 0] show ?thesis by simp
qed

text \<open>
  Claim C32: the run method of a worker with at most 32 ports is called only when it may be: the
  worker is enabled, and its run condition has no masks, or its timeout has expired, or it has a
  mask all of whose ports are either connected, part of the run condition and ready, or optional
  and not connected.
\<close>
theorem run_only_when_ready:
  assumes "m_nPorts w \<le> 32" "run d env w = (e, w', True)"
  shows "enabled w \<and>
     (portMasks (m_runCondition w) = None \<or> (rc_timeout (m_runCondition w) \<and> e_expired env) \<or>
      (\<exists>ms m. portMasks (m_runCondition w) = Some ms \<and> m \<in> set ms \<and>
         (\<forall>n. bit m n \<longrightarrow>
            (bit (connectedPorts w) n \<and> bit (runConditionSS w) n \<and> e_ready env n) \<or>
            (bit (optionallyConnectedPorts d) n \<and> \<not> bit (connectedPorts w) n))))"
proof -
  let ?r = "getReadyPorts env w OR (optionallyConnectedPorts d AND NOT (connectedPorts w))"
  have sub: "bit ?r n" if "m AND ?r = m" "bit m n" for m n
    using that by (metis bit_and_iff)
  have en: "enabled w" "fst (run_condition_met d env w)"
    using assms(2) by (auto simp: run_def split: if_splits prod.splits)
  then have "portMasks (m_runCondition w) = None \<or> (rc_timeout (m_runCondition w) \<and> e_expired env) \<or>
      (\<exists>ms m. portMasks (m_runCondition w) = Some ms \<and> m \<in> set ms \<and> m AND ?r = m)"
    by (auto simp: run_condition_met_def Let_def split: option.splits if_splits)
  then show ?thesis
    using en(1) sub by (fastforce simp: bit_or_iff bit_and_iff bit_not_iff getReadyPorts_bit [OF assms(1)])
qed

theorem run_only_when_ready_witness:
  "let d = idle_dispatch\<lparr>d_run := Some (\<lambda>t c. ((RCC_OK, False, False), c))\<rparr>;
       env = \<lparr>e_expired = False, e_ready = (\<lambda>n. n = 0), e_callBack = (\<lambda>n. None), e_advance = (\<lambda>n c. c)\<rparr>;
       w = (idle_worker OPERATING)\<lparr>enabled := True\<rparr>
   in snd (snd (run d env w)) \<and> enabled w"
proof -
  define d where "d = idle_dispatch\<lparr>d_run := Some (\<lambda>t c. ((RCC_OK, False, False), c))\<rparr>"
  define env where "env = \<lparr>e_expired = False, e_ready = (\<lambda>n. n = 0), e_callBack = (\<lambda>n. None), e_advance = (\<lambda>n c. c)\<rparr>"
  define w where "w = (idle_worker OPERATING)\<lparr>enabled := True\<rparr>"
  have met: "run_condition_met d env w = (True, False, 1)" unfolding d_def env_def w_def by code_simp
  have cb: "run_callbacks env 1 [0..<32] (w, True) = (w, True)" using run_callbacks_single [of 0 env w] by simp
  have w: "enabled w" "m_nPorts w \<le> 32" by (simp_all add: w_def idle_worker_def)
  have f: "d_run d = Some (\<lambda>t c. ((RCC_OK, False, False), c))" by (simp add: d_def)
  have "snd (snd (run d env w))" by (simp only: run_def met cb w f prod.case option.case) (simp split: prod.split)
  then obtain e w' where r: "run d env w = (e, w', True)" by (metis prod.collapse)
  from run_only_when_ready [OF w(2) r] r show ?thesis
    by (simp only: Let_def d_def [symmetric] env_def [symmetric] w_def [symmetric]) simp
qed

text \<open>
  The loop over the port callbacks stops one port early when exactly one port is ready:
  the callback of that port is never called, and the run method is executed in its place.
\<close>
theorem single_ready_port_callback_skipped:
  assumes "n < 32"
  shows "run_callbacks env (push_bit n 1) [0..<32] (w, True) = (w, True)"
  using assms by (rule run_callbacks_single)

theorem single_ready_port_callback_skipped_witness:
  "run_callbacks \<lparr>e_expired = False, e_ready = (\<lambda>n. True), e_callBack = (\<lambda>n. Some (\<lambda>c. (RCC_FATAL, c))),
      e_advance = (\<lambda>n c. c)\<rparr> (push_bit 0 1) [0..<32] (idle_worker OPERATING, True) = (idle_worker OPERATING, True)"
  using single_ready_port_callback_skipped [of 0] by simp

end
