(* ===== verification/WorkerProps.thy ===== *)
theory WorkerProps
  imports Ports DataTypes
begin

text \<open>
  Property values in the memory of an RCC worker: \<^verbatim>\<open>setPropertyValue\<close> and \<^verbatim>\<open>getProperty\<close> of
  \<^verbatim>\<open>core/container/interfaces/src/OcpiWorker.cxx\<close> over the byte accesses of
  \<^verbatim>\<open>core/container/rcc/src/OcpiRccWorker.cxx\<close>. The property memory is a list of bytes; an access
  outside it, which the source does not test, is the error \<open>MemOverrun\<close>. A value is one member of
  the source's union; using another member than the one stored is the error \<open>WrongMember\<close>. Printing of the value is not part of this theory.
\<close>

subsection \<open>Property memory\<close>

datatype prop_error = PropThrow string | MemOverrun | WrongMember

record property =
  pr_baseType :: base_type
  pr_nBits :: nat
  pr_offset :: nat
  pr_align :: nat
  pr_isSequence :: bool
  pr_arrayRank :: nat
  pr_nItems :: nat
  pr_sequenceLength :: nat
  pr_stringLength :: nat

datatype prop_value =
    Scalar nat
  | Text octets
  | Elements nat nat octets \<comment> \<open>\<^verbatim>\<open>m_nElements\<close>, \<^verbatim>\<open>m_nTotal\<close> and the data\<close>
  | Texts nat nat "octets list"

definition rcc_setPropertyBytes :: "nat \<Rightarrow> octets \<Rightarrow> octets \<Rightarrow> prop_error + octets" where
  "rcc_setPropertyBytes off data mem =
     (if off + length data \<le> length mem then Inr (take off mem @ data @ drop (off + length data) mem)
      else Inl MemOverrun)"

definition rcc_getPropertyBytes :: "nat \<Rightarrow> nat \<Rightarrow> octets \<Rightarrow> prop_error + octets" where
  "rcc_getPropertyBytes off n mem =
     (if off + n \<le> length mem then Inr (take n (drop off mem)) else Inl MemOverrun)"

definition rcc_setProperty8 :: "bool \<Rightarrow> property \<Rightarrow> u8 \<Rightarrow> octets \<Rightarrow> prop_error + octets" where
  "rcc_setProperty8 le info v = rcc_setPropertyBytes (pr_offset info) (mem_repr le 1 (unat v))"
definition rcc_setProperty16 :: "bool \<Rightarrow> property \<Rightarrow> u16 \<Rightarrow> octets \<Rightarrow> prop_error + octets" where
  "rcc_setProperty16 le info v = rcc_setPropertyBytes (pr_offset info) (mem_repr le 2 (unat v))"
definition rcc_setProperty32 :: "bool \<Rightarrow> property \<Rightarrow> u32 \<Rightarrow> octets \<Rightarrow> prop_error + octets" where
  "rcc_setProperty32 le info v = rcc_setPropertyBytes (pr_offset info) (mem_repr le 4 (unat v))"
definition rcc_setProperty64 :: "bool \<Rightarrow> property \<Rightarrow> u64 \<Rightarrow> octets \<Rightarrow> prop_error + octets" where
  "rcc_setProperty64 le info v = rcc_setPropertyBytes (pr_offset info) (mem_repr le 8 (unat v))"

definition rcc_getProperty8 :: "bool \<Rightarrow> property \<Rightarrow> octets \<Rightarrow> prop_error + u8" where
  "rcc_getProperty8 le info mem =
     sbind (rcc_getPropertyBytes (pr_offset info) 1 mem) (\<lambda>bs. Inr (of_nat (mem_value le bs)))"
definition rcc_getProperty16 :: "bool \<Rightarrow> property \<Rightarrow> octets \<Rightarrow> prop_error + u16" where
  "rcc_getProperty16 le info mem =
     sbind (rcc_getPropertyBytes (pr_offset info) 2 mem) (\<lambda>bs. Inr (of_nat (mem_value le bs)))"
definition rcc_getProperty32 :: "bool \<Rightarrow> property \<Rightarrow> octets \<Rightarrow> prop_error + u32" where
  "rcc_getProperty32 le info mem =
     sbind (rcc_getPropertyBytes (pr_offset info) 4 mem) (\<lambda>bs. Inr (of_nat (mem_value le bs)))"
definition rcc_getProperty64 :: "bool \<Rightarrow> property \<Rightarrow> octets \<Rightarrow> prop_error + u64" where
  "rcc_getProperty64 le info mem =
     sbind (rcc_getPropertyBytes (pr_offset info) 8 mem) (\<lambda>bs. Inr (of_nat (mem_value le bs)))"

text \<open>
  The checked access to the raw property memory. The sum in the test is a \<^verbatim>\<open>size_t\<close>, which wraps.
\<close>

definition rcc_read :: "u64 \<Rightarrow> u64 \<Rightarrow> u64 \<Rightarrow> octets \<Rightarrow> prop_error + octets" where
  "rcc_read propertySize off nBytes mem =
     (if off + nBytes > propertySize then Inl (PropThrow ''PROPERTY_GET_EXCEPTION'')
      else rcc_getPropertyBytes (unat off) (unat nBytes) mem)"

definition rcc_write :: "u64 \<Rightarrow> u64 \<Rightarrow> u64 \<Rightarrow> octets \<Rightarrow> octets \<Rightarrow> prop_error + octets" where
  "rcc_write propertySize off nBytes src_data mem =
     (if off + nBytes > propertySize then Inl (PropThrow ''PROPERTY_SET_EXCEPTION'')
      else rcc_setPropertyBytes (unat off) (take (unat nBytes) src_data) mem)"

subsection \<open>Setting a value\<close>

definition string_pitch :: "property \<Rightarrow> nat" where
  "string_pitch info = unat (roundUp (of_nat (pr_stringLength info + 1)) 4)"

definition data_offset :: "property \<Rightarrow> nat" where
  "data_offset info = pr_offset info + (if pr_isSequence info then pr_align info else 0)"

fun set_strings :: "nat \<Rightarrow> nat \<Rightarrow> octets list \<Rightarrow> octets \<Rightarrow> prop_error + octets" where
  "set_strings pitch off [] mem = Inr mem"
| "set_strings pitch off (s # ss) mem =
     sbind (rcc_setPropertyBytes off (s @ [0]) mem) (set_strings pitch (off + pitch) ss)"

text \<open>
  The first four bytes of a text are stored last, as one word. A text shorter than that is read
  beyond its terminator; \<open>beyond\<close> has the bytes that lie there.
\<close>

definition first_word :: "octets \<Rightarrow> octets \<Rightarrow> octets" where
  "first_word beyond s = take 4 (s @ 0 # beyond)"

definition set_scalar :: "bool \<Rightarrow> property \<Rightarrow> nat \<Rightarrow> octets \<Rightarrow> prop_error + octets" where
  "set_scalar le info v mem =
     (if pr_nBits info = 8 then rcc_setProperty8 le info (of_nat v) mem
      else if pr_nBits info = 16 then rcc_setProperty16 le info (of_nat v) mem
      else if pr_nBits info = 32 then rcc_setProperty32 le info (of_nat v) mem
      else if pr_nBits info = 64 then rcc_setProperty64 le info (of_nat v) mem
      else Inr mem)"

definition set_count :: "bool \<Rightarrow> property \<Rightarrow> nat \<Rightarrow> octets \<Rightarrow> prop_error + octets" where
  "set_count le info n mem = (if pr_isSequence info then rcc_setProperty32 le info (of_nat n) mem else Inr mem)"

definition set_elements :: "bool \<Rightarrow> property \<Rightarrow> prop_value \<Rightarrow> octets \<Rightarrow> prop_error + octets" where
  "set_elements le info v mem =
     (case (pr_baseType info = OCPI_String, v) of
        (True, Texts nElements nTotal ss) \<Rightarrow>
          sbind (set_strings (string_pitch info) (data_offset info) (take nTotal ss) mem) (set_count le info nElements)
      | (False, Elements nElements nTotal data) \<Rightarrow>
          sbind (if nTotal * (pr_nBits info div 8) \<noteq> 0
                 then rcc_setPropertyBytes (data_offset info) (take (nTotal * (pr_nBits info div 8)) data) mem
                 else Inr mem) (set_count le info nElements)
      | _ \<Rightarrow> Inl WrongMember)"

definition setPropertyValue :: "bool \<Rightarrow> octets \<Rightarrow> property \<Rightarrow> prop_value \<Rightarrow> octets \<Rightarrow> prop_error + octets" where
  "setPropertyValue le beyond info v mem =
     (if pr_baseType info = OCPI_Struct \<or> pr_baseType info = OCPI_Type
      then Inl (PropThrow ''Struct and Typedef properties are not settable'')
      else if pr_isSequence info \<or> pr_arrayRank info > 0 then set_elements le info v mem
      else (case (pr_baseType info = OCPI_String, v) of
         (True, Text s) \<Rightarrow>
           sbind (if length s + 1 > 4
                  then rcc_setPropertyBytes (pr_offset info + 4) (drop 4 (s @ [0])) mem else Inr mem)
             (rcc_setPropertyBytes (pr_offset info) (first_word beyond s))
       | (False, Scalar n) \<Rightarrow> set_scalar le info n mem
       | _ \<Rightarrow> Inl WrongMember))"

subsection \<open>Getting a value\<close>

fun get_strings :: "nat \<Rightarrow> nat \<Rightarrow> nat \<Rightarrow> octets \<Rightarrow> prop_error + octets list" where
  "get_strings pitch off 0 mem = Inr []"
| "get_strings pitch off (Suc n) mem =
     sbind (rcc_getPropertyBytes off pitch mem) (\<lambda>bs.
     sbind (get_strings pitch (off + pitch) n mem) (\<lambda>ss. Inr (c_str bs # ss)))"

definition get_count :: "bool \<Rightarrow> property \<Rightarrow> octets \<Rightarrow> prop_error + nat \<times> nat" where
  "get_count le info mem =
     (if pr_isSequence info then
        sbind (rcc_getProperty32 le info mem) (\<lambda>n.
          if unat n > pr_sequenceLength info
          then Inl (PropThrow ''Worker's %s property has invalid sequence length: %zu'')
          else Inr (unat n, pr_nItems info * unat n))
      else Inr (0, pr_nItems info))"

definition get_scalar :: "bool \<Rightarrow> property \<Rightarrow> octets \<Rightarrow> prop_error + nat" where
  "get_scalar le info mem =
     (if pr_nBits info = 8 then sbind (rcc_getProperty8 le info mem) (\<lambda>v. Inr (unat v))
      else if pr_nBits info = 16 then sbind (rcc_getProperty16 le info mem) (\<lambda>v. Inr (unat v))
      else if pr_nBits info = 32 then sbind (rcc_getProperty32 le info mem) (\<lambda>v. Inr (unat v))
      else if pr_nBits info = 64 then sbind (rcc_getProperty64 le info mem) (\<lambda>v. Inr (unat v))
      else Inr 0)"

definition getPropertyValue :: "bool \<Rightarrow> property \<Rightarrow> octets \<Rightarrow> prop_error + prop_value" where
  "getPropertyValue le info mem =
     (if pr_baseType info = OCPI_Struct \<or> pr_baseType info = OCPI_Type
      then Inl (PropThrow ''Struct and Typedef properties are unsupported'')
      else if pr_isSequence info \<or> pr_arrayRank info > 0 then
        sbind (get_count le info mem) (\<lambda>(nElements, nTotal).
          if pr_baseType info = OCPI_String then
            sbind (get_strings (string_pitch info) (data_offset info) nTotal mem) (\<lambda>ss. Inr (Texts nElements nTotal ss))
          else
            sbind (if nTotal * (pr_nBits info div 8) \<noteq> 0
                   then rcc_getPropertyBytes (data_offset info) (nTotal * (pr_nBits info div 8)) mem else Inr [])
              (\<lambda>bs. Inr (Elements nElements nTotal bs)))
      else if pr_baseType info = OCPI_String then
        sbind (rcc_getPropertyBytes (pr_offset info) (pr_stringLength info + 1) mem) (\<lambda>bs. Inr (Text (c_str bs)))
      else sbind (get_scalar le info mem) (\<lambda>n. Inr (Scalar n)))"

text \<open>Access by ordinal: \<open>None\<close> for an ordinal beyond the properties of the worker.\<close>

definition getProperty :: "bool \<Rightarrow> property list \<Rightarrow> nat \<Rightarrow> octets \<Rightarrow> prop_error + prop_value option" where
  "getProperty le props ordinal mem =
     (if ordinal \<ge> length props then Inr None
      else sbind (getPropertyValue le (props ! ordinal) mem) (\<lambda>v. Inr (Some v)))"

subsection \<open>Laws of the byte accesses\<close>

text \<open>The interface the generic worker relies on, and what follows from it.\<close>

locale property_memory =
  fixes put :: "nat \<Rightarrow> octets \<Rightarrow> 'm \<Rightarrow> prop_error + 'm"
    and get :: "nat \<Rightarrow> nat \<Rightarrow> 'm \<Rightarrow> prop_error + octets"
    and size :: "'m \<Rightarrow> nat"
  assumes put_ok: "off + length bs \<le> size m \<Longrightarrow> \<exists>m'. put off bs m = Inr m' \<and> size m' = size m"
    and get_put: "put off bs m = Inr m' \<Longrightarrow> get off (length bs) m' = Inr bs"
    and get_other: "put off bs m = Inr m' \<Longrightarrow> off + length bs \<le> off' \<or> off' + n \<le> off \<Longrightarrow> get off' n m' = get off' n m"
    and get_split: "get off (i + j) m = sbind (get off i m) (\<lambda>a. sbind (get (off + i) j m) (\<lambda>b. Inr (a @ b)))"
begin

lemma get_prefix: "get off n m = Inr bs \<Longrightarrow> i \<le> n \<Longrightarrow> \<exists>a b. bs = a @ b \<and> get off i m = Inr a"
  using get_split [of off i "n - i" m] by (cases "get off i m"; cases "get (off + i) (n - i) m") auto

lemma put_word_then_get:
  assumes "put off bs m = Inr m'" "put (off + length bs) cs m = Inr m1" "put off bs m1 = Inr m2"
  shows "get off (length bs + length cs) m2 = Inr (bs @ cs)"
proof -
  have "get (off + length bs) (length cs) m2 = Inr cs"
    using get_other [OF assms(3), of "off + length bs" "length cs"] get_put [OF assms(2)] by simp
  then show ?thesis
    using get_split [of off "length bs" "length cs" m2] get_put [OF assms(3)] by simp
qed

end

lemma get_bytes_split:
  "rcc_getPropertyBytes off (i + j) m =
   sbind (rcc_getPropertyBytes off i m) (\<lambda>a. sbind (rcc_getPropertyBytes (off + i) j m) (\<lambda>b. Inr (a @ b)))"
  by (auto simp: rcc_getPropertyBytes_def take_add add.commute add.left_commute)

interpretation rcc_mem: property_memory rcc_setPropertyBytes rcc_getPropertyBytes length
proof
  fix off off' n :: nat and bs m m' :: octets
  show "\<exists>m'. rcc_setPropertyBytes off bs m = Inr m' \<and> length m' = length m" if "off + length bs \<le> length m"
    using that by (simp add: rcc_setPropertyBytes_def)
  show "rcc_getPropertyBytes off (length bs) m' = Inr bs" if "rcc_setPropertyBytes off bs m = Inr m'"
    using that by (auto simp: rcc_setPropertyBytes_def rcc_getPropertyBytes_def split: if_splits)
  show "rcc_getPropertyBytes off' n m' = rcc_getPropertyBytes off' n m"
    if s: "rcc_setPropertyBytes off bs m = Inr m'" and d: "off + length bs \<le> off' \<or> off' + n \<le> off"
  proof -
    have m': "m' = take off m @ bs @ drop (off + length bs) m" "off + length bs \<le> length m"
      using s by (auto simp: rcc_setPropertyBytes_def split: if_splits)
    have "take n (drop off' m') = take n (drop off' m)"
      using d m'(2) unfolding m'(1) by (auto simp: take_drop min_def)
    then show ?thesis using m' by (simp add: rcc_getPropertyBytes_def)
  qed
qed (rule get_bytes_split)

subsection \<open>Round trip of property values\<close>

lemma c_str_terminated: "0 \<notin> set s \<Longrightarrow> c_str (s @ 0 # r) = s"
  by (auto simp: c_str_def takeWhile_append)

lemma string_pitch_ge:
  assumes "pr_stringLength info < 2 ^ 32"
  shows "pr_stringLength info + 1 \<le> string_pitch info"
proof -
  let ?n = "pr_stringLength info + 1"
  have small: "unat (of_nat k :: u64) = k" if "k < 2 ^ 64" for k using that by (simp add: unat_of_nat take_bit_nat_eq_self)
  have "unat (of_nat (?n + 3) :: u64) = ?n + 3" by (rule small) (use assms in simp)
  moreover have "(of_nat ?n + (4 - 1) :: u64) = of_nat (?n + 3)" by simp
  ultimately have s: "unat (of_nat ?n + (4 - 1) :: u64) = ?n + 3" by (simp only:)
  have "unat (x * 4 :: u64) = (unat x * 4) mod 2 ^ 64" for x by (simp add: unat_word_ariths)
  moreover have "unat ((of_nat ?n + (4 - 1)) div 4 :: u64) = (?n + 3) div 4"
    by (simp only: unat_div_distrib s) simp
  ultimately have "string_pitch info = ((?n + 3) div 4 * 4) mod 2 ^ 64"
    by (simp only: string_pitch_def roundUp_def)
  moreover have "(?n + 3) div 4 * 4 \<le> ?n + 3" by simp
  moreover have "?n \<le> (?n + 3) div 4 * 4" by presburger
  ultimately show ?thesis using assms by simp
qed

lemma get_strings_cong:
  "(\<And>i k. off \<le> i \<Longrightarrow> rcc_getPropertyBytes i k m = rcc_getPropertyBytes i k m') \<Longrightarrow>
   get_strings pitch off n m = get_strings pitch off n m'"
  by (induction n arbitrary: off) simp_all

lemma set_strings_ok:
  assumes "\<forall>s\<in>set ss. 0 \<notin> set s \<and> length s + 1 \<le> pitch" "off + length ss * pitch \<le> length mem"
  shows "\<exists>mem'. set_strings pitch off ss mem = Inr mem' \<and> length mem' = length mem \<and>
     get_strings pitch off (length ss) mem' = Inr ss \<and>
     (\<forall>i n. i + n \<le> off \<longrightarrow> rcc_getPropertyBytes i n mem' = rcc_getPropertyBytes i n mem)"
  using assms
proof (induction ss arbitrary: off mem)
  case (Cons s ss)
  have l: "length s + 1 \<le> pitch" "0 \<notin> set s" using Cons.prems(1) by auto
  obtain m1 where m1: "rcc_setPropertyBytes off (s @ [0]) mem = Inr m1" "length m1 = length mem"
    using rcc_mem.put_ok [of off "s @ [0]" mem] Cons.prems(2) l by auto
  have "off + pitch + length ss * pitch \<le> length m1" using Cons.prems(2) m1(2) by simp
  then obtain m2 where m2: "set_strings pitch (off + pitch) ss m1 = Inr m2" "length m2 = length m1"
    "get_strings pitch (off + pitch) (length ss) m2 = Inr ss"
    "\<forall>i n. i + n \<le> off + pitch \<longrightarrow> rcc_getPropertyBytes i n m2 = rcc_getPropertyBytes i n m1"
    using Cons.IH [of "off + pitch" m1] Cons.prems(1) by auto
  have "off + pitch \<le> length m1" using Cons.prems(2) m1(2) by simp
  then obtain bs where bs: "rcc_getPropertyBytes off pitch m1 = Inr bs" by (simp add: rcc_getPropertyBytes_def)
  have "rcc_getPropertyBytes off (length (s @ [0])) m1 = Inr (s @ [0])" by (rule rcc_mem.get_put [OF m1(1)])
  with rcc_mem.get_prefix [OF bs, of "length (s @ [0])"] l obtain r where "bs = (s @ [0]) @ r" by auto
  then have "c_str bs = s" using l by (simp add: c_str_terminated)
  moreover have "rcc_getPropertyBytes off pitch m2 = Inr bs" using m2(4) bs by simp
  moreover have "rcc_getPropertyBytes i n m2 = rcc_getPropertyBytes i n mem" if "i + n \<le> off" for i n
    using m2(4) rcc_mem.get_other [OF m1(1), of i n] that by simp
  ultimately show ?case using m1 m2 by simp
qed simp

text \<open>
  A value that belongs to a property and a memory that has room for it. The count of a sequence
  precedes the data, so the alignment leaves it four bytes.
\<close>

definition seq_ok :: "property \<Rightarrow> nat \<Rightarrow> nat \<Rightarrow> nat \<Rightarrow> bool" where
  "seq_ok info nElements nTotal room \<longleftrightarrow>
     (if pr_isSequence info
      then 4 \<le> pr_align info \<and> nElements \<le> pr_sequenceLength info \<and> nElements < 2 ^ 32 \<and>
        nTotal = pr_nItems info * nElements \<and> pr_offset info + 4 \<le> room
      else 0 < pr_arrayRank info \<and> nElements = 0 \<and> nTotal = pr_nItems info)"

fun value_fits :: "property \<Rightarrow> prop_value \<Rightarrow> nat \<Rightarrow> bool" where
  "value_fits info (Scalar n) room \<longleftrightarrow>
     \<not> pr_isSequence info \<and> pr_arrayRank info = 0 \<and> pr_baseType info \<notin> {OCPI_String, OCPI_Struct, OCPI_Type} \<and>
     pr_nBits info \<in> {8, 16, 32, 64} \<and> n < 2 ^ pr_nBits info \<and> pr_offset info + pr_nBits info div 8 \<le> room"
| "value_fits info (Text s) room \<longleftrightarrow>
     \<not> pr_isSequence info \<and> pr_arrayRank info = 0 \<and> pr_baseType info = OCPI_String \<and>
     0 \<notin> set s \<and> length s \<le> pr_stringLength info \<and> pr_offset info + max 4 (pr_stringLength info + 1) \<le> room"
| "value_fits info (Elements nElements nTotal data) room \<longleftrightarrow>
     seq_ok info nElements nTotal room \<and> pr_baseType info \<notin> {OCPI_String, OCPI_Struct, OCPI_Type} \<and>
     length data = nTotal * (pr_nBits info div 8) \<and> data_offset info + length data \<le> room"
| "value_fits info (Texts nElements nTotal ss) room \<longleftrightarrow>
     seq_ok info nElements nTotal room \<and> pr_baseType info = OCPI_String \<and> pr_stringLength info < 2 ^ 32 \<and>
     length ss = nTotal \<and> (\<forall>s\<in>set ss. 0 \<notin> set s \<and> length s \<le> pr_stringLength info) \<and>
     data_offset info + nTotal * string_pitch info \<le> room"

lemma count_roundtrip:
  assumes "seq_ok info nElements nTotal (length mem)"
  shows "\<exists>mem'. set_count le info nElements mem = Inr mem' \<and> length mem' = length mem \<and>
     get_count le info mem' = Inr (nElements, nTotal) \<and>
     (\<forall>i n. data_offset info \<le> i \<longrightarrow> rcc_getPropertyBytes i n mem' = rcc_getPropertyBytes i n mem)"
proof (cases "pr_isSequence info")
  case True
  let ?bs = "mem_repr le 4 (unat (of_nat nElements :: u32))"
  have s: "4 \<le> pr_align info" "nElements \<le> pr_sequenceLength info" "nElements < 2 ^ 32"
    "nTotal = pr_nItems info * nElements" "pr_offset info + 4 \<le> length mem"
    using assms True by (simp_all add: seq_ok_def)
  obtain m where m: "rcc_setPropertyBytes (pr_offset info) ?bs mem = Inr m" "length m = length mem"
    using rcc_mem.put_ok [of "pr_offset info" ?bs mem] s(5) by auto
  have "rcc_getPropertyBytes (pr_offset info) 4 m = Inr ?bs"
    using rcc_mem.get_put [OF m(1)] by simp
  moreover have "mem_value le ?bs = nElements"
    using s(3) by (simp add: mem_value_repr unat_of_nat_u32)
  ultimately have "get_count le info m = Inr (nElements, nTotal)"
    using True s by (simp add: get_count_def rcc_getProperty32_def unat_of_nat_u32)
  moreover have "rcc_getPropertyBytes i n m = rcc_getPropertyBytes i n mem" if "data_offset info \<le> i" for i n
    using that True s(1) by (intro rcc_mem.get_other [OF m(1)]) (simp add: data_offset_def)
  ultimately show ?thesis using True m by (simp add: set_count_def rcc_setProperty32_def)
qed (use assms in \<open>simp add: seq_ok_def set_count_def get_count_def\<close>)

lemma scalar_roundtrip:
  assumes "pr_nBits info \<in> {8, 16, 32, 64}" "n < 2 ^ pr_nBits info" "pr_offset info + pr_nBits info div 8 \<le> length mem"
  shows "\<exists>mem'. set_scalar le info n mem = Inr mem' \<and> get_scalar le info mem' = Inr n"
proof -
  have put: "\<exists>m. rcc_setPropertyBytes (pr_offset info) (mem_repr le k v) mem = Inr m \<and>
      rcc_getPropertyBytes (pr_offset info) k m = Inr (mem_repr le k v)" if "k = pr_nBits info div 8" for k v
    using rcc_mem.put_ok [of "pr_offset info" "mem_repr le k v" mem] rcc_mem.get_put [of "pr_offset info" "mem_repr le k v" mem]
      assms(3) that by fastforce
  have u: "unat (of_nat n :: u8) = n" if "pr_nBits info = 8" using assms(2) that by (simp add: unat_of_nat take_bit_nat_eq_self)
  have u2: "unat (of_nat n :: u16) = n" if "pr_nBits info = 16" using assms(2) that by (simp add: unat_of_nat take_bit_nat_eq_self)
  have u4: "unat (of_nat n :: u32) = n" if "pr_nBits info = 32" using assms(2) that by (simp add: unat_of_nat take_bit_nat_eq_self)
  have u8: "unat (of_nat n :: u64) = n" if "pr_nBits info = 64" using assms(2) that by (simp add: unat_of_nat take_bit_nat_eq_self)
  from assms(1) consider "pr_nBits info = 8" | "pr_nBits info = 16" | "pr_nBits info = 32" | "pr_nBits info = 64" by auto
  then show ?thesis
  proof cases
    case 1
    with put [of 1 n] u assms(2) show ?thesis
      by (auto simp: set_scalar_def get_scalar_def rcc_setProperty8_def rcc_getProperty8_def mem_value_repr)
  next
    case 2
    with put [of 2 n] u2 assms(2) show ?thesis
      by (auto simp: set_scalar_def get_scalar_def rcc_setProperty16_def rcc_getProperty16_def mem_value_repr)
  next
    case 3
    with put [of 4 n] u4 assms(2) show ?thesis
      by (auto simp: set_scalar_def get_scalar_def rcc_setProperty32_def rcc_getProperty32_def mem_value_repr)
  next
    case 4
    with put [of 8 n] u8 assms(2) show ?thesis
      by (auto simp: set_scalar_def get_scalar_def rcc_setProperty64_def rcc_getProperty64_def mem_value_repr)
  qed
qed

lemma text_roundtrip:
  assumes b: "3 \<le> length beyond" and z: "0 \<notin> set s" and l: "length s \<le> pr_stringLength info"
    and r: "pr_offset info + max 4 (pr_stringLength info + 1) \<le> length mem"
  shows "\<exists>m mem'. (if length s + 1 > 4 then rcc_setPropertyBytes (pr_offset info + 4) (drop 4 (s @ [0])) mem else Inr mem) = Inr m \<and>
     rcc_setPropertyBytes (pr_offset info) (first_word beyond s) m = Inr mem' \<and>
     (\<exists>bs. rcc_getPropertyBytes (pr_offset info) (pr_stringLength info + 1) mem' = Inr bs \<and> c_str bs = s)"
proof -
  let ?o = "pr_offset info"
  have w: "length (first_word beyond s) = 4" using b by (simp add: first_word_def)
  have o4: "?o + 4 \<le> length mem" "?o + (pr_stringLength info + 1) \<le> length mem"
    using r by (simp_all add: max_def split: if_splits)
  obtain m where m: "(if length s + 1 > 4 then rcc_setPropertyBytes (?o + 4) (drop 4 (s @ [0])) mem else Inr mem) = Inr m"
    "length m = length mem" "length s \<ge> 4 \<Longrightarrow> rcc_getPropertyBytes (?o + 4) (length (drop 4 (s @ [0]))) m = Inr (drop 4 (s @ [0]))"
    using rcc_mem.put_ok [of "?o + 4" "drop 4 (s @ [0])" mem] rcc_mem.get_put [of "?o + 4" "drop 4 (s @ [0])" mem] l r
    by (cases "length s + 1 > 4") auto
  obtain m' where m': "rcc_setPropertyBytes ?o (first_word beyond s) m = Inr m'" "length m' = length m"
    using rcc_mem.put_ok [of ?o "first_word beyond s" m] w o4 m(2) by auto
  have g: "rcc_getPropertyBytes ?o 4 m' = Inr (first_word beyond s)" using rcc_mem.get_put [OF m'(1)] w by simp
  have s: "rcc_getPropertyBytes ?o (length s + 1) m' = Inr (s @ [0])"
  proof (cases "length s \<ge> 4")
    case True
    have "rcc_getPropertyBytes (?o + 4) (length (drop 4 (s @ [0]))) m' = Inr (drop 4 (s @ [0]))"
      using rcc_mem.get_other [OF m'(1), of "?o + 4"] m(3) [OF True] w by simp
    moreover have "length s + 1 = 4 + length (drop 4 (s @ [0]))" using True by simp
    moreover have "first_word beyond s @ drop 4 (s @ [0]) = s @ [0]" using True by (simp add: first_word_def)
    ultimately show ?thesis
      using get_bytes_split [of ?o 4 "length (drop 4 (s @ [0]))" m'] g by (simp only: sbind_simps)
  next
    case False
    have "?o + (length s + 1) \<le> length m'" using False o4 m' m(2) by simp
    moreover have "take (length s + 1) (first_word beyond s) = s @ [0]" using False by (simp add: first_word_def)
    moreover have "take 4 (drop ?o m') = first_word beyond s" "length s + 1 \<le> 4"
      using g False by (auto simp: rcc_getPropertyBytes_def split: if_splits)
    ultimately show ?thesis by (auto simp: rcc_getPropertyBytes_def dest: arg_cong [where f = "take (length s + 1)"])
  qed
  have "?o + (pr_stringLength info + 1) \<le> length m'" using o4 m' m(2) by simp
  then obtain bs where bs: "rcc_getPropertyBytes ?o (pr_stringLength info + 1) m' = Inr bs"
    by (simp add: rcc_getPropertyBytes_def)
  with rcc_mem.get_prefix [OF bs, of "length s + 1"] s l obtain t where "bs = (s @ [0]) @ t" by auto
  then have "c_str bs = s" using z by (simp add: c_str_terminated)
  with m m' bs show ?thesis by blast
qed

text \<open>
  Claim C40: a property value that was set in the memory of a worker is the value that is read back,
  for scalars of every width, texts, arrays and sequences, on a machine of either byte order and
  whatever lies in memory behind a short text.
\<close>
theorem property_value_roundtrip:
  assumes "value_fits info v (length mem)" and b: "3 \<le> length beyond"
  shows "\<exists>mem'. setPropertyValue le beyond info v mem = Inr mem' \<and> getPropertyValue le info mem' = Inr v"
proof (cases v)
  case (Scalar n)
  with scalar_roundtrip [of info n mem le] assms(1) show ?thesis
    by (auto simp: setPropertyValue_def getPropertyValue_def)
next
  case (Text s)
  with text_roundtrip [OF b, of s info mem] assms(1) show ?thesis
    by (auto simp: setPropertyValue_def getPropertyValue_def)
next
  case (Elements nElements nTotal data)
  let ?n = "nTotal * (pr_nBits info div 8)"
  have f: "seq_ok info nElements nTotal (length mem)" "length data = ?n" "data_offset info + length data \<le> length mem"
    and t: "pr_baseType info \<notin> {OCPI_String, OCPI_Struct, OCPI_Type}"
    using assms(1) Elements by auto
  have sr: "pr_isSequence info \<or> 0 < pr_arrayRank info" using f(1) by (auto simp: seq_ok_def split: if_splits)
  obtain m where m: "(if ?n \<noteq> 0 then rcc_setPropertyBytes (data_offset info) (take ?n data) mem else Inr mem) = Inr m"
    "length m = length mem" "?n \<noteq> 0 \<Longrightarrow> rcc_getPropertyBytes (data_offset info) ?n m = Inr data"
    using rcc_mem.put_ok [of "data_offset info" data mem] rcc_mem.get_put [of "data_offset info" data mem] f
    by (cases "?n \<noteq> 0") auto
  obtain m' where m': "set_count le info nElements m = Inr m'" "get_count le info m' = Inr (nElements, nTotal)"
    "rcc_getPropertyBytes (data_offset info) ?n m' = rcc_getPropertyBytes (data_offset info) ?n m"
    using count_roundtrip [of info nElements nTotal m le] f(1) m(2) by auto
  have "setPropertyValue le beyond info v mem = Inr m'"
    using Elements t sr m(1) m'(1) by (simp add: setPropertyValue_def set_elements_def)
  moreover have "getPropertyValue le info m' = Inr v"
    using Elements t sr m(3) m'(2,3) f(2) by (auto simp: getPropertyValue_def)
  ultimately show ?thesis by blast
next
  case (Texts nElements nTotal ss)
  have f: "seq_ok info nElements nTotal (length mem)" "length ss = nTotal" "pr_baseType info = OCPI_String"
    "data_offset info + length ss * string_pitch info \<le> length mem"
    and ss: "\<forall>s\<in>set ss. 0 \<notin> set s \<and> length s + 1 \<le> string_pitch info"
    using assms(1) Texts string_pitch_ge [of info] by (auto intro: order.trans)
  have sr: "pr_isSequence info \<or> 0 < pr_arrayRank info" using f(1) by (auto simp: seq_ok_def split: if_splits)
  obtain m where m: "set_strings (string_pitch info) (data_offset info) ss mem = Inr m" "length m = length mem"
    "get_strings (string_pitch info) (data_offset info) (length ss) m = Inr ss"
    using set_strings_ok [OF ss f(4)] by auto
  obtain m' where m': "set_count le info nElements m = Inr m'" "get_count le info m' = Inr (nElements, nTotal)"
    "\<And>i n. data_offset info \<le> i \<Longrightarrow> rcc_getPropertyBytes i n m' = rcc_getPropertyBytes i n m"
    using count_roundtrip [of info nElements nTotal m le] f(1) m(2) by auto
  have "get_strings (string_pitch info) (data_offset info) nTotal m' = Inr ss"
    using get_strings_cong [of "data_offset info" m' m] m'(3) m(3) f(2) by simp
  then show ?thesis
    using Texts f m(1) m'(1,2) sr by (auto simp: setPropertyValue_def set_elements_def getPropertyValue_def)
qed

theorem property_value_roundtrip_witness:
  "let info = \<lparr>pr_baseType = OCPI_ULong, pr_nBits = 32, pr_offset = 4, pr_align = 4, pr_isSequence = True,
               pr_arrayRank = 0, pr_nItems = 1, pr_sequenceLength = 3, pr_stringLength = 0\<rparr>;
       v = Elements 2 2 [1, 2, 3, 4, 5, 6, 7, 8]
   in value_fits info v 20 \<and>
      (\<exists>mem'. setPropertyValue True [9, 9, 9] info v (replicate 20 0) = Inr mem' \<and> getPropertyValue True info mem' = Inr v)"
proof -
  let ?info = "\<lparr>pr_baseType = OCPI_ULong, pr_nBits = 32, pr_offset = 4, pr_align = 4, pr_isSequence = True,
               pr_arrayRank = 0, pr_nItems = 1, pr_sequenceLength = 3, pr_stringLength = 0\<rparr>"
  let ?v = "Elements 2 2 [1, 2, 3, 4, 5, 6, 7, 8]"
  have f: "value_fits ?info ?v 20" by (simp add: seq_ok_def data_offset_def)
  then have "value_fits ?info ?v (length (replicate 20 (0 :: u8)))" by simp
  from property_value_roundtrip [OF this, of "[9, 9, 9]" True] f show ?thesis by (simp only: Let_def) simp
qed

subsection \<open>The test of the raw accesses\<close>

lemma sum_test:
  "unat (off :: u64) + unat n < 2 ^ 64 \<Longrightarrow> unat (off + n) = unat off + unat n"
  by (simp add: unat_word_ariths)

text \<open>
  A raw read of the property memory that passes the test of the source stays inside the
  memory exactly when the sum of offset and size does not wrap around; the test never lets a read
  leave the memory in any other way.
\<close>
theorem raw_read_overruns_iff_wraps:
  assumes "unat propertySize \<le> length mem" "length mem < 2 ^ 64"
  shows "rcc_read propertySize off nBytes mem = Inl MemOverrun \<longleftrightarrow>
     2 ^ 64 \<le> unat off + unat nBytes \<and> off + nBytes \<le> propertySize"
proof (cases "unat off + unat nBytes < 2 ^ 64")
  case True
  then show ?thesis using assms sum_test [OF True]
    by (auto simp: rcc_read_def rcc_getPropertyBytes_def word_less_nat_alt word_le_nat_alt)
next
  case False
  then show ?thesis using assms by (auto simp: rcc_read_def rcc_getPropertyBytes_def not_le not_less)
qed

theorem raw_read_overruns_iff_wraps_witness:
  "rcc_read 2 18446744073709551615 2 [7, 8] = Inl MemOverrun"
  using raw_read_overruns_iff_wraps [of 2 "[7, 8]" 18446744073709551615 2] by simp

end
