(* ===== verification/PropLayout.thy ===== *)
theory PropLayout
  imports WorkerProps MessageSize
begin

text \<open>
  Properties of a worker in the layout of the code generator: the offsets that \<^verbatim>\<open>Property::offset\<close>
  hands out (\<^verbatim>\<open>OcpiUtilProperty.cxx\<close>, called for the properties of a worker in
  \<^verbatim>\<open>tools/ocpigen/src/parse.cxx\<close>) keep the values that \<^verbatim>\<open>setPropertyValue\<close> stores apart.
\<close>

subsection \<open>Areas of the memory\<close>

definition untouched :: "nat \<Rightarrow> nat \<Rightarrow> octets \<Rightarrow> octets \<Rightarrow> bool" where
  "untouched lo hi mem mem' \<longleftrightarrow>
     (\<forall>k n. k + n \<le> lo \<or> hi \<le> k \<longrightarrow> rcc_getPropertyBytes k n mem' = rcc_getPropertyBytes k n mem)"

lemma untouched_refl: "untouched lo hi mem mem"
  by (simp add: untouched_def)

lemma untouched_trans: "untouched lo hi m1 m2 \<Longrightarrow> untouched lo hi m2 m3 \<Longrightarrow> untouched lo hi m1 m3"
  by (simp add: untouched_def)

lemma untouched_put:
  assumes "rcc_setPropertyBytes off bs m = Inr m'" "lo \<le> off" "off + length bs \<le> hi"
  shows "untouched lo hi m m'"
  unfolding untouched_def using rcc_mem.get_other [OF assms(1)] assms(2,3) by (metis le_trans)

lemma untouched_strings:
  assumes "set_strings pitch off ss m = Inr m'" "\<forall>s\<in>set ss. length s + 1 \<le> pitch" "lo \<le> off" "off + length ss * pitch \<le> hi"
  shows "untouched lo hi m m'"
  using assms
proof (induction ss arbitrary: off m)
  case (Cons s ss)
  then obtain m1 where m1: "rcc_setPropertyBytes off (s @ [0]) m = Inr m1" "set_strings pitch (off + pitch) ss m1 = Inr m'" by auto
  have "untouched lo hi m m1" by (rule untouched_put [OF m1(1)]) (use Cons.prems in auto)
  moreover have "untouched lo hi m1 m'" by (rule Cons.IH [OF m1(2)]) (use Cons.prems in auto)
  ultimately show ?case by (rule untouched_trans)
qed (simp add: untouched_refl)

subsection \<open>The area of a property\<close>

definition prop_of :: "member \<Rightarrow> property" where
  "prop_of m = (let a = attrs m in
     \<lparr>pr_baseType = m_baseType a, pr_nBits = unat (m_nBits a), pr_offset = unat (m_offset a), pr_align = unat (m_align a),
      pr_isSequence = m_isSequence a, pr_arrayRank = m_arrayRank a, pr_nItems = unat (m_nItems a),
      pr_sequenceLength = unat (m_sequenceLength a), pr_stringLength = unat (m_stringLength a)\<rparr>)"

lemma prop_of_simps [simp]:
  "pr_baseType (prop_of m) = m_baseType (attrs m)" "pr_nBits (prop_of m) = unat (m_nBits (attrs m))"
  "pr_offset (prop_of m) = at m" "pr_align (prop_of m) = unat (m_align (attrs m))"
  "pr_isSequence (prop_of m) = m_isSequence (attrs m)" "pr_arrayRank (prop_of m) = m_arrayRank (attrs m)"
  "pr_nItems (prop_of m) = unat (m_nItems (attrs m))" "pr_sequenceLength (prop_of m) = unat (m_sequenceLength (attrs m))"
  "pr_stringLength (prop_of m) = unat (m_stringLength (attrs m))"
  by (simp_all add: prop_of_def Let_def)

lemma string_pitch_eq:
  assumes "pr_stringLength info < 2 ^ 32"
  shows "string_pitch info = (pr_stringLength info + 4) div 4 * 4"
proof -
  have small: "unat (of_nat k :: u64) = k" if "k < 2 ^ 64" for k using that by (simp add: unat_of_nat take_bit_nat_eq_self)
  have "unat (of_nat (pr_stringLength info + 1) :: u64) = pr_stringLength info + 1"
    by (rule small) (use assms in simp)
  then show ?thesis using unat_roundUp [of 4 "of_nat (pr_stringLength info + 1)"] assms
    by (simp add: string_pitch_def)
qed

text \<open>The sizes of one property: what a value may need is within the bytes of the property.\<close>

lemma area_of:
  assumes "sized_ok m" "well_laid m"
  defines "info \<equiv> prop_of m"
  shows "\<not> pr_isSequence info \<and> pr_arrayRank info = 0 \<Longrightarrow> elem_bytes (attrs m) \<le> bytes m"
    "pr_isSequence info \<Longrightarrow> 4 \<le> pr_align info \<and> pr_align info \<le> bytes m"
    "pr_isSequence info \<or> pr_arrayRank info > 0 \<Longrightarrow> nTotal \<le> pr_nItems info * (if pr_isSequence info then pr_sequenceLength info else 1) \<Longrightarrow>
       data_offset info + nTotal * elem_bytes (attrs m) \<le> pr_offset info + bytes m"
proof -
  obtain a ms t where m: "m = Member a ms t" by (cases m)
  have g: "good_align (m_align a)" "good_align (m_dataAlign a)" using assms(2) by (auto simp: m)
  show "\<not> pr_isSequence info \<and> pr_arrayRank info = 0 \<Longrightarrow> elem_bytes (attrs m) \<le> bytes m"
    using assms(1) by (simp add: m info_def item_bytes_def)
  show "pr_isSequence info \<Longrightarrow> 4 \<le> pr_align info \<and> pr_align info \<le> bytes m"
    using assms(1,2) by (auto simp: m info_def word_le_nat_alt)
  assume arr: "pr_isSequence info \<or> pr_arrayRank info > 0"
    and n: "nTotal \<le> pr_nItems info * (if pr_isSequence info then pr_sequenceLength info else 1)"
  let ?d = "unat (m_dataAlign a)" and ?e = "elem_bytes a" and ?L = "unat (m_sequenceLength a)" and ?I = "unat (m_nItems a)"
  have d: "0 < ?d" using good_align_unat [OF g(2)] by auto
  have item: "?I * ?e \<le> item_bytes a" using up_props(1) [OF d, of ?e] assms(1) by (auto simp: item_bytes_def m)
  show "data_offset info + nTotal * elem_bytes (attrs m) \<le> pr_offset info + bytes m"
  proof (cases "m_isSequence a")
    case True
    have "nTotal * ?e \<le> ?L * (?I * ?e)" using n True mult_le_mono1 [of nTotal "?I * ?L" ?e]
      by (simp add: info_def m mult.commute mult.left_commute)
    also have "\<dots> \<le> ?L * up (item_bytes a) ?d" using item up_props(1) [OF d, of "item_bytes a"] by (intro mult_le_mono2) linarith
    finally have "nTotal * ?e \<le> ?L * up (item_bytes a) ?d" .
    moreover have "unat (m_align a) + ?L * up (item_bytes a) ?d \<le> unat (m_nBytes a)" using assms(1) True by (simp add: m)
    ultimately show ?thesis using True by (simp add: data_offset_def info_def m)
  next
    case False
    have "nTotal * ?e \<le> ?I * ?e" using n False by (intro mult_le_mono1) (simp add: info_def m)
    also have "\<dots> \<le> item_bytes a" by (rule item)
    also have "\<dots> \<le> unat (m_nBytes a)" using assms(1) False by (simp add: m)
    finally show ?thesis using False by (simp add: data_offset_def info_def m)
  qed
qed

lemma set_scalar_untouched:
  assumes "set_scalar le info v mem = Inr mem'" "pr_offset info + pr_nBits info div 8 \<le> hi"
  shows "untouched (pr_offset info) hi mem mem'"
  using assms
  by (auto simp: set_scalar_def rcc_setProperty8_def rcc_setProperty16_def rcc_setProperty32_def rcc_setProperty64_def
      untouched_refl split: if_splits intro!: untouched_put [where off = "pr_offset info"])

lemma set_count_untouched:
  assumes "set_count le info n mem = Inr mem'" "pr_isSequence info \<Longrightarrow> pr_offset info + 4 \<le> hi"
  shows "untouched (pr_offset info) hi mem mem'"
  using assms by (auto simp: set_count_def rcc_setProperty32_def untouched_refl split: if_splits
      intro!: untouched_put [where off = "pr_offset info"])

lemma setPropertyValue_untouched:
  assumes s: "setPropertyValue le beyond info v mem = Inr mem'" and info: "info = prop_of m" and ok: "sized_ok m" "well_laid m"
    and v: "value_fits info v (length mem)" "3 \<le> length beyond" and len: "pr_stringLength info < 2 ^ 32"
  shows "untouched (pr_offset info) (pr_offset info + bytes m) mem mem'"
proof -
  let ?lo = "pr_offset info" and ?hi = "pr_offset info + bytes m"
  note ar = area_of [OF ok, folded info]
  have cnt: "untouched ?lo ?hi m1 mem'" if "set_count le info n m1 = Inr mem'" for m1 n
    by (rule set_count_untouched [OF that]) (use ar(2) in auto)
  have e: "elem_bytes (attrs m) = (if pr_baseType info = OCPI_String then string_pitch info else pr_nBits info div 8)"
    unfolding elem_bytes_def string_pitch_eq [OF len] by (simp add: info)
  show ?thesis
  proof (cases v)
    case (Scalar n)
    then have "set_scalar le info n mem = Inr mem'" using s v(1) by (auto simp: setPropertyValue_def)
    then show ?thesis by (rule set_scalar_untouched) (use ar(1) v(1) Scalar e in auto)
  next
    case (Text str)
    have b: "string_pitch info \<le> bytes m" "4 \<le> string_pitch info" "pr_stringLength info + 1 \<le> string_pitch info"
      using ar(1) v(1) Text e string_pitch_eq [OF len] string_pitch_ge [OF len] by auto
    obtain m1 where m1: "(if length str + 1 > 4 then rcc_setPropertyBytes (?lo + 4) (drop 4 (str @ [0])) mem else Inr mem) = Inr m1"
      "rcc_setPropertyBytes ?lo (first_word beyond str) m1 = Inr mem'"
      using s v(1) Text by (auto simp: setPropertyValue_def)
    have "untouched ?lo ?hi mem m1"
      using m1(1) b v(1) Text by (auto simp: untouched_refl split: if_splits intro!: untouched_put [where off = "?lo + 4"])
    moreover have "untouched ?lo ?hi m1 mem'"
      by (rule untouched_put [OF m1(2)]) (use b in \<open>simp_all add: first_word_def\<close>)
    ultimately show ?thesis by (rule untouched_trans)
  next
    case (Elements nElements nTotal data)
    let ?n = "nTotal * (pr_nBits info div 8)"
    have f: "seq_ok info nElements nTotal (length mem)" "length data = ?n" "pr_baseType info \<notin> {OCPI_String, OCPI_Struct, OCPI_Type}"
      using v(1) Elements by auto
    have arr: "pr_isSequence info \<or> pr_arrayRank info > 0" using f(1) by (auto simp: seq_ok_def split: if_splits)
    have "data_offset info + ?n \<le> ?hi"
      using ar(3) [OF arr, of nTotal] f(1,3) e by (auto simp: seq_ok_def split: if_splits)
    obtain m1 where m1: "(if ?n \<noteq> 0 then rcc_setPropertyBytes (data_offset info) (take ?n data) mem else Inr mem) = Inr m1"
      "set_count le info nElements m1 = Inr mem'"
      using s f(3) arr Elements by (auto simp: setPropertyValue_def set_elements_def)
    have "untouched ?lo ?hi mem m1"
      using m1(1) f(2) \<open>data_offset info + ?n \<le> ?hi\<close>
      by (auto simp: untouched_refl data_offset_def split: if_splits intro!: untouched_put [where off = "data_offset info"])
    then show ?thesis using cnt [OF m1(2)] by (rule untouched_trans)
  next
    case (Texts nElements nTotal ss)
    have f: "seq_ok info nElements nTotal (length mem)" "length ss = nTotal" "pr_baseType info = OCPI_String"
      "\<forall>s\<in>set ss. length s + 1 \<le> string_pitch info"
      using v(1) Texts string_pitch_ge [OF len] by (auto intro: order.trans)
    have arr: "pr_isSequence info \<or> pr_arrayRank info > 0" using f(1) by (auto simp: seq_ok_def split: if_splits)
    have "data_offset info + nTotal * string_pitch info \<le> ?hi"
      using ar(3) [OF arr, of nTotal] f(1,3) e by (auto simp: seq_ok_def split: if_splits)
    obtain m1 where m1: "set_strings (string_pitch info) (data_offset info) ss mem = Inr m1" "set_count le info nElements m1 = Inr mem'"
      using s f(2,3) arr Texts by (auto simp: setPropertyValue_def set_elements_def)
    have "untouched ?lo ?hi mem m1"
      by (rule untouched_strings [OF m1(1) f(4)]) (use f(2) \<open>data_offset info + nTotal * string_pitch info \<le> ?hi\<close> in \<open>auto simp: data_offset_def\<close>)
    then show ?thesis using cnt [OF m1(2)] by (rule untouched_trans)
  qed
qed

subsection \<open>Values depend on their area only\<close>

lemma get_strings_area:
  assumes "\<And>k n. lo \<le> k \<Longrightarrow> k + n \<le> hi \<Longrightarrow> rcc_getPropertyBytes k n m = rcc_getPropertyBytes k n m'"
    "lo \<le> off" "off + n * pitch \<le> hi"
  shows "get_strings pitch off n m = get_strings pitch off n m'"
  using assms(2,3)
proof (induction n arbitrary: off)
  case (Suc n)
  have "rcc_getPropertyBytes off pitch m = rcc_getPropertyBytes off pitch m'" using Suc.prems by (intro assms(1)) simp_all
  moreover have "get_strings pitch (off + pitch) n m = get_strings pitch (off + pitch) n m'" using Suc.prems by (intro Suc.IH) simp_all
  ultimately show ?case by simp
qed simp

lemma get_count_bound:
  assumes "get_count le info mem = Inr (nElements, nTotal)"
  shows "nTotal \<le> pr_nItems info * (if pr_isSequence info then pr_sequenceLength info else 1)"
  using assms by (auto simp: get_count_def split: if_splits)

lemma getPropertyValue_area:
  assumes same: "\<And>k n. pr_offset info \<le> k \<Longrightarrow> k + n \<le> pr_offset info + bytes m \<Longrightarrow>
       rcc_getPropertyBytes k n mem = rcc_getPropertyBytes k n mem'"
    and info: "info = prop_of m" and ok: "sized_ok m" "well_laid m" and len: "pr_stringLength info < 2 ^ 32"
  shows "getPropertyValue le info mem = getPropertyValue le info mem'"
proof -
  let ?lo = "pr_offset info" and ?hi = "pr_offset info + bytes m"
  note ar = area_of [OF ok, folded info]
  have e: "elem_bytes (attrs m) = (if pr_baseType info = OCPI_String then string_pitch info else pr_nBits info div 8)"
    unfolding elem_bytes_def string_pitch_eq [OF len] by (simp add: info)
  have first: "rcc_getPropertyBytes ?lo n mem = rcc_getPropertyBytes ?lo n mem'" if "n \<le> bytes m" for n
    using same that by simp
  have cnt: "get_count le info mem = get_count le info mem'"
    using ar(2) first [of 4] by (auto simp: get_count_def rcc_getProperty32_def)
  have data: "pr_baseType info \<noteq> OCPI_String \<Longrightarrow>
        rcc_getPropertyBytes (data_offset info) (nTotal * (pr_nBits info div 8)) mem =
        rcc_getPropertyBytes (data_offset info) (nTotal * (pr_nBits info div 8)) mem'"
      "pr_baseType info = OCPI_String \<Longrightarrow>
        get_strings (string_pitch info) (data_offset info) nTotal mem = get_strings (string_pitch info) (data_offset info) nTotal mem'"
    if arr: "pr_isSequence info \<or> pr_arrayRank info > 0" and n: "get_count le info mem' = Inr (nElements, nTotal)" for nElements nTotal
  proof -
    have b: "data_offset info + nTotal * elem_bytes (attrs m) \<le> ?hi" by (rule ar(3) [OF arr get_count_bound [OF n]])
    have l: "?lo \<le> data_offset info" by (simp add: data_offset_def)
    show "pr_baseType info \<noteq> OCPI_String \<Longrightarrow>
        rcc_getPropertyBytes (data_offset info) (nTotal * (pr_nBits info div 8)) mem =
        rcc_getPropertyBytes (data_offset info) (nTotal * (pr_nBits info div 8)) mem'"
      using same [OF l, of "nTotal * (pr_nBits info div 8)"] b e by simp
    show "pr_baseType info = OCPI_String \<Longrightarrow>
        get_strings (string_pitch info) (data_offset info) nTotal mem = get_strings (string_pitch info) (data_offset info) nTotal mem'"
      using get_strings_area [of ?lo ?hi mem mem', OF same l] b e by simp
  qed
  have scalar: "get_scalar le info mem = get_scalar le info mem'"
    if "\<not> pr_isSequence info \<and> pr_arrayRank info = 0" "pr_baseType info \<noteq> OCPI_String"
    using ar(1) [OF that(1)] e that(2) first [of 1] first [of 2] first [of 4] first [of 8]
    by (auto simp: get_scalar_def rcc_getProperty8_def rcc_getProperty16_def rcc_getProperty32_def rcc_getProperty64_def)
  have str_area: "rcc_getPropertyBytes ?lo (pr_stringLength info + 1) mem = rcc_getPropertyBytes ?lo (pr_stringLength info + 1) mem'"
    if "\<not> pr_isSequence info \<and> pr_arrayRank info = 0" "pr_baseType info = OCPI_String"
    using ar(1) [OF that(1)] e that(2) string_pitch_ge [OF len] by (intro first) simp
  show ?thesis
  proof (cases "pr_isSequence info \<or> pr_arrayRank info > 0")
    case True
    then show ?thesis using data [OF True] cnt
      by (cases "get_count le info mem'") (auto simp: getPropertyValue_def)
  next
    case False
    then show ?thesis using scalar str_area by (auto simp: getPropertyValue_def)
  qed
qed

subsection \<open>The offsets of the properties\<close>

text \<open>A property with its own place: neither indirect nor a parameter that is not readable.\<close>

definition placed :: "property_info \<Rightarrow> bool" where
  "placed p \<longleftrightarrow> \<not> m_isIndirect p \<and> (\<not> m_isParameter p \<or> m_isReadable p)"

lemma item_bytes_offset [simp]:
  "elem_bytes (a\<lparr>m_offset := off\<rparr>) = elem_bytes a" "item_bytes (a\<lparr>m_offset := off\<rparr>) = item_bytes a"
  "m_arrayRank (a\<lparr>m_offset := off\<rparr>) = m_arrayRank a"
  by (simp_all add: item_bytes_def elem_bytes_def m_arrayRank_def)

lemma set_offset_attrs:
  "attrs (pi_member (set_offset off p)) = (attrs (pi_member p))\<lparr>m_offset := off\<rparr>"
  "well_laid (pi_member (set_offset off p)) = well_laid (pi_member p)"
  "sized_ok (pi_member (set_offset off p)) = sized_ok (pi_member p)"
proof -
  obtain a ms t where "pi_member p = Member a ms t" by (cases "pi_member p")
  then show "attrs (pi_member (set_offset off p)) = (attrs (pi_member p))\<lparr>m_offset := off\<rparr>"
    "well_laid (pi_member (set_offset off p)) = well_laid (pi_member p)"
    "sized_ok (pi_member (set_offset off p)) = sized_ok (pi_member p)"
    by (simp_all add: set_offset_def cong: option.case_cong)
qed

lemma property_offset_placed:
  assumes "property_offset p (cum, sz) = (p', cum', sz')" "placed p" "well_laid (pi_member p)" "unat cum + 2 ^ 33 \<le> 2 ^ 64"
  shows "laid_from (unat cum) [pi_member p'] (unat cum') \<and> unat cum' \<le> unat cum + 2 ^ 33 \<and>
    (\<exists>off. p' = set_offset off p)"
proof -
  let ?al = "m_align (attrs (pi_member p))" and ?n = "m_nBytes (attrs (pi_member p))"
  have w: "good_align ?al" "unat ?n < 2 ^ 32" using assms(3) by (cases "pi_member p"; simp)+
  have d: "0 < unat ?al" "unat ?al \<le> 8" using good_align_unat [OF w(1)] by auto
  have p': "p' = set_offset (roundUp cum ?al) p" and c: "cum' = roundUp cum ?al + ?n"
    using assms(1,2) by (auto simp: property_offset_def placed_def Let_def)
  have r: "unat (roundUp cum ?al) = (unat cum + unat ?al - 1) div unat ?al * unat ?al"
    using d assms(4) by (intro unat_roundUp) auto
  note b = round_bounds [OF d(1), of "unat cum"]
  have "unat cum' = unat (roundUp cum ?al) + unat ?n"
    unfolding c using b r d w(2) assms(4) by (subst unat_add_lem [symmetric]) auto
  then show ?thesis using b r d w(2) by (auto simp: p' set_offset_attrs Let_def)
qed

lemma property_offsets_laid:
  "property_offsets ps (cum, sz) = (ps', cum', sz') \<Longrightarrow> list_all placed ps \<Longrightarrow> list_all (well_laid \<circ> pi_member) ps \<Longrightarrow>
   unat cum + length ps * 2 ^ 33 \<le> 2 ^ 64 \<Longrightarrow>
   laid_from (unat cum) (map pi_member ps') (unat cum') \<and> list_all2 (\<lambda>p p'. \<exists>off. p' = set_offset off p) ps ps'"
proof (induction ps arbitrary: cum sz ps')
  case (Cons p ps)
  obtain p1 c1 s1 ps1 where s: "property_offset p (cum, sz) = (p1, c1, s1)" "property_offsets ps (c1, s1) = (ps1, cum', sz')" "ps' = p1 # ps1"
    using Cons.prems(1) by (auto split: prod.splits)
  have f: "laid_from (unat cum) [pi_member p1] (unat c1)" "unat c1 \<le> unat cum + 2 ^ 33" "\<exists>off. p1 = set_offset off p"
    using property_offset_placed [OF s(1)] Cons.prems(2-4) by auto
  have "laid_from (unat c1) (map pi_member ps1) (unat cum') \<and> list_all2 (\<lambda>p p'. \<exists>off. p' = set_offset off p) ps ps1"
    by (rule Cons.IH [OF s(2)]) (use Cons.prems(2-4) f(2) in auto)
  then show ?case using f(1,3) s(3) by (auto simp: Let_def)
qed simp

text \<open>
  Claim C19: properties laid out by the code generator do not disturb each other: setting the value
  of one property leaves the value of every other property of the worker as it was.
\<close>
theorem properties_isolated:
  assumes lay: "property_offsets ps (0, 0) = (ps', cum, space)" "list_all placed ps" "length ps < 2 ^ 30"
      "list_all (\<lambda>p. well_laid (pi_member p) \<and> sized_ok (pi_member p) \<and> unat (m_stringLength (attrs (pi_member p))) < 2 ^ 32) ps"
    and ij: "i < length ps" "j < length ps" "i \<noteq> j"
    and set: "setPropertyValue le beyond (prop_of (pi_member (ps' ! i))) v mem = Inr mem'"
      "value_fits (prop_of (pi_member (ps' ! i))) v (length mem)" "3 \<le> length beyond"
  shows "getPropertyValue le (prop_of (pi_member (ps' ! j))) mem' = getPropertyValue le (prop_of (pi_member (ps' ! j))) mem"
proof -
  have l: "laid_from 0 (map pi_member ps') (unat cum)" "list_all2 (\<lambda>p p'. \<exists>off. p' = set_offset off p) ps ps'"
    using property_offsets_laid [OF lay(1,2)] lay(3,4) by (auto simp: list_all_iff)
  let ?m = "\<lambda>k. pi_member (ps' ! k)"
  have len: "length ps' = length ps" using l(2) by (simp add: list_all2_lengthD)
  have m: "well_laid (?m k)" "sized_ok (?m k)" "pr_stringLength (prop_of (?m k)) < 2 ^ 32" if k: "k < length ps" for k
  proof -
    obtain off where "ps' ! k = set_offset off (ps ! k)" using list_all2_nthD [OF l(2) k] by blast
    then show "well_laid (?m k)" "sized_ok (?m k)" "pr_stringLength (prop_of (?m k)) < 2 ^ 32"
      using lay(4) k by (auto simp: list_all_length set_offset_attrs)
  qed
  have u: "untouched (at (?m i)) (at (?m i) + bytes (?m i)) mem mem'"
    using setPropertyValue_untouched [OF set(1) refl m(2,1) [OF ij(1)] set(2,3) m(3) [OF ij(1)]] by simp
  have apart: "at (?m i) + bytes (?m i) \<le> at (?m j) \<or> at (?m j) + bytes (?m j) \<le> at (?m i)"
    using laid_from_order [OF l(1), of i j] laid_from_order [OF l(1), of j i] ij len by (auto simp: nat_neq_iff)
  show ?thesis
  proof (rule getPropertyValue_area [OF _ refl m(2,1) [OF ij(2)] m(3) [OF ij(2)]])
    fix k n
    assume "pr_offset (prop_of (?m j)) \<le> k" "k + n \<le> pr_offset (prop_of (?m j)) + bytes (?m j)"
    then have "k + n \<le> at (?m i) \<or> at (?m i) + bytes (?m i) \<le> k" using apart by auto
    then show "rcc_getPropertyBytes k n mem' = rcc_getPropertyBytes k n mem" using u unfolding untouched_def by blast
  qed
qed

definition ex_property :: "vtype \<Rightarrow> property_info" where
  "ex_property a = \<lparr>pi_member = Member a [] None, m_isIndirect = False, m_indirectAddr = 0, m_isParameter = False, m_isReadable = True\<rparr>"

definition ex_properties :: "property_info list" where
  "ex_properties =
     [ex_property (ValueType OCPI_UChar False\<lparr>m_align := 1, m_dataAlign := 1, m_nBits := 8, m_nBytes := 1\<rparr>),
      ex_property (ValueType OCPI_ULong False\<lparr>m_align := 4, m_dataAlign := 4, m_nBits := 32, m_nBytes := 4\<rparr>)]"

theorem properties_isolated_witness:
  "let ps' = fst (property_offsets ex_properties (0, 0)); mem = replicate 8 7 in
   \<exists>mem'. setPropertyValue True [0, 0, 0] (prop_of (pi_member (ps' ! 1))) (Scalar 66051) mem = Inr mem' \<and>
     getPropertyValue True (prop_of (pi_member (ps' ! 0))) mem' = getPropertyValue True (prop_of (pi_member (ps' ! 0))) mem"
proof -
  let ?mem = "replicate 8 7 :: octets"
  obtain ps' cum space where r: "property_offsets ex_properties (0, 0) = (ps', cum, space)" by (cases "property_offsets ex_properties (0, 0)") auto
  let ?info = "prop_of (pi_member (ps' ! 1))"
  have ps': "pi_member (ps' ! Suc 0) = Member (ValueType OCPI_ULong False\<lparr>m_align := 4, m_dataAlign := 4, m_nBits := 32, m_nBytes := 4, m_offset := 4\<rparr>) [] None"
    using r by (auto simp: ex_properties_def ex_property_def property_offset_def set_offset_def roundUp_def ValueType_def)
  have f: "value_fits ?info (Scalar 66051) (length ?mem)" by (simp add: ps' ValueType_def m_arrayRank_def)
  have "\<exists>mem'. setPropertyValue True [0, 0, 0] ?info (Scalar 66051) ?mem = Inr mem'"
    using scalar_roundtrip [of ?info 66051 ?mem True] f by (auto simp: setPropertyValue_def)
  then obtain mem' where s: "setPropertyValue True [0, 0, 0] ?info (Scalar 66051) ?mem = Inr mem'" by blast
  have "getPropertyValue True (prop_of (pi_member (ps' ! 0))) mem' = getPropertyValue True (prop_of (pi_member (ps' ! 0))) ?mem"
    by (rule properties_isolated [OF r _ _ _ _ _ _ s f])
      (simp_all add: ex_properties_def ex_property_def placed_def ValueType_def good_align_def m_arrayRank_def item_bytes_def elem_bytes_def)
  then show ?thesis using s r by (simp only: Let_def fst_conv) blast
qed

end
