(* ===== verification/HdlControl.thy ===== *)
theory HdlControl
  imports Workers
begin

text \<open>
  Control of HDL workers, \<^verbatim>\<open>core/container/hdl/src/HdlWciControl.cxx\<close> and
  \<^verbatim>\<open>core/container/hdl/include/HdlWciControl.h\<close>: control operations are register reads, and the
  configuration space of a worker is seen through a window of 2^20 bytes. The hardware is a
  parameter, a record of access functions on a state of any type. Logging is left out.
\<close>

subsection \<open>Registers\<close>

text \<open>Offsets of \<^verbatim>\<open>OccpWorkerRegisters\<close> and the values of \<^verbatim>\<open>HdlOCCP.h\<close>.\<close>

fun controlOffsets :: "control_op \<Rightarrow> nat" where
  "controlOffsets OpInitialize = 0"
| "controlOffsets OpStart = 4"
| "controlOffsets OpStop = 8"
| "controlOffsets OpRelease = 12"
| "controlOffsets OpTest = 16"
| "controlOffsets OpBeforeQuery = 20"
| "controlOffsets OpAfterConfigure = 24"

definition reg_status :: nat where "reg_status = 32"
definition reg_control :: nat where "reg_control = 36"
definition reg_window :: nat where "reg_window = 48"

definition OCCP_SUCCESS_RESULT :: u32 where "OCCP_SUCCESS_RESULT = 0xc0de4201"
definition OCCP_ERROR_RESULT :: u32 where "OCCP_ERROR_RESULT = 0xc0de4202"
definition OCCP_TIMEOUT_RESULT :: u32 where "OCCP_TIMEOUT_RESULT = 0xc0de4203"
definition OCCP_RESET_RESULT :: u32 where "OCCP_RESET_RESULT = 0xc0de4204"
definition OCCP_FATAL_RESULT :: u32 where "OCCP_FATAL_RESULT = 0xc0de4205"
definition OCCP_STATUS_WRITE_ERRORS :: u32 where "OCCP_STATUS_WRITE_ERRORS = 0x124"
definition OCCP_STATUS_READ_ERRORS :: u32 where "OCCP_STATUS_READ_ERRORS = 0x92"
definition OCCP_WORKER_CONTROL_ENABLE :: u32 where "OCCP_WORKER_CONTROL_ENABLE = 0x80000000"
definition OCCP_WORKER_CONFIG_SIZE :: u64 where "OCCP_WORKER_CONFIG_SIZE = 0x100000"
definition OCCP_WORKER_CONFIG_WINDOW_BITS :: nat where "OCCP_WORKER_CONFIG_WINDOW_BITS = 20"

text \<open>
  Access to the hardware: registers, and the configuration area either mapped into memory or
  behind an accessor, whose calls also give a status.
\<close>

record 'd wci_device =
  rd_reg :: "nat \<Rightarrow> 'd \<Rightarrow> u32 \<times> 'd"
  wr_reg :: "nat \<Rightarrow> u32 \<Rightarrow> 'd \<Rightarrow> 'd"
  rd_cfg :: "nat \<Rightarrow> nat \<Rightarrow> 'd \<Rightarrow> octets \<times> 'd"
  wr_cfg :: "nat \<Rightarrow> octets \<Rightarrow> 'd \<Rightarrow> 'd"
  acc_get :: "nat \<Rightarrow> nat \<Rightarrow> 'd \<Rightarrow> (octets \<times> u32) \<times> 'd"
  acc_set :: "nat \<Rightarrow> octets \<Rightarrow> 'd \<Rightarrow> u32 \<times> 'd"

record 'd hdl_worker = controllable +
  m_window :: u64
  m_hasControl :: bool
  m_timeout :: u64
  m_mapped :: bool
  hw :: 'd

record prop_info =
  m_offset :: u64
  m_nBits :: nat
  m_align :: nat
  m_isSequence :: bool
  m_writeError :: bool
  m_readError :: bool

datatype hdl_error = HdlAssert | WriteError u32 | ReadError u32 | SequenceError | OpFailed string

subsection \<open>Initialisation\<close>

text \<open>
  The search for the highest bit of the timeout: the constant \<^verbatim>\<open>1 << 31\<close> is a negative \<^verbatim>\<open>int\<close> that
  is sign extended. \<open>None\<close> is a search that does not end.
\<close>

partial_function (option) timeout_loop :: "u64 \<Rightarrow> u64 \<Rightarrow> u32 \<Rightarrow> u32 option" where
  "timeout_loop timeout u logTimeout =
     (if u AND timeout \<noteq> 0 then Some logTimeout
      else timeout_loop timeout (drop_bit 1 u) (logTimeout - 1))"

declare timeout_loop.simps [code]

definition log_timeout :: "u64 \<Rightarrow> u32 option" where
  "log_timeout timeout = timeout_loop timeout 0xffffffff80000000 31"

definition wci_init :: "'d wci_device \<Rightarrow> 'd hdl_worker \<Rightarrow> 'd hdl_worker option" where
  "wci_init d w0 =
     (let w = w0\<lparr>m_window := 0\<rparr> in
      if m_hasControl w then
        (case log_timeout (m_timeout w) of
           None \<Rightarrow> None
         | Some _ \<Rightarrow>
             Some (w\<lparr>m_controlMask := set_bit (op_number OpStart) (m_controlMask w),
                     hw := wr_reg d reg_control (OCCP_WORKER_CONTROL_ENABLE OR 5) (wr_reg d reg_control 5 (hw w))\<rparr>))
      else Some (w\<lparr>m_controlMask := 0\<rparr>))"

subsection \<open>Control operations\<close>

definition hdl_check :: "'d wci_device \<Rightarrow> 'd hdl_worker \<Rightarrow> 'd hdl_worker" where
  "hdl_check d w = w\<lparr>hw := snd (rd_reg d reg_status (hw w))\<rparr>"

definition op_message :: "u32 \<Rightarrow> string" where
  "op_message result =
     (if result = OCCP_TIMEOUT_RESULT then ''timed out performing control operation (no OCP response on the WCI)''
      else if result = OCCP_ERROR_RESULT then ''indicated an error from control operation''
      else if result = OCCP_RESET_RESULT then ''was in a reset state when control operation was requested''
      else if result = OCCP_FATAL_RESULT then ''indicated a fatal error from control operation''
      else ''returned unknown result value from control operation'')"

definition hdl_operate :: "'d wci_device \<Rightarrow> control_op \<Rightarrow> 'd hdl_worker \<Rightarrow> worker_error option \<times> 'd hdl_worker" where
  "hdl_operate d op w =
     (if bit (m_controlMask w) (op_number op) then
        (case rd_reg d (controlOffsets op) (hw w) of
           (result, h) \<Rightarrow>
             (if result \<noteq> OCCP_SUCCESS_RESULT then Some (WorkerThrow (op_message result)) else None, w\<lparr>hw := h\<rparr>))
      else (None, w))"

subsection \<open>Property access\<close>

definition checkWindow :: "'d wci_device \<Rightarrow> u64 \<Rightarrow> u64 \<Rightarrow> 'd hdl_worker \<Rightarrow> (nat \<times> 'd hdl_worker) option" where
  "checkWindow d off nBytes w =
     (if \<not> m_hasControl w then None
      else
        let window = off AND NOT (OCCP_WORKER_CONFIG_SIZE - 1) in
        if window \<noteq> (off + nBytes) AND NOT (OCCP_WORKER_CONFIG_SIZE - 1) then None
        else
          Some (unat (off AND (OCCP_WORKER_CONFIG_SIZE - 1)),
            if window \<noteq> m_window w
            then w\<lparr>hw := wr_reg d reg_window (ucast (drop_bit OCCP_WORKER_CONFIG_WINDOW_BITS window)) (hw w),
                   m_window := window\<rparr>
            else w))"

definition status_bits :: "'d wci_device \<Rightarrow> u32 \<Rightarrow> 'd hdl_worker \<Rightarrow> u32 \<times> 'd hdl_worker" where
  "status_bits d errs w = (case rd_reg d reg_status (hw w) of (s, h) \<Rightarrow> (s AND errs, w\<lparr>hw := h\<rparr>))"

text \<open>A guarded access: the status is read before and after it when the property asks for it.\<close>

definition guarded ::
    "'d wci_device \<Rightarrow> bool \<Rightarrow> u32 \<Rightarrow> ('d hdl_worker \<Rightarrow> 'a \<times> 'd hdl_worker) \<Rightarrow> 'a \<Rightarrow> 'd hdl_worker \<Rightarrow> (u32 \<times> 'a) \<times> 'd hdl_worker" where
  "guarded d checked errs act dflt w =
     (if checked then
        (case status_bits d errs w of (s, w1) \<Rightarrow>
           if s \<noteq> 0 then ((s, dflt), w1)
           else (case act w1 of (a, w2) \<Rightarrow>
             (case status_bits d errs w2 of (s', w3) \<Rightarrow> ((s', a), w3))))
      else (case act w of (a, w1) \<Rightarrow> ((0, a), w1)))"

definition write_at :: "'d wci_device \<Rightarrow> nat \<Rightarrow> octets \<Rightarrow> 'd hdl_worker \<Rightarrow> unit \<times> 'd hdl_worker" where
  "write_at d off data w = ((), w\<lparr>hw := wr_cfg d off data (hw w)\<rparr>)"

definition read_at :: "'d wci_device \<Rightarrow> nat \<Rightarrow> nat \<Rightarrow> 'd hdl_worker \<Rightarrow> octets \<times> 'd hdl_worker" where
  "read_at d off n w = (case rd_cfg d off n (hw w) of (bs, h) \<Rightarrow> (bs, w\<lparr>hw := h\<rparr>))"

definition setPropertyBytes ::
    "'d wci_device \<Rightarrow> prop_info \<Rightarrow> u64 \<Rightarrow> octets \<Rightarrow> 'd hdl_worker \<Rightarrow> (hdl_error + unit) \<times> 'd hdl_worker" where
  "setPropertyBytes d info off data w =
     (case checkWindow d off (of_nat (length data)) w of
        None \<Rightarrow> (Inl HdlAssert, w)
      | Some (o', w1) \<Rightarrow>
          (case (if m_mapped w1
                 then (case guarded d (m_writeError info) OCCP_STATUS_WRITE_ERRORS (write_at d o' data) () w1 of
                         ((s, _), w2) \<Rightarrow> (s, w2))
                 else (case acc_set d o' data (hw w1) of (s, h) \<Rightarrow> (s, w1\<lparr>hw := h\<rparr>))) of
             (status, w2) \<Rightarrow> (if status \<noteq> 0 then Inl (WriteError status) else Inr (), w2)))"

definition getPropertyBytes ::
    "'d wci_device \<Rightarrow> prop_info \<Rightarrow> u64 \<Rightarrow> nat \<Rightarrow> 'd hdl_worker \<Rightarrow> (hdl_error + octets) \<times> 'd hdl_worker" where
  "getPropertyBytes d info off n w =
     (case checkWindow d off (of_nat n) w of
        None \<Rightarrow> (Inl HdlAssert, w)
      | Some (o', w1) \<Rightarrow>
          (case (if m_mapped w1
                 then guarded d (m_readError info) OCCP_STATUS_READ_ERRORS (read_at d o' n) [] w1
                 else (case acc_get d o' n (hw w1) of ((bs, s), h) \<Rightarrow> ((s, bs), w1\<lparr>hw := h\<rparr>))) of
             ((status, bs), w2) \<Rightarrow> (if status \<noteq> 0 then Inl (ReadError status) else Inr bs, w2)))"

text \<open>
  The scalar accesses are instances of one macro: they access the bytes of the value at the offset
  of the property. \<open>le\<close> is the byte order of the machine.
\<close>

definition setProperty8 :: "bool \<Rightarrow> 'd wci_device \<Rightarrow> prop_info \<Rightarrow> u8 \<Rightarrow> 'd hdl_worker \<Rightarrow> (hdl_error + unit) \<times> 'd hdl_worker" where
  "setProperty8 le d info v = setPropertyBytes d info (m_offset info) (mem_repr le 1 (unat v))"
definition setProperty16 :: "bool \<Rightarrow> 'd wci_device \<Rightarrow> prop_info \<Rightarrow> u16 \<Rightarrow> 'd hdl_worker \<Rightarrow> (hdl_error + unit) \<times> 'd hdl_worker" where
  "setProperty16 le d info v = setPropertyBytes d info (m_offset info) (mem_repr le 2 (unat v))"
definition setProperty32 :: "bool \<Rightarrow> 'd wci_device \<Rightarrow> prop_info \<Rightarrow> u32 \<Rightarrow> 'd hdl_worker \<Rightarrow> (hdl_error + unit) \<times> 'd hdl_worker" where
  "setProperty32 le d info v = setPropertyBytes d info (m_offset info) (mem_repr le 4 (unat v))"
definition setProperty64 :: "bool \<Rightarrow> 'd wci_device \<Rightarrow> prop_info \<Rightarrow> u64 \<Rightarrow> 'd hdl_worker \<Rightarrow> (hdl_error + unit) \<times> 'd hdl_worker" where
  "setProperty64 le d info v = setPropertyBytes d info (m_offset info) (mem_repr le 8 (unat v))"

definition getProperty8 :: "bool \<Rightarrow> 'd wci_device \<Rightarrow> prop_info \<Rightarrow> 'd hdl_worker \<Rightarrow> (hdl_error + u8) \<times> 'd hdl_worker" where
  "getProperty8 le d info w =
     (case getPropertyBytes d info (m_offset info) 1 w of (r, w1) \<Rightarrow> (map_sum id (\<lambda>bs. of_nat (mem_value le bs)) r, w1))"
definition getProperty16 :: "bool \<Rightarrow> 'd wci_device \<Rightarrow> prop_info \<Rightarrow> 'd hdl_worker \<Rightarrow> (hdl_error + u16) \<times> 'd hdl_worker" where
  "getProperty16 le d info w =
     (case getPropertyBytes d info (m_offset info) 2 w of (r, w1) \<Rightarrow> (map_sum id (\<lambda>bs. of_nat (mem_value le bs)) r, w1))"
definition getProperty32 :: "bool \<Rightarrow> 'd wci_device \<Rightarrow> prop_info \<Rightarrow> 'd hdl_worker \<Rightarrow> (hdl_error + u32) \<times> 'd hdl_worker" where
  "getProperty32 le d info w =
     (case getPropertyBytes d info (m_offset info) 4 w of (r, w1) \<Rightarrow> (map_sum id (\<lambda>bs. of_nat (mem_value le bs)) r, w1))"
definition getProperty64 :: "bool \<Rightarrow> 'd wci_device \<Rightarrow> prop_info \<Rightarrow> 'd hdl_worker \<Rightarrow> (hdl_error + u64) \<times> 'd hdl_worker" where
  "getProperty64 le d info w =
     (case getPropertyBytes d info (m_offset info) 8 w of (r, w1) \<Rightarrow> (map_sum id (\<lambda>bs. of_nat (mem_value le bs)) r, w1))"

text \<open>Sequences: the count at the offset of the property, the data after it.\<close>

definition setPropertySequence ::
    "bool \<Rightarrow> 'd wci_device \<Rightarrow> prop_info \<Rightarrow> octets \<Rightarrow> u32 \<Rightarrow> 'd hdl_worker \<Rightarrow> (hdl_error + unit) \<times> 'd hdl_worker" where
  "setPropertySequence le d info data nItems w =
     (case checkWindow d (m_offset info) (of_nat (length data)) w of
        None \<Rightarrow> (Inl HdlAssert, w)
      | Some (o', w1) \<Rightarrow>
          (case (if m_mapped w1
                 then (case guarded d (m_writeError info) OCCP_STATUS_WRITE_ERRORS
                              (\<lambda>v. if m_isSequence info
                                   then write_at d o' (mem_repr le 4 (unat nItems)) (snd (write_at d (o' + m_align info) data v))
                                   else write_at d o' data v) () w1 of
                         ((s, _), w2) \<Rightarrow> (s, w2))
                 else if m_isSequence info then
                   (case acc_set d (o' + m_align info) data (hw w1) of
                      (s, h) \<Rightarrow> if s \<noteq> 0 then (s, w1\<lparr>hw := h\<rparr>)
                        else (case acc_set d o' (mem_repr le 4 (unat nItems)) h of (s', h') \<Rightarrow> (s', w1\<lparr>hw := h'\<rparr>)))
                 else (case acc_set d o' data (hw w1) of (s, h) \<Rightarrow> (s, w1\<lparr>hw := h\<rparr>))) of
             (status, w2) \<Rightarrow> (if status \<noteq> 0 then Inl (WriteError status) else Inr (), w2)))"

text \<open>
  The result of reading a sequence is the count with the bytes stored into the caller's buffer of
  \<open>n\<close> bytes, if any were stored.
\<close>

definition item_bytes :: "prop_info \<Rightarrow> u32 \<Rightarrow> nat" where
  "item_bytes info nItems = unat nItems * (m_nBits info div 8)"

definition get_sequence_mapped ::
    "bool \<Rightarrow> 'd wci_device \<Rightarrow> prop_info \<Rightarrow> nat \<Rightarrow> nat \<Rightarrow> 'd hdl_worker \<Rightarrow>
     (hdl_error + u32 \<times> octets option) \<times> 'd hdl_worker" where
  "get_sequence_mapped le d info n off w =
     (if m_readError info then
        (case status_bits d OCCP_STATUS_READ_ERRORS w of
           (s, w1) \<Rightarrow>
             if s \<noteq> 0 then (Inl (ReadError s), w1)
             else (case read_at d off 4 w1 of (bs, w2) \<Rightarrow> (Inr (of_nat (mem_value le bs), None), w2)))
      else
        (case read_at d off 4 w of (bs, w1) \<Rightarrow>
         let nItems = of_nat (mem_value le bs) in
         (case status_bits d OCCP_STATUS_READ_ERRORS w1 of (s, w2) \<Rightarrow>
            if s \<noteq> 0 then (Inl (ReadError s), w2)
            else if item_bytes info nItems \<le> n then (Inl SequenceError, w2)
            else (case read_at d (off + m_align info) (item_bytes info nItems) w2 of
                    (buf, w3) \<Rightarrow> (Inr (nItems, Some buf), w3)))))"

definition getPropertySequence ::
    "bool \<Rightarrow> 'd wci_device \<Rightarrow> prop_info \<Rightarrow> nat \<Rightarrow> 'd hdl_worker \<Rightarrow>
     (hdl_error + u32 \<times> octets option) \<times> 'd hdl_worker" where
  "getPropertySequence le d info n w =
     (case checkWindow d (m_offset info) (of_nat n) w of
        None \<Rightarrow> (Inl HdlAssert, w)
      | Some (off, w1) \<Rightarrow>
          if m_mapped w1 then get_sequence_mapped le d info n off w1
          else
            (case acc_get d off 4 (hw w1) of ((bs, s), h) \<Rightarrow>
             let nItems = of_nat (mem_value le bs) in
             if s \<noteq> 0 then (Inl (ReadError s), w1\<lparr>hw := h\<rparr>)
             else if item_bytes info nItems \<le> n then (Inl SequenceError, w1\<lparr>hw := h\<rparr>)
             else (case acc_get d (off + m_align info) (item_bytes info nItems) h of
                     ((buf, s'), h') \<Rightarrow>
                       (if s' \<noteq> 0 then Inl (ReadError s') else Inr (nItems, Some buf), w1\<lparr>hw := h'\<rparr>))))"

subsection \<open>HDL workers keep the contract of a container\<close>

interpretation hdl: worker_container "hdl_check d" "hdl_operate d" for d :: "'d wci_device"
  by unfold_locales (auto simp: hdl_check_def hdl_operate_def split: if_splits prod.splits)

subsection \<open>The window\<close>

lemma mask_20: "OCCP_WORKER_CONFIG_SIZE - 1 = mask 20"
  by (simp add: OCCP_WORKER_CONFIG_SIZE_def mask_eq_exp_minus_1)

lemma window_split: "unat (drop_bit 20 (x AND NOT (mask 20)) :: u64) * 2 ^ 20 + unat (x AND mask 20) = unat x"
proof -
  have "drop_bit 20 (x AND NOT (mask 20)) = drop_bit 20 x"
    by (rule bit_eqI) (auto simp: bit_simps dest: bit_imp_le_length)
  then show ?thesis
    by (simp add: unat_div_distrib unat_mod_distrib drop_bit_eq_div take_bit_eq_mod flip: take_bit_eq_mask)
qed

text \<open>
  The hardware as documented: the window register selects the part of the flat configuration space
  that an access in the window reaches, reading the status changes nothing and shows no error.
\<close>

definition good_device :: "'d wci_device \<Rightarrow> ('d \<Rightarrow> u32) \<Rightarrow> ('d \<Rightarrow> nat \<Rightarrow> u8) \<Rightarrow> bool" where
  "good_device d win mem \<longleftrightarrow>
     (\<forall>h v. win (wr_reg d reg_window v h) = v \<and> mem (wr_reg d reg_window v h) = mem h) \<and>
     (\<forall>h. rd_reg d reg_status h = (0, h)) \<and>
     (\<forall>h off bs. win (wr_cfg d off bs h) = win h \<and>
        mem (wr_cfg d off bs h) =
          (\<lambda>a. let b = unat (win h) * 2 ^ 20 + off in if b \<le> a \<and> a < b + length bs then bs ! (a - b) else mem h a)) \<and>
     (\<forall>h off n. rd_cfg d off n h = (map (\<lambda>i. mem h (unat (win h) * 2 ^ 20 + off + i)) [0..<n], h))"

definition window_inv :: "('d \<Rightarrow> u32) \<Rightarrow> 'd hdl_worker \<Rightarrow> bool" where
  "window_inv win w \<longleftrightarrow> win (hw w) = ucast (drop_bit 20 (m_window w))"

lemma checkWindow_flat:
  assumes g: "good_device d win mem" and i: "window_inv win w" and o: "off < 2 ^ 52"
    and c: "checkWindow d off n w = Some (o', w1)"
  shows "unat (win (hw w1)) * 2 ^ 20 + o' = unat off" "window_inv win w1" "mem (hw w1) = mem (hw w)"
    "m_mapped w1 = m_mapped w" "m_hasControl w1 = m_hasControl w" "m_window w1 = off AND NOT (mask 20)"
proof -
  let ?win = "off AND NOT (mask 20)"
  have w: "o' = unat (off AND mask 20)" "window_inv win w1" "mem (hw w1) = mem (hw w)" "m_window w1 = ?win"
    "m_mapped w1 = m_mapped w" "m_hasControl w1 = m_hasControl w"
    using c g i by (auto simp: checkWindow_def Let_def mask_20 window_inv_def good_device_def
        OCCP_WORKER_CONFIG_WINDOW_BITS_def split: if_splits)
  have "unat (drop_bit 20 ?win) < 2 ^ 32"
    using window_split [of off] o by (simp add: word_less_nat_alt)
  then have "unat (win (hw w1)) = unat (drop_bit 20 ?win)"
    using w(2,4) by (simp add: window_inv_def unsigned_ucast_eq take_bit_nat_eq_self)
  then show "unat (win (hw w1)) * 2 ^ 20 + o' = unat off" using window_split [of off] w(1) by simp
qed (use c g i in \<open>auto simp: checkWindow_def Let_def mask_20 window_inv_def good_device_def
        OCCP_WORKER_CONFIG_WINDOW_BITS_def split: if_splits\<close>)

definition flat_write :: "(nat \<Rightarrow> u8) \<Rightarrow> nat \<Rightarrow> octets \<Rightarrow> nat \<Rightarrow> u8" where
  "flat_write m b bs = (\<lambda>a. if b \<le> a \<and> a < b + length bs then bs ! (a - b) else m a)"

lemma guarded_good:
  assumes "good_device d win mem"
  shows "guarded d checked errs act dflt w = (case act w of (a, w1) \<Rightarrow> ((0, a), w1))"
  using assms by (auto simp: guarded_def status_bits_def good_device_def split: prod.splits)

lemma setPropertyBytes_flat:
  assumes g: "good_device d win mem" and i: "window_inv win w" and m: "m_mapped w" and o: "off < 2 ^ 52"
    and c: "checkWindow d off (of_nat (length data)) w \<noteq> None"
  obtains w' where "setPropertyBytes d info off data w = (Inr (), w')"
    "mem (hw w') = flat_write (mem (hw w)) (unat off) data" "window_inv win w'" "m_mapped w'"
    "m_hasControl w' = m_hasControl w"
proof -
  from c obtain o' w1 where cw: "checkWindow d off (of_nat (length data)) w = Some (o', w1)" by auto
  note f = checkWindow_flat [OF g i o cw]
  let ?w' = "w1\<lparr>hw := wr_cfg d o' data (hw w1)\<rparr>"
  have "setPropertyBytes d info off data w = (Inr (), ?w')"
    using f(4) m by (simp add: setPropertyBytes_def cw guarded_good [OF g] write_at_def)
  moreover have "mem (hw ?w') = flat_write (mem (hw w1)) (unat (win (hw w1)) * 2 ^ 20 + o') data"
    using g by (simp add: good_device_def flat_write_def Let_def)
  then have "mem (hw ?w') = flat_write (mem (hw w)) (unat off) data" by (simp only: f(1,3))
  moreover have "window_inv win ?w'" using g f(2) by (simp add: window_inv_def good_device_def)
  ultimately show thesis using that f(4,5) m by simp
qed

lemma getPropertyBytes_flat:
  assumes g: "good_device d win mem" and i: "window_inv win w" and m: "m_mapped w" and o: "off < 2 ^ 52"
    and c: "checkWindow d off (of_nat n) w \<noteq> None"
  shows "fst (getPropertyBytes d info off n w) = Inr (map (\<lambda>i. mem (hw w) (unat off + i)) [0..<n])"
proof -
  from c obtain o' w1 where cw: "checkWindow d off (of_nat n) w = Some (o', w1)" by auto
  note f = checkWindow_flat [OF g i o cw]
  have "rd_cfg d o' n (hw w1) = (map (\<lambda>i. mem (hw w1) (unat (win (hw w1)) * 2 ^ 20 + o' + i)) [0..<n], hw w1)"
    using g by (simp add: good_device_def)
  then have "rd_cfg d o' n (hw w1) = (map (\<lambda>i. mem (hw w) (unat off + i)) [0..<n], hw w1)"
    by (simp only: f(1,3))
  then show ?thesis
    using f(4) m by (simp add: getPropertyBytes_def cw guarded_good [OF g] read_at_def split: prod.split)
qed

lemma same_window_iff:
  "x AND NOT (mask 20) = y AND NOT (mask 20) \<longleftrightarrow> unat (x :: u64) div 2 ^ 20 = unat y div 2 ^ 20"
proof -
  have d: "drop_bit 20 (z AND NOT (mask 20)) = drop_bit 20 z" for z :: u64
    by (rule bit_eqI) (auto simp: bit_simps dest: bit_imp_le_length)
  have p: "push_bit 20 (drop_bit 20 z) = z AND NOT (mask 20)" for z :: u64
    by (rule bit_eqI) (auto simp: bit_simps)
  have "x AND NOT (mask 20) = y AND NOT (mask 20) \<longleftrightarrow> drop_bit 20 x = drop_bit 20 y"
    by (metis d p)
  also have "\<dots> \<longleftrightarrow> unat (drop_bit 20 x) = unat (drop_bit 20 y)" by (metis unsigned_word_eqI)
  finally show ?thesis by (simp add: unat_div_distrib drop_bit_eq_div)
qed

lemma div_add_same_iff: "(a + n) div k = a div k \<longleftrightarrow> a mod k + n < k" if "0 < k" for a n k :: nat
proof -
  have e: "a + n = (a mod k + n) + a div k * k" by simp
  have "(a + n) div k = a div k + (a mod k + n) div k"
    by (subst e, subst div_mult_self1) (use that in simp_all)
  then show ?thesis using that by (simp add: div_eq_0_iff)
qed

lemma checkWindow_iff:
  assumes "off < 2 ^ 52" "n \<le> 2 ^ 20"
  shows "checkWindow d off (of_nat n) w \<noteq> None \<longleftrightarrow> m_hasControl w \<and> unat off mod 2 ^ 20 + n < 2 ^ 20"
proof -
  have "unat (of_nat n :: u64) = n" using assms(2) by (simp add: unat_of_nat take_bit_nat_eq_self)
  then have "unat (off + of_nat n) = unat off + n"
    using assms by (simp add: unat_word_ariths word_less_nat_alt)
  then show ?thesis
    using div_add_same_iff [of "2 ^ 20" "unat off" n]
    by (auto simp: checkWindow_def Let_def mask_20 same_window_iff)
qed

lemma flat_write_same: "map (\<lambda>i. flat_write m b bs (b + i)) [0..<length bs] = bs"
  by (rule nth_equalityI) (simp_all add: flat_write_def)

lemma flat_write_other:
  "b + length bs \<le> c \<or> c + n \<le> b \<Longrightarrow> map (\<lambda>i. flat_write m b bs (c + i)) [0..<n] = map (\<lambda>i. m (c + i)) [0..<n]"
  by (rule map_cong) (auto simp: flat_write_def)

subsection \<open>Properties of HDL workers\<close>


text \<open>A device with a window register and a flat memory.\<close>

definition simple_device :: "(u32 \<times> (nat \<Rightarrow> u8)) wci_device" where
  "simple_device =
     \<lparr>rd_reg = (\<lambda>r h. (0, h)), wr_reg = (\<lambda>r v h. if r = reg_window then (v, snd h) else h),
      rd_cfg = (\<lambda>off n h. (map (\<lambda>i. snd h (unat (fst h) * 2 ^ 20 + off + i)) [0..<n], h)),
      wr_cfg = (\<lambda>off bs h. (fst h, flat_write (snd h) (unat (fst h) * 2 ^ 20 + off) bs)),
      acc_get = (\<lambda>off n h. (([], 0), h)), acc_set = (\<lambda>off bs h. (0, h))\<rparr>"

definition simple_worker :: "(u32 \<times> (nat \<Rightarrow> u8)) hdl_worker" where
  "simple_worker =
     \<lparr>m_state = EXISTS, m_controlMask = 0, m_window = 0, m_hasControl = True, m_timeout = 16, m_mapped = True,
      hw = (0, \<lambda>a. 0)\<rparr>"

definition simple_info :: prop_info where
  "simple_info = \<lparr>m_offset = 0, m_nBits = 32, m_align = 4, m_isSequence = False, m_writeError = True, m_readError = True\<rparr>"


lemma rd_cfg_flat:
  assumes "good_device d win mem" "unat (win h) * 2 ^ 20 + off = a"
  shows "rd_cfg d (off + j) n h = (map (\<lambda>i. mem h (a + j + i)) [0..<n], h)"
proof -
  have "rd_cfg d (off + j) n h = (map (\<lambda>i. mem h (unat (win h) * 2 ^ 20 + (off + j) + i)) [0..<n], h)"
    using assms(1) by (simp add: good_device_def)
  also have "unat (win h) * 2 ^ 20 + (off + j) = a + j" using assms(2) by simp
  finally show ?thesis .
qed

text \<open>
  Reading a sequence property has its length test inverted: on hardware that behaves as
  documented, a sequence that fits the caller's buffer is refused with the overflow error, and one
  that does not fit is stored, beyond the end of the buffer.
\<close>
theorem get_sequence_test_inverted:
  fixes le :: bool
  assumes "good_device d win mem" "window_inv win w" "m_mapped w" "m_hasControl w" "\<not> m_readError info"
    and "m_offset info < 2 ^ 52" "n \<le> 2 ^ 20" "unat (m_offset info) mod 2 ^ 20 + n < 2 ^ 20"
  defines "k \<equiv> (of_nat (mem_value le (map (\<lambda>i. mem (hw w) (unat (m_offset info) + i)) [0..<4])) :: u32)"
  shows "fst (getPropertySequence le d info n w) =
     (if item_bytes info k \<le> n then Inl SequenceError
      else Inr (k, Some (map (\<lambda>i. mem (hw w) (unat (m_offset info) + m_align info + i)) [0..<item_bytes info k])))"
proof -
  have "checkWindow d (m_offset info) (of_nat n) w \<noteq> None"
    using checkWindow_iff [OF assms(6,7), of d w] assms(4,8) by simp
  then obtain o' w1 where cw: "checkWindow d (m_offset info) (of_nat n) w = Some (o', w1)" by auto
  note f = checkWindow_flat [OF assms(1,2,6) cw]
  have r: "rd_cfg d (o' + j) m (hw w1) = (map (\<lambda>i. mem (hw w) (unat (m_offset info) + j + i)) [0..<m], hw w1)" for j m
    using rd_cfg_flat [OF assms(1) f(1)] by (simp only: f(3))
  have s: "rd_reg d reg_status (hw w1) = (0, hw w1)" using assms(1) by (simp add: good_device_def)
  show ?thesis
    using assms(3,5) f(4) r [of 0 4] r [of "m_align info"] s
    by (simp add: getPropertySequence_def cw get_sequence_mapped_def read_at_def status_bits_def Let_def k_def)
qed

theorem get_sequence_test_inverted_witness:
  "let info = simple_info\<lparr>m_isSequence := True, m_readError := False\<rparr>;
       w = simple_worker\<lparr>hw := (0, \<lambda>a. if a = 0 then 3 else 0)\<rparr>
   in fst (getPropertySequence True simple_device info 16 w) = Inl SequenceError \<and>
      fst (getPropertySequence True simple_device info 8 w) = Inr (3, Some (replicate 12 0))"
proof -
  let ?info = "simple_info\<lparr>m_isSequence := True, m_readError := False\<rparr>"
  let ?w = "simple_worker\<lparr>hw := (0 :: u32, \<lambda>a. if a = 0 then 3 else 0 :: u8)\<rparr>"
  have g: "good_device simple_device fst snd"
    by (auto simp: good_device_def simple_device_def flat_write_def Let_def)
  have i: "window_inv fst ?w" "m_mapped ?w" "m_hasControl ?w" "\<not> m_readError ?info"
    by (simp_all add: window_inv_def simple_worker_def)
  have k: "(of_nat (mem_value True (map (\<lambda>i. snd (hw ?w) (unat (m_offset ?info) + i)) [0..<4])) :: u32) = 3"
    by code_simp
  have b: "item_bytes ?info 3 = 12" by code_simp
  have z: "map (\<lambda>i. snd (hw ?w) (unat (m_offset ?info) + m_align ?info + i)) [0..<12] = replicate 12 0" by code_simp
  have h: "m_offset ?info < 2 ^ 52" "unat (m_offset ?info) mod 2 ^ 20 + 16 < 2 ^ 20"
    "unat (m_offset ?info) mod 2 ^ 20 + 8 < 2 ^ 20"
    by (simp_all add: simple_info_def)
  show ?thesis
    using get_sequence_test_inverted [OF g i h(1) _ h(2), of True] get_sequence_test_inverted [OF g i h(1) _ h(3), of True]
    by (simp only: k b z Let_def) simp
qed

subsection \<open>Termination of the initialisation\<close>

lemma timeout_loop_Some:
  assumes "timeout_loop timeout u l = Some r"
  shows "timeout \<noteq> 0"
  by (rule timeout_loop.raw_induct [where P = "\<lambda>t u l r. t \<noteq> 0", OF _ assms]) (auto split: if_splits)

lemma timeout_loop_ends: "bit timeout j \<Longrightarrow> bit u (j + m) \<Longrightarrow> \<exists>r. timeout_loop timeout u l = Some r"
proof (induction m arbitrary: u l)
  case 0
  then have "bit (u AND timeout) j" by (simp add: bit_and_iff)
  then have "u AND timeout \<noteq> 0" by auto
  then show ?case by (subst timeout_loop.simps) simp
next
  case (Suc m)
  have "bit (drop_bit 1 u) (j + m)" using Suc.prems(2) by (simp add: bit_drop_bit_eq)
  then show ?case using Suc.IH [OF Suc.prems(1)] by (subst timeout_loop.simps) simp
qed

text \<open>
  Claim C39: the initialisation of a worker fails to return exactly when the worker is controlled
  and its timeout is zero: the search for the highest bit of a zero timeout never ends.
\<close>
theorem wci_init_returns_iff:
  "wci_init d w = None \<longleftrightarrow> m_hasControl w \<and> m_timeout w = 0"
proof -
  have "\<exists>r. log_timeout t = Some r" if "t \<noteq> 0" for t
  proof -
    have "\<exists>j. bit t j"
    proof (rule ccontr)
      assume "\<nexists>j. bit t j"
      then have "t = 0" by (intro bit_eqI) simp
      with that show False by simp
    qed
    then obtain j where j: "bit t j" by blast
    then have "j < 64" using bit_imp_le_length by fastforce
    moreover have u: "(0xffffffff80000000 :: u64) = NOT (mask 31)" by code_simp
    ultimately have "bit (0xffffffff80000000 :: u64) (j + (31 - j))"
      unfolding u by (simp add: bit_not_iff bit_mask_iff) linarith
    with j show ?thesis unfolding log_timeout_def by (rule timeout_loop_ends)
  qed
  then have "log_timeout t = None \<longleftrightarrow> t = 0" for t
    using timeout_loop_Some [of t] by (metis log_timeout_def not_None_eq)
  from this [of "m_timeout w"] show ?thesis
    by (cases "log_timeout (m_timeout w)") (auto simp: wci_init_def Let_def)
qed

end
