(* ===== verification/ResPools.thy ===== *)
theory ResPools
  imports Prelude "HOL-Library.Multiset"
begin

text \<open>
  The resource pool of \<^verbatim>\<open>core/local/util/res/src/OcpiAlloc.cxx\<close>, from which the transport layer
  allocates the memory of its endpoints: \<^verbatim>\<open>MemBlockMgr\<close> over a \<^verbatim>\<open>ResPool\<close> with a list of free and a
  list of allocated blocks. Addresses are 32-bit words and sizes 64-bit words. The main invariant
  is that the blocks partition the pool. In \<open>defrag\<close>, stepping past the end of an empty free list,
  which C++ leaves undefined, finds nothing to merge.
\<close>

unbundle bit_operations_syntax

subsection \<open>Pools\<close>

record block =
  b_size :: u64
  b_addr :: u32
  b_aligned :: u32

record respool =
  total_size :: u64
  used :: u64
  free_list :: "block list"
  alloc_list :: "block list"

definition ALIGN :: "u32 \<Rightarrow> u32 \<Rightarrow> u32" where
  "ALIGN addr alignment = (if alignment = 0 then addr else addr AND NOT (alignment - 1))"

definition MemBlockMgr :: "u32 \<Rightarrow> u64 \<Rightarrow> respool" where
  "MemBlockMgr start sz =
     \<lparr>total_size = sz, used = 0, free_list = [\<lparr>b_size = sz, b_addr = start, b_aligned = start\<rparr>], alloc_list = []\<rparr>"

text \<open>The first two neighbours that touch are merged; \<open>None\<close> when there are none.\<close>

fun merge_first :: "block list \<Rightarrow> block list option" where
  "merge_first (a # b # bs) =
     (if ucast (b_addr a) + b_size a = ucast (b_addr b)
      then Some (a\<lparr>b_size := b_size a + b_size b\<rparr> # bs)
      else map_option ((#) a) (merge_first (b # bs)))"
| "merge_first _ = None"

lemma merge_first_length: "merge_first bs = Some bs' \<Longrightarrow> length bs' < length bs"
  by (induction bs arbitrary: bs' rule: merge_first.induct) (auto split: if_splits)

function defrag_list :: "block list \<Rightarrow> block list" where
  "defrag_list bs =
     (let s = sort_key b_addr bs in
      case merge_first s of None \<Rightarrow> s | Some bs' \<Rightarrow> defrag_list bs')"
  by pat_completeness auto
termination
  by (relation "measure length") (auto dest!: merge_first_length)

declare defrag_list.simps [simp del]

definition defrag :: "respool \<Rightarrow> respool" where
  "defrag p = p\<lparr>free_list := defrag_list (free_list p)\<rparr>"

text \<open>
  One pass over the free list: the list before the block found, the block and the rest.
\<close>

fun find_block :: "u64 \<Rightarrow> block list \<Rightarrow> (block list \<times> block \<times> block list) option" where
  "find_block n [] = None"
| "find_block n (b # bs) =
     (if n \<le> b_size b then Some ([], b, bs)
      else map_option (\<lambda>(xs, c, ys). (b # xs, c, ys)) (find_block n bs))"

definition take_block :: "u64 \<Rightarrow> u32 \<Rightarrow> block list \<Rightarrow> block \<Rightarrow> block list \<Rightarrow> respool \<Rightarrow> u32 \<times> respool" where
  "take_block n alignment xs b ys p =
     (let req = ALIGN (b_addr b) alignment in
      if n < b_size b then
        (req, p\<lparr>free_list := xs @ b\<lparr>b_addr := b_addr b + ucast n, b_size := b_size b - n\<rparr> # ys,
                alloc_list := alloc_list p @ [\<lparr>b_size = n, b_addr = b_addr b, b_aligned = ALIGN req alignment\<rparr>],
                used := used p + n\<rparr>)
      else
        (req, p\<lparr>free_list := xs @ ys, alloc_list := alloc_list p @ [b\<lparr>b_aligned := req\<rparr>],
                used := used p + n\<rparr>))"

fun alloc_loop :: "nat \<Rightarrow> u64 \<Rightarrow> u32 \<Rightarrow> respool \<Rightarrow> u32 option \<times> respool" where
  "alloc_loop 0 n alignment p = (None, p)"
| "alloc_loop (Suc retry) n alignment p =
     (case find_block n (free_list p) of
        Some (xs, b, ys) \<Rightarrow> (case take_block n alignment xs b ys p of (a, p') \<Rightarrow> (Some a, p'))
      | None \<Rightarrow> alloc_loop retry n alignment (defrag p))"

definition alloc :: "u64 \<Rightarrow> u32 \<Rightarrow> respool \<Rightarrow> u32 option \<times> respool" where
  "alloc nbytes alignment p =
     alloc_loop 2 (nbytes + ucast (alignment div 8)) alignment (p\<lparr>free_list := sort_key b_size (free_list p)\<rparr>)"

text \<open>\<open>None\<close> is the failed assertion at the end of \<^verbatim>\<open>free\<close>.\<close>

fun take_aligned :: "u32 \<Rightarrow> block list \<Rightarrow> (block \<times> block list) option" where
  "take_aligned a [] = None"
| "take_aligned a (b # bs) =
     (if b_aligned b = a then Some (b, bs)
      else map_option (\<lambda>(c, ys). (c, b # ys)) (take_aligned a bs))"

definition free_block :: "u32 \<Rightarrow> respool \<Rightarrow> respool option" where
  "free_block addr p =
     (case take_aligned addr (alloc_list p) of
        None \<Rightarrow> None
      | Some (b, bs) \<Rightarrow>
          Some (defrag (p\<lparr>used := used p - b_size b,
            free_list := free_list p @ [\<lparr>b_size = b_size b, b_addr = addr, b_aligned = addr\<rparr>],
            alloc_list := bs\<rparr>)))"

subsection \<open>Blocks as sets of bytes\<close>

definition bytes :: "block \<Rightarrow> nat set" where
  "bytes b = {unat (b_addr b)..<unat (b_addr b) + unat (b_size b)}"

definition occupied :: "block list \<Rightarrow> nat set" where
  "occupied bs = (\<Union>b\<in>set bs. bytes b)"

definition tsize :: "block list \<Rightarrow> nat" where
  "tsize bs = (\<Sum>b\<leftarrow>bs. unat (b_size b))"

text \<open>The blocks cover the pool and their sizes add up to its size: they partition it.\<close>

definition partitions :: "nat \<Rightarrow> nat \<Rightarrow> block list \<Rightarrow> bool" where
  "partitions start sz bs \<longleftrightarrow> occupied bs = {start..<start + sz} \<and> tsize bs = sz"

definition pool_inv :: "nat \<Rightarrow> nat \<Rightarrow> respool \<Rightarrow> bool" where
  "pool_inv start sz p \<longleftrightarrow> start + sz \<le> 2 ^ 32 \<and> partitions start sz (free_list p @ alloc_list p) \<and>
     unat (used p) = tsize (alloc_list p)"

lemma card_bytes [simp]: "card (bytes b) = unat (b_size b)" "finite (bytes b)"
  by (simp_all add: bytes_def)

lemma occupied_simps [simp]:
  "occupied [] = {}" "occupied (b # bs) = bytes b \<union> occupied bs" "occupied (xs @ ys) = occupied xs \<union> occupied ys"
  "finite (occupied bs)"
  by (auto simp: occupied_def)

lemma tsize_simps [simp]:
  "tsize [] = 0" "tsize (b # bs) = unat (b_size b) + tsize bs" "tsize (xs @ ys) = tsize xs + tsize ys"
  by (simp_all add: tsize_def)

lemma card_occupied_le: "card (occupied bs) \<le> tsize bs"
proof (induction bs)
  case (Cons b bs)
  then show ?case using card_Un_le [of "bytes b" "occupied bs"] by simp
qed simp

lemma occupied_disjoint:
  assumes "card (occupied (xs @ ys)) = tsize (xs @ ys)"
  shows "occupied xs \<inter> occupied ys = {}"
proof -
  have "card (occupied xs \<union> occupied ys) + card (occupied xs \<inter> occupied ys) = card (occupied xs) + card (occupied ys)"
    by (simp add: card_Un_Int [symmetric])
  then have "card (occupied xs \<inter> occupied ys) = 0"
    using assms card_occupied_le [of xs] card_occupied_le [of ys]
    unfolding occupied_simps tsize_simps by linarith
  then show ?thesis by simp
qed

lemma mset_occupied: "mset xs = mset ys \<Longrightarrow> occupied xs = occupied ys"
  unfolding occupied_def by (metis set_mset_mset)

lemma mset_tsize: "mset xs = mset ys \<Longrightarrow> tsize xs = tsize ys"
  unfolding tsize_def by (metis mset_map sum_mset_sum_list)

lemma partitions_mset: "mset xs = mset ys \<Longrightarrow> partitions s n xs \<Longrightarrow> partitions s n ys"
  unfolding partitions_def using mset_occupied mset_tsize by metis

lemma partitions_disjoint:
  assumes "partitions s n bs" "mset bs = mset (xs @ ys)"
  shows "occupied xs \<inter> occupied ys = {}"
proof (rule occupied_disjoint)
  have "partitions s n (xs @ ys)" using assms partitions_mset by blast
  then show "card (occupied (xs @ ys)) = tsize (xs @ ys)" by (simp add: partitions_def)
qed

lemma block_bound:
  assumes "partitions s n bs" "b \<in> set bs" "s + n \<le> 2 ^ 32"
  shows "unat (b_size b) = 0 \<or> unat (b_addr b) + unat (b_size b) \<le> s + n"
    "unat (b_size b) \<le> 2 ^ 32"
proof -
  have "bytes b \<subseteq> {s..<s + n}" using assms(1,2) by (auto simp: partitions_def occupied_def)
  then show b: "unat (b_size b) = 0 \<or> unat (b_addr b) + unat (b_size b) \<le> s + n"
    unfolding bytes_def by (auto simp: ivl_subset)
  then show "unat (b_size b) \<le> 2 ^ 32" using assms(3) by auto
qed

subsection \<open>Every operation keeps the partition\<close>

lemma unat_add_u64:
  assumes "unat (a :: u64) + unat b < 2 ^ 64"
  shows "unat (a + b) = unat a + unat b"
  using assms by (simp add: unat_word_ariths)

lemma unat_ucast_u32 [simp]: "unat (ucast (a :: u32) :: u64) = unat a"
  using unat_u32_less [of a] by (simp add: unsigned_ucast_eq take_bit_nat_eq_self)

definition b_end :: "block \<Rightarrow> nat" where
  "b_end b = unat (b_addr b) + unat (b_size b)"

lemma touching:
  assumes "unat (b_size a) \<le> 2 ^ 32"
  shows "ucast (b_addr a) + b_size a = ucast (b_addr b) \<longleftrightarrow> b_end a = unat (b_addr b)"
proof -
  have "unat (ucast (b_addr a) + b_size a) = b_end a"
    using assms unat_u32_less [of "b_addr a"] by (subst unat_add_u64) (simp_all add: b_end_def)
  then show ?thesis
    by (metis unat_ucast_u32 unsigned_word_eqI)
qed

lemma merge_first_keeps:
  "merge_first bs = Some bs' \<Longrightarrow> \<forall>b\<in>set bs. unat (b_size b) \<le> 2 ^ 32 \<Longrightarrow>
   occupied bs' = occupied bs \<and> tsize bs' = tsize bs"
proof (induction bs arbitrary: bs' rule: merge_first.induct)
  case (1 a b bs)
  show ?case
  proof (cases "ucast (b_addr a) + b_size a = ucast (b_addr b)")
    case True
    have sum: "unat (b_size a + b_size b) = unat (b_size a) + unat (b_size b)"
      using 1(3) by (intro unat_add_u64) simp
    have "b_end a = unat (b_addr b)" using 1(3) True touching [of a b] by simp
    then have "bytes (a\<lparr>b_size := b_size a + b_size b\<rparr>) = bytes a \<union> bytes b"
      by (auto simp: bytes_def sum b_end_def)
    with True 1(2) sum show ?thesis by (auto simp: Un_assoc)
  next
    case False
    with 1(2) obtain r where r: "merge_first (b # bs) = Some r" "bs' = a # r" by auto
    then show ?thesis using 1(1) [OF False r(1)] 1(3) by simp
  qed
qed simp_all

lemma partitions_sizes:
  "partitions s n (xs @ ys) \<Longrightarrow> s + n \<le> 2 ^ 32 \<Longrightarrow> b \<in> set xs \<union> set ys \<Longrightarrow> unat (b_size b) \<le> 2 ^ 32"
  using block_bound(2) [of s n "xs @ ys" b] by auto

lemma partitions_cong:
  "occupied xs' = occupied xs \<Longrightarrow> tsize xs' = tsize xs \<Longrightarrow> partitions s n (xs' @ ys) = partitions s n (xs @ ys)"
  by (simp add: partitions_def)

lemma defrag_list_keeps:
  assumes "partitions s n (bs @ ys)" "s + n \<le> 2 ^ 32"
  shows "occupied (defrag_list bs) = occupied bs \<and> tsize (defrag_list bs) = tsize bs"
  using assms
proof (induction bs rule: defrag_list.induct)
  case (1 bs)
  let ?s = "sort_key b_addr bs"
  have s: "occupied ?s = occupied bs" "tsize ?s = tsize bs"
    by (rule mset_occupied mset_tsize, simp)+
  show ?case
  proof (cases "merge_first ?s")
    case None
    then show ?thesis using s by (simp add: defrag_list.simps [of bs])
  next
    case (Some bs')
    have "\<forall>b\<in>set ?s. unat (b_size b) \<le> 2 ^ 32" using partitions_sizes [OF 1(2,3)] by simp
    then have m: "occupied bs' = occupied bs" "tsize bs' = tsize bs"
      using merge_first_keeps [OF Some] s by auto
    then have "partitions s n (bs' @ ys)" using 1(2) partitions_cong by blast
    then show ?thesis
      using 1(1) [OF refl Some _ 1(3)] m Some by (simp add: defrag_list.simps [of bs])
  qed
qed

lemma defrag_inv: "pool_inv s n p \<Longrightarrow> pool_inv s n (defrag p)"
  using defrag_list_keeps [of s n "free_list p" "alloc_list p"]
    partitions_cong [of "defrag_list (free_list p)" "free_list p" s n "alloc_list p"]
  by (auto simp: pool_inv_def defrag_def)

lemma find_block_split:
  "find_block n bs = Some (xs, b, ys) \<Longrightarrow> bs = xs @ b # ys \<and> n \<le> b_size b"
  by (induction bs arbitrary: xs) (auto split: if_splits)

lemma find_block_None: "find_block n bs = None \<longleftrightarrow> (\<forall>b\<in>set bs. b_size b < n)"
  by (induction bs) (auto split: if_splits simp: not_le)

lemma split_block:
  assumes "n < b_size b" "b_end b \<le> 2 ^ 32"
  shows "bytes (b\<lparr>b_addr := b_addr b + ucast n, b_size := b_size b - n\<rparr>) =
           {unat (b_addr b) + unat n..<b_end b}"
    "unat (b_size b - n) = unat (b_size b) - unat n"
proof -
  have n: "unat n < unat (b_size b)" using assms(1) by (simp add: word_less_nat_alt)
  then have "unat (ucast n :: u32) = unat n"
    using assms(2) by (simp add: unsigned_ucast_eq take_bit_nat_eq_self b_end_def)
  then have a: "unat (b_addr b + ucast n) = unat (b_addr b) + unat n"
    using assms(2) n by (simp add: unat_word_ariths b_end_def)
  show s: "unat (b_size b - n) = unat (b_size b) - unat n"
    using n by (simp add: unat_sub word_le_nat_alt)
  show "bytes (b\<lparr>b_addr := b_addr b + ucast n, b_size := b_size b - n\<rparr>) =
      {unat (b_addr b) + unat n..<b_end b}"
    using n by (simp add: bytes_def a s b_end_def)
qed

lemma partitions_replace:
  assumes "partitions s m ((xs @ b # ys) @ zs)" "occupied ps \<union> occupied qs = bytes b" "tsize ps + tsize qs = unat (b_size b)"
  shows "partitions s m ((xs @ ps @ ys) @ zs @ qs)"
proof -
  have "occupied ((xs @ ps @ ys) @ zs @ qs) = occupied xs \<union> (occupied ps \<union> occupied qs) \<union> occupied ys \<union> occupied zs"
    by (simp only: occupied_simps) blast
  also have "\<dots> = occupied ((xs @ b # ys) @ zs)" unfolding assms(2) by (simp only: occupied_simps) blast
  finally show ?thesis using assms(1,3) by (simp add: partitions_def)
qed

lemma take_block_inv:
  assumes inv: "pool_inv s m p" "free_list p = xs @ b # ys" "n \<le> b_size b"
    and t: "take_block n alignment xs b ys p = (a, p')"
  shows "pool_inv s m p'"
proof -
  have pt: "partitions s m (free_list p @ alloc_list p)" "s + m \<le> 2 ^ 32" using inv(1) by (simp_all add: pool_inv_def)
  have bb: "b \<in> set (free_list p @ alloc_list p)" using inv(2) by simp
  have sz: "tsize (alloc_list p) + unat (b_size b) \<le> 2 ^ 32"
    using pt inv(2) by (simp add: partitions_def)
  have n: "unat n \<le> unat (b_size b)" using inv(3) by (simp add: word_le_nat_alt)
  have u: "unat (used p + n) = tsize (alloc_list p) + unat n"
    using inv(1) sz n by (subst unat_add_u64) (simp_all add: pool_inv_def)
  show ?thesis
  proof (cases "n < b_size b")
    case True
    then have "b_end b \<le> 2 ^ 32"
      using block_bound(1) [OF pt(1) bb pt(2)] pt(2) by (auto simp: b_end_def word_less_nat_alt)
    note sb = split_block [OF True this]
    have "bytes b = {unat (b_addr b)..<unat (b_addr b) + unat n} \<union> {unat (b_addr b) + unat n..<b_end b}"
      using n by (auto simp: bytes_def b_end_def)
    then have "partitions s m ((xs @ [b\<lparr>b_addr := b_addr b + ucast n, b_size := b_size b - n\<rparr>] @ ys) @
        alloc_list p @ [\<lparr>b_size = n, b_addr = b_addr b, b_aligned = ALIGN (ALIGN (b_addr b) alignment) alignment\<rparr>])"
      using pt(1) n unfolding inv(2)
      by (elim partitions_replace) (simp_all add: sb Un_commute, simp add: bytes_def)
    then show ?thesis
      using pt(2) u t True by (auto simp: take_block_def pool_inv_def Let_def)
  next
    case False
    then have e: "n = b_size b" using inv(3) by simp
    have "partitions s m ((xs @ [] @ ys) @ alloc_list p @ [b\<lparr>b_aligned := ALIGN (b_addr b) alignment\<rparr>])"
      using pt(1) unfolding inv(2) by (elim partitions_replace) (simp_all add: bytes_def)
    then show ?thesis
      using pt(2) u t False e by (auto simp: take_block_def pool_inv_def Let_def)
  qed
qed

lemma alloc_loop_inv:
  "pool_inv s m p \<Longrightarrow> alloc_loop k n alignment p = (r, p') \<Longrightarrow> pool_inv s m p'"
proof (induction k arbitrary: p)
  case (Suc k)
  show ?case
  proof (cases "find_block n (free_list p)")
    case None
    then show ?thesis using Suc defrag_inv by (metis alloc_loop.simps(2) option.simps(4))
  next
    case (Some x)
    then obtain xs b ys where x: "x = (xs, b, ys)" by (cases x)
    then show ?thesis
      using Suc.prems Some find_block_split [of n "free_list p" xs b ys] take_block_inv [of s m p xs b ys n alignment]
      by (auto split: prod.splits)
  qed
qed simp

lemma sort_free_inv: "pool_inv s m p \<Longrightarrow> pool_inv s m (p\<lparr>free_list := sort_key f (free_list p)\<rparr>)"
  using partitions_mset [of "free_list p @ alloc_list p" "sort_key f (free_list p) @ alloc_list p"]
  by (simp add: pool_inv_def)

lemma alloc_inv: "pool_inv s m p \<Longrightarrow> alloc n alignment p = (r, p') \<Longrightarrow> pool_inv s m p'"
  unfolding alloc_def using alloc_loop_inv sort_free_inv by blast

lemma take_aligned_split:
  "take_aligned a bs = Some (b, bs') \<Longrightarrow> b_aligned b = a \<and> mset bs = add_mset b (mset bs') \<and> b \<in> set bs \<and> set bs' \<subseteq> set bs"
  by (induction bs arbitrary: bs') (fastforce split: if_splits)+

lemma free_inv:
  assumes inv: "pool_inv s m p" and f: "free_block a p = Some p'"
    and al: "\<forall>b\<in>set (alloc_list p). b_aligned b = b_addr b"
  shows "pool_inv s m p'"
proof -
  from f obtain b bs where t: "take_aligned a (alloc_list p) = Some (b, bs)"
    and p': "p' = defrag (p\<lparr>used := used p - b_size b,
       free_list := free_list p @ [\<lparr>b_size = b_size b, b_addr = a, b_aligned = a\<rparr>], alloc_list := bs\<rparr>)"
    by (auto simp: free_block_def split: option.splits)
  let ?c = "\<lparr>b_size = b_size b, b_addr = a, b_aligned = a\<rparr>"
  have b: "b_addr b = a" "mset (alloc_list p) = mset (b # bs)"
    using take_aligned_split [OF t] al by auto
  have "partitions s m (free_list p @ alloc_list p)" using inv by (simp add: pool_inv_def)
  then have "partitions s m (free_list p @ b # bs)" by (rule partitions_mset [rotated]) (simp add: b(2))
  moreover have "bytes ?c = bytes b" using b(1) by (simp add: bytes_def)
  ultimately have pt: "partitions s m ((free_list p @ [?c]) @ bs)" by (simp add: partitions_def)
  have ts: "tsize (alloc_list p) = unat (b_size b) + tsize bs" using mset_tsize [OF b(2)] by simp
  then have "unat (used p - b_size b) = tsize bs"
    using inv by (simp add: pool_inv_def unat_sub word_le_nat_alt)
  with pt inv show ?thesis unfolding p' by (intro defrag_inv) (simp add: pool_inv_def)
qed

subsection \<open>Safety and completeness of allocation\<close>

lemma ALIGN_0 [simp]: "ALIGN a 0 = a"
  by (simp add: ALIGN_def)

lemma take_block_free:
  assumes "take_block n 0 xs b ys p = (a, p')" "n \<le> b_size b"
  shows "{unat a..<unat a + unat n} \<subseteq> bytes b" "b_end c = unat a + unat n \<Longrightarrow> b_addr c = a \<Longrightarrow> bytes c = {unat a..<unat a + unat n}"
    "\<exists>c. alloc_list p' = alloc_list p @ [c] \<and> b_addr c = a \<and> b_aligned c = a \<and> b_size c = n"
proof -
  have "unat n \<le> unat (b_size b)" using assms(2) by (simp add: word_le_nat_alt)
  then show "{unat a..<unat a + unat n} \<subseteq> bytes b"
    using assms(1) by (auto simp: take_block_def Let_def bytes_def split: if_splits)
  show "\<exists>c. alloc_list p' = alloc_list p @ [c] \<and> b_addr c = a \<and> b_aligned c = a \<and> b_size c = n"
    using assms by (cases "n < b_size b") (auto simp: take_block_def Let_def)
qed (auto simp: bytes_def b_end_def)

lemma alloc_loop_free:
  assumes "pool_inv s m p" "alloc_loop k n 0 p = (Some a, p')"
  shows "{unat a..<unat a + unat n} \<subseteq> occupied (free_list p)"
    "\<exists>c. alloc_list p' = alloc_list p @ [c] \<and> b_addr c = a \<and> b_aligned c = a \<and> b_size c = n"
  using assms
proof (induction k arbitrary: p)
  case (Suc k)
  have d: "occupied (free_list (defrag p)) = occupied (free_list p)" "alloc_list (defrag p) = alloc_list p"
    if "pool_inv s m p" for p
    using that defrag_list_keeps by (auto simp: defrag_def pool_inv_def)
  { case 1
    show ?case
    proof (cases "find_block n (free_list p)")
      case None
      then show ?thesis using Suc.IH(1) [of "defrag p"] 1 defrag_inv d by simp
    next
      case (Some x)
      then show ?thesis
        using 1 find_block_split [of n "free_list p"] take_block_free(1)
        by (cases x) (fastforce split: prod.splits)
    qed }
  { case 2
    show ?case
    proof (cases "find_block n (free_list p)")
      case None
      then show ?thesis using Suc.IH(2) [of "defrag p"] 2 defrag_inv d by simp
    next
      case (Some x)
      then show ?thesis
        using 2 find_block_split [of n "free_list p"] take_block_free(3)
        by (cases x) (fastforce split: prod.splits)
    qed }
qed simp_all

lemma alloc_free:
  assumes "pool_inv s m p" "alloc n 0 p = (Some a, p')"
  shows "{unat a..<unat a + unat n} \<subseteq> occupied (free_list p)"
    "\<exists>c. alloc_list p' = alloc_list p @ [c] \<and> b_addr c = a \<and> b_aligned c = a \<and> b_size c = n"
proof -
  let ?p = "p\<lparr>free_list := sort_key b_size (free_list p)\<rparr>"
  have "alloc_loop 2 n 0 ?p = (Some a, p')" using assms(2) by (simp add: alloc_def del: alloc_loop.simps)
  note al = alloc_loop_free [OF sort_free_inv [OF assms(1)] this]
  have "occupied (sort_key b_size (free_list p)) = occupied (free_list p)" by (rule mset_occupied) simp
  with al show "{unat a..<unat a + unat n} \<subseteq> occupied (free_list p)"
    "\<exists>c. alloc_list p' = alloc_list p @ [c] \<and> b_addr c = a \<and> b_aligned c = a \<and> b_size c = n" by auto
qed

text \<open>A sorted list of disjoint blocks that do not touch: an interval of free bytes lies in one block.\<close>

fun chain :: "block list \<Rightarrow> bool" where
  "chain [] = True"
| "chain (b # bs) = ((\<forall>c\<in>set bs. b_end b \<le> unat (b_addr c)) \<and> chain bs)"

lemma chain_one_block:
  assumes "chain bs" "merge_first bs = None" "\<forall>b\<in>set bs. 0 < unat (b_size b) \<and> unat (b_size b) \<le> 2 ^ 32"
    and "{x..<x + n} \<subseteq> occupied bs" "0 < n"
  shows "\<exists>b\<in>set bs. {x..<x + n} \<subseteq> bytes b"
  using assms
proof (induction bs)
  case (Cons b bs)
  show ?case
  proof (cases "x \<in> bytes b")
    case True
    show ?thesis
    proof (cases "x + n \<le> b_end b")
      case False
      then have "b_end b \<in> {x..<x + n}" using True by (auto simp: bytes_def b_end_def)
      then have "b_end b \<in> occupied (b # bs)" "b_end b \<notin> bytes b" using Cons.prems(4) by (auto simp: bytes_def b_end_def)
      then obtain d where d: "d \<in> set bs" "b_end b \<in> bytes d" by (auto simp: occupied_def)
      then obtain c cs where bs: "bs = c # cs" by (cases bs) auto
      have "b_end b \<le> unat (b_addr c)" "unat (b_addr c) \<le> unat (b_addr d)"
        using Cons.prems(1) d(1) bs by (auto simp: b_end_def)
      moreover have "unat (b_addr d) \<le> b_end b" using d(2) by (simp add: bytes_def)
      ultimately have "b_end b = unat (b_addr c)" by simp
      then have "merge_first (b # bs) \<noteq> None" using bs Cons.prems(3) touching [of b c] by simp
      then show ?thesis using Cons.prems(2) by simp
    qed (use True in \<open>auto simp: bytes_def b_end_def\<close>)
  next
    case False
    have "x \<in> {x..<x + n}" using Cons.prems(5) by simp
    then have "x \<in> bytes b \<union> occupied bs" using subsetD [OF Cons.prems(4)] by simp
    then have "x \<in> occupied bs" using False by simp
    then obtain d where d: "d \<in> set bs" "x \<in> bytes d" by (auto simp: occupied_def)
    then have "b_end b \<le> x" using Cons.prems(1) by (auto simp: bytes_def intro: order.trans)
    then have "{x..<x + n} \<subseteq> occupied bs" using Cons.prems(4) by (auto simp: bytes_def b_end_def)
    moreover have "merge_first bs = None" using Cons.prems(2) by (cases bs) (auto split: if_splits)
    ultimately show ?thesis using Cons by auto
  qed
qed simp

definition positive :: "block list \<Rightarrow> bool" where
  "positive bs \<longleftrightarrow> (\<forall>b\<in>set bs. 0 < unat (b_size b))"

lemma sorted_chain:
  "sorted (map b_addr bs) \<Longrightarrow> card (occupied bs) = tsize bs \<Longrightarrow> positive bs \<Longrightarrow> chain bs"
proof (induction bs)
  case (Cons b bs)
  have dj: "bytes b \<inter> occupied bs = {}" using occupied_disjoint [of "[b]" bs] Cons.prems(2) by simp
  have "b_end b \<le> unat (b_addr c)" if c: "c \<in> set bs" for c
  proof -
    have "unat (b_addr c) \<in> bytes c" using Cons.prems(3) c by (simp add: positive_def bytes_def)
    then have "unat (b_addr c) \<notin> bytes b" using dj c by (auto simp: occupied_def)
    moreover have "unat (b_addr b) \<le> unat (b_addr c)" using Cons.prems(1) c by (simp add: word_le_nat_alt)
    ultimately show ?thesis by (auto simp: bytes_def b_end_def)
  qed
  moreover have "card (occupied bs) = tsize bs"
    using Cons.prems(2) dj by (simp add: card_Un_disjoint)
  ultimately show ?case using Cons by (simp add: positive_def)
qed simp

lemma defrag_list_done:
  "sorted (map b_addr (defrag_list bs)) \<and> merge_first (defrag_list bs) = None"
  by (induction bs rule: defrag_list.induct) (subst (1 2) defrag_list.simps, simp add: Let_def split: option.split)

lemma merge_first_positive:
  "merge_first bs = Some bs' \<Longrightarrow> \<forall>b\<in>set bs. unat (b_size b) \<le> 2 ^ 32 \<Longrightarrow> positive bs \<Longrightarrow> positive bs'"
proof (induction bs arbitrary: bs' rule: merge_first.induct)
  case (1 a b bs)
  have "unat (b_size a + b_size b) = unat (b_size a) + unat (b_size b)"
    using 1(3) by (intro unat_add_u64) simp
  then show ?case using 1 by (auto simp: positive_def split: if_splits)
qed simp_all

lemma defrag_list_positive:
  assumes "partitions s n (bs @ ys)" "s + n \<le> 2 ^ 32" "positive bs"
  shows "positive (defrag_list bs)"
  using assms
proof (induction bs rule: defrag_list.induct)
  case (1 bs)
  let ?s = "sort_key b_addr bs"
  have p: "positive ?s" using 1(4) by (simp add: positive_def)
  show ?case
  proof (cases "merge_first ?s")
    case None
    then show ?thesis using p by (simp add: defrag_list.simps [of bs])
  next
    case (Some bs')
    have sz: "\<forall>b\<in>set ?s. unat (b_size b) \<le> 2 ^ 32" using partitions_sizes [OF 1(2,3)] by simp
    have "occupied ?s = occupied bs" "tsize ?s = tsize bs" by (rule mset_occupied mset_tsize, simp)+
    then have "partitions s n (bs' @ ys)"
      using merge_first_keeps [OF Some sz] 1(2) partitions_cong [of bs' bs s n ys] by simp
    then show ?thesis
      using 1(1) [OF refl Some _ 1(3)] merge_first_positive [OF Some sz p] Some
      by (simp add: defrag_list.simps [of bs])
  qed
qed

text \<open>A pool that was only used with alignment 0 and positive sizes.\<close>

definition pool_ok :: "nat \<Rightarrow> nat \<Rightarrow> respool \<Rightarrow> bool" where
  "pool_ok s m p \<longleftrightarrow> pool_inv s m p \<and> positive (free_list p) \<and> positive (alloc_list p) \<and>
     (\<forall>b\<in>set (alloc_list p). b_aligned b = b_addr b)"

lemma defrag_positive: "pool_inv s m p \<Longrightarrow> positive (free_list p) \<Longrightarrow> positive (free_list (defrag p))"
  using defrag_list_positive by (auto simp: pool_inv_def defrag_def)

lemma alloc_loop_positive:
  "pool_inv s m p \<Longrightarrow> positive (free_list p) \<Longrightarrow> alloc_loop k n al p = (r, p') \<Longrightarrow> positive (free_list p')"
proof (induction k arbitrary: p)
  case (Suc k)
  show ?case
  proof (cases "find_block n (free_list p)")
    case None
    then show ?thesis using Suc.IH [of "defrag p"] Suc.prems defrag_inv defrag_positive by simp
  next
    case (Some x)
    then obtain xs b ys where x: "x = (xs, b, ys)" by (cases x)
    then have f: "free_list p = xs @ b # ys" using Some find_block_split by blast
    have "positive (free_list (snd (take_block n al xs b ys p)))"
      using Suc.prems(2) unfolding f
      by (auto simp: take_block_def Let_def positive_def word_less_nat_alt unat_sub word_le_nat_alt)
    then show ?thesis using Suc.prems(3) Some x by (auto split: prod.splits)
  qed
qed simp

lemma alloc_loop_None: "alloc_loop k n al p = (None, p') \<Longrightarrow> alloc_list p' = alloc_list p"
  by (induction k arbitrary: p) (auto simp: defrag_def split: option.splits prod.splits)

lemma alloc_ok:
  assumes ok: "pool_ok s m p" and n: "n \<noteq> 0" and a: "alloc n 0 p = (r, p')"
  shows "pool_ok s m p'"
proof -
  let ?p = "p\<lparr>free_list := sort_key b_size (free_list p)\<rparr>"
  have inv: "pool_inv s m p" "pool_inv s m ?p" "positive (free_list ?p)"
    using ok sort_free_inv by (auto simp: pool_ok_def positive_def)
  have l: "alloc_loop 2 n 0 ?p = (r, p')" using a by (simp add: alloc_def)
  have f: "positive (free_list p')" using alloc_loop_positive [OF inv(2,3) l] .
  have al: "alloc_list p' = alloc_list p \<or> (\<exists>c x. alloc_list p' = alloc_list p @ [c] \<and> b_addr c = x \<and> b_aligned c = x \<and> b_size c = n)"
    using alloc_loop_None [of 2 n 0 ?p p'] alloc_free(2) [OF inv(1), of n _ p'] a l by (cases r) auto
  have "0 < unat n" using n by (simp add: unat_gt_0)
  with al f alloc_inv [OF inv(1) a] ok show ?thesis by (auto simp: pool_ok_def positive_def)
qed

lemma free_ok:
  assumes ok: "pool_ok s m p" and f: "free_block a p = Some p'"
  shows "pool_ok s m p'"
proof -
  from f obtain b bs where t: "take_aligned a (alloc_list p) = Some (b, bs)"
    and p': "p' = defrag (p\<lparr>used := used p - b_size b,
       free_list := free_list p @ [\<lparr>b_size = b_size b, b_addr = a, b_aligned = a\<rparr>], alloc_list := bs\<rparr>)"
    by (auto simp: free_block_def split: option.splits)
  have inv: "pool_inv s m p'" using ok free_inv [OF _ f] by (simp add: pool_ok_def)
  have b: "b \<in> set (alloc_list p)" "set bs \<subseteq> set (alloc_list p)" "b_aligned b = a" "mset (alloc_list p) = mset (b # bs)"
    using take_aligned_split [OF t] by auto
  let ?c = "\<lparr>b_size = b_size b, b_addr = a, b_aligned = a\<rparr>"
  have pt: "partitions s m (free_list p @ alloc_list p)" "s + m \<le> 2 ^ 32"
    using ok by (simp_all add: pool_ok_def pool_inv_def)
  have "bytes ?c = bytes b" using ok b(1,3) by (auto simp: bytes_def pool_ok_def)
  moreover have "partitions s m (free_list p @ b # bs)"
    using pt(1) by (rule partitions_mset [rotated]) (simp add: b(4))
  ultimately have "partitions s m ((free_list p @ [?c]) @ bs)" by (simp add: partitions_def)
  then have "positive (defrag_list (free_list p @ [?c]))"
    using pt(2) by (rule defrag_list_positive) (use ok b(1) in \<open>auto simp: pool_ok_def positive_def\<close>)
  then show ?thesis
    using inv ok b(2) by (auto simp: pool_ok_def p' defrag_def positive_def)
qed

lemma pool_disjoint: "pool_inv s m p \<Longrightarrow> occupied (free_list p) \<inter> occupied (alloc_list p) = {}"
  by (rule partitions_disjoint [of s m "free_list p @ alloc_list p"]) (simp_all add: pool_inv_def)

lemma alloc_fresh:
  assumes "pool_inv s m p" "alloc n 0 p = (Some a, p')"
  shows "{unat a..<unat a + unat n} \<inter> occupied (alloc_list p) = {}"
    "{unat a..<unat a + unat n} \<subseteq> {s..<s + m}"
    "occupied (alloc_list p') = occupied (alloc_list p) \<union> {unat a..<unat a + unat n}"
proof -
  have f: "occupied (free_list p) \<inter> occupied (alloc_list p) = {}" "occupied (free_list p) \<subseteq> {s..<s + m}"
    using pool_disjoint [OF assms(1)] assms(1) by (auto simp: pool_inv_def partitions_def)
  note a = alloc_free [OF assms]
  show "{unat a..<unat a + unat n} \<inter> occupied (alloc_list p) = {}" using a(1) f(1) by blast
  show "{unat a..<unat a + unat n} \<subseteq> {s..<s + m}" using a(1) f(2) by blast
  show "occupied (alloc_list p') = occupied (alloc_list p) \<union> {unat a..<unat a + unat n}"
    using a(2) by (auto simp: bytes_def)
qed

subsection \<open>The contract of an allocator\<close>

text \<open>
  What the transport layer relies on: an allocation is fresh and belongs to the allocated bytes from
  then on. Its client allocates one region after the other.
\<close>

fun alloc_many :: "(u64 \<Rightarrow> 'p \<Rightarrow> u32 option \<times> 'p) \<Rightarrow> u64 list \<Rightarrow> 'p \<Rightarrow> (u32 \<times> u64) list \<times> 'p" where
  "alloc_many al [] p = ([], p)"
| "alloc_many al (n # ns) p =
     (case al n p of
        (None, p1) \<Rightarrow> alloc_many al ns p1
      | (Some a, p1) \<Rightarrow> (case alloc_many al ns p1 of (rs, p2) \<Rightarrow> ((a, n) # rs, p2)))"

definition region :: "u32 \<times> u64 \<Rightarrow> nat set" where
  "region r = {unat (fst r)..<unat (fst r) + unat (snd r)}"

locale allocator =
  fixes ok :: "'p \<Rightarrow> bool"
    and live :: "'p \<Rightarrow> nat set"
    and al :: "u64 \<Rightarrow> 'p \<Rightarrow> u32 option \<times> 'p"
  assumes keeps: "ok p \<Longrightarrow> n \<noteq> 0 \<Longrightarrow> al n p = (r, p') \<Longrightarrow> ok p'"
    and fresh: "ok p \<Longrightarrow> n \<noteq> 0 \<Longrightarrow> al n p = (Some a, p') \<Longrightarrow> region (a, n) \<inter> live p = {}"
    and lives: "ok p \<Longrightarrow> n \<noteq> 0 \<Longrightarrow> al n p = (Some a, p') \<Longrightarrow> live p' = live p \<union> region (a, n)"
    and failed: "ok p \<Longrightarrow> n \<noteq> 0 \<Longrightarrow> al n p = (None, p') \<Longrightarrow> live p' = live p"
begin

lemma alloc_many_disjoint:
  assumes "ok p" "0 \<notin> set ns" "alloc_many al ns p = (rs, p')"
  shows "ok p' \<and> pairwise (\<lambda>i j. region (rs ! i) \<inter> region (rs ! j) = {}) {..<length rs} \<and>
     (\<forall>r\<in>set rs. region r \<inter> live p = {})"
  using assms
proof (induction ns arbitrary: p rs p')
  case (Cons n ns)
  obtain r p1 where r: "al n p = (r, p1)" by fastforce
  have n: "n \<noteq> 0" and p1: "ok p1" using Cons.prems keeps [of p n r p1] r by auto
  obtain rs1 p2 where m: "alloc_many al ns p1 = (rs1, p2)" by fastforce
  have ih: "ok p2" "pairwise (\<lambda>i j. region (rs1 ! i) \<inter> region (rs1 ! j) = {}) {..<length rs1}"
    "\<forall>r\<in>set rs1. region r \<inter> live p1 = {}"
    using Cons.IH [OF p1 _ m] Cons.prems(2) by auto
  show ?case
  proof (cases r)
    case None
    then show ?thesis using failed [OF Cons.prems(1) n] r m ih Cons.prems(3) by auto
  next
    case (Some a)
    then have rs: "rs = (a, n) # rs1" "p' = p2" using r m Cons.prems(3) by auto
    have l: "live p1 = live p \<union> region (a, n)" "region (a, n) \<inter> live p = {}"
      using lives [OF Cons.prems(1) n] fresh [OF Cons.prems(1) n] r Some by auto
    then have d: "region (a, n) \<inter> region (rs1 ! i) = {}" if "i < length rs1" for i
      using ih(3) nth_mem [OF that] by blast
    have "region (rs ! i) \<inter> region (rs ! j) = {}" if "i < length rs" "j < length rs" "i \<noteq> j" for i j
      using that d ih(2) by (cases i; cases j) (auto simp: rs pairwise_def Int_commute)
    then show ?thesis using ih l rs by (auto simp: pairwise_def)
  qed
qed simp

end

interpretation pool: allocator "pool_ok s m" "\<lambda>p. occupied (alloc_list p)" "\<lambda>n. alloc n 0" for s m
proof
  fix p p' n a r
  assume ok: "pool_ok s m p" and n: "(n :: u64) \<noteq> 0"
  then have inv: "pool_inv s m p" by (simp add: pool_ok_def)
  show "pool_ok s m p'" if "alloc n 0 p = (r, p')" using alloc_ok [OF ok n that] .
  show "region (a, n) \<inter> occupied (alloc_list p) = {}" if "alloc n 0 p = (Some a, p')"
    using alloc_fresh(1) [OF inv that] by (simp add: region_def)
  show "occupied (alloc_list p') = occupied (alloc_list p) \<union> region (a, n)" if "alloc n 0 p = (Some a, p')"
    using alloc_fresh(3) [OF inv that] by (simp add: region_def)
  show "occupied (alloc_list p') = occupied (alloc_list p)" if "alloc n 0 p = (None, p')"
    using that alloc_loop_None by (fastforce simp: alloc_def)
qed

subsection \<open>Properties of the pool\<close>

inductive pool_reachable :: "u32 \<Rightarrow> u64 \<Rightarrow> respool \<Rightarrow> bool" for start sz where
  created: "pool_reachable start sz (MemBlockMgr start sz)"
| allocated: "pool_reachable start sz p \<Longrightarrow> n \<noteq> 0 \<Longrightarrow> alloc n 0 p = (r, p') \<Longrightarrow> pool_reachable start sz p'"
| freed: "pool_reachable start sz p \<Longrightarrow> free_block a p = Some p' \<Longrightarrow> pool_reachable start sz p'"

lemma pool_reachable_ok:
  assumes "pool_reachable start sz p" "sz \<noteq> 0" "unat start + unat sz \<le> 2 ^ 32"
  shows "pool_ok (unat start) (unat sz) p"
  using assms
proof (induction rule: pool_reachable.induct)
  case created
  then show ?case
    by (simp add: MemBlockMgr_def pool_ok_def pool_inv_def partitions_def positive_def bytes_def unat_gt_0)
qed (auto intro: alloc_ok free_ok)

text \<open>
  Claim C34: from the creation of a pool that fits the 32-bit address space, any sequence of
  allocations without alignment and of releases keeps the free and the allocated blocks a partition
  of the pool: they cover it, no two of them overlap, and the pool's count of used bytes is exact.
\<close>
theorem pool_stays_partitioned:
  assumes "pool_reachable start sz p" "sz \<noteq> 0" "unat start + unat sz \<le> 2 ^ 32"
  shows "occupied (free_list p) \<union> occupied (alloc_list p) = {unat start..<unat start + unat sz} \<and>
     occupied (free_list p) \<inter> occupied (alloc_list p) = {} \<and>
     tsize (free_list p) + tsize (alloc_list p) = unat sz \<and> unat (used p) = tsize (alloc_list p)"
  using pool_reachable_ok [OF assms] pool_disjoint [of "unat start" "unat sz" p]
  by (auto simp: pool_ok_def pool_inv_def partitions_def)

theorem pool_stays_partitioned_witness:
  "\<exists>p. pool_reachable 64 100 p \<and> length (alloc_list p) = 1 \<and> unat (used p) = tsize (alloc_list p)"
proof -
  let ?p = "snd (alloc 10 0 (MemBlockMgr 64 100))"
  have r: "pool_reachable 64 100 ?p"
    by (rule pool_reachable.allocated [OF pool_reachable.created, of 10]) (simp_all add: prod_eq_iff)
  have "length (alloc_list ?p) = 1" by code_simp
  with pool_stays_partitioned [OF r] r show ?thesis by (intro exI [of _ ?p]) simp
qed





text \<open>
  With an alignment, the allocator rounds the address down, out of the block it took: the
  second of two allocations is given the address of the first, and once both are released two later
  allocations without alignment are given the same bytes.
\<close>
theorem aligned_alloc_overlaps:
  "let (a1, p1) = alloc 10 0 (MemBlockMgr 0 100); (a2, p2) = alloc 14 16 p1 in
   a1 = Some 0 \<and> a2 = Some 0 \<and>
   (case free_block 0 p2 of
      None \<Rightarrow> False
    | Some p3 \<Rightarrow>
        (case free_block 0 p3 of
           None \<Rightarrow> False
         | Some p4 \<Rightarrow>
             let (a3, p5) = alloc 10 0 p4; (a4, p6) = alloc 16 0 p5 in a3 = Some 0 \<and> a4 = Some 0))"
  by code_simp

end
