(* ===== verification/VLists.thy ===== *)
theory VLists
  imports Prelude
begin

text \<open>
  The growable pointer lists of \<^verbatim>\<open>core/local/util/list/src/OcpiList.cxx\<close>, used by the transport
  layer for its ports, circuits and transfers. An entry is a pointer, \<open>None\<close> the null pointer. The
  array has as many slots as \<^verbatim>\<open>nspaces\<close>; the slots after the last entry are never read, and the model
  fills new ones with \<open>None\<close>. Whether an allocation of a number of slots succeeds is a parameter.
\<close>

subsection \<open>Lists in an array\<close>

record 'p vlist =
  nspaces :: nat
  nentries :: nat
  no_shuffle :: bool
  entries :: "'p option list"

text \<open>The slot for one more entry; the result is \<open>True\<close> when the allocation failed.\<close>

definition make_room :: "(nat \<Rightarrow> bool) \<Rightarrow> nat \<Rightarrow> nat \<Rightarrow> 'p vlist \<Rightarrow> bool \<times> 'p vlist" where
  "make_room mem isize incr l =
     (if nspaces l = 0 then
        if mem isize then (False, l\<lparr>entries := replicate isize None, nspaces := isize\<rparr>)
        else (True, l\<lparr>entries := []\<rparr>)
      else if nentries l = nspaces l then
        if mem (nspaces l + incr)
        then (False, l\<lparr>entries := entries l @ replicate incr None, nspaces := nspaces l + incr\<rparr>)
        else (True, l\<lparr>entries := []\<rparr>)
      else (False, l))"

definition insert_sized :: "(nat \<Rightarrow> bool) \<Rightarrow> nat \<Rightarrow> nat \<Rightarrow> 'p option \<Rightarrow> 'p vlist \<Rightarrow> bool \<times> 'p vlist" where
  "insert_sized mem isize incr item l =
     (case make_room mem isize incr l of
        (True, l1) \<Rightarrow> (True, l1)
      | (False, l1) \<Rightarrow> (False, l1\<lparr>entries := (entries l1)[nentries l1 := item], nentries := nentries l1 + 1\<rparr>))"

definition insert_to_list :: "(nat \<Rightarrow> bool) \<Rightarrow> 'p option \<Rightarrow> 'p vlist \<Rightarrow> bool \<times> 'p vlist" where
  "insert_to_list mem item l = insert_sized mem 64 8 item l"

definition shift_down :: "nat \<Rightarrow> 'p option list \<Rightarrow> 'p option list" where
  "shift_down n es = fold (\<lambda>u es. es[(n - 1) - u + 1 := es ! ((n - 1) - u)]) [0..<n] es"

definition prepend_to_list :: "(nat \<Rightarrow> bool) \<Rightarrow> nat \<Rightarrow> nat \<Rightarrow> 'p option \<Rightarrow> 'p vlist \<Rightarrow> bool \<times> 'p vlist" where
  "prepend_to_list mem isize incr item l =
     (case make_room mem isize incr l of
        (True, l1) \<Rightarrow> (True, l1)
      | (False, l1) \<Rightarrow>
          (False, l1\<lparr>entries := (shift_down (nentries l1) (entries l1))[0 := item], nentries := nentries l1 + 1\<rparr>))"

definition close_gap :: "nat \<Rightarrow> nat \<Rightarrow> 'p option list \<Rightarrow> 'p option list" where
  "close_gap i n es = fold (\<lambda>j es. es[j := es ! (j + 1)]) [i..<n - 1] es"

function remove_loop :: "'p option \<Rightarrow> nat \<Rightarrow> 'p vlist \<Rightarrow> 'p vlist" where
  "remove_loop item i l =
     (if i < nentries l then
        if entries l ! i = item then
          if \<not> no_shuffle l
          then remove_loop item i (l\<lparr>entries := close_gap i (nentries l) (entries l), nentries := nentries l - 1\<rparr>)
          else remove_loop item (i + 1) (l\<lparr>entries := (entries l)[i := None]\<rparr>)
        else remove_loop item (i + 1) l
      else l)"
  by pat_completeness auto
termination
  by (relation "measure (\<lambda>(item, i, l). nentries l - i)") auto

declare remove_loop.simps [simp del]

definition remove_from_list :: "'p option \<Rightarrow> 'p vlist \<Rightarrow> bool \<times> 'p vlist" where
  "remove_from_list item l = (if nentries l = 0 then (True, l) else (False, remove_loop item 0 l))"

fun validate_loop :: "'p option \<Rightarrow> 'p option list \<Rightarrow> bool" where
  "validate_loop item [] = True"
| "validate_loop item (e # es) = (if e = item then False else validate_loop item es)"

text \<open>The result of \<^verbatim>\<open>validate\<close> is 0, here \<open>False\<close>, when the entry is in the list.\<close>

definition vlist_validate :: "'p option \<Rightarrow> 'p vlist \<Rightarrow> bool" where
  "vlist_validate item l = validate_loop item (take (nentries l) (entries l))"

definition get_nentries :: "'p vlist \<Rightarrow> nat" where
  "get_nentries l = nentries l"

text \<open>An index outside the array, which the source does not test, has the value \<open>None\<close>.\<close>

definition get_entry :: "'p vlist option \<Rightarrow> nat \<Rightarrow> 'p option option" where
  "get_entry l i =
     (case l of
        Some v \<Rightarrow> if nentries v \<noteq> 0 then (if i < length (entries v) then Some (entries v ! i) else None) else Some None
      | None \<Rightarrow> Some None)"

definition destroy_list :: "'p vlist \<Rightarrow> 'p vlist" where
  "destroy_list l = l\<lparr>entries := [], nentries := 0, nspaces := 0\<rparr>"

fun insert_nulls :: "(nat \<Rightarrow> bool) \<Rightarrow> nat \<Rightarrow> 'p vlist \<Rightarrow> 'p vlist" where
  "insert_nulls mem 0 l = l"
| "insert_nulls mem (Suc n) l = insert_nulls mem n (snd (insert_to_list mem None l))"

text \<open>\<open>None\<close> is the failed assertion, or a store outside the array.\<close>

definition insert_to_position :: "(nat \<Rightarrow> bool) \<Rightarrow> 'p option \<Rightarrow> nat \<Rightarrow> 'p vlist \<Rightarrow> 'p vlist option" where
  "insert_to_position mem element pos l =
     (if \<not> no_shuffle l then None
      else
        let l1 = (if pos < get_nentries l then l else insert_nulls mem (pos - get_nentries l + 1) l) in
        if pos < length (entries l1) then Some (l1\<lparr>entries := (entries l1)[pos := element]\<rparr>) else None)"

subsection \<open>The list that an array stands for\<close>

definition vabs :: "'p vlist \<Rightarrow> 'p option list" where
  "vabs l = take (nentries l) (entries l)"

definition vlist_ok :: "'p vlist \<Rightarrow> bool" where
  "vlist_ok l \<longleftrightarrow> length (entries l) = nspaces l \<and> nentries l \<le> nspaces l"

lemma length_vabs [simp]: "vlist_ok l \<Longrightarrow> length (vabs l) = nentries l"
  by (simp add: vabs_def vlist_ok_def)

lemma make_room_ok:
  assumes "vlist_ok l" "0 < isize" "0 < incr" "make_room mem isize incr l = (False, l1)"
  shows "vlist_ok l1" "nentries l1 < nspaces l1" "vabs l1 = vabs l" "nentries l1 = nentries l" "no_shuffle l1 = no_shuffle l"
  using assms by (auto simp: make_room_def vlist_ok_def vabs_def split: if_splits)

lemma insert_sized_ok:
  assumes "vlist_ok l" "0 < isize" "0 < incr" "insert_sized mem isize incr item l = (False, l')"
  shows "vlist_ok l'" "vabs l' = vabs l @ [item]" "no_shuffle l' = no_shuffle l"
proof -
  obtain l1 where m: "make_room mem isize incr l = (False, l1)"
    and l': "l' = l1\<lparr>entries := (entries l1)[nentries l1 := item], nentries := nentries l1 + 1\<rparr>"
    using assms(4) by (auto simp: insert_sized_def split: prod.splits bool.splits)
  note r = make_room_ok [OF assms(1-3) m]
  show "vlist_ok l'" "no_shuffle l' = no_shuffle l" using r l' by (simp_all add: vlist_ok_def)
  have "nentries l1 < length (entries l1)" using r(1,2) by (simp add: vlist_ok_def)
  then have "vabs l' = vabs l1 @ [item]"
    using l' by (simp add: vabs_def take_Suc_conv_app_nth)
  then show "vabs l' = vabs l @ [item]" by (simp add: r(3))
qed

lemma shift_down_correct:
  assumes "n < length es"
  shows "shift_down n es = take 1 es @ take n es @ drop (n + 1) es"
proof -
  let ?f = "\<lambda>u es. es[(n - 1) - u + 1 := es ! ((n - 1) - u)]"
  have "fold ?f [0..<k] es = take (n - k + 1) es @ drop (n - k) (take n es) @ drop (n + 1) es" if "k \<le> n" for k
    using that
  proof (induction k)
    case 0
    then show ?case using assms by (simp add: take_Suc_conv_app_nth id_take_nth_drop [symmetric])
  next
    case (Suc k)
    let ?g = "take (n - k + 1) es @ drop (n - k) (take n es) @ drop (n + 1) es"
    have e: "(n - 1) - k + 1 = n - k" "(n - 1) - k = n - Suc k" using Suc.prems by auto
    have "fold ?f [0..<Suc k] es = ?g[n - k := ?g ! (n - Suc k)]" using Suc e by simp
    also have "?g ! (n - Suc k) = es ! (n - Suc k)" using Suc.prems assms by (simp add: nth_append)
    also have "?g[n - k := es ! (n - Suc k)] = take (n - k) es @ es ! (n - Suc k) # drop (n - k) (take n es) @ drop (n + 1) es"
      using Suc.prems assms by (simp add: list_update_append take_Suc_conv_app_nth)
    also have "take (n - k) es = take (n - Suc k + 1) es" using Suc.prems by (simp add: Suc_diff_Suc)
    also have "es ! (n - Suc k) # drop (n - k) (take n es) @ drop (n + 1) es =
        drop (n - Suc k) (take n es) @ drop (n + 1) es"
      using Suc.prems assms Cons_nth_drop_Suc [of "n - Suc k" "take n es"] by (simp add: Suc_diff_Suc)
    finally show ?case .
  qed
  from this [of n] show ?thesis by (simp add: shift_down_def)
qed

lemma prepend_ok:
  assumes "vlist_ok l" "0 < isize" "0 < incr" "prepend_to_list mem isize incr item l = (False, l')"
  shows "vlist_ok l'" "vabs l' = item # vabs l" "no_shuffle l' = no_shuffle l"
proof -
  obtain l1 where m: "make_room mem isize incr l = (False, l1)"
    and l': "l' = l1\<lparr>entries := (shift_down (nentries l1) (entries l1))[0 := item], nentries := nentries l1 + 1\<rparr>"
    using assms(4) by (auto simp: prepend_to_list_def split: prod.splits bool.splits)
  note r = make_room_ok [OF assms(1-3) m]
  have n: "nentries l1 < length (entries l1)" using r(1,2) by (simp add: vlist_ok_def)
  then obtain x xs where x: "entries l1 = x # xs" by (cases "entries l1") auto
  have s: "(shift_down (nentries l1) (entries l1))[0 := item] =
      item # take (nentries l1) (entries l1) @ drop (nentries l1 + 1) (entries l1)"
    by (simp only: shift_down_correct [OF n]) (simp add: x)
  show "vlist_ok l'" "no_shuffle l' = no_shuffle l" using r l' s n by (simp_all add: vlist_ok_def)
  have "vabs l' = item # vabs l1" using l' s n by (simp add: vabs_def)
  then show "vabs l' = item # vabs l" by (simp add: r(3))
qed

lemma copy_next:
  "length xs = k \<Longrightarrow> (xs @ a # b # ys)[k := (xs @ a # b # ys) ! (k + 1)] = xs @ b # b # ys"
  by (auto simp: nth_append)

lemma close_gap_correct:
  assumes "i < n" "n \<le> length es"
  shows "length (close_gap i n es) = length es" "take (n - 1) (close_gap i n es) = take i es @ drop (i + 1) (take n es)"
proof -
  let ?f = "\<lambda>j es. es[j := es ! (j + 1)]"
  have "fold ?f [i..<k] es = take i es @ drop (i + 1) (take (k + 1) es) @ drop k es" if "i \<le> k" "k < n" for k
    using that
  proof (induction k rule: dec_induct)
    case base
    then show ?case using assms by simp
  next
    case (step k)
    let ?g = "take i es @ drop (i + 1) (take (k + 1) es) @ drop k es"
    have k: "k + 1 < length es" "i \<le> k" using step assms by auto
    have l: "length (take i es @ drop (i + 1) (take (k + 1) es)) = k" using k by simp
    have d: "drop k es = es ! k # es ! (k + 1) # drop (k + 2) es"
      using k by (simp add: Cons_nth_drop_Suc)
    have tk: "take (Suc k + 1) es = take (k + 1) es @ [es ! (k + 1)]"
      using k take_Suc_conv_app_nth [of "k + 1" es] by simp
    have "fold ?f [i..<Suc k] es = ?g[k := ?g ! (k + 1)]" using step k by simp
    also have "\<dots> = take i es @ drop (i + 1) (take (k + 1) es) @ es ! (k + 1) # es ! (k + 1) # drop (k + 2) es"
      using copy_next [OF l, of "es ! k" "es ! (k + 1)" "drop (k + 2) es"] unfolding d by simp
    also have "\<dots> = take i es @ drop (i + 1) (take (Suc k + 1) es) @ drop (Suc k) es"
      unfolding tk using k by (simp add: Cons_nth_drop_Suc)
    finally show ?case .
  qed
  from this [of "n - 1"] assms have c: "close_gap i n es = take i es @ drop (i + 1) (take n es) @ drop (n - 1) es"
    by (simp add: close_gap_def)
  show "length (close_gap i n es) = length es" using assms by (simp add: c)
  show "take (n - 1) (close_gap i n es) = take i es @ drop (i + 1) (take n es)" using assms by (simp add: c)
qed

text \<open>Removal: the entries before \<open>i\<close> are done, of the others the matching ones go or become null.\<close>

lemma remove_loop_shuffle:
  "vlist_ok l \<Longrightarrow> \<not> no_shuffle l \<Longrightarrow> i \<le> nentries l \<Longrightarrow>
   vlist_ok (remove_loop item i l) \<and> no_shuffle (remove_loop item i l) = no_shuffle l \<and>
   vabs (remove_loop item i l) = take i (vabs l) @ filter (\<lambda>e. e \<noteq> item) (drop i (vabs l))"
proof (induction item i l rule: remove_loop.induct)
  case (1 item i l)
  have len: "nentries l \<le> length (entries l)" using 1(4) by (simp add: vlist_ok_def)
  consider "i \<ge> nentries l" | "i < nentries l" "entries l ! i = item" | "i < nentries l" "entries l ! i \<noteq> item" by linarith
  then show ?case
  proof cases
    case 1
    then show ?thesis using "1.prems" by (subst (1 2 3) remove_loop.simps) simp
  next
    case 2
    let ?l = "l\<lparr>entries := close_gap i (nentries l) (entries l), nentries := nentries l - 1\<rparr>"
    note c = close_gap_correct [OF 2(1) len]
    have v: "vabs ?l = take i (vabs l) @ drop (i + 1) (vabs l)" using c(2) 2(1) by (simp add: vabs_def)
    have d: "drop i (vabs l) = item # drop (i + 1) (vabs l)"
      using 2 len by (simp add: vabs_def Cons_nth_drop_Suc [symmetric])
    have "take i (vabs ?l) = take i (vabs l)" "drop i (vabs ?l) = drop (i + 1) (vabs l)"
      using v 2(1) "1.prems"(1) by simp_all
    moreover have "vlist_ok ?l" using c(1) "1.prems"(1) by (auto simp: vlist_ok_def)
    ultimately show ?thesis
      using "1.IH"(1) 2 "1.prems" d by (simp add: remove_loop.simps [of item i l])
  next
    case 3
    have d: "drop i (vabs l) = entries l ! i # drop (i + 1) (vabs l)" "take (i + 1) (vabs l) = take i (vabs l) @ [entries l ! i]"
      using 3 len by (simp_all add: vabs_def Cons_nth_drop_Suc [symmetric] take_Suc_conv_app_nth)
    show ?thesis
      using "1.IH"(3) 3 "1.prems" d by (simp add: remove_loop.simps [of item i l])
  qed
qed

lemma remove_loop_null:
  "vlist_ok l \<Longrightarrow> no_shuffle l \<Longrightarrow> i \<le> nentries l \<Longrightarrow>
   vlist_ok (remove_loop item i l) \<and> no_shuffle (remove_loop item i l) = no_shuffle l \<and>
   vabs (remove_loop item i l) = take i (vabs l) @ map (\<lambda>e. if e = item then None else e) (drop i (vabs l))"
proof (induction item i l rule: remove_loop.induct)
  case (1 item i l)
  have len: "nentries l \<le> length (entries l)" using 1(4) by (simp add: vlist_ok_def)
  show ?case
  proof (cases "i < nentries l")
    case False
    then show ?thesis using "1.prems" by (subst (1 2 3) remove_loop.simps) simp
  next
    case True
    have d: "drop i (vabs l) = entries l ! i # drop (i + 1) (vabs l)" "take (i + 1) (vabs l) = take i (vabs l) @ [entries l ! i]"
      using True len by (simp_all add: vabs_def Cons_nth_drop_Suc [symmetric] take_Suc_conv_app_nth)
    show ?thesis
    proof (cases "entries l ! i = item")
      case e: True
      let ?l = "l\<lparr>entries := (entries l)[i := None]\<rparr>"
      have "take (i + 1) (vabs ?l) = take i (vabs l) @ [None]"
        using True len by (simp add: vabs_def upd_conv_take_nth_drop)
      moreover have "drop (i + 1) (vabs ?l) = drop (i + 1) (vabs l)"
        by (simp add: vabs_def take_update_swap)
      moreover have "vlist_ok ?l" using "1.prems"(1) by (simp add: vlist_ok_def)
      ultimately show ?thesis
        using "1.IH"(2) True e "1.prems" d by (simp add: remove_loop.simps [of item i l])
    qed (use "1.IH"(3) True "1.prems" d in \<open>simp add: remove_loop.simps [of item i l]\<close>)
  qed
qed

lemma validate_loop_iff: "validate_loop item es \<longleftrightarrow> item \<notin> set es"
  by (induction es) auto

lemma insert_nulls_ok:
  "vlist_ok l \<Longrightarrow> \<forall>n. mem n \<Longrightarrow>
   vlist_ok (insert_nulls mem k l) \<and> vabs (insert_nulls mem k l) = vabs l @ replicate k None \<and>
   no_shuffle (insert_nulls mem k l) = no_shuffle l"
proof (induction k arbitrary: l)
  case (Suc k)
  obtain f l1 where i: "insert_to_list mem None l = (f, l1)" by fastforce
  have "\<not> f" using i Suc.prems(2) by (auto simp: insert_to_list_def insert_sized_def make_room_def split: if_splits)
  then have "insert_sized mem 64 8 None l = (False, l1)" using i by (simp add: insert_to_list_def)
  note r = insert_sized_ok [OF Suc.prems(1) _ _ this]
  show ?case
    using Suc.IH [OF r(1) Suc.prems(2)] r(2,3) by (simp only: insert_nulls.simps i snd_conv) simp
qed simp

subsection \<open>The array implements a list\<close>

datatype 'p vl_op = VInsert "'p option" | VPrepend "'p option" | VRemove "'p option"

definition always :: "nat \<Rightarrow> bool" where "always n = True"

fun vl_exec :: "'p vl_op \<Rightarrow> 'p vlist \<Rightarrow> 'p vlist" where
  "vl_exec (VInsert x) l = snd (insert_to_list always x l)"
| "vl_exec (VPrepend x) l = snd (prepend_to_list always 64 8 x l)"
| "vl_exec (VRemove x) l = snd (remove_from_list x l)"

fun vl_spec :: "bool \<Rightarrow> 'p vl_op \<Rightarrow> 'p option list \<Rightarrow> 'p option list" where
  "vl_spec ns (VInsert x) xs = xs @ [x]"
| "vl_spec ns (VPrepend x) xs = x # xs"
| "vl_spec ns (VRemove x) xs = (if ns then map (\<lambda>e. if e = x then None else e) xs else filter (\<lambda>e. e \<noteq> x) xs)"

lemma make_room_always: "fst (make_room always i j l) = False"
  by (simp add: make_room_def always_def)

lemma vl_exec_ok:
  assumes "vlist_ok l"
  shows "vlist_ok (vl_exec op l) \<and> no_shuffle (vl_exec op l) = no_shuffle l \<and>
    vabs (vl_exec op l) = vl_spec (no_shuffle l) op (vabs l)"
proof (cases op)
  case (VInsert x)
  have "insert_sized always 64 8 x l = (False, vl_exec op l)"
    using make_room_always [of 64 8 l] VInsert
    by (auto simp: insert_to_list_def insert_sized_def split: prod.splits bool.splits)
  from insert_sized_ok [OF assms _ _ this] VInsert show ?thesis by simp
next
  case (VPrepend x)
  have "prepend_to_list always 64 8 x l = (False, vl_exec op l)"
    using make_room_always [of 64 8 l] VPrepend by (auto simp: prepend_to_list_def split: prod.splits bool.splits)
  from prepend_ok [OF assms _ _ this] VPrepend show ?thesis by simp
next
  case (VRemove x)
  then show ?thesis
    using assms remove_loop_shuffle [of l 0 x] remove_loop_null [of l 0 x]
    by (cases "nentries l = 0"; cases "no_shuffle l") (auto simp: remove_from_list_def vabs_def)
qed

text \<open>
  Claim C37: as long as memory can be allocated, any sequence of insertions, prepends and removals on
  an array list does what the same operations do on a plain list: growing, shifting and closing
  gaps never lose or reorder an entry, and a removal takes out every occurrence (or, in a list whose
  positions are fixed, makes it null).
\<close>
theorem vlist_refines_list:
  assumes "vlist_ok l"
  shows "vlist_ok (fold vl_exec ops l) \<and>
     vabs (fold vl_exec ops l) = fold (vl_spec (no_shuffle l)) ops (vabs l)"
  using assms
proof (induction ops arbitrary: l)
  case (Cons op ops)
  from vl_exec_ok [OF Cons.prems, of op] Cons.IH [of "vl_exec op l"] show ?case by simp
qed simp

definition empty_vlist :: "bool \<Rightarrow> nat vlist" where
  "empty_vlist ns = \<lparr>nspaces = 0, nentries = 0, no_shuffle = ns, entries = []\<rparr>"

theorem vlist_refines_list_witness:
  "vlist_ok (empty_vlist False) \<and>
   vabs (fold vl_exec [VInsert (Some 1), VInsert (Some 2), VPrepend (Some 1), VRemove (Some 1)] (empty_vlist False)) = [Some 2]"
proof -
  have ok: "vlist_ok (empty_vlist False)" by (simp add: vlist_ok_def empty_vlist_def)
  from vlist_refines_list [OF ok, of "[VInsert (Some 1), VInsert (Some 2), VPrepend (Some 1), VRemove (Some 1)]"]
  show ?thesis using ok by (simp only: fold.simps o_apply id_apply vl_spec.simps) (simp add: empty_vlist_def vabs_def)
qed

text \<open>
  As long as memory can be allocated, storing at a position of a list with fixed positions
  puts the element exactly there, keeps all other entries and fills a gap before it with null
  entries.
\<close>
theorem insert_to_position_correct:
  assumes "vlist_ok l" "no_shuffle l" "\<forall>n. mem n"
  shows "\<exists>l'. insert_to_position mem x pos l = Some l' \<and> vlist_ok l' \<and>
     vabs l' = (vabs l @ replicate (pos + 1 - nentries l) None)[pos := x]"
proof -
  define l1 where "l1 = (if pos < get_nentries l then l else insert_nulls mem (pos - get_nentries l + 1) l)"
  have l1: "vlist_ok l1" "vabs l1 = vabs l @ replicate (pos + 1 - nentries l) None"
    using assms(1) insert_nulls_ok [OF assms(1,3)] by (auto simp: l1_def get_nentries_def Suc_diff_le simp del: insert_nulls.simps)
  have p: "pos < nentries l1" using length_vabs [OF l1(1)] l1(2) assms(1) by simp
  then have "pos < length (entries l1)" using l1(1) by (simp add: vlist_ok_def)
  then have "insert_to_position mem x pos l = Some (l1\<lparr>entries := (entries l1)[pos := x]\<rparr>)"
    using assms(2) by (simp add: insert_to_position_def l1_def Let_def)
  moreover have "vabs (l1\<lparr>entries := (entries l1)[pos := x]\<rparr>) = (vabs l1)[pos := x]"
    by (simp add: vabs_def take_update_swap)
  ultimately show ?thesis using l1 by (auto simp: vlist_ok_def)
qed

theorem insert_to_position_correct_witness:
  "\<exists>l'. insert_to_position always (Some 7) 2 (empty_vlist True) = Some l' \<and> vabs l' = [None, None, Some 7]"
proof -
  have h: "vlist_ok (empty_vlist True)" "no_shuffle (empty_vlist True)" "\<forall>n. always n"
    by (simp_all add: vlist_ok_def empty_vlist_def always_def)
  from insert_to_position_correct [OF h, of "Some 7" 2] show ?thesis
    by (auto simp: empty_vlist_def vabs_def eval_nat_numeral)
qed

text \<open>
  When a full list cannot grow, the array is lost: the result reports the failure, but the
  list still counts its entries although it has no array any more.
\<close>
theorem failed_growth_loses_entries:
  assumes "vlist_ok l" "0 < nentries l" "nentries l = nspaces l" "\<not> mem (nspaces l + incr)"
  shows "\<exists>l'. insert_sized mem isize incr x l = (True, l') \<and> nentries l' = nentries l \<and> entries l' = [] \<and> \<not> vlist_ok l'"
  using assms by (simp add: insert_sized_def make_room_def vlist_ok_def)

theorem failed_growth_loses_entries_witness:
  "\<exists>l'. insert_sized (\<lambda>n. n < 2) 1 1 (Some 5) (snd (insert_sized (\<lambda>n. n < 2) 1 1 (Some 4) (empty_vlist False))) = (True, l') \<and>
     nentries l' = 1 \<and> entries l' = []"
proof -
  let ?l = "snd (insert_sized (\<lambda>n. n < 2) 1 1 (Some 4) (empty_vlist False))"
  have "vlist_ok ?l" "0 < nentries ?l" "nentries ?l = nspaces ?l" "\<not> nspaces ?l + 1 < 2" "nentries ?l = 1"
    by (simp_all add: insert_sized_def make_room_def empty_vlist_def vlist_ok_def)
  with failed_growth_loses_entries [of ?l "\<lambda>n. n < 2" 1 1 "Some 5"] show ?thesis by auto
qed

end
