(* ===== verification/Datagram.thy ===== *)
theory Datagram
  imports Prelude
begin

text \<open>
  The reliable transfers over datagrams, \<^verbatim>\<open>core/dataplane/rdma_drivers/datagram\<close>: a request is
  divided into messages, the messages are packed into numbered frames, frames are kept and sent again
  until they are acknowledged, and the receiver drops duplicates, stores the data and, after the last
  message of a transaction, the flag.

  The state of a \<^verbatim>\<open>DatagramXferServices\<close> holds the requests and the memory of its end as well, so
  that a pointer of the source is an index or an offset. A packet is a frame header with the headers
  and the data of its messages; the padding of the data to multiples of eight is left out of it.
  The clock is an argument; \<open>maxp\<close> is the maximal payload of the transmission layer.
\<close>

unbundle bit_operations_syntax

subsection \<open>Messages and transactions\<close>

datatype msg_type = DATA | METADATA | FLOWCONTROL | DISCONNECT

record msg_header =
  transactionId :: u32
  flagAddr :: u32
  flagValue :: u32
  numMsgsInTransaction :: u16
  msgSequence :: u16
  dataAddr :: u32
  dataLen :: u16
  msgType :: msg_type
  nextMsg :: bool

record frame_header =
  destId :: u16
  srcId :: u16
  frameSeq :: u16
  ACKStart :: u16
  ACKCount :: u8
  frameFlags :: u8

record dg_message =
  dg_hdr :: msg_header
  src_adr :: "nat option"
  dg_ack :: bool

record transaction =
  m_init :: bool
  m_nMessagesRx :: nat
  m_tid :: u32
  m_messages :: "dg_message list"

definition msgCount :: "transaction \<Rightarrow> nat" where
  "msgCount t = length (m_messages t)"

definition DatagramTransaction :: transaction where
  "DatagramTransaction = \<lparr>m_init = False, m_nMessagesRx = 0, m_tid = 0, m_messages = []\<rparr>"

text \<open>
  The errors: a failed assertion of the source, an access outside of an array or of the memory,
  the wrap-around of the message counter in \<^verbatim>\<open>post\<close>, and a loop that does not end.
\<close>

datatype dg_error = AssertFailed string | OutOfBounds | CounterWraps | Diverges

definition tx_init :: "u32 \<Rightarrow> transaction \<Rightarrow> dg_error + transaction \<times> u32" where
  "tx_init g_txId t =
     (if m_init t then Inl (AssertFailed ''! m_init'')
      else Inr (t\<lparr>m_messages := [], m_tid := g_txId + 1, m_init := True\<rparr>, g_txId + 1))"

definition tx_add :: "nat option \<Rightarrow> nat \<Rightarrow> nat \<Rightarrow> transaction \<Rightarrow> transaction" where
  "tx_add src dst len t =
     t\<lparr>m_messages := m_messages t @
        [\<lparr>dg_hdr = \<lparr>transactionId = 0, flagAddr = 0, flagValue = 0, numMsgsInTransaction = 0,
            msgSequence = of_nat (length (m_messages t) + 1), dataAddr = of_nat dst, dataLen = of_nat len,
            msgType = DATA, nextMsg = False\<rparr>,
          src_adr = src, dg_ack = False\<rparr>]\<rparr>"

definition tx_fini :: "u32 \<Rightarrow> nat \<Rightarrow> transaction \<Rightarrow> transaction" where
  "tx_fini flag dst t =
     t\<lparr>m_messages := map (\<lambda>m. m\<lparr>dg_hdr := (dg_hdr m)\<lparr>transactionId := m_tid t,
          numMsgsInTransaction := (if msgCount t = 1 then 0 else of_nat (msgCount t)),
          flagAddr := of_nat dst, flagValue := flag\<rparr>\<rparr>) (m_messages t)\<rparr>"

definition complete :: "transaction \<Rightarrow> bool" where
  "complete t \<longleftrightarrow> m_nMessagesRx t = msgCount t"

definition tx_ACK :: "nat \<Rightarrow> transaction \<Rightarrow> dg_error + transaction" where
  "tx_ACK n t =
     (if n < length (m_messages t)
      then Inr (t\<lparr>m_messages := (m_messages t)[n := (m_messages t ! n)\<lparr>dg_ack := True\<rparr>], m_nMessagesRx := m_nMessagesRx t + 1\<rparr>)
      else Inl OutOfBounds)"

definition set_nextMsg :: "nat \<Rightarrow> bool \<Rightarrow> transaction \<Rightarrow> transaction" where
  "set_nextMsg n b t =
     t\<lparr>m_messages := (m_messages t)[n := (m_messages t ! n)\<lparr>dg_hdr := (dg_hdr (m_messages t ! n))\<lparr>nextMsg := b\<rparr>\<rparr>]\<rparr>"

text \<open>The sizes of the two headers.\<close>

definition MSG_HEADER :: nat where "MSG_HEADER = 24"
definition FRAME_HEADER :: nat where "FRAME_HEADER = 10"

text \<open>Subtraction of sizes, which wraps around below zero.\<close>

definition size_sub :: "nat \<Rightarrow> nat \<Rightarrow> nat" where
  "size_sub a b = (if b \<le> a then a - b else 2 ^ 64 + a - b)"

text \<open>The pieces that a copy is divided into.\<close>

function copy_pieces :: "nat \<Rightarrow> nat \<Rightarrow> nat \<Rightarrow> nat \<Rightarrow> transaction \<Rightarrow> transaction" where
  "copy_pieces maxpl src dst nbytes t =
     (if nbytes = 0 \<or> maxpl = 0 then t
      else let len = (if nbytes > maxpl then maxpl else nbytes) in
        copy_pieces maxpl (src + len) (dst + len) (nbytes - len) (tx_add (Some src) dst len t))"
  by pat_completeness auto
termination by (relation "measure (\<lambda>(m, s, d, n, t). n)") auto

declare copy_pieces.simps [simp del]

text \<open>
  A copy of data, or of the flag, which ends the transaction. A payload without room for data divides
  by zero in the first copy and makes the loop over the pieces endless in a later one.
\<close>

definition copy :: "bool \<Rightarrow> nat \<Rightarrow> octets \<Rightarrow> nat \<Rightarrow> nat \<Rightarrow> nat \<Rightarrow> bool \<Rightarrow> u32 \<Rightarrow> transaction \<Rightarrow> dg_error + transaction \<times> u32" where
  "copy le maxp mem srcoffs dstoffs nbytes isFlag g_txId t =
     (if isFlag then
        sbind (if m_init t then Inr (t, g_txId)
               else sbind (tx_init g_txId t) (\<lambda>(t, g). Inr (tx_add None 0 0 t, g))) (\<lambda>(t, g).
        if srcoffs + 4 \<le> length mem
        then Inr (tx_fini (of_nat (mem_value le (take 4 (drop srcoffs mem)))) dstoffs t, g)
        else Inl OutOfBounds)
      else
        let maxpl = size_sub maxp (MSG_HEADER + FRAME_HEADER + 8) in
        if \<not> m_init t \<and> maxpl = 0 then Inl (AssertFailed ''division by zero'')
        else sbind (if m_init t then Inr (t, g_txId) else tx_init g_txId t) (\<lambda>(t, g).
          if maxpl = 0 \<and> nbytes > 0 then Inl Diverges else Inr (copy_pieces maxpl srcoffs dstoffs nbytes t, g)))"

subsection \<open>Frames\<close>

record dg_frame =
  send_time :: u64
  msg_start :: nat
  msg_count :: nat
  is_free :: bool
  resends :: nat
  frameHdr :: frame_header
  iovlen :: nat
  fr_transaction :: "nat option"

record packet =
  pk_hdr :: frame_header
  pk_msgs :: "(msg_header \<times> octets) list"

record frame_record =
  fr_acked :: bool
  fr_id :: u32

record tx_record =
  tr_transactionId :: u32
  tr_numMsgs :: u16
  msgsProcessed :: u16
  in_use :: bool

record services =
  m_freeFrames :: "dg_frame list"
  m_acks :: "u16 list"
  m_frameSeq :: u16
  m_frameSeqRecord :: "frame_record list"
  m_txRecord :: "tx_record list"
  m_last_ack_send :: u64
  m_frames_in_play :: u32
  s_requests :: "transaction list"
  s_mem :: octets
  s_mailbox :: u16
  t_mailbox :: u16
  s_sent :: "packet list"

definition FRAME_SEQ_MASK :: u16 where "FRAME_SEQ_MASK = 0xff"
definition MAX_FRAME_HISTORY :: u16 where "MAX_FRAME_HISTORY = 0xff"
definition MAX_TRANSACTION_HISTORY :: u32 where "MAX_TRANSACTION_HISTORY = 512"
definition MAX_MSGS :: nat where "MAX_MSGS = 10"
definition FRAME_FLAG_HAS_MESSAGES :: u8 where "FRAME_FLAG_HAS_MESSAGES = 1"

definition null_header :: frame_header where
  "null_header = \<lparr>destId = 0, srcId = 0, frameSeq = 0, ACKStart = 0, ACKCount = 0, frameFlags = 0\<rparr>"

definition Frame :: dg_frame where
  "Frame = \<lparr>send_time = 0, msg_start = 0, msg_count = 0, is_free = True, resends = 0, frameHdr = null_header,
     iovlen = 0, fr_transaction = None\<rparr>"

text \<open>The initial state; the count of transactions in play is not initialised by the source.\<close>

definition DatagramXferServices :: "u16 \<Rightarrow> u16 \<Rightarrow> octets \<Rightarrow> u64 \<Rightarrow> u32 \<Rightarrow> services" where
  "DatagramXferServices src tgt mem now in_play =
     \<lparr>m_freeFrames = replicate (unat FRAME_SEQ_MASK + 1) Frame, m_acks = [], m_frameSeq = 1,
      m_frameSeqRecord = replicate (unat MAX_FRAME_HISTORY + 1) \<lparr>fr_acked = False, fr_id = 0\<rparr>,
      m_txRecord = replicate (unat MAX_TRANSACTION_HISTORY) \<lparr>tr_transactionId = 0, tr_numMsgs = 0, msgsProcessed = 0, in_use = False\<rparr>,
      m_last_ack_send = now, m_frames_in_play = in_play, s_requests = [], s_mem = mem, s_mailbox = src, t_mailbox = tgt, s_sent = []\<rparr>"

definition set_frame :: "nat \<Rightarrow> dg_frame \<Rightarrow> services \<Rightarrow> services" where
  "set_frame i f st = st\<lparr>m_freeFrames := (m_freeFrames st)[i := f]\<rparr>"

text \<open>What is sent for a frame: its header and the messages of its transaction, with their data of now.\<close>

definition packet_of :: "dg_frame \<Rightarrow> services \<Rightarrow> packet" where
  "packet_of f st = \<lparr>pk_hdr = frameHdr f,
     pk_msgs = (case fr_transaction f of
        None \<Rightarrow> []
      | Some r \<Rightarrow> map (\<lambda>m. (dg_hdr m, case src_adr m of None \<Rightarrow> [] | Some a \<Rightarrow> take (unat (dataLen (dg_hdr m))) (drop a (s_mem st))))
                   (take (msg_count f) (drop (msg_start f) (m_messages (s_requests st ! r)))))\<rparr>"

fun ack_messages :: "nat option \<Rightarrow> nat \<Rightarrow> nat \<Rightarrow> transaction list \<Rightarrow> dg_error + transaction list" where
  "ack_messages tx n 0 rs = Inr rs"
| "ack_messages tx n (Suc k) rs =
     (case tx of
        None \<Rightarrow> Inl (AssertFailed ''transaction'')
      | Some r \<Rightarrow> sbind (tx_ACK n (rs ! r)) (\<lambda>t. ack_messages tx (n + 1) k (rs[r := t])))"

definition release :: "nat \<Rightarrow> services \<Rightarrow> dg_error + services" where
  "release i st =
     (let f = m_freeFrames st ! i in
      if is_free f then Inr st
      else sbind (ack_messages (fr_transaction f) (msg_start f) (msg_count f) (s_requests st)) (\<lambda>rs.
        Inr (set_frame i (f\<lparr>fr_transaction := None, is_free := True, resends := 0\<rparr>) (st\<lparr>s_requests := rs\<rparr>))))"

definition post_frame :: "u64 \<Rightarrow> nat \<Rightarrow> services \<Rightarrow> dg_error + services" where
  "post_frame now i st =
     (let f = m_freeFrames st ! i;
          f = f\<lparr>send_time := now\<rparr>;
          f = (if msg_count f \<noteq> 0 then f\<lparr>frameHdr := (frameHdr f)\<lparr>frameFlags := frameFlags (frameHdr f) OR FRAME_FLAG_HAS_MESSAGES\<rparr>\<rparr> else f);
          st = set_frame i f st;
          st = st\<lparr>s_sent := s_sent st @ [packet_of f st]\<rparr>
      in if msg_count f = 0 then release i st else Inr st)"

definition nextFreeFrame :: "services \<Rightarrow> dg_error + nat \<times> services" where
  "nextFreeFrame st =
     (let sq = m_frameSeq st; i = unat (sq AND FRAME_SEQ_MASK); f = m_freeFrames st ! i in
      if \<not> i < length (m_freeFrames st) then Inl (AssertFailed ''mseq < m_freeFrames.size()'')
      else if \<not> is_free f then Inl (AssertFailed ''f.is_free'')
      else Inr (i, set_frame i (f\<lparr>frameHdr := (frameHdr f)\<lparr>frameSeq := sq\<rparr>, is_free := False\<rparr>) (st\<lparr>m_frameSeq := sq + 1\<rparr>)))"

text \<open>The loop over the pending acknowledgements: the index is one after every match.\<close>

function ack_loop :: "u16 \<Rightarrow> nat \<Rightarrow> u16 list \<Rightarrow> u8 \<Rightarrow> u16 list \<times> u8" where
  "ack_loop start y acks n =
     (if y < length acks \<and> unat (acks ! y) = unat start + 1 then ack_loop start 1 (tl acks) (n + 1) else (acks, n))"
  by pat_completeness auto
termination by (relation "measure (\<lambda>(s, y, acks, n). length acks)") auto

declare ack_loop.simps [simp del]

definition piggyback :: "u64 \<Rightarrow> frame_header \<Rightarrow> services \<Rightarrow> frame_header \<times> services" where
  "piggyback now h st =
     (case m_acks st of
        [] \<Rightarrow> (h, st)
      | a # as \<Rightarrow> (case ack_loop a 0 as 1 of (rest, n) \<Rightarrow>
          (h\<lparr>ACKStart := a, ACKCount := n\<rparr>, st\<lparr>m_acks := rest, m_last_ack_send := now\<rparr>)))"

definition getFrame :: "u64 \<Rightarrow> nat \<Rightarrow> services \<Rightarrow> dg_error + nat \<times> nat \<times> services" where
  "getFrame now maxp st =
     sbind (nextFreeFrame st) (\<lambda>(i, st).
       let f = m_freeFrames st ! i;
           h = (frameHdr f)\<lparr>destId := t_mailbox st, srcId := s_mailbox st, frameFlags := 0, ACKCount := 0\<rparr>
       in case piggyback now h st of (h, st) \<Rightarrow>
         Inr (i, size_sub maxp (FRAME_HEADER + 2),
              set_frame i (f\<lparr>frameHdr := h, fr_transaction := None, msg_count := 0, msg_start := 0, iovlen := 2\<rparr>) st))"

definition upd_request :: "nat \<Rightarrow> (transaction \<Rightarrow> transaction) \<Rightarrow> services \<Rightarrow> services" where
  "upd_request r g st = st\<lparr>s_requests := (s_requests st)[r := g (s_requests st ! r)]\<rparr>"

definition msg_need :: "msg_header \<Rightarrow> nat" where
  "msg_need h = MSG_HEADER + (unat (dataLen h) + 7) div 8 * 8"

text \<open>The inner loop of \<^verbatim>\<open>post\<close>: as many messages as fit into the frame, from message \<open>msg\<close> on.\<close>

function fill_frame :: "nat \<Rightarrow> nat \<Rightarrow> nat \<Rightarrow> nat \<Rightarrow> nat \<Rightarrow> services \<Rightarrow> dg_error + nat \<times> services" where
  "fill_frame r n i msg bytes_left st =
     (if bytes_left > 0 \<and> msg < n then
        let need = msg_need (dg_hdr (m_messages (s_requests st ! r) ! msg)); f = m_freeFrames st ! i in
        if bytes_left < need then
          (if msg = 0 then Inl (AssertFailed ''msg > 0'') else Inr (msg, upd_request r (set_nextMsg (msg - 1) False) st))
        else if iovlen f + 2 > MAX_MSGS + 1 then Inl OutOfBounds
        else if msg + 1 = 65536 then Inl CounterWraps
        else fill_frame r n i (msg + 1) (bytes_left - need)
               (set_frame i (f\<lparr>iovlen := iovlen f + 2, msg_count := msg_count f + 1\<rparr>) (upd_request r (set_nextMsg msg True) st))
      else Inr (msg, st))"
  by pat_completeness auto
termination by (relation "measure (\<lambda>(r, n, i, msg, b, st). n - msg)") auto

declare fill_frame.simps [simp del]

definition post_one :: "nat \<Rightarrow> nat \<Rightarrow> u64 \<Rightarrow> nat \<Rightarrow> nat \<Rightarrow> services \<Rightarrow> dg_error + nat \<times> services" where
  "post_one r n now maxp msg st =
     sbind (getFrame now maxp st) (\<lambda>(i, bytes_left, st).
     sbind (fill_frame r n i msg bytes_left (set_frame i ((m_freeFrames st ! i)\<lparr>fr_transaction := Some r, msg_start := msg\<rparr>) st)) (\<lambda>(msg', st).
     if msg' = 0 then Inl (AssertFailed ''msg < m_messages.size()'')
     else sbind (post_frame now i (upd_request r (set_nextMsg (msg' - 1) False) st)) (\<lambda>st. Inr (msg', st))))"

text \<open>The outer loop; a frame that takes no message is sent again and again.\<close>

function post_loop :: "nat \<Rightarrow> nat \<Rightarrow> u64 \<Rightarrow> nat \<Rightarrow> nat \<Rightarrow> services \<Rightarrow> dg_error + services" where
  "post_loop r n now maxp msg st =
     (if msg < n then
        (case post_one r n now maxp msg st of
           Inl e \<Rightarrow> Inl e
         | Inr (msg', st') \<Rightarrow> if msg' \<le> msg then Inl Diverges else post_loop r n now maxp msg' st')
      else Inr st)"
  by pat_completeness auto
termination by (relation "measure (\<lambda>(r, n, now, maxp, msg, st). n - msg)") auto

declare post_loop.simps [simp del]

definition post :: "nat \<Rightarrow> u64 \<Rightarrow> nat \<Rightarrow> services \<Rightarrow> dg_error + services" where
  "post r now maxp st =
     post_loop r (msgCount (s_requests st ! r)) now maxp 0 (upd_request r (\<lambda>t. t\<lparr>m_nMessagesRx := 0\<rparr>) st)"

subsection \<open>Acknowledgements and retransmission\<close>

definition releaseFrame :: "nat \<Rightarrow> services \<Rightarrow> dg_error + services" where
  "releaseFrame sq st =
     (let i = sq mod 256; f = m_freeFrames st ! i in
      if \<not> is_free f \<and> unat (frameSeq (frameHdr f)) = sq then release i st else Inr st)"

fun ack_frames :: "nat \<Rightarrow> nat \<Rightarrow> services \<Rightarrow> dg_error + services" where
  "ack_frames 0 start st = Inr st"
| "ack_frames (Suc n) start st = sbind (releaseFrame start st) (ack_frames n (start + 1))"

definition addFrameAck :: "frame_header \<Rightarrow> services \<Rightarrow> services" where
  "addFrameAck h st = st\<lparr>m_acks := m_acks st @ [frameSeq h]\<rparr>"

definition sendAcks :: "u64 \<Rightarrow> u64 \<Rightarrow> nat \<Rightarrow> services \<Rightarrow> dg_error + services" where
  "sendAcks time_now timeout maxp st =
     (if m_acks st \<noteq> [] \<and> time_now - m_last_ack_send st > timeout
      then sbind (getFrame time_now maxp st) (\<lambda>(i, _, st). post_frame time_now i st) else Inr st)"

definition check_frame :: "u64 \<Rightarrow> u64 \<Rightarrow> nat \<Rightarrow> services \<Rightarrow> dg_error + services" where
  "check_frame time time_out i st =
     (let f = m_freeFrames st ! i in
      if \<not> is_free f \<and> time - send_time f > time_out \<and> time > send_time f
      then post_frame time i (set_frame i (f\<lparr>resends := resends f + 1\<rparr>) st) else Inr st)"

fun check_frames :: "u64 \<Rightarrow> u64 \<Rightarrow> nat list \<Rightarrow> services \<Rightarrow> dg_error + services" where
  "check_frames time time_out [] st = Inr st"
| "check_frames time time_out (i # is) st = sbind (check_frame time time_out i st) (check_frames time time_out is)"

definition checkAcks :: "u64 \<Rightarrow> u64 \<Rightarrow> services \<Rightarrow> dg_error + services" where
  "checkAcks time time_out st = check_frames time time_out [0..<length (m_freeFrames st)] st"

subsection \<open>Receiving\<close>

definition dg_store :: "nat \<Rightarrow> octets \<Rightarrow> services \<Rightarrow> dg_error + services" where
  "dg_store off bs st =
     (if off + length bs \<le> length (s_mem st)
      then Inr (st\<lparr>s_mem := take off (s_mem st) @ bs @ drop (off + length bs) (s_mem st)\<rparr>) else Inl OutOfBounds)"

definition set_tx_record :: "nat \<Rightarrow> tx_record \<Rightarrow> services \<Rightarrow> services" where
  "set_tx_record k fr st = st\<lparr>m_txRecord := (m_txRecord st)[k := fr]\<rparr>"

definition open_record :: "msg_header \<Rightarrow> nat \<Rightarrow> services \<Rightarrow> dg_error + services" where
  "open_record h k st =
     (let fr = m_txRecord st ! k in
      sbind (if in_use fr then Inr (fr, st)
             else let st = st\<lparr>m_frames_in_play := m_frames_in_play st + 1\<rparr> in
               if m_frames_in_play st < MAX_TRANSACTION_HISTORY then Inr (fr\<lparr>in_use := True, msgsProcessed := 0\<rparr>, st)
               else Inl (AssertFailed ''m_frames_in_play < MAX_TRANSACTION_HISTORY'')) (\<lambda>(fr, st).
      Inr (set_tx_record k (fr\<lparr>tr_transactionId := transactionId h, tr_numMsgs := numMsgsInTransaction h\<rparr>) st)))"

definition store_data :: "msg_header \<Rightarrow> octets \<Rightarrow> nat \<Rightarrow> services \<Rightarrow> dg_error + services" where
  "store_data h data k st =
     (if numMsgsInTransaction h = 0 then Inr st
      else sbind (if (msgType h = DATA \<or> msgType h = METADATA) \<and> dataLen h \<noteq> 4
                  then dg_store (unat (dataAddr h)) (take (unat (dataLen h)) data) st else Inr st) (\<lambda>st.
        let fr = m_txRecord st ! k in Inr (set_tx_record k (fr\<lparr>msgsProcessed := msgsProcessed fr + 1\<rparr>) st)))"

definition close_record :: "bool \<Rightarrow> msg_header \<Rightarrow> nat \<Rightarrow> services \<Rightarrow> dg_error + services" where
  "close_record le h k st =
     (let fr = m_txRecord st ! k in
      if msgsProcessed fr = tr_numMsgs fr
      then sbind (dg_store (unat (flagAddr h)) (mem_repr le 4 (unat (flagValue h))) st) (\<lambda>st.
             Inr (set_tx_record k (fr\<lparr>in_use := False\<rparr>) (st\<lparr>m_frames_in_play := m_frames_in_play st - 1\<rparr>)))
      else Inr st)"

text \<open>One message; the index of its record is computed with the size of the array as a mask.\<close>

definition process_message :: "bool \<Rightarrow> msg_header \<times> octets \<Rightarrow> services \<Rightarrow> dg_error + services" where
  "process_message le m st = (case m of (h, data) \<Rightarrow>
     let k = unat (transactionId h AND MAX_TRANSACTION_HISTORY) in
     if \<not> k < length (m_txRecord st) then Inl OutOfBounds
     else sbind (open_record h k st) (\<lambda>st. sbind (store_data h data k st) (close_record le h k)))"

fun process_messages :: "bool \<Rightarrow> (msg_header \<times> octets) list \<Rightarrow> services \<Rightarrow> dg_error + services" where
  "process_messages le [] st = Inl OutOfBounds"
| "process_messages le (m # ms) st =
     sbind (process_message le m st) (\<lambda>st. if nextMsg (fst m) then process_messages le ms st else Inr st)"

definition processFrame :: "bool \<Rightarrow> packet \<Rightarrow> services \<Rightarrow> dg_error + services" where
  "processFrame le p st =
     (let h = pk_hdr p; k = unat (frameSeq h AND MAX_FRAME_HISTORY); fr = m_frameSeqRecord st ! k in
      if fr_id fr = ucast (frameSeq h) then
        (if \<not> fr_acked fr then Inl (AssertFailed ''programming error, cant have dup without ACK'')
         else Inr (addFrameAck h (st\<lparr>m_frameSeqRecord := (m_frameSeqRecord st)[k := fr\<lparr>fr_acked := True\<rparr>]\<rparr>)))
      else
        let st = st\<lparr>m_frameSeqRecord := (m_frameSeqRecord st)[k := fr\<lparr>fr_id := ucast (frameSeq h)\<rparr>]\<rparr> in
        sbind (if ACKCount h \<noteq> 0 then ack_frames (unat (ACKCount h)) (unat (ACKStart h)) st else Inr st) (\<lambda>st.
        if frameFlags h AND FRAME_FLAG_HAS_MESSAGES = 0 then Inr st
        else process_messages le (pk_msgs p)
               (addFrameAck h (st\<lparr>m_frameSeqRecord := (m_frameSeqRecord st)[k := (m_frameSeqRecord st ! k)\<lparr>fr_acked := True\<rparr>]\<rparr>))))"

text \<open>The services of a memory by the mailbox of their peer.\<close>

definition addXfer :: "nat \<Rightarrow> 'a \<Rightarrow> 'a option list \<Rightarrow> 'a option list" where
  "addXfer mailbox s v =
     (let v = (if mailbox \<ge> length v then v @ replicate (mailbox + 8 - length v) None else v) in v[mailbox := Some s])"

definition xferServices :: "nat \<Rightarrow> 'a option list \<Rightarrow> dg_error + 'a" where
  "xferServices dest v =
     (if \<not> dest < length v then Inl (AssertFailed ''destId < m_xferServices.size()'')
      else case v ! dest of None \<Rightarrow> Inl (AssertFailed ''m_xferServices[destId]'') | Some s \<Rightarrow> Inr s)"

text \<open>A frame that the socket received goes to the services of the mailbox it came from; an error ends the thread.\<close>

definition dispatch :: "bool \<Rightarrow> packet \<Rightarrow> services option list \<Rightarrow> dg_error + services option list" where
  "dispatch le p v =
     sbind (xferServices (unat (srcId (pk_hdr p))) v) (\<lambda>s.
     sbind (processFrame le p s) (\<lambda>s'. Inr (v[unat (srcId (pk_hdr p)) := Some s'])))"

text \<open>One pass of the monitor over the services; \<open>clock\<close> gives the two times that it reads for each of them.\<close>

definition monitor_timeout :: u64 where "monitor_timeout = 200 * 1000 * 1000"

definition monitor_service :: "u64 \<times> u64 \<Rightarrow> nat \<Rightarrow> services \<Rightarrow> dg_error + services" where
  "monitor_service ts maxp st =
     sbind (checkAcks (fst ts) monitor_timeout st) (sendAcks (snd ts) (monitor_timeout div 3) maxp)"

fun monitor_pass :: "(nat \<Rightarrow> u64 \<times> u64) \<Rightarrow> nat \<Rightarrow> nat \<Rightarrow> services option list \<Rightarrow> dg_error + services option list" where
  "monitor_pass clock maxp n [] = Inr []"
| "monitor_pass clock maxp n (None # v) = sbind (monitor_pass clock maxp (n + 1) v) (\<lambda>v'. Inr (None # v'))"
| "monitor_pass clock maxp n (Some s # v) =
     sbind (monitor_service (clock n) maxp s) (\<lambda>s'. sbind (monitor_pass clock maxp (n + 1) v) (\<lambda>v'. Inr (Some s' # v')))"

datatype completion_status = Pending | CompleteSuccess

definition getStatus :: "transaction \<Rightarrow> completion_status" where
  "getStatus t = (if \<not> complete t then Pending else CompleteSuccess)"

end
