(* ===== verification/DatagramDelivery.thy ===== *)
theory DatagramDelivery
  imports Datagram
begin

text \<open>
  Delivery of a transaction: whatever the order in which the frames of a transaction arrive, and
  however often, the data is stored and the flag follows the last piece of data.
\<close>

subsection \<open>Areas of memory\<close>

definition area :: "octets \<Rightarrow> nat \<Rightarrow> nat \<Rightarrow> octets" where
  "area mem off n = take n (drop off mem)"

definition overwrite :: "nat \<Rightarrow> octets \<Rightarrow> octets \<Rightarrow> octets" where
  "overwrite off bs mem = take off mem @ bs @ drop (off + length bs) mem"

definition apart :: "nat \<Rightarrow> nat \<Rightarrow> nat \<Rightarrow> nat \<Rightarrow> bool" where
  "apart a n b k \<longleftrightarrow> a + n \<le> b \<or> b + k \<le> a"

lemma length_overwrite: "off + length bs \<le> length mem \<Longrightarrow> length (overwrite off bs mem) = length mem"
  by (simp add: overwrite_def)

lemma nth_overwrite:
  "off + length bs \<le> length mem \<Longrightarrow> a < length mem \<Longrightarrow>
   overwrite off bs mem ! a = (if off \<le> a \<and> a < off + length bs then bs ! (a - off) else mem ! a)"
  by (auto simp: overwrite_def nth_append)

lemma area_overwrite_same: "off + length bs \<le> length mem \<Longrightarrow> area (overwrite off bs mem) off (length bs) = bs"
  by (simp add: area_def overwrite_def)

lemma area_overwrite_apart:
  assumes "off + length bs \<le> length mem" "b + k \<le> length mem" "apart off (length bs) b k"
  shows "area (overwrite off bs mem) b k = area mem b k"
proof (rule nth_equalityI)
  show "length (area (overwrite off bs mem) b k) = length (area mem b k)"
    using assms length_overwrite [OF assms(1)] by (simp add: area_def)
  fix i
  assume "i < length (area (overwrite off bs mem) b k)"
  then have i: "i < k" "b + i < length mem" using length_overwrite [OF assms(1)] by (auto simp: area_def)
  then show "area (overwrite off bs mem) b k ! i = area mem b k ! i"
    using assms length_overwrite [OF assms(1)] nth_overwrite [OF assms(1) i(2)] by (auto simp: area_def apart_def)
qed

lemma dg_store_eq: "off + length bs \<le> length (s_mem st) \<Longrightarrow> dg_store off bs st = Inr (st\<lparr>s_mem := overwrite off bs (s_mem st)\<rparr>)"
  by (simp add: dg_store_def overwrite_def)

subsection \<open>The messages of a transaction\<close>

record transfer =
  tf_id :: u32
  tf_count :: nat
  tf_flagAddr :: u32
  tf_flagValue :: u32

text \<open>A message of the transaction whose data fits the memory and is not lost for its length of four.\<close>

definition msg_of :: "transfer \<Rightarrow> nat \<Rightarrow> msg_header \<times> octets \<Rightarrow> bool" where
  "msg_of x msize m \<longleftrightarrow> (case m of (h, d) \<Rightarrow>
     transactionId h = tf_id x \<and> numMsgsInTransaction h = of_nat (tf_count x) \<and>
     flagAddr h = tf_flagAddr x \<and> flagValue h = tf_flagValue x \<and> msgType h \<in> {DATA, METADATA} \<and>
     dataLen h \<noteq> 4 \<and> length d = unat (dataLen h) \<and> unat (dataAddr h) + length d \<le> msize)"

fun chained :: "(msg_header \<times> octets) list \<Rightarrow> bool" where
  "chained [] \<longleftrightarrow> False"
| "chained (m # ms) \<longleftrightarrow> (if ms = [] then \<not> nextMsg (fst m) else nextMsg (fst m) \<and> chained ms)"

definition transfer_ok :: "transfer \<Rightarrow> nat \<Rightarrow> bool" where
  "transfer_ok x msize \<longleftrightarrow> 2 \<le> tf_count x \<and> tf_count x < 65536 \<and> tf_id x AND MAX_TRANSACTION_HISTORY = 0 \<and>
     unat (tf_flagAddr x) + 4 \<le> msize"

text \<open>The record of the transaction after \<open>c\<close> of its messages, with \<open>b\<close> other transactions in play.\<close>

definition phase :: "transfer \<Rightarrow> u32 \<Rightarrow> nat \<Rightarrow> services \<Rightarrow> bool" where
  "phase x b c st \<longleftrightarrow>
     m_txRecord st \<noteq> [] \<and>
     (if c = 0 \<or> c = tf_count x then \<not> in_use (hd (m_txRecord st)) \<and> m_frames_in_play st = b
      else in_use (hd (m_txRecord st)) \<and> msgsProcessed (hd (m_txRecord st)) = of_nat c \<and> m_frames_in_play st = b + 1)"

text \<open>The memory after a message, and after the last one.\<close>

definition put_msg :: "msg_header \<times> octets \<Rightarrow> octets \<Rightarrow> octets" where
  "put_msg m mem = overwrite (unat (dataAddr (fst m))) (snd m) mem"

definition put_flag :: "bool \<Rightarrow> transfer \<Rightarrow> octets \<Rightarrow> octets" where
  "put_flag le x mem = overwrite (unat (tf_flagAddr x)) (mem_repr le 4 (unat (tf_flagValue x))) mem"

definition only_receives :: "services \<Rightarrow> services \<Rightarrow> bool" where
  "only_receives st st' \<longleftrightarrow>
     st' = st\<lparr>s_mem := s_mem st', m_txRecord := m_txRecord st', m_frames_in_play := m_frames_in_play st'\<rparr>"

lemma only_receives_trans: "only_receives st st1 \<Longrightarrow> only_receives st1 st2 \<Longrightarrow> only_receives st st2"
  by (cases st; cases st1; cases st2) (simp add: only_receives_def)

lemma only_receives_keeps:
  "only_receives st st' \<Longrightarrow> m_acks st' = m_acks st" "only_receives st st' \<Longrightarrow> m_frameSeqRecord st' = m_frameSeqRecord st"
  by (cases st; cases st'; simp add: only_receives_def)+

lemma message_step:
  assumes x: "transfer_ok x (length (s_mem st))" and m: "msg_of x (length (s_mem st)) m" and p: "phase x b c st"
    and c: "c < tf_count x" and b: "unat b < 511"
  shows "\<exists>st'. process_message le m st = Inr st' \<and> phase x b (c + 1) st' \<and> only_receives st st' \<and>
    s_mem st' = (if c + 1 = tf_count x then put_flag le x (put_msg m (s_mem st)) else put_msg m (s_mem st))"
proof -
  obtain h d where hd: "m = (h, d)" by (cases m)
  obtain fr rs where r: "m_txRecord st = fr # rs" using p by (cases "m_txRecord st") (auto simp: phase_def)
  have n0: "numMsgsInTransaction h \<noteq> 0" using m x by (auto simp: msg_of_def hd transfer_ok_def word_of_nat_eq_0_iff dest: nat_dvd_not_less)
  have b1: "b + 1 < MAX_TRANSACTION_HISTORY"
    using b by (simp add: MAX_TRANSACTION_HISTORY_def word_less_nat_alt unat_word_ariths)
  have k: "transactionId h AND MAX_TRANSACTION_HISTORY = 0" using m x by (simp add: msg_of_def hd transfer_ok_def)
  define fr1 where "fr1 = (if c = 0 then fr\<lparr>in_use := True, msgsProcessed := 0\<rparr> else fr)
      \<lparr>tr_transactionId := transactionId h, tr_numMsgs := numMsgsInTransaction h\<rparr>"
  define st1 where "st1 = st\<lparr>m_frames_in_play := b + 1, m_txRecord := fr1 # rs\<rparr>"
  have o: "open_record h 0 st = Inr st1"
    using p c b1 by (auto simp: open_record_def r phase_def st1_def fr1_def set_tx_record_def Let_def split: if_splits)
  have pc: "msgsProcessed fr1 = of_nat c" "in_use fr1" "tr_numMsgs fr1 = of_nat (tf_count x)"
    using p c m by (auto simp: fr1_def phase_def r msg_of_def hd split: if_splits)
  define mem1 where "mem1 = put_msg m (s_mem st)"
  define st2 where "st2 = st1\<lparr>s_mem := mem1, m_txRecord := fr1\<lparr>msgsProcessed := of_nat (c + 1)\<rparr> # rs\<rparr>"
  have fit: "unat (dataAddr h) + length d \<le> length (s_mem st1)" using m by (simp add: msg_of_def hd st1_def)
  have sd: "store_data h d 0 st1 = Inr st2"
    using n0 m pc dg_store_eq [OF fit]
    by (auto simp: store_data_def msg_of_def hd st2_def mem1_def put_msg_def set_tx_record_def st1_def Let_def add.commute)
  have l1: "length mem1 = length (s_mem st)" using fit by (simp add: mem1_def put_msg_def hd length_overwrite st1_def)
  have eq: "(of_nat (c + 1) :: u16) = of_nat (tf_count x) \<longleftrightarrow> c + 1 = tf_count x"
  proof -
    have "take_bit LENGTH(16) (c + 1) = c + 1" "take_bit LENGTH(16) (tf_count x) = tf_count x"
      using x c by (auto simp: transfer_ok_def intro!: take_bit_nat_eq_self)
    then show ?thesis unfolding word_of_nat_eq_iff by simp
  qed
  have ff: "unat (flagAddr h) + length (mem_repr le 4 (unat (flagValue h))) \<le> length (s_mem st2)"
    using x m l1 by (simp add: transfer_ok_def msg_of_def hd st2_def)
  have fl: "flagAddr h = tf_flagAddr x" "flagValue h = tf_flagValue x" using m by (simp_all add: msg_of_def hd)
  have pm: "process_message le m st = close_record le h 0 st2"
    by (simp add: process_message_def hd k r o sd)
  show ?thesis
  proof (cases "c + 1 = tf_count x")
    case True
    define st3 where "st3 = st2\<lparr>s_mem := put_flag le x mem1, m_frames_in_play := b,
        m_txRecord := fr1\<lparr>msgsProcessed := of_nat (c + 1), in_use := False\<rparr> # rs\<rparr>"
    have "close_record le h 0 st2 = Inr st3"
      using True pc(3) dg_store_eq [OF ff] fl
      by (simp add: close_record_def st3_def st2_def st1_def put_flag_def set_tx_record_def Let_def)
    moreover have "phase x b (c + 1) st3" "only_receives st st3" "s_mem st3 = put_flag le x mem1"
      using True by (simp_all add: phase_def only_receives_def st3_def st2_def st1_def)
    ultimately show ?thesis unfolding pm using True by (simp add: mem1_def)
  next
    case False
    have "msgsProcessed (fr1\<lparr>msgsProcessed := of_nat (c + 1)\<rparr>) \<noteq> tr_numMsgs fr1" using False eq pc(3) by simp
    then have "close_record le h 0 st2 = Inr st2" by (simp add: close_record_def st2_def)
    then show ?thesis unfolding pm using False pc(2) by (auto simp: phase_def only_receives_def st2_def st1_def mem1_def)
  qed
qed

lemma messages_step:
  assumes "transfer_ok x (length (s_mem st))" "\<forall>m\<in>set ms. msg_of x (length (s_mem st)) m" "phase x b c st" "chained ms"
    "c + length ms \<le> tf_count x" "unat b < 511"
  shows "\<exists>st'. process_messages le ms st = Inr st' \<and> phase x b (c + length ms) st' \<and> only_receives st st' \<and>
    s_mem st' = (let mem = fold put_msg ms (s_mem st) in if c + length ms = tf_count x then put_flag le x mem else mem)"
  using assms
proof (induction ms arbitrary: st c)
  case (Cons m ms)
  have m: "msg_of x (length (s_mem st)) m" using Cons.prems(2) by simp
  have c: "c < tf_count x" using Cons.prems(5) by simp
  obtain st1 where s: "process_message le m st = Inr st1" "phase x b (c + 1) st1" "only_receives st st1"
    "s_mem st1 = (if c + 1 = tf_count x then put_flag le x (put_msg m (s_mem st)) else put_msg m (s_mem st))"
    using message_step [OF Cons.prems(1) m Cons.prems(3) c Cons.prems(6)] by blast
  show ?case
  proof (cases "ms = []")
    case True
    then show ?thesis using s Cons.prems(4) by simp
  next
    case False
    then have ne: "c + 1 \<noteq> tf_count x" using Cons.prems(5) by (cases ms) auto
    have l: "length (s_mem st1) = length (s_mem st)" "s_mem st1 = put_msg m (s_mem st)"
      using s(4) ne m by (auto simp: put_msg_def msg_of_def length_overwrite)
    have "\<exists>st'. process_messages le ms st1 = Inr st' \<and> phase x b (c + 1 + length ms) st' \<and> only_receives st1 st' \<and>
       s_mem st' = (let mem = fold put_msg ms (s_mem st1) in if c + 1 + length ms = tf_count x then put_flag le x mem else mem)"
      by (rule Cons.IH) (use Cons.prems l s(2) False in auto)
    then obtain st' where t: "process_messages le ms st1 = Inr st'" "phase x b (c + 1 + length ms) st'" "only_receives st1 st'"
      "s_mem st' = (let mem = fold put_msg ms (s_mem st1) in if c + 1 + length ms = tf_count x then put_flag le x mem else mem)" by blast
    show ?thesis using s(1) t(1,2,4) l(2) only_receives_trans [OF s(3) t(3)] Cons.prems(4) False by (intro exI [of _ st']) simp
  qed
qed simp

subsection \<open>Frames in any order\<close>

text \<open>The frames of a transaction: numbered differently modulo the size of the history, without acknowledgements.\<close>

definition slot :: "packet \<Rightarrow> nat" where
  "slot p = unat (frameSeq (pk_hdr p) AND MAX_FRAME_HISTORY)"

definition frames_ok :: "transfer \<Rightarrow> nat \<Rightarrow> packet list \<Rightarrow> bool" where
  "frames_ok x msize ps \<longleftrightarrow>
     distinct (map slot ps) \<and> sum_list (map (\<lambda>p. length (pk_msgs p)) ps) = tf_count x \<and>
     (\<forall>p\<in>set ps. chained (pk_msgs p) \<and> ACKCount (pk_hdr p) = 0 \<and> frameFlags (pk_hdr p) AND FRAME_FLAG_HAS_MESSAGES \<noteq> 0 \<and>
        (\<forall>m\<in>set (pk_msgs p). msg_of x msize m))"

text \<open>
  Items that are handled one after the other, up to the first error, and what is needed for the state
  to depend only on the items that were handled: a relation between the state and the items, kept by a
  new item and by one that comes again. Frames that arrive and acknowledgements both are such items.
\<close>

fun handle_all :: "('p \<Rightarrow> 's \<Rightarrow> 'e + 's) \<Rightarrow> 'p list \<Rightarrow> 's \<Rightarrow> 'e + 's" where
  "handle_all f [] st = Inr st"
| "handle_all f (p # ps) st = sbind (f p st) (handle_all f ps)"

lemma handle_all_append: "handle_all f (ps @ qs) st = sbind (handle_all f ps st) (handle_all f qs)"
  by (induction ps arbitrary: st) (simp_all add: sbind_def split: sum.splits)

locale any_order =
  fixes handle :: "'p \<Rightarrow> 's \<Rightarrow> 'e + 's" and items :: "'c \<Rightarrow> 'p set" and holds :: "'c \<Rightarrow> 'p list \<Rightarrow> 's \<Rightarrow> bool"
  assumes handle_new: "holds c ds st \<Longrightarrow> p \<in> items c \<Longrightarrow> p \<notin> set ds \<Longrightarrow> set ds \<subseteq> items c \<Longrightarrow>
      \<exists>st'. handle p st = Inr st' \<and> holds c (ds @ [p]) st'"
    and handle_again: "holds c ds st \<Longrightarrow> p \<in> items c \<Longrightarrow> p \<in> set ds \<Longrightarrow> \<exists>st'. handle p st = Inr st' \<and> holds c (ds @ [p]) st'"
begin

lemma handled:
  assumes "holds c [] st"
  shows "set ds \<subseteq> items c \<Longrightarrow> \<exists>st'. handle_all handle ds st = Inr st' \<and> holds c ds st'"
proof (induction ds rule: rev_induct)
  case Nil
  then show ?case using assms by simp
next
  case (snoc p ds)
  then obtain st1 where st1: "handle_all handle ds st = Inr st1" "holds c ds st1" by auto
  have p: "p \<in> items c" "set ds \<subseteq> items c" using snoc.prems by auto
  obtain st2 where "handle p st1 = Inr st2" "holds c (ds @ [p]) st2"
    using handle_new [OF st1(2) p(1) _ p(2)] handle_again [OF st1(2) p(1)] by blast
  then show ?case using st1(1) by (simp add: handle_all_append)
qed

end

definition deliver :: "bool \<Rightarrow> packet list \<Rightarrow> services \<Rightarrow> dg_error + services" where
  "deliver le = handle_all (processFrame le)"

text \<open>A frame is new, or it has been received.\<close>

definition fresh :: "services \<Rightarrow> packet \<Rightarrow> bool" where
  "fresh st p \<longleftrightarrow> slot p < length (m_frameSeqRecord st) \<and> fr_id (m_frameSeqRecord st ! slot p) \<noteq> ucast (frameSeq (pk_hdr p))"

definition frame_received :: "services \<Rightarrow> packet \<Rightarrow> bool" where
  "frame_received st p \<longleftrightarrow> slot p < length (m_frameSeqRecord st) \<and>
     fr_id (m_frameSeqRecord st ! slot p) = ucast (frameSeq (pk_hdr p)) \<and> fr_acked (m_frameSeqRecord st ! slot p)"

lemma duplicate_ignored:
  assumes "frame_received st p"
  shows "processFrame le p st = Inr (addFrameAck (pk_hdr p) st)"
proof -
  let ?k = "slot p" and ?r = "m_frameSeqRecord st"
  have "?r[?k := (?r ! ?k)\<lparr>fr_acked := True\<rparr>] = ?r" using assms by (intro list_update_same_conv [THEN iffD2]) (auto simp: frame_received_def)
  then show ?thesis using assms by (simp add: processFrame_def frame_received_def slot_def [symmetric] Let_def)
qed

text \<open>The messages of the frames that have arrived, and the invariant of the receiver.\<close>

definition arrived :: "packet list \<Rightarrow> packet set \<Rightarrow> nat" where
  "arrived ps D = sum_list (map (\<lambda>p. length (pk_msgs p)) (filter (\<lambda>p. p \<in> D) ps))"

lemma arrived_insert:
  "distinct ps \<Longrightarrow> p \<in> set ps \<Longrightarrow> p \<notin> D \<Longrightarrow> arrived ps (insert p D) = arrived ps D + length (pk_msgs p)"
proof (induction ps)
  case (Cons q ps)
  show ?case
  proof (cases "q = p")
    case True
    then have "filter (\<lambda>r. r \<in> insert p D) ps = filter (\<lambda>r. r \<in> D) ps" using Cons.prems(1) by (intro filter_cong) auto
    then show ?thesis using True Cons.prems by (simp add: arrived_def)
  next
    case False
    then show ?thesis using Cons by (auto simp: arrived_def)
  qed
qed simp

lemma arrived_le: "arrived ps D \<le> sum_list (map (\<lambda>p. length (pk_msgs p)) ps)"
  by (induction ps) (auto simp: arrived_def)

lemma arrived_all:
  assumes "\<forall>p\<in>set ps. pk_msgs p \<noteq> []"
  shows "arrived ps D = sum_list (map (\<lambda>p. length (pk_msgs p)) ps) \<longleftrightarrow> set ps \<subseteq> D"
  using assms
proof (induction ps)
  case (Cons p ps)
  show ?case
  proof (cases "p \<in> D")
    case False
    have "arrived ps D \<le> sum_list (map (\<lambda>p. length (pk_msgs p)) ps)" by (rule arrived_le)
    moreover have "0 < length (pk_msgs p)" using Cons.prems by simp
    ultimately have "arrived ps D \<noteq> length (pk_msgs p) + sum_list (map (\<lambda>p. length (pk_msgs p)) ps)" by linarith
    then show ?thesis using False by (simp add: arrived_def)
  qed (use Cons in \<open>auto simp: arrived_def\<close>)
qed (simp add: arrived_def)

text \<open>
  The receiver after the frames \<open>ds\<close>, in the order of their arrival: the frames that arrived are
  recorded, the others are new, and the memory holds the messages in the order they were stored.
\<close>

definition after :: "bool \<Rightarrow> transfer \<Rightarrow> u32 \<Rightarrow> packet list \<Rightarrow> services \<Rightarrow> packet list \<Rightarrow> services \<Rightarrow> bool" where
  "after le x b ps st ds st' \<longleftrightarrow>
     (\<forall>p\<in>set ps. if p \<in> set ds then frame_received st' p else fresh st' p) \<and>
     m_acks st' = m_acks st @ map (\<lambda>p. frameSeq (pk_hdr p)) ds \<and> phase x b (arrived ps (set ds)) st' \<and>
     (\<exists>ms. set ms = (\<Union>p\<in>set ds. set (pk_msgs p)) \<and>
        s_mem st' = (let mem = fold put_msg ms (s_mem st) in if set ps \<subseteq> set ds then put_flag le x mem else mem))"

lemma length_fold_put:
  "\<forall>m\<in>set ms. msg_of x (length mem) m \<Longrightarrow> length (fold put_msg ms mem) = length mem"
proof (induction ms arbitrary: mem)
  case (Cons m ms)
  then have "length (put_msg m mem) = length mem" by (auto simp: put_msg_def msg_of_def length_overwrite)
  then show ?case using Cons by simp
qed simp

lemma slot_inj: "frames_ok x msize ps \<Longrightarrow> p \<in> set ps \<Longrightarrow> q \<in> set ps \<Longrightarrow> slot p = slot q \<Longrightarrow> p = q"
  by (auto simp: frames_ok_def distinct_map inj_on_def)

lemma after_new:
  assumes ps: "frames_ok x (length (s_mem st)) ps" and x: "transfer_ok x (length (s_mem st))" and b: "unat b < 511"
    and a: "after le x b ps st ds st1" and p: "p \<in> set ps" "p \<notin> set ds" and ds: "set ds \<subseteq> set ps"
  shows "\<exists>st2. processFrame le p st1 = Inr st2 \<and> after le x b ps st (ds @ [p]) st2"
proof -
  let ?k = "slot p" and ?r = "m_frameSeqRecord st1" and ?h = "pk_hdr p"
  have fr: "fresh st1 p" using a p by (auto simp: after_def)
  have pk: "chained (pk_msgs p)" "ACKCount ?h = 0" "frameFlags ?h AND FRAME_FLAG_HAS_MESSAGES \<noteq> 0"
    "\<forall>m\<in>set (pk_msgs p). msg_of x (length (s_mem st)) m" using ps p by (auto simp: frames_ok_def)
  have dist: "distinct ps" using ps by (auto simp: frames_ok_def distinct_map)
  have "\<forall>p\<in>set ps. chained (pk_msgs p)" using ps by (simp add: frames_ok_def)
  then have ne: "\<forall>p\<in>set ps. pk_msgs p \<noteq> []" by (metis chained.simps(1))
  have tot: "sum_list (map (\<lambda>p. length (pk_msgs p)) ps) = tf_count x" using ps by (simp add: frames_ok_def)
  define st1' where "st1' = addFrameAck ?h (st1\<lparr>m_frameSeqRecord := ?r[?k := (?r ! ?k)\<lparr>fr_id := ucast (frameSeq ?h), fr_acked := True\<rparr>]\<rparr>)"
  have pf: "processFrame le p st1 = process_messages le (pk_msgs p) st1'"
    using fr pk by (simp add: processFrame_def fresh_def slot_def [symmetric] Let_def st1'_def)
  obtain ms where ms: "set ms = (\<Union>p\<in>set ds. set (pk_msgs p))"
    "s_mem st1 = (let mem = fold put_msg ms (s_mem st) in if set ps \<subseteq> set ds then put_flag le x mem else mem)"
    using a unfolding after_def by blast
  have mem1: "s_mem st1' = fold put_msg ms (s_mem st)" using ms(2) p by (auto simp: st1'_def addFrameAck_def Let_def)
  have "\<forall>m\<in>set ms. msg_of x (length (s_mem st)) m" using ms(1) ps ds unfolding frames_ok_def by blast
  then have len: "length (s_mem st1') = length (s_mem st)" unfolding mem1 by (rule length_fold_put)
  have ph: "phase x b (arrived ps (set ds)) st1'" using a by (simp add: after_def phase_def st1'_def addFrameAck_def)
  have ins: "arrived ps (set (ds @ [p])) = arrived ps (set ds) + length (pk_msgs p)"
    using arrived_insert [OF dist p] by simp
  have le: "arrived ps (set ds) + length (pk_msgs p) \<le> tf_count x"
    using arrived_le [of ps "set (ds @ [p])"] unfolding ins tot .
  have x': "transfer_ok x (length (s_mem st1'))" and pk': "\<forall>m\<in>set (pk_msgs p). msg_of x (length (s_mem st1')) m"
    using x pk(4) unfolding len by auto
  obtain st2 where s: "process_messages le (pk_msgs p) st1' = Inr st2" "phase x b (arrived ps (set ds) + length (pk_msgs p)) st2"
    "only_receives st1' st2"
    "s_mem st2 = (let mem = fold put_msg (pk_msgs p) (s_mem st1') in if arrived ps (set ds) + length (pk_msgs p) = tf_count x then put_flag le x mem else mem)"
    using messages_step [OF x' pk' ph pk(1) le b, where le = le] by blast
  have all: "arrived ps (set ds) + length (pk_msgs p) = tf_count x \<longleftrightarrow> set ps \<subseteq> set (ds @ [p])"
    using arrived_all [OF ne, of "set (ds @ [p])"] unfolding ins tot .
  have keep: "m_acks st2 = m_acks st1'" "m_frameSeqRecord st2 = m_frameSeqRecord st1'"
    by (rule only_receives_keeps [OF s(3)])+
  have rec: "if q \<in> set (ds @ [p]) then frame_received st2 q else fresh st2 q" if q: "q \<in> set ps" for q
  proof (cases "q = p")
    case True
    then show ?thesis using fr by (simp add: frame_received_def fresh_def keep st1'_def addFrameAck_def)
  next
    case False
    then have "slot q \<noteq> ?k" using slot_inj [OF ps q p(1)] by blast
    moreover have "if q \<in> set ds then frame_received st1 q else fresh st1 q" using a q by (simp add: after_def)
    ultimately show ?thesis using False by (auto simp: frame_received_def fresh_def keep st1'_def addFrameAck_def split: if_splits)
  qed
  have "after le x b ps st (ds @ [p]) st2"
    unfolding after_def
  proof (intro conjI ballI)
    show "m_acks st2 = m_acks st @ map (\<lambda>p. frameSeq (pk_hdr p)) (ds @ [p])"
      using a by (simp add: after_def keep st1'_def addFrameAck_def)
    show "phase x b (arrived ps (set (ds @ [p]))) st2" unfolding ins by (rule s(2))
    show "\<exists>ms. set ms = (\<Union>p\<in>set (ds @ [p]). set (pk_msgs p)) \<and>
        s_mem st2 = (let mem = fold put_msg ms (s_mem st) in if set ps \<subseteq> set (ds @ [p]) then put_flag le x mem else mem)"
      using ms(1) s(4) by (intro exI [of _ "ms @ pk_msgs p"]) (auto simp: mem1 all)
  qed (rule rec)
  then show ?thesis using pf s(1) by auto
qed

lemma after_duplicate:
  assumes "after le x b ps st ds st1" "p \<in> set ps" "p \<in> set ds"
  shows "processFrame le p st1 = Inr (addFrameAck (pk_hdr p) st1) \<and> after le x b ps st (ds @ [p]) (addFrameAck (pk_hdr p) st1)"
proof -
  let ?st = "addFrameAck (pk_hdr p) st1"
  have e: "set (ds @ [p]) = set ds" using assms(3) by auto
  have r: "frame_received ?st q = frame_received st1 q" "fresh ?st q = fresh st1 q" "phase x b c ?st = phase x b c st1" "s_mem ?st = s_mem st1" for q c
    by (simp_all add: frame_received_def fresh_def phase_def addFrameAck_def)
  have a: "m_acks ?st = m_acks st1 @ [frameSeq (pk_hdr p)]" by (simp add: addFrameAck_def)
  have "frame_received st1 p" using assms by (auto simp: after_def)
  from duplicate_ignored [OF this] assms(1) show ?thesis unfolding after_def e r a by simp
qed

text \<open>The frames of a transaction, for a receiver that was in the state \<open>st0\<close> before the first of them.\<close>

definition receiving :: "bool \<Rightarrow> transfer \<times> u32 \<times> packet list \<times> services \<Rightarrow> packet list \<Rightarrow> services \<Rightarrow> bool" where
  "receiving le c ds st = (case c of (x, b, ps, st0) \<Rightarrow>
     frames_ok x (length (s_mem st0)) ps \<and> transfer_ok x (length (s_mem st0)) \<and> unat b < 511 \<and> after le x b ps st0 ds st)"

interpretation frames: any_order "processFrame le" "\<lambda>(x, b, ps, st0). set ps" "receiving le" for le
proof
  fix c :: "transfer \<times> u32 \<times> packet list \<times> services" and ds st p
  obtain x b ps st0 where c: "c = (x, b, ps, st0)" by (cases c)
  assume r: "receiving le c ds st" and p: "p \<in> (case c of (x, b, ps, st0) \<Rightarrow> set ps)"
  show "\<exists>st'. processFrame le p st = Inr st' \<and> receiving le c (ds @ [p]) st'" if "p \<in> set ds"
    using after_duplicate [of le x b ps st0 ds st p] r p that by (simp add: receiving_def c)
  show "\<exists>st'. processFrame le p st = Inr st' \<and> receiving le c (ds @ [p]) st'"
    if "p \<notin> set ds" "set ds \<subseteq> (case c of (x, b, ps, st0) \<Rightarrow> set ps)"
    using after_new [of x st0 ps b le ds st p] r p that by (auto simp: receiving_def c)
qed

lemma deliver_after:
  assumes "frames_ok x (length (s_mem st)) ps" "transfer_ok x (length (s_mem st))" "unat b < 511" "phase x b 0 st" "\<forall>p\<in>set ps. fresh st p"
    "set ds \<subseteq> set ps"
  shows "\<exists>st'. deliver le ds st = Inr st' \<and> after le x b ps st ds st'"
proof -
  have "\<not> set ps \<subseteq> {}" using assms(1,2) by (auto simp: frames_ok_def transfer_ok_def)
  then have "receiving le (x, b, ps, st) [] st"
    using assms(1-5) by (auto simp: receiving_def after_def arrived_def intro!: exI [of _ "[]"])
  from frames.handled [OF this, of ds] assms(6) show ?thesis by (auto simp: deliver_def receiving_def)
qed

subsection \<open>The memory in the end\<close>

text \<open>The areas of different messages, and of the flag, do not overlap.\<close>

definition msgs_apart :: "msg_header \<times> octets \<Rightarrow> msg_header \<times> octets \<Rightarrow> bool" where
  "msgs_apart m n \<longleftrightarrow> apart (unat (dataAddr (fst m))) (length (snd m)) (unat (dataAddr (fst n))) (length (snd n))"

definition areas_ok :: "transfer \<Rightarrow> (msg_header \<times> octets) set \<Rightarrow> bool" where
  "areas_ok x M \<longleftrightarrow>
     (\<forall>m\<in>M. \<forall>n\<in>M. m \<noteq> n \<longrightarrow> msgs_apart m n) \<and>
     (\<forall>m\<in>M. apart (unat (dataAddr (fst m))) (length (snd m)) (unat (tf_flagAddr x)) 4)"

lemma apart_sym: "apart a n b k \<longleftrightarrow> apart b k a n"
  by (auto simp: apart_def)

definition outside :: "nat \<Rightarrow> msg_header \<times> octets \<Rightarrow> bool" where
  "outside a m \<longleftrightarrow> a < unat (dataAddr (fst m)) \<or> unat (dataAddr (fst m)) + length (snd m) \<le> a"

lemma areas_ok_apart: "areas_ok x M \<Longrightarrow> m \<in> M \<Longrightarrow> n \<in> M \<Longrightarrow> m \<noteq> n \<Longrightarrow>
    apart (unat (dataAddr (fst m))) (length (snd m)) (unat (dataAddr (fst n))) (length (snd n))"
  by (simp add: areas_ok_def msgs_apart_def)

lemma msg_of_fits: "msg_of x k n \<Longrightarrow> unat (dataAddr (fst n)) + length (snd n) \<le> k"
  by (cases n) (simp add: msg_of_def)

lemma put_msg_area:
  assumes "msg_of x (length mem) n"
  shows "area (put_msg n mem) (unat (dataAddr (fst n))) (length (snd n)) = snd n"
    and "b + k \<le> length mem \<Longrightarrow> apart (unat (dataAddr (fst n))) (length (snd n)) b k \<Longrightarrow> area (put_msg n mem) b k = area mem b k"
    and "a < length mem \<Longrightarrow> outside a n \<Longrightarrow> put_msg n mem ! a = mem ! a"
proof -
  have fit: "unat (dataAddr (fst n)) + length (snd n) \<le> length mem" by (rule msg_of_fits [OF assms])
  show "area (put_msg n mem) (unat (dataAddr (fst n))) (length (snd n)) = snd n"
    unfolding put_msg_def by (rule area_overwrite_same [OF fit])
  show "b + k \<le> length mem \<Longrightarrow> apart (unat (dataAddr (fst n))) (length (snd n)) b k \<Longrightarrow> area (put_msg n mem) b k = area mem b k"
    unfolding put_msg_def by (rule area_overwrite_apart [OF fit])
  show "a < length mem \<Longrightarrow> outside a n \<Longrightarrow> put_msg n mem ! a = mem ! a"
    unfolding put_msg_def outside_def by (subst nth_overwrite [OF fit]) auto
qed

lemma fold_put_apart:
  assumes "b + k \<le> length mem"
  shows "\<forall>m\<in>set ms. msg_of x (length mem) m \<Longrightarrow>
    \<forall>m\<in>set ms. apart (unat (dataAddr (fst m))) (length (snd m)) b k \<Longrightarrow> area (fold put_msg ms mem) b k = area mem b k"
proof (induction ms rule: rev_induct)
  case (snoc n ms)
  have p: "\<forall>m\<in>set ms. msg_of x (length mem) m" using snoc.prems(1) by simp
  have len: "length (fold put_msg ms mem) = length mem" by (rule length_fold_put [OF p])
  have n: "msg_of x (length (fold put_msg ms mem)) n" "apart (unat (dataAddr (fst n))) (length (snd n)) b k"
    using snoc.prems len by simp_all
  have "area (put_msg n (fold put_msg ms mem)) b k = area (fold put_msg ms mem) b k"
    using assms len by (intro put_msg_area(2) [OF n(1) _ n(2)]) simp
  also have "\<dots> = area mem b k" using snoc.prems(2) by (intro snoc.IH [OF p]) simp
  finally show ?case by simp
qed simp

lemma fold_put_outside:
  assumes "a < length mem"
  shows "\<forall>m\<in>set ms. msg_of x (length mem) m \<Longrightarrow> \<forall>m\<in>set ms. outside a m \<Longrightarrow> fold put_msg ms mem ! a = mem ! a"
proof (induction ms rule: rev_induct)
  case (snoc n ms)
  have p: "\<forall>m\<in>set ms. msg_of x (length mem) m" using snoc.prems(1) by simp
  have len: "length (fold put_msg ms mem) = length mem" by (rule length_fold_put [OF p])
  have n: "msg_of x (length (fold put_msg ms mem)) n" "outside a n" using snoc.prems len by simp_all
  have "put_msg n (fold put_msg ms mem) ! a = fold put_msg ms mem ! a"
    using assms len by (intro put_msg_area(3) [OF n(1) _ n(2)]) simp
  also have "\<dots> = mem ! a" using snoc.prems(2) by (intro snoc.IH [OF p]) simp
  finally show ?case by simp
qed simp

lemma fold_put_same:
  assumes "areas_ok x M"
  shows "\<forall>m\<in>set ms. msg_of x (length mem) m \<Longrightarrow> set ms \<subseteq> M \<Longrightarrow> m \<in> set ms \<Longrightarrow>
    area (fold put_msg ms mem) (unat (dataAddr (fst m))) (length (snd m)) = snd m"
proof (induction ms rule: rev_induct)
  case (snoc n ms)
  have p: "\<forall>m\<in>set ms. msg_of x (length mem) m" "set ms \<subseteq> M" "n \<in> M"
    using snoc.prems(1,2) by simp_all
  have mm: "msg_of x (length mem) m" using snoc.prems(1,3) by (rule bspec)
  have len: "length (fold put_msg ms mem) = length mem" by (rule length_fold_put [OF p(1)])
  have n: "msg_of x (length (fold put_msg ms mem)) n" using snoc.prems(1) len by simp
  show ?case
  proof (cases "m = n")
    case True
    show ?thesis unfolding True using put_msg_area(1) [OF n] by simp
  next
    case False
    have m: "m \<in> set ms" using snoc.prems(3) False by simp
    have ap: "apart (unat (dataAddr (fst n))) (length (snd n)) (unat (dataAddr (fst m))) (length (snd m))"
      using m p(2) False by (intro areas_ok_apart [OF assms p(3)]) auto
    have fit: "unat (dataAddr (fst m)) + length (snd m) \<le> length (fold put_msg ms mem)"
      unfolding len by (rule msg_of_fits [OF mm])
    show ?thesis using put_msg_area(2) [OF n fit ap] snoc.IH [OF p(1,2) m] by simp
  qed
qed simp

lemma put_flag_area:
  assumes "unat (tf_flagAddr x) + 4 \<le> length mem"
  shows "area (put_flag le x mem) (unat (tf_flagAddr x)) 4 = mem_repr le 4 (unat (tf_flagValue x))"
    "b + k \<le> length mem \<Longrightarrow> apart (unat (tf_flagAddr x)) 4 b k \<Longrightarrow> area (put_flag le x mem) b k = area mem b k"
    "a < length mem \<Longrightarrow> a < unat (tf_flagAddr x) \<or> unat (tf_flagAddr x) + 4 \<le> a \<Longrightarrow> put_flag le x mem ! a = mem ! a"
proof -
  let ?bs = "mem_repr le 4 (unat (tf_flagValue x))"
  have fit: "unat (tf_flagAddr x) + length ?bs \<le> length mem" using assms by simp
  show "area (put_flag le x mem) (unat (tf_flagAddr x)) 4 = ?bs"
    using area_overwrite_same [OF fit] by (simp add: put_flag_def)
  show "b + k \<le> length mem \<Longrightarrow> apart (unat (tf_flagAddr x)) 4 b k \<Longrightarrow> area (put_flag le x mem) b k = area mem b k"
    using area_overwrite_apart [OF fit, of b k] by (simp add: put_flag_def)
  show "a < length mem \<Longrightarrow> a < unat (tf_flagAddr x) \<or> unat (tf_flagAddr x) + 4 \<le> a \<Longrightarrow> put_flag le x mem ! a = mem ! a"
    using nth_overwrite [OF fit, of a] by (auto simp: put_flag_def)
qed

definition msgs_in :: "packet list \<Rightarrow> (msg_header \<times> octets) set" where
  "msgs_in ps = (\<Union>p\<in>set ps. set (pk_msgs p))"

text \<open>What the memory and the acknowledgements are after the frames \<open>ds\<close> of a transaction with the frames \<open>ps\<close>.\<close>

definition delivered :: "bool \<Rightarrow> transfer \<Rightarrow> packet list \<Rightarrow> services \<Rightarrow> packet list \<Rightarrow> services \<Rightarrow> bool" where
  "delivered le x ps st ds st' \<longleftrightarrow>
    length (s_mem st') = length (s_mem st) \<and>
    (\<forall>m\<in>msgs_in ds. area (s_mem st') (unat (dataAddr (fst m))) (length (snd m)) = snd m) \<and>
    area (s_mem st') (unat (tf_flagAddr x)) 4 =
      (if set ps \<subseteq> set ds then mem_repr le 4 (unat (tf_flagValue x)) else area (s_mem st) (unat (tf_flagAddr x)) 4) \<and>
    (\<forall>a<length (s_mem st). (\<forall>m\<in>msgs_in ds. outside a m) \<longrightarrow>
       (a < unat (tf_flagAddr x) \<or> unat (tf_flagAddr x) + 4 \<le> a) \<longrightarrow> s_mem st' ! a = s_mem st ! a) \<and>
    m_acks st' = m_acks st @ map (\<lambda>p. frameSeq (pk_hdr p)) ds"

lemma deliver_delivered:
  assumes "frames_ok x (length (s_mem st)) ps" "transfer_ok x (length (s_mem st))" "areas_ok x (msgs_in ps)"
    and "phase x b 0 st" "unat b < 511" "\<forall>p\<in>set ps. fresh st p" "set ds \<subseteq> set ps"
  shows "\<exists>st'. deliver le ds st = Inr st' \<and> delivered le x ps st ds st'"
proof -
  obtain st' where d: "deliver le ds st = Inr st'" "after le x b ps st ds st'"
    using deliver_after [OF assms(1,2,5,4,6,7)] by blast
  obtain ms where ms: "set ms = msgs_in ds"
    "s_mem st' = (let mem = fold put_msg ms (s_mem st) in if set ps \<subseteq> set ds then put_flag le x mem else mem)"
    using d(2) unfolding after_def msgs_in_def by blast
  let ?mem = "fold put_msg ms (s_mem st)"
  have sub: "set ms \<subseteq> msgs_in ps" using ms(1) assms(7) by (auto simp: msgs_in_def)
  have ok: "\<forall>m\<in>set ms. msg_of x (length (s_mem st)) m" using sub assms(1) unfolding msgs_in_def frames_ok_def by blast
  have fl: "unat (tf_flagAddr x) + 4 \<le> length (s_mem st)" using assms(2) by (simp add: transfer_ok_def)
  have len: "length ?mem = length (s_mem st)" by (rule length_fold_put [OF ok])
  have fl': "unat (tf_flagAddr x) + 4 \<le> length ?mem" using fl len by simp
  have "\<forall>m\<in>set ms. apart (unat (dataAddr (fst m))) (length (snd m)) (unat (tf_flagAddr x)) 4"
    using assms(3) sub unfolding areas_ok_def by blast
  note f = fold_put_same [OF assms(3) ok sub] fold_put_apart [OF fl ok this] and g = put_flag_area [OF fl']
  have 1: "area (s_mem st') (unat (dataAddr (fst m))) (length (snd m)) = snd m" if m: "m \<in> msgs_in ds" for m
  proof -
    have "m \<in> set ms" using m ms(1) by simp
    moreover have "unat (dataAddr (fst m)) + length (snd m) \<le> length ?mem" unfolding len using ok calculation by (intro msg_of_fits) blast
    moreover have "apart (unat (tf_flagAddr x)) 4 (unat (dataAddr (fst m))) (length (snd m))"
      using assms(3) sub calculation(1) unfolding areas_ok_def by (meson apart_sym subsetD)
    ultimately show ?thesis using f(1) g(2) by (simp add: ms(2) Let_def)
  qed
  have 2: "area (s_mem st') (unat (tf_flagAddr x)) 4 =
      (if set ps \<subseteq> set ds then mem_repr le 4 (unat (tf_flagValue x)) else area (s_mem st) (unat (tf_flagAddr x)) 4)"
    using f(2) g(1) by (simp add: ms(2) Let_def)
  have 3: "s_mem st' ! a = s_mem st ! a"
    if a: "a < length (s_mem st)" "\<forall>m\<in>msgs_in ds. outside a m" "a < unat (tf_flagAddr x) \<or> unat (tf_flagAddr x) + 4 \<le> a" for a
  proof -
    have "?mem ! a = s_mem st ! a" using a(2) ms(1) by (intro fold_put_outside [OF a(1) ok]) simp
    moreover have "put_flag le x ?mem ! a = ?mem ! a" using a(1) len by (intro g(3) [OF _ a(3)]) simp
    ultimately show ?thesis by (simp add: ms(2) Let_def)
  qed
  have 4: "m_acks st' = m_acks st @ map (\<lambda>p. frameSeq (pk_hdr p)) ds" using d(2) by (simp add: after_def)
  have 5: "length (s_mem st') = length (s_mem st)"
    using len length_overwrite [of "unat (tf_flagAddr x)" "mem_repr le 4 (unat (tf_flagValue x))" ?mem] fl'
    by (simp add: ms(2) Let_def put_flag_def)
  show ?thesis unfolding delivered_def using d(1) 1 2 3 4 5 by blast
qed


text \<open>A receiver starts with no frame received and no transaction open.\<close>

lemma ucast_seq_eq_0: "(ucast (s :: u16) :: u32) = 0 \<longleftrightarrow> s = 0"
proof -
  have "unat s < 2 ^ 16" using unsigned_less [of s] by simp
  then have "unat (ucast s :: u32) = unat s" by (simp add: unsigned_ucast_eq take_bit_nat_eq_self)
  then show ?thesis by (metis unsigned_eq_0_iff)
qed

lemma initial_fresh: "frameSeq (pk_hdr p) \<noteq> 0 \<Longrightarrow> fresh (DatagramXferServices src tgt mem now c) p"
proof -
  have "slot p \<le> 255"
    unfolding slot_def MAX_FRAME_HISTORY_def using word_and_le1 [of "frameSeq (pk_hdr p)" "0xff"]
    by (simp add: word_le_nat_alt)
  then have "m_frameSeqRecord (DatagramXferServices src tgt mem now c) ! slot p = \<lparr>fr_acked = False, fr_id = 0\<rparr>"
    "slot p < length (m_frameSeqRecord (DatagramXferServices src tgt mem now c))"
    by (simp_all add: DatagramXferServices_def MAX_FRAME_HISTORY_def)
  then show "frameSeq (pk_hdr p) \<noteq> 0 \<Longrightarrow> fresh (DatagramXferServices src tgt mem now c) p"
    by (simp add: fresh_def ucast_seq_eq_0)
qed

lemma initial_phase: "phase x c 0 (DatagramXferServices src tgt mem now c)"
  by (simp add: phase_def DatagramXferServices_def MAX_TRANSACTION_HISTORY_def hd_replicate)

text \<open>A transfer of two messages in two frames; the second frame arrives first, and twice.\<close>

definition example_transfer :: transfer where
  "example_transfer = \<lparr>tf_id = 1, tf_count = 2, tf_flagAddr = 8, tf_flagValue = 1\<rparr>"

definition example_message :: "u32 \<Rightarrow> u16 \<Rightarrow> octets \<Rightarrow> msg_header \<times> octets" where
  "example_message a n d = (\<lparr>transactionId = 1, flagAddr = 8, flagValue = 1, numMsgsInTransaction = 2, msgSequence = n,
     dataAddr = a, dataLen = of_nat (length d), msgType = DATA, nextMsg = False\<rparr>, d)"

definition example_packet :: "u16 \<Rightarrow> msg_header \<times> octets \<Rightarrow> packet" where
  "example_packet n m = \<lparr>pk_hdr = \<lparr>destId = 1, srcId = 2, frameSeq = n, ACKStart = 0, ACKCount = 0, frameFlags = 1\<rparr>, pk_msgs = [m]\<rparr>"

abbreviation "example_first \<equiv> example_packet 1 (example_message 0 1 [1, 2, 3])"
abbreviation "example_second \<equiv> example_packet 2 (example_message 3 2 [4, 5])"
abbreviation "example_receiver \<equiv> DatagramXferServices 1 2 (replicate 12 0) 0 0"

lemmas example_defs = example_transfer_def example_message_def example_packet_def


end
