(* ===== verification/DatagramPost.thy ===== *)
theory DatagramPost
  imports DatagramDelivery
begin

text \<open>
  Posting a request: its messages are packed in order into consecutively numbered frames of at most
  the maximal payload.
\<close>

subsection \<open>The links between the messages of a frame\<close>

definition set_link :: "bool \<Rightarrow> dg_message \<Rightarrow> dg_message" where
  "set_link b m = m\<lparr>dg_hdr := (dg_hdr m)\<lparr>nextMsg := b\<rparr>\<rparr>"

text \<open>The messages from \<open>lo\<close> to \<open>hi\<close> are linked; the last of them gets the link \<open>b\<close>.\<close>

definition relink :: "bool \<Rightarrow> nat \<Rightarrow> nat \<Rightarrow> dg_message list \<Rightarrow> dg_message list" where
  "relink b lo hi ms = map (\<lambda>j. if lo \<le> j \<and> j < hi then set_link (Suc j < hi \<or> b) (ms ! j) else ms ! j) [0..<length ms]"

definition relink_tx :: "bool \<Rightarrow> nat \<Rightarrow> nat \<Rightarrow> transaction \<Rightarrow> transaction" where
  "relink_tx b lo hi t = t\<lparr>m_messages := relink b lo hi (m_messages t)\<rparr>"

lemma set_link_simps [simp]:
  "set_link b (set_link c m) = set_link b m" "src_adr (set_link b m) = src_adr m" "dg_hdr (set_link b m) = (dg_hdr m)\<lparr>nextMsg := b\<rparr>"
  by (simp_all add: set_link_def)

lemma length_relink [simp]: "length (relink b lo hi ms) = length ms"
  by (simp add: relink_def)

lemma nth_relink: "j < length ms \<Longrightarrow> relink b lo hi ms ! j = (if lo \<le> j \<and> j < hi then set_link (Suc j < hi \<or> b) (ms ! j) else ms ! j)"
  by (simp add: relink_def)

lemma relink_empty [simp]: "relink b lo lo ms = ms"
  by (rule nth_equalityI) (auto simp: nth_relink)

lemma relink_extend:
  "lo \<le> hi \<Longrightarrow> hi < length ms \<Longrightarrow> (relink True lo hi ms)[hi := set_link True (relink True lo hi ms ! hi)] = relink True lo (Suc hi) ms"
  by (rule nth_equalityI) (auto simp: nth_relink nth_list_update)

lemma relink_end:
  assumes "lo < hi" "hi \<le> length ms"
  shows "(relink b lo hi ms)[hi - 1 := set_link False (relink b lo hi ms ! (hi - 1))] = relink False lo hi ms"
proof (rule nth_equalityI)
  fix j
  assume "j < length ((relink b lo hi ms)[hi - 1 := set_link False (relink b lo hi ms ! (hi - 1))])"
  then have j: "j < length ms" by simp
  show "(relink b lo hi ms)[hi - 1 := set_link False (relink b lo hi ms ! (hi - 1))] ! j = relink False lo hi ms ! j"
  proof (cases "j = hi - 1")
    case True
    then have "lo \<le> j" "j < hi" "\<not> Suc j < hi" using assms by auto
    then show ?thesis using j True by (simp add: nth_relink)
  next
    case False
    then have "j < hi \<Longrightarrow> Suc j < hi" by linarith
    then show ?thesis using j False by (auto simp: nth_relink)
  qed
qed simp

lemma set_nextMsg_alt: "set_nextMsg n b t = t\<lparr>m_messages := (m_messages t)[n := set_link b (m_messages t ! n)]\<rparr>"
  by (simp add: set_nextMsg_def set_link_def)

lemma relink_tx_extend:
  "lo \<le> hi \<Longrightarrow> hi < msgCount t \<Longrightarrow> set_nextMsg hi True (relink_tx True lo hi t) = relink_tx True lo (Suc hi) t"
  by (simp add: set_nextMsg_alt relink_tx_def msgCount_def relink_extend)

lemma relink_tx_end:
  "lo < hi \<Longrightarrow> hi \<le> msgCount t \<Longrightarrow> set_nextMsg (hi - 1) False (relink_tx b lo hi t) = relink_tx False lo hi t"
  using relink_end [of lo hi "m_messages t" b] by (simp add: set_nextMsg_alt relink_tx_def msgCount_def)

subsection \<open>Filling a frame\<close>

definition need_at :: "transaction \<Rightarrow> nat \<Rightarrow> nat" where
  "need_at t j = msg_need (dg_hdr (m_messages t ! j))"

lemma need_relink [simp]: "j < msgCount t \<Longrightarrow> need_at (relink_tx b lo hi t) j = need_at t j"
  by (simp add: need_at_def relink_tx_def nth_relink msgCount_def msg_need_def)

lemma need_pos: "0 < need_at t j"
  by (simp add: need_at_def msg_need_def MSG_HEADER_def)

text \<open>Every message fits a frame with room for \<open>B\<close> bytes, and five messages in a row do not.\<close>

definition packable :: "nat \<Rightarrow> transaction \<Rightarrow> bool" where
  "packable B t \<longleftrightarrow> (\<forall>j<msgCount t. need_at t j \<le> B) \<and> (\<forall>j. j + 5 \<le> msgCount t \<longrightarrow> B < sum (need_at t) {j..<j + 5})"

definition frame_filled :: "nat \<Rightarrow> nat \<Rightarrow> nat \<Rightarrow> nat \<Rightarrow> bool \<Rightarrow> services \<Rightarrow> services" where
  "frame_filled r i lo hi b st = set_frame i ((m_freeFrames st ! i)\<lparr>iovlen := 2 + 2 * (hi - lo), msg_count := hi - lo\<rparr>)
     (upd_request r (relink_tx b lo hi) st)"

lemma frame_filled_simps [simp]:
  "r < length (s_requests st) \<Longrightarrow> s_requests (frame_filled r i lo hi b st) ! r = relink_tx b lo hi (s_requests st ! r)"
  "i < length (m_freeFrames st) \<Longrightarrow>
     m_freeFrames (frame_filled r i lo hi b st) ! i = (m_freeFrames st ! i)\<lparr>iovlen := 2 + 2 * (hi - lo), msg_count := hi - lo\<rparr>"
  by (simp_all add: frame_filled_def set_frame_def upd_request_def)

lemma frame_filled_fields:
  "s_sent (frame_filled r i lo hi b st) = s_sent st" "s_mem (frame_filled r i lo hi b st) = s_mem st"
  "m_frameSeq (frame_filled r i lo hi b st) = m_frameSeq st" "m_acks (frame_filled r i lo hi b st) = m_acks st"
  "s_requests (frame_filled r i lo hi b st) = (s_requests st)[r := relink_tx b lo hi (s_requests st ! r)]"
  "m_freeFrames (frame_filled r i lo hi b st) = (m_freeFrames st)[i := (m_freeFrames st ! i)\<lparr>iovlen := 2 + 2 * (hi - lo), msg_count := hi - lo\<rparr>]"
  by (simp_all add: frame_filled_def set_frame_def upd_request_def)

lemma frame_filled_start:
  assumes "iovlen (m_freeFrames st ! i) = 2" "msg_count (m_freeFrames st ! i) = 0"
  shows "frame_filled r i lo lo b st = st"
proof -
  have "(m_freeFrames st ! i)\<lparr>iovlen := 2, msg_count := 0\<rparr> = m_freeFrames st ! i" using assms by simp
  moreover have "relink_tx b lo lo (s_requests st ! r) = s_requests st ! r" by (simp add: relink_tx_def)
  ultimately show ?thesis by (simp add: frame_filled_def set_frame_def upd_request_def)
qed

lemma frame_filled_extend:
  assumes "r < length (s_requests st)" "i < length (m_freeFrames st)" "lo \<le> hi" "hi < msgCount (s_requests st ! r)"
  shows "(let st' = frame_filled r i lo hi True st; f = m_freeFrames st' ! i in
      set_frame i (f\<lparr>iovlen := iovlen f + 2, msg_count := msg_count f + 1\<rparr>) (upd_request r (set_nextMsg hi True) st'))
    = frame_filled r i lo (Suc hi) True st"
  using assms relink_tx_extend [OF assms(3,4)] by (simp add: frame_filled_def set_frame_def upd_request_def Suc_diff_le)

lemma frame_filled_end:
  assumes "r < length (s_requests st)" "lo < hi" "hi \<le> msgCount (s_requests st ! r)"
  shows "upd_request r (set_nextMsg (hi - 1) False) (frame_filled r i lo hi b st) = frame_filled r i lo hi False st"
  using assms relink_tx_end [OF assms(2,3)] by (simp add: frame_filled_def set_frame_def upd_request_def)

lemma fill_frame_packs:
  assumes r: "r < length (s_requests st)" and i: "i < length (m_freeFrames st)"
    and n: "n = msgCount (s_requests st ! r)" "n < 65536" and pk: "packable B (s_requests st ! r)" and lo: "lo < n"
  shows "lo \<le> msg \<Longrightarrow> msg \<le> n \<Longrightarrow> sum (need_at (s_requests st ! r)) {lo..<msg} + left = B \<Longrightarrow>
    \<exists>hi b. fill_frame r n i msg left (frame_filled r i lo msg True st) = Inr (hi, frame_filled r i lo hi b st) \<and>
      lo < hi \<and> hi \<le> n \<and> sum (need_at (s_requests st ! r)) {lo..<hi} \<le> B"
proof (induction "n - msg" arbitrary: msg left)
  case 0
  then show ?case using lo by (auto simp: fill_frame.simps)
next
  case (Suc k)
  let ?t = "s_requests st ! r" and ?f = "frame_filled r i lo msg True st"
  have msg: "msg < n" using Suc.hyps(2) by simp
  have need: "msg_need (dg_hdr (m_messages (s_requests ?f ! r) ! msg)) = need_at ?t msg"
    using need_relink [of msg ?t True lo msg] r msg n(1) by (simp add: need_at_def)
  have fits: "need_at ?t msg \<le> B" using pk msg n(1) by (simp add: packable_def)
  consider "left = 0" | "0 < left" "left < need_at ?t msg" | "need_at ?t msg \<le> left" by linarith
  then show ?case
  proof cases
    case 1
    then have "lo < msg" using Suc.prems(1,3) fits need_pos [of ?t msg] by (cases "lo = msg") auto
    then show ?thesis using 1 Suc.prems msg by (auto simp: fill_frame.simps)
  next
    case 2
    then have lm: "lo < msg" using Suc.prems(1,3) fits by (cases "lo = msg") auto
    have "fill_frame r n i msg left ?f = Inr (msg, frame_filled r i lo msg False st)"
      using 2 msg lm n(1) need frame_filled_end [OF r lm] by (subst fill_frame.simps) (simp add: Let_def)
    then show ?thesis using lm Suc.prems by auto
  next
    case 3
    have s: "sum (need_at ?t) {lo..<Suc msg} + (left - need_at ?t msg) = B" using 3 Suc.prems(1,3) by simp
    have "msg < lo + 4"
    proof (rule ccontr)
      assume "\<not> msg < lo + 4"
      then have "{lo..<lo + 5} \<subseteq> {lo..<Suc msg}" "lo + 5 \<le> n" using msg by auto
      moreover have "sum (need_at ?t) {lo..<lo + 5} \<le> sum (need_at ?t) {lo..<Suc msg}" by (rule sum_mono2) (use calculation in auto)
      ultimately show False using pk n(1) s unfolding packable_def by fastforce
    qed
    then have ok: "\<not> iovlen (m_freeFrames ?f ! i) + 2 > MAX_MSGS + 1" "msg + 1 \<noteq> 65536" "0 < left"
      using i msg n(2) 3 need_pos [of ?t msg] by (auto simp: MAX_MSGS_def)
    have "fill_frame r n i msg left ?f = fill_frame r n i (Suc msg) (left - need_at ?t msg) (frame_filled r i lo (Suc msg) True st)"
      using 3 msg ok need frame_filled_extend [OF r i Suc.prems(1)] n(1)
      by (subst fill_frame.simps) (simp add: Let_def del: frame_filled_simps)
    then show ?thesis using Suc.hyps(1) [of "Suc msg" "left - need_at ?t msg"] Suc.hyps(2) Suc.prems(1) s msg by auto
  qed
qed

subsection \<open>Posting one frame\<close>

definition frame_slot :: "u16 \<Rightarrow> nat" where
  "frame_slot s = unat (s AND FRAME_SEQ_MASK)"

lemma slot_frame_slot: "slot p = frame_slot (frameSeq (pk_hdr p))"
  by (simp add: slot_def frame_slot_def MAX_FRAME_HISTORY_def FRAME_SEQ_MASK_def)

lemma frame_slot_mod: "frame_slot s = unat s mod 256"
proof -
  have "s AND 0xff = take_bit 8 s" by (simp add: take_bit_eq_mask mask_eq_exp_minus_1)
  then have "unat (s AND 0xff) = unat s mod 2 ^ 8" by (simp only: unsigned_take_bit_eq) (simp only: take_bit_eq_mod)
  then show ?thesis by (simp add: frame_slot_def FRAME_SEQ_MASK_def)
qed

lemma frame_slot_add: "frame_slot (s + of_nat j) = (unat s + j) mod 256"
proof -
  have "unat (s + of_nat j) = (unat s + j) mod 2 ^ 16" by (simp add: unat_word_ariths unsigned_of_nat take_bit_eq_mod mod_simps)
  then show ?thesis unfolding frame_slot_mod by (simp add: mod_mod_cancel)
qed

definition msg_data :: "octets \<Rightarrow> dg_message \<Rightarrow> octets" where
  "msg_data mem m = (case src_adr m of None \<Rightarrow> [] | Some a \<Rightarrow> take (unat (dataLen (dg_hdr m))) (drop a mem))"

lemma msg_data_link [simp]: "msg_data mem (set_link b m) = msg_data mem m"
  by (simp add: msg_data_def split: option.splits)

definition contents :: "octets \<Rightarrow> transaction \<Rightarrow> (msg_header \<times> octets) list" where
  "contents mem t = map (\<lambda>m. (dg_hdr m, msg_data mem m)) (m_messages t)"

text \<open>A message apart from its link.\<close>

definition unlink :: "msg_header \<times> octets \<Rightarrow> msg_header \<times> octets" where
  "unlink m = ((fst m)\<lparr>nextMsg := False\<rparr>, snd m)"

lemma packet_of_alt:
  "packet_of f st = \<lparr>pk_hdr = frameHdr f, pk_msgs = (case fr_transaction f of None \<Rightarrow> []
     | Some r \<Rightarrow> take (msg_count f) (drop (msg_start f) (contents (s_mem st) (s_requests st ! r))))\<rparr>"
  by (simp add: packet_of_def contents_def msg_data_def take_map drop_map split: option.splits)

lemma chainedI: "xs \<noteq> [] \<Longrightarrow> \<forall>j<length xs. nextMsg (fst (xs ! j)) = (Suc j < length xs) \<Longrightarrow> chained xs"
proof (induction xs)
  case (Cons x xs)
  have "\<forall>j<length xs. nextMsg (fst (xs ! j)) = (Suc j < length xs)" using Cons.prems(2) by (metis Suc_less_eq length_Cons nth_Cons_Suc)
  moreover have "nextMsg (fst x) = (0 < length xs)" using Cons.prems(2) by (metis length_Cons nth_Cons_0 Suc_less_eq zero_less_Suc)
  ultimately show ?case using Cons.IH by auto
qed simp

lemma length_contents [simp]: "length (contents mem t) = msgCount t"
  by (simp add: contents_def msgCount_def)

lemma nth_contents_relink:
  "j < msgCount t \<Longrightarrow> contents mem (relink_tx b lo hi t) ! j =
     (if lo \<le> j \<and> j < hi then ((fst (contents mem t ! j))\<lparr>nextMsg := (Suc j < hi \<or> b)\<rparr>, snd (contents mem t ! j)) else contents mem t ! j)"
  by (simp add: contents_def relink_tx_def nth_relink msgCount_def)

lemma msgCount_relink [simp]: "msgCount (relink_tx b lo hi t) = msgCount t"
  by (simp add: msgCount_def relink_tx_def)

lemma unlink_relink: "map unlink (contents mem (relink_tx b lo hi t)) = map unlink (contents mem t)"
  by (rule nth_equalityI) (auto simp: nth_contents_relink unlink_def)

lemma chained_relink:
  assumes "lo < hi" "hi \<le> msgCount t"
  shows "chained (take (hi - lo) (drop lo (contents mem (relink_tx False lo hi t))))"
  by (rule chainedI) (use assms in \<open>auto simp: nth_contents_relink\<close>)

text \<open>The room that the messages of a frame take.\<close>

definition packet_bytes :: "packet \<Rightarrow> nat" where
  "packet_bytes p = FRAME_HEADER + 2 + sum_list (map (\<lambda>m. msg_need (fst m)) (pk_msgs p))"

lemma need_contents: "j < msgCount t \<Longrightarrow> msg_need (fst (contents mem t ! j)) = need_at t j"
  by (simp add: contents_def need_at_def msgCount_def)

lemma sum_needs:
  assumes "hi \<le> msgCount t"
  shows "sum_list (map (\<lambda>m. msg_need (fst m)) (take (hi - lo) (drop lo (contents mem t)))) = sum (need_at t) {lo..<hi}"
proof -
  have "map (\<lambda>m. msg_need (fst m)) (take (hi - lo) (drop lo (contents mem t))) = map (need_at t) [lo..<hi]"
    by (rule nth_equalityI) (use assms in \<open>auto simp: need_contents\<close>)
  then show ?thesis by (simp add: interv_sum_list_conv_sum_set_nat)
qed

definition frame_got :: "services \<Rightarrow> dg_frame \<Rightarrow> services \<Rightarrow> bool" where
  "frame_got st f st' \<longleftrightarrow>
     frameSeq (frameHdr f) = m_frameSeq st \<and> \<not> is_free f \<and> msg_count f = 0 \<and> iovlen f = 2 \<and>
     (m_acks st = [] \<longrightarrow> ACKCount (frameHdr f) = 0 \<and> m_acks st' = []) \<and>
     m_freeFrames st' = (m_freeFrames st)[frame_slot (m_frameSeq st) := f] \<and> m_frameSeq st' = m_frameSeq st + 1 \<and>
     s_requests st' = s_requests st \<and> s_mem st' = s_mem st \<and> s_sent st' = s_sent st"

lemma getFrame_got:
  assumes "12 \<le> maxp" "frame_slot (m_frameSeq st) < length (m_freeFrames st)" "is_free (m_freeFrames st ! frame_slot (m_frameSeq st))"
  shows "\<exists>f st'. getFrame now maxp st = Inr (frame_slot (m_frameSeq st), maxp - 12, st') \<and> frame_got st f st'"
proof -
  let ?i = "frame_slot (m_frameSeq st)" and ?f = "m_freeFrames st ! frame_slot (m_frameSeq st)"
  define f1 where "f1 = ?f\<lparr>frameHdr := (frameHdr ?f)\<lparr>frameSeq := m_frameSeq st\<rparr>, is_free := False\<rparr>"
  define st1 where "st1 = set_frame ?i f1 (st\<lparr>m_frameSeq := m_frameSeq st + 1\<rparr>)"
  have n: "nextFreeFrame st = Inr (?i, st1)"
    using assms by (simp add: nextFreeFrame_def frame_slot_def f1_def st1_def Let_def)
  have f1: "m_freeFrames st1 ! ?i = f1" using assms(2) by (simp add: st1_def set_frame_def)
  obtain h st2 where p: "piggyback now ((frameHdr f1)\<lparr>destId := t_mailbox st1, srcId := s_mailbox st1, frameFlags := 0, ACKCount := 0\<rparr>) st1 = (h, st2)"
    by fastforce
  have k: "frameSeq h = m_frameSeq st" "st2 = st1\<lparr>m_acks := m_acks st2, m_last_ack_send := m_last_ack_send st2\<rparr>"
    "m_acks st = [] \<longrightarrow> ACKCount h = 0 \<and> m_acks st2 = []"
    using p by (auto simp: piggyback_def f1_def st1_def set_frame_def split: list.splits prod.splits)
  define f2 where "f2 = f1\<lparr>frameHdr := h, fr_transaction := None, msg_count := 0, msg_start := 0, iovlen := 2\<rparr>"
  have "getFrame now maxp st = Inr (?i, maxp - 12, set_frame ?i f2 st2)"
    using assms(1) by (simp add: getFrame_def n f1 p f2_def Let_def size_sub_def FRAME_HEADER_def)
  moreover have "frame_got st f2 (set_frame ?i f2 st2)"
    unfolding frame_got_def by (subst (1 2 3 4 5 6) k(2)) (use k(1,3) in \<open>simp add: f2_def f1_def st1_def set_frame_def\<close>)
  ultimately show ?thesis by blast
qed

definition frame_sent :: "nat \<Rightarrow> u64 \<Rightarrow> nat \<Rightarrow> nat \<Rightarrow> nat \<Rightarrow> services \<Rightarrow> packet \<Rightarrow> services \<Rightarrow> bool" where
  "frame_sent r now maxp lo hi st p st' \<longleftrightarrow>
     (let i = frame_slot (m_frameSeq st); f = m_freeFrames st' ! i; t = relink_tx False lo hi (s_requests st ! r) in
      p = packet_of f st' \<and> \<not> is_free f \<and> fr_transaction f = Some r \<and> msg_start f = lo \<and> msg_count f = hi - lo \<and> send_time f = now \<and>
      s_sent st' = s_sent st @ [p] \<and> s_mem st' = s_mem st \<and> m_frameSeq st' = m_frameSeq st + 1 \<and>
      s_requests st' = (s_requests st)[r := t] \<and> m_freeFrames st' = (m_freeFrames st)[i := f] \<and>
      frameSeq (pk_hdr p) = m_frameSeq st \<and> frameFlags (pk_hdr p) AND FRAME_FLAG_HAS_MESSAGES \<noteq> 0 \<and>
      pk_msgs p = take (hi - lo) (drop lo (contents (s_mem st) t)) \<and>
      (m_acks st = [] \<longrightarrow> ACKCount (pk_hdr p) = 0 \<and> m_acks st' = []))"

lemma has_messages_flag: "FRAME_FLAG_HAS_MESSAGES \<noteq> 0"
  by (simp add: FRAME_FLAG_HAS_MESSAGES_def)

lemma packet_of_upd [simp]:
  "packet_of f (st\<lparr>m_freeFrames := fs\<rparr>) = packet_of f st" "packet_of f (st\<lparr>s_sent := ps\<rparr>) = packet_of f st"
  by (simp_all add: packet_of_alt split: option.splits)

lemma post_frame_sends:
  assumes "i < length (m_freeFrames st)" "msg_count (m_freeFrames st ! i) \<noteq> 0"
  shows "\<exists>st'. post_frame now i st = Inr st' \<and>
    (let f = (m_freeFrames st ! i)\<lparr>send_time := now, frameHdr := (frameHdr (m_freeFrames st ! i))
          \<lparr>frameFlags := frameFlags (frameHdr (m_freeFrames st ! i)) OR FRAME_FLAG_HAS_MESSAGES\<rparr>\<rparr> in
     st' = st\<lparr>m_freeFrames := (m_freeFrames st)[i := f], s_sent := s_sent st @ [packet_of f st]\<rparr> \<and> packet_of f st' = packet_of f st)"
  using assms by (simp add: post_frame_def set_frame_def Let_def)

lemma post_one_sends:
  assumes r: "r < length (s_requests st)" and n: "n = msgCount (s_requests st ! r)" "n < 65536" and lo: "lo < n"
    and pk: "packable (maxp - 12) (s_requests st ! r)" and maxp: "12 \<le> maxp"
    and i: "frame_slot (m_frameSeq st) < length (m_freeFrames st)" "is_free (m_freeFrames st ! frame_slot (m_frameSeq st))"
  shows "\<exists>hi p st'. post_one r n now maxp lo st = Inr (hi, st') \<and> lo < hi \<and> hi \<le> n \<and>
    sum (need_at (s_requests st ! r)) {lo..<hi} \<le> maxp - 12 \<and> frame_sent r now maxp lo hi st p st'"
proof -
  let ?i = "frame_slot (m_frameSeq st)" and ?t = "s_requests st ! r"
  obtain f st1 where g: "getFrame now maxp st = Inr (?i, maxp - 12, st1)" and got: "frame_got st f st1"
    using getFrame_got [OF maxp i] by blast
  define f2 where "f2 = f\<lparr>fr_transaction := Some r, msg_start := lo\<rparr>"
  define st2 where "st2 = set_frame ?i f2 st1"
  have fr2: "m_freeFrames st2 = (m_freeFrames st)[?i := f2]" "s_requests st2 = s_requests st"
    "m_freeFrames st1 ! ?i = f" using got i by (simp_all add: frame_got_def st2_def set_frame_def)
  have st2: "s_sent st2 = s_sent st1" "s_mem st2 = s_mem st1" "m_frameSeq st2 = m_frameSeq st1" "m_acks st2 = m_acks st1"
    by (simp_all add: st2_def set_frame_def)
  have i2: "?i < length (m_freeFrames st2)" "m_freeFrames st2 ! ?i = f2" using i fr2 by simp_all
  have start: "frame_filled r ?i lo lo True st2 = st2"
    by (rule frame_filled_start; use got i2(2) in \<open>simp add: f2_def frame_got_def\<close>)
  have "\<exists>hi b. fill_frame r n ?i lo (maxp - 12) (frame_filled r ?i lo lo True st2) = Inr (hi, frame_filled r ?i lo hi b st2) \<and>
      lo < hi \<and> hi \<le> n \<and> sum (need_at (s_requests st2 ! r)) {lo..<hi} \<le> maxp - 12"
    by (rule fill_frame_packs) (use r n lo pk i2 fr2 in auto)
  then obtain hi b where fl: "fill_frame r n ?i lo (maxp - 12) st2 = Inr (hi, frame_filled r ?i lo hi b st2)"
    and hi: "lo < hi" "hi \<le> n" "sum (need_at ?t) {lo..<hi} \<le> maxp - 12" unfolding start fr2 by blast
  have e: "upd_request r (set_nextMsg (hi - 1) False) (frame_filled r ?i lo hi b st2) = frame_filled r ?i lo hi False st2"
    using frame_filled_end [of r st2 lo hi ?i b] r hi n fr2 by simp
  let ?st3 = "frame_filled r ?i lo hi False st2"
  have i3: "?i < length (m_freeFrames ?st3)" "msg_count (m_freeFrames ?st3 ! ?i) \<noteq> 0"
    using i2 hi by (simp_all add: frame_filled_def set_frame_def upd_request_def)
  obtain st4 where p: "post_frame now ?i ?st3 = Inr st4" using post_frame_sends [OF i3] by blast
  have "post_one r n now maxp lo st = Inr (hi, st4)"
    using hi unfolding post_one_def g sbind_simps prod.case fr2(3) f2_def [symmetric] st2_def [symmetric] fl e by (simp add: p)
  moreover have "frame_sent r now maxp lo hi st (packet_of (m_freeFrames st4 ! ?i) st4) st4"
  proof -
    let ?f = "(m_freeFrames ?st3 ! ?i)\<lparr>send_time := now, frameHdr := (frameHdr (m_freeFrames ?st3 ! ?i))
          \<lparr>frameFlags := frameFlags (frameHdr (m_freeFrames ?st3 ! ?i)) OR FRAME_FLAG_HAS_MESSAGES\<rparr>\<rparr>"
    have s4: "st4 = ?st3\<lparr>m_freeFrames := (m_freeFrames ?st3)[?i := ?f], s_sent := s_sent ?st3 @ [packet_of ?f ?st3]\<rparr>"
      using post_frame_sends [OF i3, of now] p by (simp add: Let_def)
    have f4: "m_freeFrames st4 ! ?i = ?f" unfolding s4 using i3(1) by simp
    have "packet_of ?f st4 = packet_of ?f ?st3" unfolding s4 by simp
    then show ?thesis
      using got i2 hi r unfolding frame_sent_def Let_def f4
      by (simp add: s4 has_messages_flag frame_got_def f2_def packet_of_alt frame_filled_fields fr2(1,2) st2)
  qed
  ultimately show ?thesis using hi by blast
qed

subsection \<open>Posting a request\<close>

text \<open>The sender is ready: the frames of the next \<open>k\<close> numbers are free and the messages can be packed.\<close>

definition sender_ready :: "nat \<Rightarrow> nat \<Rightarrow> nat \<Rightarrow> services \<Rightarrow> bool" where
  "sender_ready r maxp k st \<longleftrightarrow> r < length (s_requests st) \<and> 12 \<le> maxp \<and> packable (maxp - 12) (s_requests st ! r) \<and>
     length (m_freeFrames st) = 256 \<and> k \<le> 256 \<and> (\<forall>j<k. is_free (m_freeFrames st ! frame_slot (m_frameSeq st + of_nat j)))"

text \<open>A frame is kept until it is acknowledged, with all that is needed to send it again.\<close>

definition pending :: "nat \<Rightarrow> u64 \<Rightarrow> services \<Rightarrow> packet \<Rightarrow> bool" where
  "pending r now st p \<longleftrightarrow> (let f = m_freeFrames st ! slot p in
     \<not> is_free f \<and> fr_transaction f = Some r \<and> packet_of f st = p \<and> send_time f = now \<and>
     msg_start f + msg_count f \<le> msgCount (s_requests st ! r))"

definition packet_ok :: "nat \<Rightarrow> packet \<Rightarrow> bool" where
  "packet_ok maxp p \<longleftrightarrow> chained (pk_msgs p) \<and> frameFlags (pk_hdr p) AND FRAME_FLAG_HAS_MESSAGES \<noteq> 0 \<and> packet_bytes p \<le> maxp"

definition unchanged_below :: "nat \<Rightarrow> nat \<Rightarrow> services \<Rightarrow> services \<Rightarrow> bool" where
  "unchanged_below r msg st st' \<longleftrightarrow> s_mem st' = s_mem st \<and> length (s_requests st') = length (s_requests st) \<and>
     (\<forall>k. k \<noteq> r \<longrightarrow> s_requests st' ! k = s_requests st ! k) \<and>
     msgCount (s_requests st' ! r) = msgCount (s_requests st ! r) \<and> m_nMessagesRx (s_requests st' ! r) = m_nMessagesRx (s_requests st ! r) \<and>
     (\<forall>j<msg. m_messages (s_requests st' ! r) ! j = m_messages (s_requests st ! r) ! j)"

definition posted :: "nat \<Rightarrow> nat \<Rightarrow> u64 \<Rightarrow> nat \<Rightarrow> services \<Rightarrow> packet list \<Rightarrow> services \<Rightarrow> bool" where
  "posted r maxp now msg st ps st' \<longleftrightarrow>
     s_sent st' = s_sent st @ ps \<and>
     map unlink (concat (map pk_msgs ps)) = map unlink (drop msg (contents (s_mem st) (s_requests st ! r))) \<and>
     length ps \<le> msgCount (s_requests st ! r) - msg \<and>
     (\<forall>j<length ps. frameSeq (pk_hdr (ps ! j)) = m_frameSeq st + of_nat j) \<and>
     (\<forall>p\<in>set ps. packet_ok maxp p \<and> pending r now st' p \<and> (m_acks st = [] \<longrightarrow> ACKCount (pk_hdr p) = 0)) \<and>
     length (m_freeFrames st') = length (m_freeFrames st) \<and>
     (\<forall>k. k \<notin> slot ` set ps \<longrightarrow> m_freeFrames st' ! k = m_freeFrames st ! k) \<and> unchanged_below r msg st st'"

lemma frame_slot_distinct:
  assumes "0 < j" "j < 256"
  shows "frame_slot (s + of_nat j) \<noteq> frame_slot s"
proof -
  have "(unat s + j) mod 256 \<noteq> unat s mod 256"
    using assms mod_eq_dvd_iff_nat [of "unat s" "unat s + j" 256] nat_dvd_not_less [of j 256] by simp
  then show ?thesis using frame_slot_add [of s j] by (simp add: frame_slot_mod)
qed

lemma frame_slot_inj: "i < 256 \<Longrightarrow> j < 256 \<Longrightarrow> frame_slot (s + of_nat i) = frame_slot (s + of_nat j) \<Longrightarrow> i = j"
proof (induction i j rule: linorder_wlog)
  case (le i j)
  show ?case
  proof (rule ccontr)
    assume "i \<noteq> j"
    then have "0 < j - i" "j - i < 256" "s + of_nat i + of_nat (j - i) = s + of_nat j" using le by (auto simp: of_nat_diff)
    then show False using frame_slot_distinct [of "j - i" "s + of_nat i"] le(4) by metis
  qed
qed auto

lemma distinct_slots:
  assumes "\<forall>j<length ps. frameSeq (pk_hdr (ps ! j)) = s + of_nat j" "length ps \<le> 256"
  shows "distinct (map slot ps)"
  unfolding distinct_conv_nth using assms frame_slot_inj [of _ _ s]
  by (auto simp: slot_frame_slot)

lemma packet_of_unchanged:
  assumes "unchanged_below r hi st st'" "fr_transaction f = Some r" "msg_start f + msg_count f \<le> hi" "hi \<le> msgCount (s_requests st ! r)"
  shows "packet_of f st' = packet_of f st"
proof -
  have "take (msg_count f) (drop (msg_start f) (contents (s_mem st') (s_requests st' ! r))) =
      take (msg_count f) (drop (msg_start f) (contents (s_mem st) (s_requests st ! r)))"
    by (rule nth_equalityI) (use assms in \<open>auto simp: unchanged_below_def contents_def msgCount_def\<close>)
  then show ?thesis using assms(2) by (simp add: packet_of_alt)
qed

lemma frame_sent_unchanged:
  assumes "frame_sent r now maxp lo hi st p st'" "r < length (s_requests st)" "lo < hi" "hi \<le> msgCount (s_requests st ! r)"
  shows "unchanged_below r lo st st'"
proof -
  have "s_mem st' = s_mem st" "s_requests st' = (s_requests st)[r := relink_tx False lo hi (s_requests st ! r)]"
    using assms(1) unfolding frame_sent_def Let_def by blast+
  then show ?thesis using assms(2-4) by (simp add: unchanged_below_def relink_tx_def nth_relink msgCount_def)
qed

lemma unchanged_below_trans:
  "unchanged_below r lo st st1 \<Longrightarrow> unchanged_below r hi st1 st2 \<Longrightarrow> lo \<le> hi \<Longrightarrow> unchanged_below r lo st st2"
  by (auto simp: unchanged_below_def)

lemma packable_relink: "packable B (relink_tx b lo hi t) \<longleftrightarrow> packable B t"
proof -
  have "sum (need_at (relink_tx b lo hi t)) {j..<j + 5} = sum (need_at t) {j..<j + 5}" if "j + 5 \<le> msgCount t" for j
    by (rule sum.cong) (use that in auto)
  then show ?thesis by (simp add: packable_def)
qed

lemma frame_sent_ready:
  assumes "frame_sent r now maxp lo hi st p st'" "sender_ready r maxp (Suc k) st"
  shows "sender_ready r maxp k st'"
proof -
  let ?i = "frame_slot (m_frameSeq st)"
  have s: "m_freeFrames st' = (m_freeFrames st)[?i := m_freeFrames st' ! ?i]" "m_frameSeq st' = m_frameSeq st + 1"
    "s_requests st' = (s_requests st)[r := relink_tx False lo hi (s_requests st ! r)]"
    using assms(1) unfolding frame_sent_def Let_def by blast+
  have "is_free (m_freeFrames st' ! frame_slot (m_frameSeq st' + of_nat j))" if j: "j < k" for j
  proof -
    have e: "m_frameSeq st' + of_nat j = m_frameSeq st + of_nat (Suc j)" by (simp add: s(2))
    have "frame_slot (m_frameSeq st + of_nat (Suc j)) \<noteq> ?i"
      using assms(2) j by (intro frame_slot_distinct) (auto simp: sender_ready_def)
    then show ?thesis unfolding e using assms(2) j by (subst s(1)) (auto simp: sender_ready_def simp del: of_nat_Suc)
  qed
  then show ?thesis using assms(2) s(3) unfolding sender_ready_def by (subst s(1)) (simp add: packable_relink)
qed

lemma frame_sent_packet:
  assumes "frame_sent r now maxp lo hi st p st'" "lo < hi" "hi \<le> msgCount (s_requests st ! r)" "12 \<le> maxp"
    "sum (need_at (s_requests st ! r)) {lo..<hi} \<le> maxp - 12"
  shows "packet_ok maxp p" "map unlink (pk_msgs p) = take (hi - lo) (drop lo (map unlink (contents (s_mem st) (s_requests st ! r))))"
proof -
  let ?t = "relink_tx False lo hi (s_requests st ! r)"
  have p: "frameFlags (pk_hdr p) AND FRAME_FLAG_HAS_MESSAGES \<noteq> 0" "pk_msgs p = take (hi - lo) (drop lo (contents (s_mem st) ?t))"
    using assms(1) unfolding frame_sent_def Let_def by blast+
  have "sum (need_at ?t) {lo..<hi} = sum (need_at (s_requests st ! r)) {lo..<hi}" by (rule sum.cong) (use assms(3) in auto)
  then have "packet_bytes p \<le> maxp"
    using sum_needs [of hi ?t lo "s_mem st"] assms(3-5) by (simp add: packet_bytes_def p(2) FRAME_HEADER_def)
  then show "packet_ok maxp p" unfolding packet_ok_def p(2) using chained_relink [OF assms(2,3)] p(1) by blast
  have "map unlink (pk_msgs p) = take (hi - lo) (drop lo (map unlink (contents (s_mem st) ?t)))"
    unfolding p(2) by (simp only: take_map drop_map)
  then show "map unlink (pk_msgs p) = take (hi - lo) (drop lo (map unlink (contents (s_mem st) (s_requests st ! r))))"
    unfolding unlink_relink .
qed

lemma posted_Cons:
  assumes sent: "frame_sent r now maxp lo hi st p st1" and ps: "posted r maxp now hi st1 ps st'"
    and rd: "sender_ready r maxp k st" "msgCount (s_requests st ! r) - lo \<le> k" and hi: "lo < hi" "hi \<le> msgCount (s_requests st ! r)"
    and sum: "sum (need_at (s_requests st ! r)) {lo..<hi} \<le> maxp - 12"
  shows "posted r maxp now lo st (p # ps) st'"
proof -
  let ?t = "s_requests st ! r" and ?i = "frame_slot (m_frameSeq st)"
  have r: "r < length (s_requests st)" "12 \<le> maxp" "k \<le> 256" "length (m_freeFrames st) = 256" using rd by (auto simp: sender_ready_def)
  have s: "p = packet_of (m_freeFrames st1 ! ?i) st1" "\<not> is_free (m_freeFrames st1 ! ?i)" "fr_transaction (m_freeFrames st1 ! ?i) = Some r"
    "msg_start (m_freeFrames st1 ! ?i) = lo" "msg_count (m_freeFrames st1 ! ?i) = hi - lo" "send_time (m_freeFrames st1 ! ?i) = now"
    "s_sent st1 = s_sent st @ [p]" "s_mem st1 = s_mem st" "m_frameSeq st1 = m_frameSeq st + 1"
    "m_freeFrames st1 = (m_freeFrames st)[?i := m_freeFrames st1 ! ?i]" "frameSeq (pk_hdr p) = m_frameSeq st"
    "m_acks st = [] \<longrightarrow> ACKCount (pk_hdr p) = 0 \<and> m_acks st1 = []"
    "s_requests st1 = (s_requests st)[r := relink_tx False lo hi ?t]"
    using sent unfolding frame_sent_def Let_def by blast+
  have q: "s_sent st' = s_sent st1 @ ps"
    "map unlink (concat (map pk_msgs ps)) = map unlink (drop hi (contents (s_mem st1) (s_requests st1 ! r)))"
    "length ps \<le> msgCount (s_requests st1 ! r) - hi" "\<forall>j<length ps. frameSeq (pk_hdr (ps ! j)) = m_frameSeq st1 + of_nat j"
    "\<forall>p\<in>set ps. packet_ok maxp p \<and> pending r now st' p \<and> (m_acks st1 = [] \<longrightarrow> ACKCount (pk_hdr p) = 0)"
    "length (m_freeFrames st') = length (m_freeFrames st1)"
    "\<forall>k. k \<notin> slot ` set ps \<longrightarrow> m_freeFrames st' ! k = m_freeFrames st1 ! k" "unchanged_below r hi st1 st'"
    using ps unfolding posted_def by blast+
  have t1: "msgCount (s_requests st1 ! r) = msgCount ?t" using r(1) by (simp add: s(13))
  note pk = frame_sent_packet [OF sent hi r(2) sum]
  have slot_p: "slot p = ?i" by (simp add: slot_frame_slot s(11))
  have len: "length ps < 256" using q(3) t1 hi rd(2) r(3) by linarith
  have new: "?i \<notin> slot ` set ps"
  proof
    assume "?i \<in> slot ` set ps"
    then obtain j where j: "j < length ps" "slot (ps ! j) = ?i" by (auto simp: in_set_conv_nth)
    have "frameSeq (pk_hdr (ps ! j)) = m_frameSeq st + of_nat (Suc j)" using q(4) j(1) s(9) by simp
    then show False using j len frame_slot_distinct [of "Suc j" "m_frameSeq st"] by (simp add: slot_frame_slot del: of_nat_Suc)
  qed
  have kept: "m_freeFrames st' ! ?i = m_freeFrames st1 ! ?i" using q(7) new by blast
  have pend: "pending r now st' p"
    unfolding pending_def slot_p kept Let_def using packet_of_unchanged [OF q(8) s(3)] q(8) s(1-6) hi t1
    by (simp add: unchanged_below_def)
  have c: "map unlink (concat (map pk_msgs (p # ps))) = map unlink (drop lo (contents (s_mem st) ?t))"
  proof -
    have u: "map unlink (contents (s_mem st1) (s_requests st1 ! r)) = map unlink (contents (s_mem st) ?t)"
      using r(1) by (simp add: s(8,13) unlink_relink)
    have "map unlink (concat (map pk_msgs (p # ps))) = take (hi - lo) (drop lo (map unlink (contents (s_mem st) ?t))) @ drop hi (map unlink (contents (s_mem st) ?t))"
      using pk(2) q(2) [unfolded drop_map [symmetric] u] by simp
    also have "\<dots> = drop lo (map unlink (contents (s_mem st) ?t))"
      using hi(1) append_take_drop_id [of "hi - lo" "drop lo (map unlink (contents (s_mem st) ?t))"] by simp
    finally show ?thesis by (simp add: drop_map)
  qed
  show ?thesis
    unfolding posted_def
  proof (intro conjI)
    show "s_sent st' = s_sent st @ p # ps" by (simp add: q(1) s(7))
    show "length (p # ps) \<le> msgCount ?t - lo" using q(3) t1 hi by simp
    show "\<forall>j<length (p # ps). frameSeq (pk_hdr ((p # ps) ! j)) = m_frameSeq st + of_nat j"
      using q(4) s(9,11) by (auto simp: nth_Cons split: nat.splits)
    show "\<forall>p\<in>set (p # ps). packet_ok maxp p \<and> pending r now st' p \<and> (m_acks st = [] \<longrightarrow> ACKCount (pk_hdr p) = 0)"
      using q(5) pk(1) pend s(12) by simp
    show "length (m_freeFrames st') = length (m_freeFrames st)" using q(6) s(10) by (metis length_list_update)
    show "\<forall>k. k \<notin> slot ` set (p # ps) \<longrightarrow> m_freeFrames st' ! k = m_freeFrames st ! k"
      using q(7) s(10) slot_p by (metis image_insert insertCI list.set(2) nth_list_update_neq)
    show "unchanged_below r lo st st'"
      using frame_sent_unchanged [OF sent r(1) hi] q(8) by (rule unchanged_below_trans) (use hi in simp)
  qed (rule c)
qed

lemma post_loop_posts:
  assumes "sender_ready r maxp (n - msg) st" "n = msgCount (s_requests st ! r)" "n < 65536"
  shows "\<exists>st' ps. post_loop r n now maxp msg st = Inr st' \<and> posted r maxp now msg st ps st'"
  using assms
proof (induction "n - msg" arbitrary: msg st rule: less_induct)
  case less
  show ?case
  proof (cases "msg < n")
    case False
    then show ?thesis using less.prems by (intro exI [of _ st] exI [of _ "[]"]) (simp add: post_loop.simps posted_def unchanged_below_def)
  next
    case True
    let ?t = "s_requests st ! r" and ?i = "frame_slot (m_frameSeq st)"
    have rd: "r < length (s_requests st)" "12 \<le> maxp" "packable (maxp - 12) ?t" "?i < length (m_freeFrames st)" "is_free (m_freeFrames st ! ?i)"
      using less.prems(1) True frame_slot_mod [of "m_frameSeq st"] by (auto simp: sender_ready_def dest: spec [of _ 0])
    obtain hi p st1 where one: "post_one r n now maxp msg st = Inr (hi, st1)" and hi: "msg < hi" "hi \<le> n"
      and sum: "sum (need_at ?t) {msg..<hi} \<le> maxp - 12" and sent: "frame_sent r now maxp msg hi st p st1"
      using post_one_sends [OF rd(1) less.prems(2,3) True rd(3,2,4,5)] by blast
    have "sender_ready r maxp (Suc (n - hi)) st" using less.prems(1) hi by (auto simp: sender_ready_def)
    from frame_sent_ready [OF sent this] have rd1: "sender_ready r maxp (n - hi) st1" .
    have n1: "n = msgCount (s_requests st1 ! r)"
      using sent rd(1) less.prems(2) by (simp add: frame_sent_def Let_def)
    obtain st' ps where "post_loop r n now maxp hi st1 = Inr st'" "posted r maxp now hi st1 ps st'"
      using less.hyps [OF diff_less_mono2 [OF hi(1) True] rd1 n1 less.prems(3)] by blast
    moreover have "post_loop r n now maxp msg st = post_loop r n now maxp hi st1"
      using True hi by (subst post_loop.simps) (simp add: one)
    ultimately show ?thesis
      using posted_Cons [OF sent _ less.prems(1)] hi sum less.prems(2) by fastforce
  qed
qed

text \<open>The request is posted from a state in which no message of it is acknowledged.\<close>

definition reset :: "nat \<Rightarrow> services \<Rightarrow> services" where
  "reset r st = upd_request r (\<lambda>t. t\<lparr>m_nMessagesRx := 0\<rparr>) st"

lemma reset_fields:
  "s_sent (reset r st) = s_sent st" "s_mem (reset r st) = s_mem st" "m_frameSeq (reset r st) = m_frameSeq st"
  "m_acks (reset r st) = m_acks st" "m_freeFrames (reset r st) = m_freeFrames st" "length (s_requests (reset r st)) = length (s_requests st)"
  by (simp_all add: reset_def upd_request_def)

lemma reset_request:
  assumes "r < length (s_requests st)"
  shows "s_requests (reset r st) ! r = (s_requests st ! r)\<lparr>m_nMessagesRx := 0\<rparr>" "msgCount (s_requests (reset r st) ! r) = msgCount (s_requests st ! r)"
    "contents mem (s_requests (reset r st) ! r) = contents mem (s_requests st ! r)" "need_at (s_requests (reset r st) ! r) = need_at (s_requests st ! r)"
  using assms by (simp_all add: reset_def upd_request_def msgCount_def contents_def need_at_def fun_eq_iff)

lemma post_posts:
  assumes "sender_ready r maxp (msgCount (s_requests st ! r)) st"
  shows "\<exists>st' ps. post r now maxp st = Inr st' \<and> posted r maxp now 0 (reset r st) ps st'"
proof -
  have r: "r < length (s_requests st)" "msgCount (s_requests st ! r) < 65536" using assms by (simp_all add: sender_ready_def)
  have "sender_ready r maxp (msgCount (s_requests st ! r) - 0) (reset r st)"
    using assms reset_request [OF r(1)] by (simp add: sender_ready_def reset_fields packable_def)
  from post_loop_posts [OF this _ r(2)] show ?thesis
    using reset_request(2) [OF r(1)] by (simp add: post_def reset_def)
qed


end
