(* ===== verification/DatagramAcks.thy ===== *)
theory DatagramAcks
  imports DatagramPost
begin

text \<open>
  Acknowledgement and retransmission: a frame that was posted is either acknowledged, which releases
  it and counts its messages, or it is sent again when its time is over.
\<close>

subsection \<open>Acknowledging messages\<close>

text \<open>The content of a request does not change when messages are acknowledged.\<close>

definition same_content :: "transaction \<Rightarrow> transaction \<Rightarrow> bool" where
  "same_content t t' \<longleftrightarrow> msgCount t' = msgCount t \<and> (\<forall>mem. contents mem t' = contents mem t)"

lemma msg_data_ack [simp]: "msg_data mem (m\<lparr>dg_ack := b\<rparr>) = msg_data mem m"
  by (simp add: msg_data_def split: option.splits)

lemma tx_ACK_step:
  assumes "n < msgCount t"
  shows "\<exists>t'. tx_ACK n t = Inr t' \<and> same_content t t' \<and> m_nMessagesRx t' = Suc (m_nMessagesRx t)"
proof -
  have "map (\<lambda>m. (dg_hdr m, msg_data mem m)) ((m_messages t)[n := (m_messages t ! n)\<lparr>dg_ack := True\<rparr>]) =
      map (\<lambda>m. (dg_hdr m, msg_data mem m)) (m_messages t)" for mem
    using assms by (intro nth_equalityI) (auto simp: nth_list_update msgCount_def)
  then show ?thesis using assms by (simp add: tx_ACK_def same_content_def msgCount_def contents_def)
qed

lemma ack_messages_step:
  assumes "r < length rs" "n + k \<le> msgCount (rs ! r)"
  shows "\<exists>t'. ack_messages (Some r) n k rs = Inr (rs[r := t']) \<and> same_content (rs ! r) t' \<and> m_nMessagesRx t' = m_nMessagesRx (rs ! r) + k"
  using assms
proof (induction k arbitrary: n rs)
  case 0
  then show ?case by (intro exI [of _ "rs ! r"]) (simp add: same_content_def)
next
  case (Suc k)
  obtain t where t: "tx_ACK n (rs ! r) = Inr t" "same_content (rs ! r) t" "m_nMessagesRx t = Suc (m_nMessagesRx (rs ! r))"
    using tx_ACK_step [of n "rs ! r"] Suc.prems by auto
  obtain t' where "ack_messages (Some r) (n + 1) k (rs[r := t]) = Inr (rs[r := t']) \<and> same_content t t' \<and> m_nMessagesRx t' = m_nMessagesRx t + k"
    using Suc.IH [of "rs[r := t]" "n + 1"] Suc.prems t(2) by (auto simp: same_content_def)
  then show ?case using t by (intro exI [of _ t']) (auto simp: same_content_def)
qed

subsection \<open>The frames in flight\<close>

text \<open>
  The state of a sender whose request \<open>r\<close> was posted in the frames \<open>ps\<close>, of which the frames \<open>A\<close>
  have been acknowledged.
\<close>

definition in_flight :: "nat \<Rightarrow> u64 \<Rightarrow> packet list \<Rightarrow> packet set \<Rightarrow> services \<Rightarrow> bool" where
  "in_flight r now ps A st \<longleftrightarrow>
     r < length (s_requests st) \<and> length (m_freeFrames st) = 256 \<and>
     msgCount (s_requests st ! r) = sum_list (map (\<lambda>p. length (pk_msgs p)) ps) \<and>
     m_nMessagesRx (s_requests st ! r) = arrived ps A \<and>
     (\<forall>p\<in>set ps. if p \<in> A then is_free (m_freeFrames st ! slot p) else pending r now st p) \<and>
     (\<forall>k<256. k \<notin> slot ` set ps \<longrightarrow> is_free (m_freeFrames st ! k))"

text \<open>Packets that can be told apart by their slots and carry messages.\<close>

definition packets_ok :: "packet list \<Rightarrow> bool" where
  "packets_ok ps \<longleftrightarrow> distinct (map slot ps) \<and> (\<forall>p\<in>set ps. pk_msgs p \<noteq> [] \<and> frameFlags (pk_hdr p) AND FRAME_FLAG_HAS_MESSAGES \<noteq> 0)"

lemma packets_slot_inj: "packets_ok ps \<Longrightarrow> p \<in> set ps \<Longrightarrow> q \<in> set ps \<Longrightarrow> slot p = slot q \<Longrightarrow> p = q"
  by (auto simp: packets_ok_def distinct_map inj_on_def)

lemma slot_less: "slot p < 256"
  by (simp add: slot_frame_slot frame_slot_mod)

lemma pending_count:
  assumes "pending r now st p"
  shows "msg_count (m_freeFrames st ! slot p) = length (pk_msgs p)" "frameHdr (m_freeFrames st ! slot p) = pk_hdr p"
proof -
  let ?f = "m_freeFrames st ! slot p"
  have p: "fr_transaction ?f = Some r" "p = packet_of ?f st" "msg_start ?f + msg_count ?f \<le> msgCount (s_requests st ! r)"
    using assms by (auto simp: pending_def Let_def)
  have "length (pk_msgs (packet_of ?f st)) = msg_count ?f" using p(1,3) by (simp add: packet_of_alt)
  then show "msg_count ?f = length (pk_msgs p)" using p(2) by simp
  have "pk_hdr (packet_of ?f st) = frameHdr ?f" by (simp add: packet_of_def)
  then show "frameHdr ?f = pk_hdr p" using p(2) by simp
qed

lemma packet_of_same:
  "s_mem st' = s_mem st \<Longrightarrow> s_requests st' = (s_requests st)[r := t] \<Longrightarrow> same_content (s_requests st ! r) t \<Longrightarrow> r < length (s_requests st) \<Longrightarrow>
   fr_transaction f = Some r \<Longrightarrow> packet_of f st' = packet_of f st"
  by (simp add: packet_of_alt same_content_def)

lemma pending_kept:
  assumes "pending r now st p" "m_freeFrames st' ! slot p = m_freeFrames st ! slot p" "s_mem st' = s_mem st"
    "s_requests st' = (s_requests st)[r := t]" "same_content (s_requests st ! r) t" "r < length (s_requests st)"
  shows "pending r now st' p"
  using assms packet_of_same [OF assms(3-6)] by (simp add: pending_def Let_def same_content_def)

text \<open>An acknowledgement releases its frame; a second one for the same frame does nothing.\<close>

lemma release_in_flight:
  assumes ps: "packets_ok ps" and f: "in_flight r now ps A st" and p: "p \<in> set ps" "p \<notin> A"
  shows "\<exists>st'. releaseFrame (unat (frameSeq (pk_hdr p))) st = Inr st' \<and> in_flight r now ps (insert p A) st'"
proof -
  let ?i = "slot p" and ?f = "m_freeFrames st ! slot p"
  have pend: "pending r now st p" and r: "r < length (s_requests st)" and len: "length (m_freeFrames st) = 256"
    using f p by (auto simp: in_flight_def)
  note c = pending_count [OF pend]
  have b: "\<not> is_free ?f" "fr_transaction ?f = Some r" "msg_start ?f + msg_count ?f \<le> msgCount (s_requests st ! r)"
    using pend by (auto simp: pending_def Let_def)
  obtain t where t: "ack_messages (Some r) (msg_start ?f) (msg_count ?f) (s_requests st) = Inr ((s_requests st)[r := t])"
    "same_content (s_requests st ! r) t" "m_nMessagesRx t = m_nMessagesRx (s_requests st ! r) + length (pk_msgs p)"
    using ack_messages_step [OF r b(3)] c(1) by auto
  define st' where "st' = set_frame ?i (?f\<lparr>fr_transaction := None, is_free := True, resends := 0\<rparr>) (st\<lparr>s_requests := (s_requests st)[r := t]\<rparr>)"
  have i: "unat (frameSeq (pk_hdr p)) mod 256 = ?i" by (simp add: slot_frame_slot frame_slot_mod)
  have "releaseFrame (unat (frameSeq (pk_hdr p))) st = Inr st'"
    using b t(1) c(2) by (simp add: releaseFrame_def i Let_def release_def st'_def)
  moreover have "in_flight r now ps (insert p A) st'"
  proof -
    have dist: "distinct ps" using ps by (auto simp: packets_ok_def distinct_map)
    have fr: "m_freeFrames st' = (m_freeFrames st)[?i := ?f\<lparr>fr_transaction := None, is_free := True, resends := 0\<rparr>]"
      "s_requests st' = (s_requests st)[r := t]" "s_mem st' = s_mem st" by (simp_all add: st'_def set_frame_def)
    have "if q \<in> insert p A then is_free (m_freeFrames st' ! slot q) else pending r now st' q" if q: "q \<in> set ps" for q
    proof (cases "q = p")
      case True
      then show ?thesis using fr len slot_less by simp
    next
      case False
      then have ne: "slot q \<noteq> ?i" using packets_slot_inj [OF ps q p(1)] by blast
      then have e: "m_freeFrames st' ! slot q = m_freeFrames st ! slot q" using fr by simp
      show ?thesis using f q False pending_kept [OF _ e fr(3,2) t(2) r] e by (auto simp: in_flight_def)
    qed
    then show ?thesis
      using f r len t arrived_insert [OF dist p] slot_less
      by (auto simp: in_flight_def fr same_content_def nth_list_update)
  qed
  ultimately show ?thesis by blast
qed

lemma release_again:
  assumes "in_flight r now ps A st" "p \<in> set ps" "p \<in> A"
  shows "releaseFrame (unat (frameSeq (pk_hdr p))) st = Inr st"
proof -
  have "is_free (m_freeFrames st ! slot p)" using assms by (auto simp: in_flight_def)
  moreover have "unat (frameSeq (pk_hdr p)) mod 256 = slot p" by (simp add: slot_frame_slot frame_slot_mod)
  ultimately show ?thesis by (simp add: releaseFrame_def Let_def)
qed

text \<open>Acknowledgements of single frames, in the order they come.\<close>

definition acknowledge :: "packet list \<Rightarrow> services \<Rightarrow> dg_error + services" where
  "acknowledge = handle_all (\<lambda>p. ack_frames 1 (unat (frameSeq (pk_hdr p))))"

definition acknowledging :: "nat \<times> u64 \<times> packet list \<Rightarrow> packet list \<Rightarrow> services \<Rightarrow> bool" where
  "acknowledging c as st = (case c of (r, now, ps) \<Rightarrow> packets_ok ps \<and> in_flight r now ps (set as) st)"

interpretation acks: any_order "\<lambda>p. ack_frames 1 (unat (frameSeq (pk_hdr p)))" "\<lambda>(r, now, ps). set ps" acknowledging
proof
  fix c :: "nat \<times> u64 \<times> packet list" and as st p
  obtain r now ps where c: "c = (r, now, ps)" by (cases c)
  assume a: "acknowledging c as st" and p: "p \<in> (case c of (r, now, ps) \<Rightarrow> set ps)"
  show "\<exists>st'. ack_frames 1 (unat (frameSeq (pk_hdr p))) st = Inr st' \<and> acknowledging c (as @ [p]) st'" if "p \<in> set as"
    using release_again [of r now ps "set as" st p] a p that by (simp add: acknowledging_def c insert_absorb)
  show "\<exists>st'. ack_frames 1 (unat (frameSeq (pk_hdr p))) st = Inr st' \<and> acknowledging c (as @ [p]) st'" if "p \<notin> set as"
    using release_in_flight [of ps r now "set as" st p] a p that by (auto simp: acknowledging_def c)
qed

lemma acknowledge_in_flight:
  assumes "packets_ok ps" "in_flight r now ps {} st" "set as \<subseteq> set ps"
  shows "\<exists>st'. acknowledge as st = Inr st' \<and> in_flight r now ps (set as) st'"
  using acks.handled [of "(r, now, ps)" st as] assms by (auto simp: acknowledging_def acknowledge_def)

subsection \<open>Retransmission\<close>

lemma flag_set_again:
  assumes "(x :: u8) AND FRAME_FLAG_HAS_MESSAGES \<noteq> 0"
  shows "x OR FRAME_FLAG_HAS_MESSAGES = x"
proof -
  have "bit x 0"
    using assms unfolding FRAME_FLAG_HAS_MESSAGES_def and_one_eq by (metis bit_0 even_iff_mod_2_eq_zero)
  then show ?thesis unfolding FRAME_FLAG_HAS_MESSAGES_def by (intro bit_eqI) (auto simp: bit_simps)
qed

lemma check_frame_resends:
  assumes ps: "packets_ok ps" "p \<in> set ps" and pend: "pending r now st p" and len: "length (m_freeFrames st) = 256"
    and t: "time - now > time_out" "time > now"
  shows "\<exists>g. check_frame time time_out (slot p) st =
    Inr (st\<lparr>m_freeFrames := (m_freeFrames st)[slot p := g], s_sent := s_sent st @ [p]\<rparr>)"
proof -
  let ?f = "m_freeFrames st ! slot p"
  note c = pending_count [OF pend]
  have b: "\<not> is_free ?f" "packet_of ?f st = p" "send_time ?f = now" "fr_transaction ?f = Some r"
    using pend by (auto simp: pending_def Let_def)
  have n: "msg_count ?f \<noteq> 0" "frameFlags (frameHdr ?f) OR FRAME_FLAG_HAS_MESSAGES = frameFlags (frameHdr ?f)"
    using ps c flag_set_again by (auto simp: packets_ok_def)
  let ?g = "?f\<lparr>resends := resends ?f + 1, send_time := time\<rparr>"
  have pk: "packet_of ?g st = p" using b(2,4) by (simp add: packet_of_alt)
  show ?thesis
    using b t n len pk slot_less [of p] by (intro exI [of _ ?g]) (simp add: check_frame_def Let_def post_frame_def set_frame_def)
qed

lemma pending_other:
  assumes "pending r now st q" "slot q \<noteq> i"
  shows "pending r now (st\<lparr>m_freeFrames := (m_freeFrames st)[i := g], s_sent := ss\<rparr>) q"
  using assms by (simp add: pending_def Let_def)

text \<open>What the loop over the frames sends: the frames in flight among those it visits.\<close>

definition resend_ready :: "nat \<Rightarrow> u64 \<Rightarrow> packet set \<Rightarrow> nat list \<Rightarrow> services \<Rightarrow> bool" where
  "resend_ready r now P is st \<longleftrightarrow> length (m_freeFrames st) = 256 \<and> (\<forall>p\<in>P. slot p \<in> set is \<longrightarrow> pending r now st p) \<and>
     (\<forall>i\<in>set is. i \<notin> slot ` P \<longrightarrow> is_free (m_freeFrames st ! i))"

lemma resend_ready_next:
  assumes "resend_ready r now P (i # is) st" "i \<notin> set is"
  shows "resend_ready r now P is (st\<lparr>m_freeFrames := (m_freeFrames st)[i := g], s_sent := ss\<rparr>)"
  unfolding resend_ready_def
proof (intro conjI ballI impI)
  fix p
  assume "p \<in> P" "slot p \<in> set is"
  then have "pending r now st p" "slot p \<noteq> i" using assms by (auto simp: resend_ready_def)
  then show "pending r now (st\<lparr>m_freeFrames := (m_freeFrames st)[i := g], s_sent := ss\<rparr>) p" by (rule pending_other)
next
  fix k
  assume "k \<in> set is" "k \<notin> slot ` P"
  then have "is_free (m_freeFrames st ! k)" "k \<noteq> i" using assms by (auto simp: resend_ready_def)
  then show "is_free (m_freeFrames (st\<lparr>m_freeFrames := (m_freeFrames st)[i := g], s_sent := ss\<rparr>) ! k)" by simp
qed (use assms in \<open>simp add: resend_ready_def\<close>)

lemma check_frames_resends:
  assumes ps: "packets_ok ps" "P \<subseteq> set ps" and t: "time - now > time_out" "time > now"
  shows "distinct is \<Longrightarrow> resend_ready r now P is st \<Longrightarrow>
    \<exists>st' qs. check_frames time time_out is st = Inr st' \<and> s_sent st' = s_sent st @ qs \<and> distinct (map slot qs) \<and>
      set qs = {p \<in> P. slot p \<in> set is}"
proof (induction "is" arbitrary: st)
  case (Cons i "is")
  show ?case
  proof (cases "i \<in> slot ` P")
    case True
    then obtain p where p: "p \<in> P" "i = slot p" by blast
    have pend: "pending r now st p" "length (m_freeFrames st) = 256" using Cons.prems(2) p by (auto simp: resend_ready_def)
    have "p \<in> set ps" using p ps by blast
    from check_frame_resends [OF ps(1) this pend t] obtain g where
      g: "check_frame time time_out i st = Inr (st\<lparr>m_freeFrames := (m_freeFrames st)[i := g], s_sent := s_sent st @ [p]\<rparr>)"
      unfolding p(2) [symmetric] by blast
    let ?st = "st\<lparr>m_freeFrames := (m_freeFrames st)[i := g], s_sent := s_sent st @ [p]\<rparr>"
    have d: "distinct is" "i \<notin> set is" using Cons.prems(1) by simp_all
    from Cons.IH [OF d(1) resend_ready_next [OF Cons.prems(2) d(2), of "s_sent st @ [p]" g]] obtain st' qs where
      q: "check_frames time time_out is ?st = Inr st'" "s_sent st' = s_sent ?st @ qs"
      "distinct (map slot qs)" "set qs = {p \<in> P. slot p \<in> set is}" by blast
    have one: "q = p" if "q \<in> P" "slot q = i" for q
      using packets_slot_inj [OF ps(1), of q p] that p ps(2) by blast
    have "set (p # qs) = {p \<in> P. slot p \<in> set (i # is)}"
    proof (rule set_eqI)
      show "q \<in> set (p # qs) \<longleftrightarrow> q \<in> {p \<in> P. slot p \<in> set (i # is)}" for q using q(4) one [of q] p by auto
    qed
    moreover have "slot p \<notin> slot ` set qs" unfolding p(2) [symmetric] q(4) using d(2) by blast
    then have "distinct (map slot (p # qs))" using q(3) by simp
    moreover have "check_frames time time_out (i # is) st = Inr st'" using q(1) g by simp
    moreover have "s_sent st' = s_sent st @ p # qs" using q(2) by simp
    ultimately show ?thesis by blast
  next
    case False
    then have "is_free (m_freeFrames st ! i)" using Cons.prems(2) by (simp add: resend_ready_def)
    then have c: "check_frames time time_out (i # is) st = check_frames time time_out is st" by (simp add: check_frame_def Let_def)
    have "resend_ready r now P is st" using Cons.prems(2) by (simp add: resend_ready_def)
    moreover have e: "{p \<in> P. slot p \<in> set (i # is)} = {p \<in> P. slot p \<in> set is}" using False by auto
    moreover have "distinct is" using Cons.prems(1) by simp
    ultimately show ?thesis unfolding c e by (intro Cons.IH)
  qed
qed simp

lemma checkAcks_resends:
  assumes ps: "packets_ok ps" and f: "in_flight r now ps A st" and t: "time - now > time_out" "time > now"
  shows "\<exists>st' qs. checkAcks time time_out st = Inr st' \<and> s_sent st' = s_sent st @ qs \<and> distinct qs \<and> set qs = set ps - A"
proof -
  have "is_free (m_freeFrames st ! i)" if i: "i < 256" "i \<notin> slot ` (set ps - A)" for i
  proof (cases "i \<in> slot ` set ps")
    case True
    then obtain p where "p \<in> set ps" "i = slot p" by blast
    moreover have "p \<in> A" using calculation i(2) by blast
    ultimately show ?thesis using f by (auto simp: in_flight_def)
  next
    case False
    then show ?thesis using f i(1) by (simp add: in_flight_def)
  qed
  then have "resend_ready r now (set ps - A) [0..<256] st" using f by (auto simp: resend_ready_def in_flight_def)
  from check_frames_resends [OF ps _ t _ this] obtain st' qs where q: "check_frames time time_out [0..<256] st = Inr st'"
    "s_sent st' = s_sent st @ qs" "distinct (map slot qs)" "set qs = {p \<in> set ps - A. slot p \<in> set [0..<256]}" by auto
  have "length (m_freeFrames st) = 256" using f by (simp add: in_flight_def)
  moreover have "distinct qs" using q(3) by (simp add: distinct_map)
  moreover have "set qs = set ps - A" using q(4) slot_less by auto
  ultimately show ?thesis using q(1,2) unfolding checkAcks_def by metis
qed

subsection \<open>A request that was posted\<close>

lemma posted_in_flight:
  assumes "posted r maxp now 0 (reset r st) ps st'" "r < length (s_requests st)" "length (m_freeFrames st) = 256"
    "\<forall>f\<in>set (m_freeFrames st). is_free f" "msgCount (s_requests st ! r) \<le> 256"
  shows "packets_ok ps" "in_flight r now ps {} st'"
proof -
  have n: "msgCount (s_requests (reset r st) ! r) = msgCount (s_requests st ! r)" using reset_request(2) [OF assms(2)] .
  have "distinct (map slot ps)" using assms(1,5) n by (intro distinct_slots) (auto simp: posted_def)
  moreover have "\<forall>p\<in>set ps. packet_ok maxp p" using assms(1) by (simp add: posted_def)
  ultimately show "packets_ok ps" unfolding packets_ok_def packet_ok_def by (metis chained.simps(1))
  have "length (map unlink (concat (map pk_msgs ps))) = length (map unlink (contents (s_mem (reset r st)) (s_requests (reset r st) ! r)))"
    using assms(1) by (simp add: posted_def)
  then have "msgCount (s_requests st ! r) = sum_list (map (\<lambda>p. length (pk_msgs p)) ps)"
    using n by (simp add: length_concat o_def)
  moreover have "msgCount (s_requests st' ! r) = msgCount (s_requests st ! r)" "r < length (s_requests st')" "m_nMessagesRx (s_requests st' ! r) = 0"
    using assms(1,2) n reset_request(1) [OF assms(2)] by (simp_all add: posted_def unchanged_below_def reset_fields)
  moreover have "is_free (m_freeFrames st' ! k)" if "k < 256" "k \<notin> slot ` set ps" for k
    using assms(1,3,4) that by (simp add: posted_def reset_fields)
  ultimately show "in_flight r now ps {} st'"
    using assms(1,3) unfolding in_flight_def by (simp add: posted_def reset_fields arrived_def)
qed

text \<open>
  Claim C5: a request is posted by a sender whose frames are all free, and some of the frames are
  acknowledged, in any order and any number of times. Then the request is complete if and only if
  every frame was acknowledged; and when their time is over, the check for acknowledgements sends
  exactly the frames again that were not acknowledged, each once, with the same content.
\<close>
theorem frames_acknowledged_or_resent:
  assumes "sender_ready r maxp (msgCount (s_requests st ! r)) st" "\<forall>f\<in>set (m_freeFrames st). is_free f"
  shows "\<exists>st1 ps. post r now maxp st = Inr st1 \<and> s_sent st1 = s_sent st @ ps \<and>
    (\<forall>as time time_out. set as \<subseteq> set ps \<longrightarrow> time - now > time_out \<longrightarrow> time > now \<longrightarrow>
      (\<exists>st2 st3 qs. acknowledge as st1 = Inr st2 \<and> (getStatus (s_requests st2 ! r) = CompleteSuccess \<longleftrightarrow> set as = set ps) \<and>
        checkAcks time time_out st2 = Inr st3 \<and> s_sent st3 = s_sent st2 @ qs \<and> distinct qs \<and> set qs = set ps - set as))"
proof -
  have r: "r < length (s_requests st)" "length (m_freeFrames st) = 256" "msgCount (s_requests st ! r) \<le> 256"
    using assms(1) by (simp_all add: sender_ready_def)
  obtain st1 ps where p: "post r now maxp st = Inr st1" "posted r maxp now 0 (reset r st) ps st1"
    using post_posts [OF assms(1)] by blast
  note ok = posted_in_flight [OF p(2) r(1,2) assms(2) r(3)]
  have "\<exists>st2 st3 qs. acknowledge as st1 = Inr st2 \<and> (getStatus (s_requests st2 ! r) = CompleteSuccess \<longleftrightarrow> set as = set ps) \<and>
        checkAcks time time_out st2 = Inr st3 \<and> s_sent st3 = s_sent st2 @ qs \<and> distinct qs \<and> set qs = set ps - set as"
    if as: "set as \<subseteq> set ps" and t: "time - now > time_out" "time > now" for as time time_out
  proof -
    obtain st2 where st2: "acknowledge as st1 = Inr st2" "in_flight r now ps (set as) st2"
      using acknowledge_in_flight [OF ok as] by auto
    have "getStatus (s_requests st2 ! r) = CompleteSuccess \<longleftrightarrow> set ps \<subseteq> set as"
      using st2(2) arrived_all [of ps "set as"] ok(1) by (simp add: getStatus_def complete_def in_flight_def packets_ok_def)
    moreover have "set ps \<subseteq> set as \<longleftrightarrow> set as = set ps" using as by blast
    ultimately show ?thesis using st2(1) checkAcks_resends [OF ok(1) st2(2) t] by blast
  qed
  moreover have "s_sent st1 = s_sent st @ ps" using p(2) by (simp add: posted_def reset_fields)
  ultimately show ?thesis using p(1) by blast
qed

end
