(* ===== verification/DatagramTransfer.thy ===== *)
theory DatagramTransfer
  imports DatagramAcks
begin

text \<open>
  A transfer from end to end: data and a flag are copied into a request, the request is posted, and
  the frames reach the other end in any order, some of them several times.
\<close>

subsection \<open>The pieces of a copy\<close>

definition piece_len :: "nat \<Rightarrow> nat \<Rightarrow> nat \<Rightarrow> nat" where
  "piece_len maxpl nbytes j = min maxpl (nbytes - j * maxpl)"

definition piece :: "nat \<Rightarrow> nat \<Rightarrow> nat \<Rightarrow> nat \<Rightarrow> nat \<Rightarrow> nat \<Rightarrow> dg_message" where
  "piece maxpl src dst nbytes c j =
     \<lparr>dg_hdr = \<lparr>transactionId = 0, flagAddr = 0, flagValue = 0, numMsgsInTransaction = 0,
        msgSequence = of_nat (c + j + 1), dataAddr = of_nat (dst + j * maxpl), dataLen = of_nat (piece_len maxpl nbytes j),
        msgType = DATA, nextMsg = False\<rparr>,
      src_adr = Some (src + j * maxpl), dg_ack = False\<rparr>"

definition piece_count :: "nat \<Rightarrow> nat \<Rightarrow> nat" where
  "piece_count maxpl nbytes = (nbytes + maxpl - 1) div maxpl"

lemma piece_count_0 [simp]: "0 < maxpl \<Longrightarrow> piece_count maxpl 0 = 0"
  by (simp add: piece_count_def)

lemma piece_count_step:
  assumes "0 < maxpl" "0 < nbytes"
  shows "piece_count maxpl nbytes = Suc (piece_count maxpl (nbytes - min maxpl nbytes))"
proof -
  have e: "nbytes + maxpl - 1 = (nbytes - 1) + maxpl" using assms by simp
  have "(nbytes + maxpl - 1) div maxpl = Suc ((nbytes - 1) div maxpl)"
    unfolding e using assms(1) div_add_self2 [of maxpl "nbytes - 1"] by (metis Suc_eq_plus1 not_gr_zero)
  then show ?thesis using assms by (cases "nbytes \<le> maxpl") (auto simp: piece_count_def min_def)
qed

lemma piece_in_range: "0 < maxpl \<Longrightarrow> j < piece_count maxpl nbytes \<longleftrightarrow> j * maxpl < nbytes"
proof -
  assume m: "0 < maxpl"
  have "j < piece_count maxpl nbytes \<longleftrightarrow> Suc j * maxpl \<le> nbytes + maxpl - 1"
    unfolding piece_count_def Suc_le_eq [symmetric] using m by (simp add: less_eq_div_iff_mult_less_eq)
  also have "\<dots> \<longleftrightarrow> j * maxpl < nbytes" using m by auto
  finally show ?thesis .
qed

lemma piece_shift:
  "maxpl < nbytes \<or> j = 0 \<Longrightarrow> piece maxpl (src + maxpl) (dst + maxpl) (nbytes - maxpl) (Suc c) j = piece maxpl src dst nbytes c (Suc j)"
  by (simp add: piece_def piece_len_def algebra_simps)

lemma copy_pieces_messages:
  assumes "0 < maxpl"
  shows "copy_pieces maxpl src dst nbytes t =
    t\<lparr>m_messages := m_messages t @ map (piece maxpl src dst nbytes (length (m_messages t))) [0..<piece_count maxpl nbytes]\<rparr>"
proof (induction nbytes arbitrary: src dst t rule: less_induct)
  case (less nbytes)
  show ?case
  proof (cases "nbytes = 0")
    case True
    then show ?thesis using assms by (simp add: copy_pieces.simps)
  next
    case False
    let ?len = "min maxpl nbytes" and ?c = "length (m_messages t)"
    let ?t = "tx_add (Some src) dst ?len t"
    have e: "copy_pieces maxpl src dst nbytes t = copy_pieces maxpl (src + ?len) (dst + ?len) (nbytes - ?len) ?t"
      using False assms by (subst copy_pieces.simps) (simp add: Let_def min_def)
    have t: "m_messages ?t = m_messages t @ [piece maxpl src dst nbytes ?c 0]" by (simp add: tx_add_def piece_def piece_len_def)
    have k: "piece_count maxpl nbytes = Suc (piece_count maxpl (nbytes - ?len))" using piece_count_step [OF assms] False by simp
    have m: "map (piece maxpl (src + ?len) (dst + ?len) (nbytes - ?len) (Suc ?c)) [0..<piece_count maxpl (nbytes - ?len)]
        = map (\<lambda>j. piece maxpl src dst nbytes ?c (Suc j)) [0..<piece_count maxpl (nbytes - ?len)]"
    proof (cases "nbytes \<le> maxpl")
      case True
      then show ?thesis using assms by simp
    next
      case F: False
      then show ?thesis using assms by (auto simp: min_def intro!: piece_shift)
    qed
    have "copy_pieces maxpl (src + ?len) (dst + ?len) (nbytes - ?len) ?t = ?t\<lparr>m_messages := m_messages ?t @
        map (piece maxpl (src + ?len) (dst + ?len) (nbytes - ?len) (length (m_messages ?t))) [0..<piece_count maxpl (nbytes - ?len)]\<rparr>"
      by (rule less) (use False assms in simp)
    also have "\<dots> = t\<lparr>m_messages := m_messages t @ map (piece maxpl src dst nbytes ?c) [0..<piece_count maxpl nbytes]\<rparr>"
      unfolding t k using m by (simp add: upt_conv_Cons map_Suc_upt [symmetric] tx_add_def o_def del: upt_Suc)
    finally show ?thesis unfolding e .
  qed
qed

lemma piece_len_full: "Suc j < piece_count maxpl nbytes \<Longrightarrow> 0 < maxpl \<Longrightarrow> piece_len maxpl nbytes j = maxpl"
  using piece_in_range [of maxpl "Suc j" nbytes] by (simp add: piece_len_def)

lemma piece_len_bounds:
  assumes "j < piece_count maxpl nbytes" "0 < maxpl"
  shows "piece_len maxpl nbytes j \<le> maxpl" "j * maxpl + piece_len maxpl nbytes j \<le> nbytes"
  using assms piece_in_range [of maxpl j nbytes] by (auto simp: piece_len_def)

lemma pieces_apart:
  assumes "i < j" "0 < maxpl"
  shows "i * maxpl + piece_len maxpl nbytes i \<le> j * maxpl"
proof -
  have "Suc i * maxpl \<le> j * maxpl" using assms by (intro mult_le_mono1) simp
  then show ?thesis by (simp add: piece_len_def)
qed

subsection \<open>The request of a transfer\<close>

text \<open>The client copies the data and then the flag.\<close>

definition make_request :: "bool \<Rightarrow> nat \<Rightarrow> octets \<Rightarrow> nat \<Rightarrow> nat \<Rightarrow> nat \<Rightarrow> nat \<Rightarrow> nat \<Rightarrow> u32 \<Rightarrow> dg_error + transaction \<times> u32" where
  "make_request le maxp mem src dst nbytes fsrc fdst g =
     sbind (copy le maxp mem src dst nbytes False g DatagramTransaction) (\<lambda>(t, g). copy le maxp mem fsrc fdst 4 True g t)"

text \<open>The payload has room for data whose padding fits, and the transfer needs several messages, none of four bytes.\<close>

definition transfer_fits :: "nat \<Rightarrow> nat \<Rightarrow> bool" where
  "transfer_fits maxp nbytes \<longleftrightarrow> 42 < maxp \<and> maxp < 65536 \<and> maxp mod 8 \<noteq> 3 \<and> maxp - 42 < nbytes \<and>
     piece_count (maxp - 42) nbytes \<le> 256 \<and> (\<forall>j<piece_count (maxp - 42) nbytes. piece_len (maxp - 42) nbytes j \<noteq> 4)"

definition flag_word :: "bool \<Rightarrow> octets \<Rightarrow> nat \<Rightarrow> u32" where
  "flag_word le mem fsrc = of_nat (mem_value le (area mem fsrc 4))"

definition transfer_of :: "bool \<Rightarrow> nat \<Rightarrow> octets \<Rightarrow> nat \<Rightarrow> nat \<Rightarrow> nat \<Rightarrow> u32 \<Rightarrow> transfer" where
  "transfer_of le maxp mem nbytes fsrc fdst tid =
     \<lparr>tf_id = tid, tf_count = piece_count (maxp - 42) nbytes, tf_flagAddr = of_nat fdst, tf_flagValue = flag_word le mem fsrc\<rparr>"

definition request_message :: "bool \<Rightarrow> nat \<Rightarrow> octets \<Rightarrow> nat \<Rightarrow> nat \<Rightarrow> nat \<Rightarrow> nat \<Rightarrow> nat \<Rightarrow> u32 \<Rightarrow> nat \<Rightarrow> dg_message" where
  "request_message le maxp mem src dst nbytes fsrc fdst tid j =
     (let m = piece (maxp - 42) src dst nbytes 0 j in
      m\<lparr>dg_hdr := (dg_hdr m)\<lparr>transactionId := tid, numMsgsInTransaction := of_nat (piece_count (maxp - 42) nbytes),
          flagAddr := of_nat fdst, flagValue := flag_word le mem fsrc\<rparr>\<rparr>)"

lemma transfer_fits_count: "transfer_fits maxp nbytes \<Longrightarrow> 2 \<le> piece_count (maxp - 42) nbytes"
  using piece_in_range [of "maxp - 42" 1 nbytes] by (simp add: transfer_fits_def)

lemma make_request_messages:
  assumes fits: "transfer_fits maxp nbytes" and "fsrc + 4 \<le> length mem"
  shows "\<exists>t. make_request le maxp mem src dst nbytes fsrc fdst g = Inr (t, g + 1) \<and>
    m_messages t = map (request_message le maxp mem src dst nbytes fsrc fdst (g + 1)) [0..<piece_count (maxp - 42) nbytes]"
proof -
  let ?pl = "maxp - 42" and ?t = "DatagramTransaction\<lparr>m_messages := [], m_tid := g + 1, m_init := True\<rparr>"
  have pl: "0 < ?pl" "size_sub maxp (MSG_HEADER + FRAME_HEADER + 8) = ?pl"
    using fits by (simp_all add: transfer_fits_def size_sub_def MSG_HEADER_def FRAME_HEADER_def)
  define t1 where "t1 = ?t\<lparr>m_messages := map (piece ?pl src dst nbytes 0) [0..<piece_count ?pl nbytes]\<rparr>"
  have "copy le maxp mem src dst nbytes False g DatagramTransaction = Inr (copy_pieces ?pl src dst nbytes ?t, g + 1)"
    unfolding copy_def using pl by (simp add: Let_def DatagramTransaction_def tx_init_def)
  also have "\<dots> = Inr (t1, g + 1)" using copy_pieces_messages [OF pl(1), of src dst nbytes ?t] by (simp add: t1_def)
  finally have c1: "copy le maxp mem src dst nbytes False g DatagramTransaction = Inr (t1, g + 1)" .
  have c2: "copy le maxp mem fsrc fdst 4 True (g + 1) t1 = Inr (tx_fini (flag_word le mem fsrc) fdst t1, g + 1)"
    unfolding copy_def using assms(2) by (simp add: t1_def flag_word_def area_def)
  have "make_request le maxp mem src dst nbytes fsrc fdst g = Inr (tx_fini (flag_word le mem fsrc) fdst t1, g + 1)"
    by (simp add: make_request_def c1 c2)
  moreover have "m_messages (tx_fini (flag_word le mem fsrc) fdst t1) =
      map (request_message le maxp mem src dst nbytes fsrc fdst (g + 1)) [0..<piece_count ?pl nbytes]"
    using transfer_fits_count [OF fits] by (simp add: tx_fini_def t1_def msgCount_def request_message_def Let_def)
  ultimately show ?thesis by blast
qed

definition request_header :: "bool \<Rightarrow> nat \<Rightarrow> octets \<Rightarrow> nat \<Rightarrow> nat \<Rightarrow> nat \<Rightarrow> nat \<Rightarrow> u32 \<Rightarrow> nat \<Rightarrow> msg_header" where
  "request_header le maxp mem dst nbytes fsrc fdst tid j =
     \<lparr>transactionId = tid, flagAddr = of_nat fdst, flagValue = flag_word le mem fsrc,
      numMsgsInTransaction = of_nat (piece_count (maxp - 42) nbytes), msgSequence = of_nat (j + 1),
      dataAddr = of_nat (dst + j * (maxp - 42)), dataLen = of_nat (piece_len (maxp - 42) nbytes j), msgType = DATA, nextMsg = False\<rparr>"

lemma request_message_header:
  "dg_hdr (request_message le maxp mem src dst nbytes fsrc fdst tid j) = request_header le maxp mem dst nbytes fsrc fdst tid j"
  "src_adr (request_message le maxp mem src dst nbytes fsrc fdst tid j) = Some (src + j * (maxp - 42))"
  by (simp_all add: request_message_def request_header_def piece_def)

lemma piece_len_word:
  assumes "transfer_fits maxp nbytes" "j < piece_count (maxp - 42) nbytes"
  shows "unat (of_nat (piece_len (maxp - 42) nbytes j) :: u16) = piece_len (maxp - 42) nbytes j"
proof -
  have "piece_len (maxp - 42) nbytes j < 2 ^ 16" using assms piece_len_bounds(1) [of j "maxp - 42" nbytes] by (auto simp: transfer_fits_def)
  then show ?thesis by (simp add: unsigned_of_nat take_bit_nat_eq_self)
qed

lemma padded_fits:
  assumes "(q :: nat) mod 8 \<noteq> 1" "n \<le> q"
  shows "(n + 7) div 8 * 8 \<le> q + 6"
proof -
  have "(n + 7) div 8 * 8 \<le> (q + 7) div 8 * 8" using assms(2) by (intro mult_le_mono1 div_le_mono) simp
  moreover have "(q + 7) mod 8 \<noteq> 0" using assms(1) by presburger
  then have "(q + 7) div 8 * 8 \<le> q + 6" using div_mult_mod_eq [of "q + 7" 8] by linarith
  ultimately show ?thesis by linarith
qed

lemma padded_ge: "n \<le> (n + 7) div 8 * (8 :: nat)"
  using div_mult_mod_eq [of "n + 7" 8] mod_less_divisor [of 8 "n + 7"] by linarith

lemma request_need:
  assumes "transfer_fits maxp nbytes" "j < piece_count (maxp - 42) nbytes"
    and "m_messages t = map (request_message le maxp mem src dst nbytes fsrc fdst tid) [0..<piece_count (maxp - 42) nbytes]"
  shows "need_at t j = 24 + (piece_len (maxp - 42) nbytes j + 7) div 8 * 8"
  unfolding need_at_def assms(3) msg_need_def MSG_HEADER_def
  using assms(2) piece_len_word [OF assms(1,2)] by (simp add: request_message_header request_header_def)

lemma request_packable:
  assumes fits: "transfer_fits maxp nbytes"
    and t: "m_messages t = map (request_message le maxp mem src dst nbytes fsrc fdst tid) [0..<piece_count (maxp - 42) nbytes]"
  shows "packable (maxp - 12) t"
proof -
  define pl k where "pl = maxp - 42" and "k = piece_count (maxp - 42) nbytes"
  have k: "msgCount t = k" by (simp add: msgCount_def t k_def)
  have m: "maxp = pl + 42" "0 < pl" "maxp mod 8 \<noteq> 3" using fits by (auto simp: transfer_fits_def pl_def)
  have pl8: "pl mod 8 \<noteq> 1" using m(1,3) by presburger
  note need = request_need [OF fits _ t, folded pl_def k_def]
  have one: "need_at t j \<le> maxp - 12" if "j < k" for j
    using padded_fits [OF pl8 piece_len_bounds(1) [OF that [unfolded k_def, folded pl_def] m(2)]] need [OF that] m(1) by linarith
  have five: "maxp - 12 < sum (need_at t) {j..<j + 5}" if j: "j + 5 \<le> k" for j
  proof -
    have full: "24 + pl \<le> need_at t i" if "Suc i < k" for i
      using need [of i] piece_len_full [of i pl nbytes] that m(2) padded_ge [of pl] by (simp add: k_def flip: pl_def)
    have "need_at t j + need_at t (Suc j) = sum (need_at t) {j, Suc j}" by simp
    also have "\<dots> \<le> sum (need_at t) {j..<j + 5}" by (rule sum_mono2) auto
    finally show ?thesis using full [of j] full [of "Suc j"] j m(1) by linarith
  qed
  show ?thesis unfolding packable_def k using one five by blast
qed

lemma request_contents:
  assumes fits: "transfer_fits maxp nbytes"
    and t: "m_messages t = map (request_message le maxp mem src dst nbytes fsrc fdst tid) [0..<piece_count (maxp - 42) nbytes]"
  shows "contents mem t = map (\<lambda>j. (request_header le maxp mem dst nbytes fsrc fdst tid j,
      area mem (src + j * (maxp - 42)) (piece_len (maxp - 42) nbytes j))) [0..<piece_count (maxp - 42) nbytes]"
  using piece_len_word [OF fits]
  by (auto simp: contents_def t request_message_header msg_data_def area_def request_header_def)

subsection \<open>What the receiver needs\<close>

text \<open>None of the next \<open>k\<close> numbers of the sender has been received.\<close>

definition receiver_ready :: "nat \<Rightarrow> u16 \<Rightarrow> services \<Rightarrow> bool" where
  "receiver_ready k s st \<longleftrightarrow> length (m_frameSeqRecord st) = 256 \<and>
     (\<forall>j<k. fr_id (m_frameSeqRecord st ! frame_slot (s + of_nat j)) \<noteq> ucast (s + of_nat j))"

lemma receiver_ready_fresh:
  assumes "receiver_ready k s st" "j < k" "frameSeq (pk_hdr p) = s + of_nat j"
  shows "fresh st p"
proof -
  have "frame_slot (s + of_nat j) < 256" by (simp add: frame_slot_mod)
  then show ?thesis using assms by (simp add: receiver_ready_def fresh_def slot_frame_slot)
qed

text \<open>The link of a message does not matter for what is stored.\<close>

lemma unlink_simps:
  "msg_of x n (unlink m) = msg_of x n m" "dataAddr (fst (unlink m)) = dataAddr (fst m)" "snd (unlink m) = snd m"
  by (simp_all add: unlink_def msg_of_def split: prod.splits)

text \<open>The areas of a transfer: the data and the flag fit the memory and do not overlap.\<close>

definition target_ok :: "nat \<Rightarrow> nat \<Rightarrow> nat \<Rightarrow> nat \<Rightarrow> bool" where
  "target_ok msize dst nbytes fdst \<longleftrightarrow> dst + nbytes \<le> msize \<and> fdst + 4 \<le> msize \<and> msize \<le> 2 ^ 32 \<and> apart dst nbytes fdst 4"

lemma target_words:
  assumes "target_ok msize dst nbytes fdst"
  shows "unat (of_nat fdst :: u32) = fdst" "a < nbytes \<Longrightarrow> unat (of_nat (dst + a) :: u32) = dst + a"
proof -
  have less: "fdst < 2 ^ 32" "a < nbytes \<Longrightarrow> dst + a < 2 ^ 32" using assms unfolding target_ok_def by linarith+
  show "unat (of_nat fdst :: u32) = fdst" using less(1) by (simp add: unsigned_of_nat take_bit_nat_eq_self)
  show "unat (of_nat (dst + a) :: u32) = dst + a" if "a < nbytes"
    unfolding unsigned_of_nat using less(2) [OF that] by (simp add: take_bit_nat_eq_self)
qed

text \<open>The messages in the frames of the request, by their position.\<close>

definition carries :: "bool \<Rightarrow> nat \<Rightarrow> octets \<Rightarrow> nat \<Rightarrow> nat \<Rightarrow> nat \<Rightarrow> nat \<Rightarrow> nat \<Rightarrow> u32 \<Rightarrow> (msg_header \<times> octets) list \<Rightarrow> bool" where
  "carries le maxp mem src dst nbytes fsrc fdst tid cs \<longleftrightarrow>
     length cs = piece_count (maxp - 42) nbytes \<and>
     (\<forall>j<length cs. unlink (cs ! j) = (request_header le maxp mem dst nbytes fsrc fdst tid j,
        area mem (src + j * (maxp - 42)) (piece_len (maxp - 42) nbytes j)))"

lemma carries_message:
  assumes c: "carries le maxp mem src dst nbytes fsrc fdst tid cs" "j < length cs" and fits: "transfer_fits maxp nbytes"
    and mem: "src + nbytes \<le> length mem" and tgt: "target_ok msize dst nbytes fdst"
  shows "unat (dataAddr (fst (cs ! j))) = dst + j * (maxp - 42)" "length (snd (cs ! j)) = piece_len (maxp - 42) nbytes j"
    "snd (cs ! j) = area mem (src + j * (maxp - 42)) (piece_len (maxp - 42) nbytes j)"
    "msg_of (transfer_of le maxp mem nbytes fsrc fdst tid) msize (cs ! j)"
proof -
  let ?pl = "maxp - 42" and ?m = "cs ! j"
  have j: "j < piece_count ?pl nbytes" "0 < ?pl" using c fits by (auto simp: carries_def transfer_fits_def)
  note b = piece_len_bounds [OF j] and w = piece_len_word [OF fits j(1)]
  have u: "unlink ?m = (request_header le maxp mem dst nbytes fsrc fdst tid j, area mem (src + j * ?pl) (piece_len ?pl nbytes j))"
    using c by (simp add: carries_def)
  have lt: "j * ?pl < nbytes" using piece_in_range [OF j(2)] j(1) by blast
  have ad: "unat (dataAddr (fst (unlink ?m))) = dst + j * ?pl"
    unfolding u using target_words(2) [OF tgt lt] by (simp add: request_header_def)
  then show addr: "unat (dataAddr (fst ?m)) = dst + j * ?pl" unfolding unlink_simps .
  show d: "snd ?m = area mem (src + j * ?pl) (piece_len ?pl nbytes j)" using u unlink_simps(3) [of ?m] by simp
  then show len: "length (snd ?m) = piece_len ?pl nbytes j" using b mem by (simp add: area_def)
  have "piece_len ?pl nbytes j \<noteq> 4" using fits j(1) by (simp add: transfer_fits_def)
  then have "unat (of_nat (piece_len ?pl nbytes j) :: u16) \<noteq> unat (4 :: u16)" unfolding w by simp
  then have n4: "(of_nat (piece_len ?pl nbytes j) :: u16) \<noteq> 4" by metis
  show "msg_of (transfer_of le maxp mem nbytes fsrc fdst tid) msize ?m"
    using n4 len d w addr b(2) tgt ad unfolding unlink_simps(1) [symmetric, of _ _ ?m] u
    by (simp add: msg_of_def transfer_of_def request_header_def target_ok_def)
qed

lemma carries_areas:
  assumes c: "carries le maxp mem src dst nbytes fsrc fdst tid cs" and fits: "transfer_fits maxp nbytes"
    and mem: "src + nbytes \<le> length mem" and tgt: "target_ok msize dst nbytes fdst"
  shows "areas_ok (transfer_of le maxp mem nbytes fsrc fdst tid) (set cs)"
proof -
  let ?pl = "maxp - 42"
  have pl: "0 < ?pl" using fits by (simp add: transfer_fits_def)
  have k: "length cs = piece_count ?pl nbytes" using c by (simp add: carries_def)
  note m = carries_message [OF c _ fits mem tgt]
  have "msgs_apart (cs ! i) (cs ! j)" if "i < length cs" "j < length cs" "i \<noteq> j" for i j
    using pieces_apart [OF _ pl, of i j nbytes] pieces_apart [OF _ pl, of j i nbytes] that
    unfolding msgs_apart_def apart_def m(1,2) [OF that(1)] m(1,2) [OF that(2)] by (cases i j rule: linorder_cases) auto
  then have 1: "\<forall>m\<in>set cs. \<forall>n\<in>set cs. m \<noteq> n \<longrightarrow> msgs_apart m n" by (metis in_set_conv_nth)
  have "apart (unat (dataAddr (fst (cs ! j)))) (length (snd (cs ! j))) fdst 4" if "j < length cs" for j
    using piece_len_bounds(2) [of j ?pl nbytes] that pl k tgt unfolding m(1,2) [OF that] by (auto simp: apart_def target_ok_def)
  then have 2: "\<forall>m\<in>set cs. apart (unat (dataAddr (fst m))) (length (snd m)) fdst 4" by (metis in_set_conv_nth)
  show ?thesis using 1 2 target_words(1) [OF tgt] by (simp add: areas_ok_def transfer_of_def)
qed

text \<open>The areas of all messages together hold the data.\<close>

lemma carries_data:
  assumes c: "carries le maxp mem src dst nbytes fsrc fdst tid cs" and fits: "transfer_fits maxp nbytes"
    and mem: "src + nbytes \<le> length mem" and tgt: "target_ok (length mem') dst nbytes fdst"
    and d: "\<forall>m\<in>set cs. area mem' (unat (dataAddr (fst m))) (length (snd m)) = snd m"
  shows "area mem' dst nbytes = area mem src nbytes"
proof (rule nth_equalityI)
  let ?pl = "maxp - 42"
  have pl: "0 < ?pl" using fits by (simp add: transfer_fits_def)
  have bounds: "dst + nbytes \<le> length mem'" using tgt by (simp add: target_ok_def)
  show "length (area mem' dst nbytes) = length (area mem src nbytes)" using mem bounds by (simp add: area_def)
  fix a
  assume "a < length (area mem' dst nbytes)"
  then have a: "a < nbytes" by (simp add: area_def)
  define j i where "j = a div ?pl" and "i = a mod ?pl"
  have ji: "a = j * ?pl + i" unfolding j_def i_def by (rule div_mult_mod_eq [symmetric])
  have "j * ?pl < nbytes" using ji a by linarith
  then have "j < piece_count ?pl nbytes" using piece_in_range [OF pl] by blast
  then have j: "j < length cs" using c by (simp add: carries_def)
  note m = carries_message [OF c j fits mem tgt]
  have il: "i < piece_len ?pl nbytes j" using ji a pl mod_less_divisor [of ?pl a] by (simp add: piece_len_def i_def)
  have "area mem' (dst + j * ?pl) (piece_len ?pl nbytes j) = area mem (src + j * ?pl) (piece_len ?pl nbytes j)"
    using d j m(1-3) by (metis nth_mem)
  then have "area mem' (dst + j * ?pl) (piece_len ?pl nbytes j) ! i = area mem (src + j * ?pl) (piece_len ?pl nbytes j) ! i" by simp
  then show "area mem' dst nbytes ! a = area mem src nbytes ! a"
    using il a ji mem bounds by (simp add: area_def add.assoc)
qed

subsection \<open>From end to end\<close>

definition idle_sender :: "nat \<Rightarrow> services \<Rightarrow> bool" where
  "idle_sender k st \<longleftrightarrow> m_acks st = [] \<and> length (m_freeFrames st) = 256 \<and>
     (\<forall>j<k. is_free (m_freeFrames st ! frame_slot (m_frameSeq st + of_nat j)))"

definition idle_receiver :: "nat \<Rightarrow> u16 \<Rightarrow> services \<Rightarrow> bool" where
  "idle_receiver k s st \<longleftrightarrow> receiver_ready k s st \<and> m_txRecord st \<noteq> [] \<and> \<not> in_use (hd (m_txRecord st)) \<and> unat (m_frames_in_play st) < 511"

lemma posted_carries:
  assumes p: "posted r maxp now 0 st0 ps st'" and fits: "transfer_fits maxp nbytes"
    and t: "m_messages (s_requests st0 ! r) = map (request_message le maxp (s_mem st0) src dst nbytes fsrc fdst tid) [0..<piece_count (maxp - 42) nbytes]"
  shows "carries le maxp (s_mem st0) src dst nbytes fsrc fdst tid (concat (map pk_msgs ps))"
proof -
  let ?cs = "concat (map pk_msgs ps)" and ?c = "contents (s_mem st0) (s_requests st0 ! r)"
  have m: "map unlink ?cs = map unlink ?c" using p by (simp add: posted_def)
  note c = request_contents [OF fits t]
  have len: "length ?cs = piece_count (maxp - 42) nbytes" using arg_cong [OF m, of length] c by simp
  have "unlink (?cs ! j) = unlink (?c ! j)" if "j < length ?cs" for j
    using m that len c by (metis (no_types, lifting) length_map nth_map)
  then show ?thesis using len unfolding carries_def c by (auto simp: unlink_def request_header_def)
qed

lemma posted_frames_ok:
  assumes p: "posted r maxp now 0 st0 ps st'" and acks: "m_acks st0 = []" and n: "msgCount (s_requests st0 ! r) \<le> 256"
    and c: "\<forall>m\<in>set (concat (map pk_msgs ps)). msg_of x msize m" "tf_count x = length (concat (map pk_msgs ps))"
  shows "frames_ok x msize ps"
proof -
  have "distinct (map slot ps)" using p n by (intro distinct_slots) (auto simp: posted_def)
  then show ?thesis using p acks c unfolding frames_ok_def posted_def packet_ok_def by (auto simp: length_concat o_def)
qed

lemma flag_word_repr:
  assumes "fsrc + 4 \<le> length mem"
  shows "mem_repr le 4 (unat (flag_word le mem fsrc)) = area mem fsrc 4"
proof -
  let ?bs = "area mem fsrc 4"
  have len: "length ?bs = 4" using assms by (simp add: area_def)
  have "mem_value le ?bs < 256 ^ length (if le then ?bs else rev ?bs)" unfolding mem_value_def by (rule le_val_bound)
  then have "unat (flag_word le mem fsrc) = mem_value le ?bs"
    using len by (simp add: flag_word_def unsigned_of_nat take_bit_nat_eq_self split: if_splits)
  then show ?thesis
    using le_bytes_le_val [of ?bs] le_bytes_le_val [of "rev ?bs"] len by (simp add: mem_repr_def mem_value_def)
qed

lemma request_sender_ready:
  assumes "transfer_fits maxp nbytes"
    and t: "m_messages (s_requests st ! r) = map (request_message le maxp (s_mem st) src dst nbytes fsrc fdst tid) [0..<piece_count (maxp - 42) nbytes]"
    and "idle_sender (piece_count (maxp - 42) nbytes) st" "r < length (s_requests st)"
  shows "sender_ready r maxp (msgCount (s_requests st ! r)) st"
proof -
  have "msgCount (s_requests st ! r) = piece_count (maxp - 42) nbytes" by (simp add: msgCount_def t)
  then show ?thesis using assms request_packable [OF assms(1) t] by (simp add: sender_ready_def idle_sender_def transfer_fits_def)
qed

text \<open>The memory of the receiver in the end; \<open>all\<close> tells whether every frame arrived.\<close>

definition arrived_memory :: "bool \<Rightarrow> services \<Rightarrow> nat \<Rightarrow> nat \<Rightarrow> services \<Rightarrow> nat \<Rightarrow> nat \<Rightarrow> nat \<Rightarrow> bool \<Rightarrow> services \<Rightarrow> bool" where
  "arrived_memory le st src fsrc rst dst nbytes fdst all rst' \<longleftrightarrow>
     (all \<longrightarrow> area (s_mem rst') dst nbytes = area (s_mem st) src nbytes \<and> area (s_mem rst') fdst 4 = area (s_mem st) fsrc 4) \<and>
     (\<not> all \<longrightarrow> area (s_mem rst') fdst 4 = area (s_mem rst) fdst 4) \<and>
     (\<forall>a<length (s_mem rst). \<not> (dst \<le> a \<and> a < dst + nbytes) \<longrightarrow> \<not> (fdst \<le> a \<and> a < fdst + 4) \<longrightarrow> s_mem rst' ! a = s_mem rst ! a)"

lemma carries_outside:
  assumes c: "carries le maxp mem src dst nbytes fsrc fdst tid cs" and fits: "transfer_fits maxp nbytes"
    and mem: "src + nbytes \<le> length mem" and tgt: "target_ok msize dst nbytes fdst"
    and a: "\<not> (dst \<le> a \<and> a < dst + nbytes)" and m: "m \<in> set cs"
  shows "outside a m"
proof -
  obtain j where j: "j < length cs" "m = cs ! j" using m by (auto simp: in_set_conv_nth)
  have "j * (maxp - 42) + piece_len (maxp - 42) nbytes j \<le> nbytes"
    by (rule piece_len_bounds(2)) (use j c fits in \<open>auto simp: carries_def transfer_fits_def\<close>)
  then show ?thesis
    using a unfolding outside_def j(2) carries_message(1,2) [OF c j(1) fits mem tgt] by linarith
qed

lemma posted_arrives:
  assumes fits: "transfer_fits maxp nbytes"
    and mem: "src + nbytes \<le> length (s_mem st)" "fsrc + 4 \<le> length (s_mem st)"
    and t: "m_messages (s_requests st ! r) = map (request_message le maxp (s_mem st) src dst nbytes fsrc fdst tid) [0..<piece_count (maxp - 42) nbytes]"
    and r: "r < length (s_requests st)" and tid: "tid AND MAX_TRANSACTION_HISTORY = 0"
    and snd: "idle_sender (piece_count (maxp - 42) nbytes) st" and rcv: "idle_receiver (piece_count (maxp - 42) nbytes) (m_frameSeq st) rst"
    and tgt: "target_ok (length (s_mem rst)) dst nbytes fdst"
    and p: "posted r maxp now 0 (reset r st) ps st'" and ds: "set ds \<subseteq> set ps"
  shows "\<exists>rst'. deliver le ds rst = Inr rst' \<and> arrived_memory le st src fsrc rst dst nbytes fdst (set ps \<subseteq> set ds) rst'"
proof -
  let ?x = "transfer_of le maxp (s_mem st) nbytes fsrc fdst tid" and ?k = "piece_count (maxp - 42) nbytes"
  let ?cs = "concat (map pk_msgs ps)"
  have k: "?k \<le> 256" "2 \<le> ?k" using fits transfer_fits_count [OF fits] by (simp_all add: transfer_fits_def)
  have n: "msgCount (s_requests (reset r st) ! r) = ?k" using reset_request(2) [OF r] t by (simp add: msgCount_def)
  have c: "carries le maxp (s_mem st) src dst nbytes fsrc fdst tid ?cs"
    using posted_carries [OF p fits, of le src dst fsrc fdst tid] reset_request(1) [OF r] t by (simp add: reset_fields)
  have in_cs: "msgs_in ps = set ?cs" by (auto simp: msgs_in_def)
  have "\<forall>m\<in>set ?cs. msg_of ?x (length (s_mem rst)) m"
    using carries_message(4) [OF c _ fits mem(1) tgt] by (metis in_set_conv_nth)
  moreover have "tf_count ?x = length ?cs" using c by (simp add: carries_def transfer_of_def)
  ultimately have f: "frames_ok ?x (length (s_mem rst)) ps"
    using snd n k(1) by (intro posted_frames_ok [OF p]) (auto simp: reset_fields idle_sender_def)
  have fl: "unat (of_nat fdst :: u32) = fdst" by (rule target_words(1) [OF tgt])
  have x: "transfer_ok ?x (length (s_mem rst))" using tid k tgt fl by (simp add: transfer_ok_def transfer_of_def target_ok_def)
  have ar: "areas_ok ?x (msgs_in ps)" unfolding in_cs by (rule carries_areas [OF c fits mem(1) tgt])
  have ph: "phase ?x (m_frames_in_play rst) 0 rst" using rcv by (simp add: phase_def idle_receiver_def)
  have fr: "\<forall>p\<in>set ps. fresh rst p"
  proof
    fix q
    assume "q \<in> set ps"
    then obtain j where j: "j < length ps" "q = ps ! j" by (auto simp: in_set_conv_nth)
    then have "frameSeq (pk_hdr q) = m_frameSeq st + of_nat j" "j < ?k" using p n by (auto simp: posted_def reset_fields)
    then show "fresh rst q" using rcv receiver_ready_fresh [of ?k "m_frameSeq st" rst j q] by (simp add: idle_receiver_def)
  qed
  obtain rst' where d: "deliver le ds rst = Inr rst'" "delivered le ?x ps rst ds rst'"
    using deliver_delivered [OF f x ar ph _ fr ds] rcv by (auto simp: idle_receiver_def)
  have tgt': "target_ok (length (s_mem rst')) dst nbytes fdst" using d(2) tgt by (simp add: delivered_def)
  have flag: "area (s_mem rst') fdst 4 = (if set ps \<subseteq> set ds then area (s_mem st) fsrc 4 else area (s_mem rst) fdst 4)"
    using d(2) fl flag_word_repr [OF mem(2), of le] by (simp add: delivered_def transfer_of_def)
  have data: "area (s_mem rst') dst nbytes = area (s_mem st) src nbytes" if "set ps \<subseteq> set ds"
  proof -
    have "msgs_in ds = set ?cs" using that ds in_cs by (auto simp: msgs_in_def)
    then show ?thesis using d(2) by (intro carries_data [OF c fits mem(1) tgt']) (simp add: delivered_def)
  qed
  have "s_mem rst' ! a = s_mem rst ! a"
    if a: "a < length (s_mem rst)" "\<not> (dst \<le> a \<and> a < dst + nbytes)" "\<not> (fdst \<le> a \<and> a < fdst + 4)" for a
  proof -
    have "msgs_in ds \<subseteq> set ?cs" using ds by (auto simp: msgs_in_def)
    then have "\<forall>m\<in>msgs_in ds. outside a m" using carries_outside [OF c fits mem(1) tgt a(2)] by blast
    moreover have "a < fdst \<or> fdst + 4 \<le> a" using a(3) by linarith
    moreover have "unat (tf_flagAddr ?x) = fdst" using fl by (simp add: transfer_of_def)
    ultimately show ?thesis using d(2) a(1) unfolding delivered_def by metis
  qed
  then have "arrived_memory le st src fsrc rst dst nbytes fdst (set ps \<subseteq> set ds) rst'"
    unfolding arrived_memory_def using flag data by simp
  then show ?thesis using d(1) by blast
qed


subsection \<open>An example\<close>

lemma initial_frames:
  "length (m_freeFrames (DatagramXferServices src tgt mem now c)) = 256"
  "is_free (m_freeFrames (DatagramXferServices src tgt mem now c) ! frame_slot s)"
  using frame_slot_mod [of s] by (simp_all add: DatagramXferServices_def FRAME_SEQ_MASK_def Frame_def)

lemma initial_receiver:
  assumes "\<forall>j<k. s + of_nat j \<noteq> 0" "unat c < 511"
  shows "idle_receiver k s (DatagramXferServices src tgt mem now c)"
proof -
  have "fr_id (m_frameSeqRecord (DatagramXferServices src tgt mem now c) ! frame_slot q) \<noteq> ucast q" if "q \<noteq> 0" for q
    using that frame_slot_mod [of q] ucast_seq_eq_0 [of q] by (simp add: DatagramXferServices_def MAX_FRAME_HISTORY_def)
  then show ?thesis
    using assms by (simp add: idle_receiver_def receiver_ready_def)
      (simp add: DatagramXferServices_def MAX_FRAME_HISTORY_def MAX_TRANSACTION_HISTORY_def hd_replicate)
qed

definition example_memory :: octets where
  "example_memory = [1, 2, 3, 4, 5, 6, 7, 8, 9, 10, 11, 12, 13, 14, 0, 0, 1, 0, 0, 0]"

definition example_request :: transaction where
  "example_request = (case make_request True 50 example_memory 0 0 14 16 16 0 of Inl e \<Rightarrow> DatagramTransaction | Inr (t, g) \<Rightarrow> t)"

definition example_sender :: services where
  "example_sender = (DatagramXferServices 1 2 example_memory 0 0)\<lparr>s_requests := [example_request]\<rparr>"

abbreviation "example_target \<equiv> DatagramXferServices 2 1 (replicate 20 0) 0 0"

lemma example_fits: "piece_count 8 14 = 2" "transfer_fits 50 14"
  by (auto simp: transfer_fits_def piece_count_def piece_len_def less_2_cases_iff)

lemma example_made: "make_request True 50 example_memory 0 0 14 16 16 0 = Inr (example_request, 1)"
proof -
  have "16 + 4 \<le> length example_memory" by (simp add: example_memory_def)
  then show ?thesis
    using make_request_messages [OF example_fits(2), of 16 example_memory True 0 0 16 0] by (auto simp: example_request_def)
qed

lemma example_sender_idle: "idle_sender k example_sender"
  using initial_frames [of 1 2 example_memory 0 0] by (simp add: idle_sender_def example_sender_def) (simp add: DatagramXferServices_def)

lemma example_sender_fields: "s_mem example_sender = example_memory" "s_requests example_sender = [example_request]"
  "m_frameSeq example_sender = 1" "s_sent example_sender = []"
  by (simp_all add: example_sender_def DatagramXferServices_def)


lemma example_sender_ready: "sender_ready 0 50 (msgCount (s_requests example_sender ! 0)) example_sender"
proof -
  have mem: "16 + 4 \<le> length example_memory" by (simp add: example_memory_def)
  obtain t where t: "make_request True 50 example_memory 0 0 14 16 16 0 = Inr (t, 0 + 1)"
    "m_messages t = map (request_message True 50 example_memory 0 0 14 16 16 (0 + 1)) [0..<piece_count (50 - 42) 14]"
    using make_request_messages [OF example_fits(2) mem, of True 0 0 16 0] by blast
  have "t = example_request" using t(1) example_made by simp
  then show ?thesis
    using t(2) by (intro request_sender_ready [OF example_fits(2) _ example_sender_idle, of 0 True 0 0 16 16 1]) (simp_all add: example_sender_fields)
qed

lemma example_sender_free: "\<forall>f\<in>set (m_freeFrames example_sender). is_free f"
  by (simp add: example_sender_def DatagramXferServices_def Frame_def)


theorem frames_acknowledged_or_resent_witness:
  "\<exists>st1 st2 st3. post 0 0 50 example_sender = Inr st1 \<and> acknowledge (s_sent st1) st1 = Inr st2 \<and> getStatus (s_requests st2 ! 0) = CompleteSuccess \<and>
     checkAcks 100 10 st1 = Inr st3 \<and> set (s_sent st3) = set (s_sent st1)"
proof -
  have t: "(100 :: u64) - 0 > 10" "(100 :: u64) > 0" by simp_all
  obtain st1 ps where p: "post 0 0 50 example_sender = Inr st1" "s_sent st1 = s_sent example_sender @ ps"
    and all: "\<forall>as time time_out. set as \<subseteq> set ps \<longrightarrow> time - 0 > time_out \<longrightarrow> time > 0 \<longrightarrow>
      (\<exists>st2 st3 qs. acknowledge as st1 = Inr st2 \<and> (getStatus (s_requests st2 ! 0) = CompleteSuccess \<longleftrightarrow> set as = set ps) \<and>
        checkAcks time time_out st2 = Inr st3 \<and> s_sent st3 = s_sent st2 @ qs \<and> distinct qs \<and> set qs = set ps - set as)"
    using frames_acknowledged_or_resent [OF example_sender_ready example_sender_free, of 0] by (elim exE conjE) (rule that)
  have s: "s_sent st1 = ps" using p(2) by (simp add: example_sender_fields)
  obtain st2 where "acknowledge ps st1 = Inr st2" "getStatus (s_requests st2 ! 0) = CompleteSuccess"
    using all [rule_format, OF subset_refl t] by blast
  moreover have "set [] \<subseteq> set ps" by simp
  from all [rule_format, OF this t] obtain st3 qs where "checkAcks 100 10 st1 = Inr st3" "s_sent st3 = s_sent st1 @ qs" "set qs = set ps" by (auto simp: acknowledge_def)
  ultimately show ?thesis using p(1) s by auto
qed

end
