(* ===== verification/DatagramFaults.thy ===== *)
theory DatagramFaults
  imports DatagramTransfer
begin

text \<open>
  What the datagram layer does outside of the conditions under which its transfers arrive: each lemma
  is the behaviour of the code on inputs that it does not exclude.
\<close>

text \<open>
  The loop over the pending acknowledgements continues at the second one after a match. With the
  frames 5, 6, 9 and once more 6 pending it acknowledges the frames 5, 6 and 7 and forgets frame 9.
\<close>
lemma piggyback_acknowledges_unreceived:
  assumes "m_acks st = [5, 6, 9, 6]"
  shows "ACKStart (fst (piggyback now h st)) = 5" "ACKCount (fst (piggyback now h st)) = 3" "m_acks (snd (piggyback now h st)) = [6]"
proof -
  have "ack_loop 5 0 [6, 9, 6] 1 = ([6], 3)" by (simp add: ack_loop.simps)
  then show "ACKStart (fst (piggyback now h st)) = 5" "ACKCount (fst (piggyback now h st)) = 3" "m_acks (snd (piggyback now h st)) = [6]"
    using assms by (simp_all add: piggyback_def)
qed

text \<open>A request of a single message is marked as one without data, and its data is not stored.\<close>
lemma single_message_marked:
  "msgCount t = 1 \<Longrightarrow> numMsgsInTransaction (dg_hdr (m_messages (tx_fini flag dst t) ! 0)) = 0"
  by (simp add: tx_fini_def msgCount_def)

lemma unmarked_data_dropped: "numMsgsInTransaction h = 0 \<Longrightarrow> store_data h data k st = Inr st"
  by (simp add: store_data_def)

text \<open>Data of four bytes is taken for a flag and is not stored, but it is counted.\<close>
lemma four_bytes_dropped:
  assumes "dataLen h = 4" "numMsgsInTransaction h \<noteq> 0"
  shows "\<exists>st'. store_data h data k st = Inr st' \<and> s_mem st' = s_mem st"
  using assms by (simp add: store_data_def set_tx_record_def Let_def)

text \<open>
  The index of the record of a transaction is 0 or 512: transactions share the first record, or the
  access is behind the end of the array.
\<close>
lemma and_power: "(w :: u32) AND 2 ^ k = (if bit w k then 2 ^ k else 0)"
  by (rule bit_word_eqI) (auto simp: bit_simps)

lemma record_index: "unat (transactionId h AND MAX_TRANSACTION_HISTORY) \<in> {0, 512}"
proof -
  have "transactionId h AND MAX_TRANSACTION_HISTORY = (if bit (transactionId h) 9 then 512 else 0)"
    unfolding MAX_TRANSACTION_HISTORY_def using and_power [of "transactionId h" 9] by simp
  then show ?thesis by simp
qed

lemma record_outside:
  assumes "transactionId h AND MAX_TRANSACTION_HISTORY \<noteq> 0" "length (m_txRecord st) = unat MAX_TRANSACTION_HISTORY"
  shows "process_message le (h, data) st = Inl OutOfBounds"
proof -
  have "unat (transactionId h AND MAX_TRANSACTION_HISTORY) = 512" using record_index [of h] assms(1) by (auto simp: unsigned_eq_0_iff)
  then show ?thesis using assms(2) by (simp add: process_message_def MAX_TRANSACTION_HISTORY_def)
qed

text \<open>The fifth message of a frame is written behind the end of its vector.\<close>
lemma fifth_message_outside:
  assumes "msg < n" "iovlen (m_freeFrames st ! i) = 10" "0 < left"
    "msg_need (dg_hdr (m_messages (s_requests st ! r) ! msg)) \<le> left"
  shows "fill_frame r n i msg left st = Inl OutOfBounds"
  using assms by (subst fill_frame.simps) (simp add: Let_def MAX_MSGS_def)

text \<open>
  For a payload of 3 modulo 8 the padded data of a full piece does not fit a frame: an assertion fails
  on a request that starts with it.
\<close>
lemma padded_piece_too_long:
  assumes "42 < maxp" "maxp mod 8 = 3" "unat (dataLen h) = maxp - 42"
  shows "maxp - 12 < msg_need h"
proof -
  obtain q where q: "maxp = q + 42" using assms(1) by (metis less_imp_add_positive add.commute)
  have "q mod 8 = 1" using assms(2) unfolding q by presburger
  then obtain c where c: "q = 8 * c + 1" by (metis div_mult_mod_eq mult.commute)
  then show ?thesis using assms(3) q by (simp add: msg_need_def MSG_HEADER_def)
qed

lemma first_message_too_long:
  assumes "0 < n" "0 < left" "left < msg_need (dg_hdr (m_messages (s_requests st ! r) ! 0))"
  shows "fill_frame r n i 0 left st = Inl (AssertFailed ''msg > 0'')"
  using assms by (subst fill_frame.simps) (simp add: Let_def)

text \<open>
  A later message that does not fit leaves the frame without messages; such a frame is sent again
  and again.
\<close>
lemma later_message_too_long:
  assumes "0 < msg" "msg < n" "left = 0 \<or> left < msg_need (dg_hdr (m_messages (s_requests st ! r) ! msg))"
  shows "\<exists>st'. fill_frame r n i msg left st = Inr (msg, st')"
  using assms by (subst fill_frame.simps) (auto simp: Let_def)

end
