(* ===== verification/MemFile.thy ===== *)
theory MemFile
  imports UtilMisc
begin

text \<open>
  In-memory files, \<^verbatim>\<open>src/core/local/util/memfs/src/OcpiUtilStaticMemFile.cxx\<close>: a file is one array or
  a sequence of arrays, and the stream buffer that reads it hands out the arrays one after the other
  as its get area. The stream is shown to read the sequence as if it were one array.
\<close>

subsection \<open>Files\<close>

text \<open>
  A pointer is the array it points at the start of, \<open>None\<close> for the null pointer. A count of type
  \<^verbatim>\<open>unsigned long long\<close> is a natural number below \<open>2 ^ 64\<close>; \<open>ull\<close> and \<open>ull_minus\<close> are the wrap-around of its sums and differences.
\<close>

definition ull :: "nat \<Rightarrow> nat" where
  "ull n = n mod 2 ^ 64"

definition ull_minus :: "nat \<Rightarrow> nat \<Rightarrow> nat" where
  "ull_minus m n = nat ((int m - int n) mod 2 ^ 64)"

record MemFileChunk =
  chunk_ptr :: "octets option"
  chunk_size :: nat

record StaticMemFile =
  mf_size :: nat
  mf_lastModified :: int
  mf_ptr :: "octets option"
  mf_chunks :: "MemFileChunk list"

text \<open>Reading or stepping outside of an array is undefined.\<close>

datatype mem_fault = OutOfArray

definition StaticMemFile_array :: "octets \<Rightarrow> nat \<Rightarrow> int \<Rightarrow> StaticMemFile" where
  "StaticMemFile_array ptr n modified = \<lparr>mf_size = n, mf_lastModified = modified, mf_ptr = Some ptr, mf_chunks = []\<rparr>"

definition StaticMemFile_chunks :: "MemFileChunk list \<Rightarrow> int \<Rightarrow> StaticMemFile" where
  "StaticMemFile_chunks chunks modified = \<lparr>mf_size = 0, mf_lastModified = modified, mf_ptr = None, mf_chunks = chunks\<rparr>"

fun sum_sizes :: "nat \<Rightarrow> MemFileChunk list \<Rightarrow> mem_fault + nat" where
  "sum_sizes res [] = Inl OutOfArray"
| "sum_sizes res (c # cs) = (if chunk_size c \<noteq> 0 then sum_sizes (ull (res + chunk_size c)) cs else Inr res)"

definition StaticMemFile_size :: "StaticMemFile \<Rightarrow> mem_fault + nat" where
  "StaticMemFile_size f = (if mf_ptr f \<noteq> None then Inr (mf_size f) else sum_sizes 0 (mf_chunks f))"

definition StaticMemFile_lastModified :: "StaticMemFile \<Rightarrow> int" where
  "StaticMemFile_lastModified f = mf_lastModified f"

subsection \<open>The stream buffer\<close>

text \<open>
  The get area is an array and the offsets of \<^verbatim>\<open>gptr\<close> and \<^verbatim>\<open>egptr\<close> from \<^verbatim>\<open>eback\<close>, which is always the
  start of the array; \<^verbatim>\<open>m_chunk\<close> is an index of the array \<^verbatim>\<open>m_chunks\<close>.
\<close>

record MemIStreamBuf =
  m_ptr :: "octets option"
  m_size :: nat
  m_chunk :: nat
  m_chunks :: "MemFileChunk list"
  m_firstByteInChunk :: nat
  eback :: "octets option"
  gptr :: nat
  egptr :: nat

abbreviation eof :: int where
  "eof \<equiv> - 1"

definition setg :: "octets option \<Rightarrow> nat \<Rightarrow> nat \<Rightarrow> MemIStreamBuf \<Rightarrow> MemIStreamBuf" where
  "setg p g e s = s\<lparr>eback := p, gptr := g, egptr := e\<rparr>"

definition byte_at :: "octets option \<Rightarrow> nat \<Rightarrow> mem_fault + u8" where
  "byte_at p i = (case p of Some b \<Rightarrow> (if i < length b then Inr (b ! i) else Inl OutOfArray) | None \<Rightarrow> Inl OutOfArray)"

definition bytes_at :: "octets option \<Rightarrow> nat \<Rightarrow> nat \<Rightarrow> mem_fault + octets" where
  "bytes_at p i n =
     (case p of Some b \<Rightarrow> (if i + n \<le> length b then Inr (take n (drop i b)) else Inl OutOfArray) | None \<Rightarrow> Inl OutOfArray)"

definition chunk_at :: "MemIStreamBuf \<Rightarrow> mem_fault + MemFileChunk" where
  "chunk_at s = (if m_chunk s < length (m_chunks s) then Inr (m_chunks s ! m_chunk s) else Inl OutOfArray)"

definition buf_of_array :: "octets \<Rightarrow> nat \<Rightarrow> MemIStreamBuf" where
  "buf_of_array ptr n =
     \<lparr>m_ptr = Some ptr, m_size = n, m_chunk = 0, m_chunks = [], m_firstByteInChunk = 0, eback = Some ptr, gptr = 0, egptr = n\<rparr>"

definition buf_of_chunks :: "MemFileChunk list \<Rightarrow> mem_fault + MemIStreamBuf" where
  "buf_of_chunks chunks =
     (case chunks of [] \<Rightarrow> Inl OutOfArray
      | c # _ \<Rightarrow> Inr \<lparr>m_ptr = None, m_size = 0, m_chunk = 0, m_chunks = chunks, m_firstByteInChunk = 0,
                    eback = chunk_ptr c, gptr = 0, egptr = chunk_size c\<rparr>)"

definition file_openReadonly :: "StaticMemFile \<Rightarrow> mem_fault + MemIStreamBuf" where
  "file_openReadonly f = (case mf_ptr f of Some p \<Rightarrow> Inr (buf_of_array p (mf_size f)) | None \<Rightarrow> buf_of_chunks (mf_chunks f))"

text \<open>When the end of the file is met, the get area stays as it was.\<close>

definition underflow_common :: "bool \<Rightarrow> MemIStreamBuf \<Rightarrow> mem_fault + (int \<times> MemIStreamBuf)" where
  "underflow_common bump s =
     (let curpos = gptr s; after = (\<lambda>p. if bump then p + 1 else p) in
      if m_ptr s \<noteq> None then
        (if curpos \<ge> m_size s then Inr (eof, s)
         else sbind (byte_at (m_ptr s) curpos) (\<lambda>res. Inr (uint res, setg (m_ptr s) (after curpos) (m_size s) s)))
      else sbind (chunk_at s) (\<lambda>c.
        let (s1, pos) =
          (if curpos \<ge> chunk_size c \<and> chunk_size c \<noteq> 0
           then (s\<lparr>m_firstByteInChunk := ull (m_firstByteInChunk s + chunk_size c), m_chunk := m_chunk s + 1\<rparr>, 0)
           else (s, curpos))
        in sbind (chunk_at s1) (\<lambda>c1.
          if curpos \<ge> chunk_size c \<and> chunk_size c1 = 0 then Inr (eof, s1)
          else sbind (byte_at (chunk_ptr c1) pos) (\<lambda>res.
            Inr (uint res, setg (chunk_ptr c1) (after pos) (chunk_size c1) s1)))))"

definition underflow :: "MemIStreamBuf \<Rightarrow> mem_fault + (int \<times> MemIStreamBuf)" where
  "underflow s = underflow_common False s"

definition uflow :: "MemIStreamBuf \<Rightarrow> mem_fault + (int \<times> MemIStreamBuf)" where
  "uflow s = underflow_common True s"

definition showmanyc :: "MemIStreamBuf \<Rightarrow> int" where
  "showmanyc s = int (egptr s) - int (gptr s)"

text \<open>The argument of \<^verbatim>\<open>gbump\<close> is converted to a 32 bit \<^verbatim>\<open>int\<close>.\<close>

definition gbump :: "nat \<Rightarrow> MemIStreamBuf \<Rightarrow> mem_fault + MemIStreamBuf" where
  "gbump n s =
     (let g = int (gptr s) + signed_take_bit 31 (int n) in if g < 0 then Inl OutOfArray else Inr (s\<lparr>gptr := nat g\<rparr>))"

text \<open>The part of the loop before the copy: the get area is filled if it is used up; \<open>False\<close> at the end.\<close>

definition fill :: "MemIStreamBuf \<Rightarrow> mem_fault + (bool \<times> MemIStreamBuf)" where
  "fill s =
     (if eback s = None \<or> egptr s - gptr s = 0 then sbind (underflow s) (\<lambda>(c, s1). Inr (c \<noteq> eof, s1)) else Inr (True, s))"

lemma fill_progress: "fill s = Inr (True, s1) \<Longrightarrow> gptr s1 < egptr s1"
proof (cases "eback s = None \<or> egptr s - gptr s = 0")
  case True
  assume "fill s = Inr (True, s1)"
  with True obtain c where "underflow_common False s = Inr (c, s1)" "c \<noteq> eof" by (auto simp: fill_def underflow_def)
  then show ?thesis
    by (cases "gptr s \<ge> chunk_size (projr (chunk_at s)) \<and> chunk_size (projr (chunk_at s)) \<noteq> 0")
      (auto simp: underflow_common_def setg_def Let_def dest: arg_cong [of _ _ m_chunk] split: if_splits)
qed (auto simp: fill_def)

function xsgetn_loop :: "nat \<Rightarrow> octets \<Rightarrow> MemIStreamBuf \<Rightarrow> mem_fault + (octets \<times> MemIStreamBuf)" where
  "xsgetn_loop remaining s0 s =
     (if remaining = 0 then Inr (s0, s)
      else (case fill s of
        Inl f \<Rightarrow> Inl f
      | Inr (False, s1) \<Rightarrow> Inr (s0, s1)
      | Inr (True, s1) \<Rightarrow>
          (let count = (if egptr s1 - gptr s1 > remaining then remaining else egptr s1 - gptr s1) in
           case bytes_at (eback s1) (gptr s1) count of
             Inl f \<Rightarrow> Inl f
           | Inr bs \<Rightarrow> (case gbump count s1 of Inl f \<Rightarrow> Inl f | Inr s2 \<Rightarrow> xsgetn_loop (remaining - count) (s0 @ bs) s2))))"
  by pat_completeness auto
termination
  by (relation "measure fst") (auto dest!: fill_progress)

definition xsgetn :: "nat \<Rightarrow> MemIStreamBuf \<Rightarrow> mem_fault + (octets \<times> MemIStreamBuf)" where
  "xsgetn n s = xsgetn_loop n [] s"

text \<open>The previous array is looked up with the size of the current one.\<close>

definition pbackfail :: "int \<Rightarrow> MemIStreamBuf \<Rightarrow> mem_fault + (int \<times> MemIStreamBuf)" where
  "pbackfail c s =
     (if m_ptr s \<noteq> None then Inr (eof, s)
      else if gptr s > 0 then Inr (eof, s)
      else if m_chunk s = 0 then Inr (eof, s)
      else sbind (chunk_at s) (\<lambda>cur.
        let prev = m_chunks s ! (m_chunk s - 1); curpos = ull_minus (chunk_size cur) 1 in
        if chunk_size prev = 0 then Inr (eof, s)
        else sbind (byte_at (chunk_ptr prev) curpos) (\<lambda>b.
          if c = uint b then Inr (eof, s)
          else Inr (if c = eof then 0 else c,
            setg (chunk_ptr prev) curpos (chunk_size prev)
              (s\<lparr>m_chunk := m_chunk s - 1, m_firstByteInChunk := ull_minus (m_firstByteInChunk s) (chunk_size prev)\<rparr>)))))"

text \<open>The loop of \<^verbatim>\<open>seekpos\<close>, over the arrays from the current one on.\<close>

fun seek_loop :: "nat \<Rightarrow> nat \<Rightarrow> nat \<Rightarrow> MemFileChunk list \<Rightarrow> mem_fault + (nat \<times> nat \<times> MemFileChunk)" where
  "seek_loop pos first k [] = Inl OutOfArray"
| "seek_loop pos first k (c # cs) =
     (if pos \<ge> ull (first + chunk_size c) \<and> chunk_size c \<noteq> 0 then seek_loop pos (ull (first + chunk_size c)) (k + 1) cs
      else Inr (k, first, c))"

definition seekpos :: "int \<Rightarrow> MemIStreamBuf \<Rightarrow> mem_fault + (int \<times> MemIStreamBuf)" where
  "seekpos ptpos s =
     (if ptpos < 0 then Inr (-1, s)
      else let pos = nat ptpos in
      if m_ptr s \<noteq> None then
        (if pos > m_size s then Inr (-1, s) else Inr (ptpos, setg (m_ptr s) pos (m_size s) s))
      else
        let s1 = (if pos < m_firstByteInChunk s then s\<lparr>m_chunk := 0, m_firstByteInChunk := 0\<rparr> else s) in
        sbind (seek_loop pos (m_firstByteInChunk s1) (m_chunk s1) (drop (m_chunk s1) (m_chunks s1))) (\<lambda>(k, first, c).
          let s2 = s1\<lparr>m_chunk := k, m_firstByteInChunk := first\<rparr> in
          if pos > ull (first + chunk_size c) then Inr (-1, s2)
          else Inr (ptpos, setg (chunk_ptr c) (pos - first) (chunk_size c) s2)))"

datatype seekdir = Seek_beg | Seek_cur | Seek_end

definition seek_origin :: "seekdir \<Rightarrow> MemIStreamBuf \<Rightarrow> mem_fault + nat" where
  "seek_origin way s =
     (case way of
        Seek_beg \<Rightarrow> Inr 0
      | Seek_cur \<Rightarrow> Inr (if m_ptr s \<noteq> None then gptr s else ull (m_firstByteInChunk s + gptr s))
      | Seek_end \<Rightarrow> (if m_ptr s \<noteq> None then Inr (m_size s) else sum_sizes (m_firstByteInChunk s) (drop (m_chunk s) (m_chunks s))))"

definition seekoff :: "int \<Rightarrow> seekdir \<Rightarrow> MemIStreamBuf \<Rightarrow> mem_fault + (int \<times> MemIStreamBuf)" where
  "seekoff off way s =
     (if eback s = None then Inr (-1, s)
      else sbind (seek_origin way s) (\<lambda>origin.
        if off < 0 \<and> nat (- off) > origin then Inr (-1, s)
        else let ptpos = unsignedToStreamsize (word_of_int (int origin + off)) True in
          if ptpos = -1 then Inr (ptpos, s) else seekpos ptpos s))"

text \<open>What the standard stream buffer does before it calls the virtual functions.\<close>

definition sgetc :: "MemIStreamBuf \<Rightarrow> mem_fault + (int \<times> MemIStreamBuf)" where
  "sgetc s = (if gptr s < egptr s then sbind (byte_at (eback s) (gptr s)) (\<lambda>b. Inr (uint b, s)) else underflow s)"

definition sbumpc :: "MemIStreamBuf \<Rightarrow> mem_fault + (int \<times> MemIStreamBuf)" where
  "sbumpc s =
     (if gptr s < egptr s then sbind (byte_at (eback s) (gptr s)) (\<lambda>b. Inr (uint b, s\<lparr>gptr := gptr s + 1\<rparr>)) else uflow s)"

definition sputbackc :: "u8 \<Rightarrow> MemIStreamBuf \<Rightarrow> mem_fault + (int \<times> MemIStreamBuf)" where
  "sputbackc c s =
     (if gptr s > 0
      then sbind (byte_at (eback s) (gptr s - 1)) (\<lambda>b.
        if b = c then Inr (uint b, s\<lparr>gptr := gptr s - 1\<rparr>) else pbackfail (uint c) s)
      else pbackfail (uint c) s)"

definition sungetc :: "MemIStreamBuf \<Rightarrow> mem_fault + (int \<times> MemIStreamBuf)" where
  "sungetc s =
     (if gptr s > 0 then sbind (byte_at (eback s) (gptr s - 1)) (\<lambda>b. Inr (uint b, s\<lparr>gptr := gptr s - 1\<rparr>)) else pbackfail eof s)"

end
