(* ===== verification/MemFileProps.thy ===== *)
theory MemFileProps
  imports MemFile
begin

text \<open>
  The stream of an in-memory file reads its arrays as one: a simulation of the stream buffer by the
  contents of the file and a position, and the cases in which the buffer loses its position.
\<close>

subsection \<open>Contents of a file\<close>

text \<open>
  The arrays of a file are nonempty, up to the one of size zero that ends them; none is so long
  that its length is no \<^verbatim>\<open>int\<close>, and the length of the file is a \<^verbatim>\<open>std::streamsize\<close>.
\<close>

definition chunk_ok :: "MemFileChunk \<Rightarrow> bool" where
  "chunk_ok c \<longleftrightarrow> 0 < chunk_size c \<and> chunk_size c < 2 ^ 31 \<and> (case chunk_ptr c of Some b \<Rightarrow> chunk_size c \<le> length b | None \<Rightarrow> False)"

definition chunks_ok :: "MemFileChunk list \<Rightarrow> bool" where
  "chunks_ok cs \<longleftrightarrow> cs \<noteq> [] \<and> chunk_size (last cs) = 0 \<and> list_all chunk_ok (butlast cs) \<and> sum_list (map chunk_size cs) < 2 ^ 63"

definition file_ok :: "StaticMemFile \<Rightarrow> bool" where
  "file_ok f \<longleftrightarrow> (case mf_ptr f of Some p \<Rightarrow> mf_size f \<le> length p \<and> mf_size f < 2 ^ 31 | None \<Rightarrow> chunks_ok (mf_chunks f))"

definition chunk_bytes :: "MemFileChunk \<Rightarrow> octets" where
  "chunk_bytes c = take (chunk_size c) (the (chunk_ptr c))"

definition chunks_bytes :: "MemFileChunk list \<Rightarrow> octets" where
  "chunks_bytes cs = concat (map chunk_bytes (butlast cs))"

definition file_bytes :: "StaticMemFile \<Rightarrow> octets" where
  "file_bytes f = (case mf_ptr f of Some p \<Rightarrow> take (mf_size f) p | None \<Rightarrow> chunks_bytes (mf_chunks f))"

definition chunk_start :: "MemFileChunk list \<Rightarrow> nat \<Rightarrow> nat" where
  "chunk_start cs k = sum_list (map chunk_size (take k cs))"

lemma ull_eq [simp]: "n < 2 ^ 63 \<Longrightarrow> ull n = n"
  by (simp add: ull_def)

lemma ull_code [code]: "ull n = nat (int n mod 2 ^ 64)"
proof -
  have "int n mod 2 ^ 64 = int (n mod 2 ^ 64)" by (simp add: zmod_int)
  then show ?thesis by (simp add: ull_def)
qed

lemma chunk_ok_bytes: "chunk_ok c \<Longrightarrow> length (chunk_bytes c) = chunk_size c"
  by (auto simp: chunk_ok_def chunk_bytes_def split: option.splits)

lemma chunk_start_Suc: "k < length cs \<Longrightarrow> chunk_start cs (Suc k) = chunk_start cs k + chunk_size (cs ! k)"
  by (simp add: chunk_start_def take_Suc_conv_app_nth)

lemma chunk_start_0 [simp]: "chunk_start cs 0 = 0"
  by (simp add: chunk_start_def)

lemma chunk_start_mono: "k \<le> m \<Longrightarrow> chunk_start cs k \<le> chunk_start cs m"
  by (auto simp: chunk_start_def le_iff_add take_add)

lemma chunk_start_le: "chunk_start cs k \<le> sum_list (map chunk_size cs)"
proof -
  have "sum_list (map chunk_size cs) = chunk_start cs k + sum_list (map chunk_size (drop k cs))"
    unfolding chunk_start_def sum_list_append [symmetric] map_append [symmetric] by simp
  then show ?thesis by simp
qed

lemma chunk_start_small: "chunks_ok cs \<Longrightarrow> chunk_start cs k < 2 ^ 63"
  using chunk_start_le [of cs k] by (simp add: chunks_ok_def)

lemma chunks_ok_nth:
  assumes "chunks_ok cs" "k < length cs - 1"
  shows "chunk_ok (cs ! k)"
  using assms by (auto simp: chunks_ok_def list_all_length nth_butlast)

lemma chunks_ok_end: "chunks_ok cs \<Longrightarrow> chunk_size (cs ! (length cs - 1)) = 0"
  by (auto simp: chunks_ok_def last_conv_nth)

lemma chunks_size_0_iff:
  assumes "chunks_ok cs" "k < length cs"
  shows "chunk_size (cs ! k) = 0 \<longleftrightarrow> k = length cs - 1"
  using chunks_ok_nth [OF assms(1), of k] chunks_ok_end [OF assms(1)] assms(2) by (cases "k = length cs - 1") (auto simp: chunk_ok_def)

text \<open>What follows the start of an array in the file.\<close>

lemma drop_chunk_start:
  assumes "chunks_ok cs" "k \<le> length cs - 1"
  shows "drop (chunk_start cs k) (chunks_bytes cs) = concat (map chunk_bytes (drop k (butlast cs)))"
  using assms(2)
proof (induction k)
  case 0
  then show ?case by (simp add: chunks_bytes_def)
next
  case (Suc k)
  have k: "k < length (butlast cs)" using Suc.prems by simp
  have "drop (chunk_start cs (Suc k)) (chunks_bytes cs) = drop (chunk_size (cs ! k)) (drop (chunk_start cs k) (chunks_bytes cs))"
    using Suc.prems by (simp add: chunk_start_Suc add.commute)
  also have "\<dots> = drop (chunk_size (cs ! k)) (concat (map chunk_bytes (drop k (butlast cs))))" using Suc by simp
  also have "\<dots> = concat (map chunk_bytes (drop (Suc k) (butlast cs)))"
    using chunk_ok_bytes [OF chunks_ok_nth [OF assms(1), of k]] Suc.prems
    by (simp add: Cons_nth_drop_Suc [OF k, symmetric] nth_butlast)
  finally show ?case .
qed

lemma rest_in_chunk:
  assumes "chunks_ok cs" "k < length cs - 1" "g \<le> chunk_size (cs ! k)"
  shows "drop (chunk_start cs k + g) (chunks_bytes cs) = drop g (chunk_bytes (cs ! k)) @ drop (chunk_start cs (Suc k)) (chunks_bytes cs)"
proof -
  have k: "k < length (butlast cs)" using assms(2) by simp
  have "drop (chunk_start cs k) (chunks_bytes cs) = chunk_bytes (cs ! k) @ drop (chunk_start cs (Suc k)) (chunks_bytes cs)"
    using drop_chunk_start [OF assms(1), of k] drop_chunk_start [OF assms(1), of "Suc k"] assms(2)
    by (simp add: Cons_nth_drop_Suc [OF k, symmetric] nth_butlast)
  then have "drop g (drop (chunk_start cs k) (chunks_bytes cs)) = drop g (chunk_bytes (cs ! k) @ drop (chunk_start cs (Suc k)) (chunks_bytes cs))" by simp
  then show ?thesis using assms(3) chunk_ok_bytes [OF chunks_ok_nth [OF assms(1,2)]] by (simp add: add.commute)
qed

lemma chunk_start_end:
  assumes "chunks_ok cs"
  shows "chunk_start cs (length cs - 1) = length (chunks_bytes cs)"
proof -
  have "map chunk_size (butlast cs) = map (length \<circ> chunk_bytes) (butlast cs)"
    using assms chunk_ok_bytes by (auto simp: chunks_ok_def list_all_iff)
  then have "sum_list (map chunk_size (butlast cs)) = length (chunks_bytes cs)" by (simp only: chunks_bytes_def length_concat map_map)
  then show ?thesis by (simp add: chunk_start_def butlast_conv_take)
qed

lemma sum_sizes_from:
  assumes "chunks_ok cs" "k \<le> length cs - 1"
  shows "sum_sizes (chunk_start cs k) (drop k cs) = Inr (length (chunks_bytes cs))"
  using assms(2)
proof (induction k rule: inc_induct)
  case base
  have "length cs - 1 < length cs" using assms(1) by (cases cs) (auto simp: chunks_ok_def)
  then show ?case using chunks_ok_end [OF assms(1)] chunk_start_end [OF assms(1)] by (simp add: Cons_nth_drop_Suc [symmetric])
next
  case (step k)
  then have k: "k < length cs" by simp
  then show ?case
    using step chunks_ok_nth [OF assms(1), of k] chunk_start_small [OF assms(1), of "Suc k"]
    by (simp add: Cons_nth_drop_Suc [OF k, symmetric] chunk_start_Suc chunk_ok_def)
qed

subsection \<open>The stream and its position\<close>

text \<open>
  A stream that reads a file: behind the last array the get area is used up, whatever array it is of.
\<close>

definition array_stream :: "octets \<Rightarrow> nat \<Rightarrow> MemIStreamBuf \<Rightarrow> bool" where
  "array_stream p n s \<longleftrightarrow> m_ptr s = Some p \<and> m_size s = n \<and> eback s = Some p \<and> egptr s = n \<and> gptr s \<le> n"

definition chunk_stream :: "MemFileChunk list \<Rightarrow> MemIStreamBuf \<Rightarrow> bool" where
  "chunk_stream cs s \<longleftrightarrow> m_ptr s = None \<and> m_chunks s = cs \<and> m_chunk s < length cs \<and> m_firstByteInChunk s = chunk_start cs (m_chunk s) \<and>
     (if m_chunk s < length cs - 1
      then eback s = chunk_ptr (cs ! m_chunk s) \<and> egptr s = chunk_size (cs ! m_chunk s) \<and> gptr s \<le> egptr s
      else gptr s = egptr s)"

definition stream_of :: "StaticMemFile \<Rightarrow> MemIStreamBuf \<Rightarrow> bool" where
  "stream_of f s \<longleftrightarrow> (case mf_ptr f of Some p \<Rightarrow> array_stream p (mf_size f) s | None \<Rightarrow> chunk_stream (mf_chunks f) s)"

definition stream_pos :: "MemIStreamBuf \<Rightarrow> nat" where
  "stream_pos s =
     (if m_ptr s \<noteq> None then gptr s
      else m_firstByteInChunk s + (if m_chunk s < length (m_chunks s) - 1 then gptr s else 0))"

definition reads_on :: "StaticMemFile \<Rightarrow> nat \<Rightarrow> MemIStreamBuf \<Rightarrow> bool" where
  "reads_on f pos s \<longleftrightarrow> file_ok f \<and> stream_of f s \<and> stream_pos s = pos \<and> pos \<le> length (file_bytes f)"

lemma reads_on_array:
  assumes "mf_ptr f = Some p"
  shows "reads_on f pos s \<longleftrightarrow> mf_size f \<le> length p \<and> mf_size f < 2 ^ 31 \<and> array_stream p (mf_size f) s \<and> gptr s = pos"
  using assms by (auto simp: reads_on_def file_ok_def stream_of_def stream_pos_def array_stream_def file_bytes_def)

lemma chunk_stream_pos:
  assumes "chunks_ok cs" "chunk_stream cs s"
  shows "stream_pos s = chunk_start cs (m_chunk s) + (if m_chunk s < length cs - 1 then gptr s else 0)"
    and "stream_pos s \<le> length (chunks_bytes cs)"
proof -
  show p: "stream_pos s = chunk_start cs (m_chunk s) + (if m_chunk s < length cs - 1 then gptr s else 0)"
    using assms(2) by (simp add: stream_pos_def chunk_stream_def)
  have le: "chunk_start cs (Suc k) \<le> length (chunks_bytes cs)" if "k < length cs - 1" for k
    using chunk_start_mono [of "Suc k" "length cs - 1" cs] chunk_start_end [OF assms(1)] that by simp
  show "stream_pos s \<le> length (chunks_bytes cs)"
  proof (cases "m_chunk s < length cs - 1")
    case True
    then show ?thesis using le [OF True] assms(2) p by (simp add: chunk_stream_def chunk_start_Suc)
  next
    case False
    then have "m_chunk s = length cs - 1" using assms(2) unfolding chunk_stream_def by linarith
    then show ?thesis using p chunk_start_end [OF assms(1)] False by simp
  qed
qed

lemma reads_on_chunks:
  assumes "mf_ptr f = None"
  shows "reads_on f pos s \<longleftrightarrow> chunks_ok (mf_chunks f) \<and> chunk_stream (mf_chunks f) s \<and> stream_pos s = pos"
  using assms chunk_stream_pos(2) by (auto simp: reads_on_def file_ok_def stream_of_def file_bytes_def)

lemma opened_at_start:
  assumes "file_ok f"
  shows "\<exists>s. file_openReadonly f = Inr s \<and> reads_on f 0 s"
proof (cases "mf_ptr f")
  case None
  then have ok: "chunks_ok (mf_chunks f)" using assms by (simp add: file_ok_def)
  then obtain c cs where c: "mf_chunks f = c # cs" by (cases "mf_chunks f") (auto simp: chunks_ok_def)
  then show ?thesis
    using ok chunks_ok_end [OF ok] None
    by (auto simp: file_openReadonly_def buf_of_chunks_def reads_on_chunks chunk_stream_def stream_pos_def)
qed (use assms in \<open>auto simp: file_openReadonly_def buf_of_array_def reads_on_array array_stream_def file_ok_def\<close>)

subsection \<open>Reading\<close>

lemma byte_at_chunk: "chunk_ok c \<Longrightarrow> i < chunk_size c \<Longrightarrow> byte_at (chunk_ptr c) i = Inr (chunk_bytes c ! i)"
  by (auto simp: chunk_ok_def byte_at_def chunk_bytes_def split: option.splits)

lemma drop_nonempty_chunk:
  assumes "chunk_ok c" "i < chunk_size c"
  shows "drop i (chunk_bytes c) = chunk_bytes c ! i # drop (Suc i) (chunk_bytes c)"
  using assms by (simp add: Cons_nth_drop_Suc chunk_ok_bytes)

text \<open>The arrays of a stream: the one in the get area, or the next one, holds the next byte.\<close>

lemma underflow_chunk:
  assumes "chunks_ok cs" "chunk_stream cs s" "m_chunk s < length cs - 1" "gptr s < egptr s"
  shows "\<exists>s1. underflow_common b s = Inr (uint (hd (drop (stream_pos s) (chunks_bytes cs))), s1) \<and> chunk_stream cs s1 \<and>
    stream_pos s1 = stream_pos s + (if b then 1 else 0) \<and> (b \<or> gptr s1 < egptr s1)"
proof -
  let ?c = "cs ! m_chunk s"
  have c: "chunk_ok ?c" by (rule chunks_ok_nth [OF assms(1,3)])
  have g: "gptr s < chunk_size ?c" "gptr s \<le> chunk_size ?c" using assms(2-4) by (auto simp: chunk_stream_def)
  have "drop (stream_pos s) (chunks_bytes cs) = drop (gptr s) (chunk_bytes ?c) @ drop (chunk_start cs (Suc (m_chunk s))) (chunks_bytes cs)"
    using rest_in_chunk [OF assms(1,3) g(2)] chunk_stream_pos(1) [OF assms(1,2)] assms(3) by simp
  then have hd: "hd (drop (stream_pos s) (chunks_bytes cs)) = chunk_bytes ?c ! gptr s"
    using drop_nonempty_chunk [OF c g(1)] by simp
  define s1 where "s1 = setg (chunk_ptr ?c) (if b then gptr s + 1 else gptr s) (chunk_size ?c) s"
  have "underflow_common b s = Inr (uint (chunk_bytes ?c ! gptr s), s1)"
    using assms(2,3) g(1) byte_at_chunk [OF c g(1)] by (simp add: underflow_common_def chunk_stream_def chunk_at_def s1_def Let_def)
  moreover have "chunk_stream cs s1" "stream_pos s1 = stream_pos s + (if b then 1 else 0)" "b \<or> gptr s1 < egptr s1"
    using assms(2,3) g(1) by (auto simp: chunk_stream_def stream_pos_def s1_def setg_def)
  ultimately show ?thesis unfolding hd by blast
qed

lemma underflow_next:
  assumes "chunks_ok cs" "chunk_stream cs s" "m_chunk s < length cs - 1" "gptr s = egptr s"
  shows "\<exists>s1. if drop (stream_pos s) (chunks_bytes cs) = []
    then underflow_common b s = Inr (eof, s1) \<and> chunk_stream cs s1 \<and> stream_pos s1 = stream_pos s
    else underflow_common b s = Inr (uint (hd (drop (stream_pos s) (chunks_bytes cs))), s1) \<and> chunk_stream cs s1 \<and>
      stream_pos s1 = stream_pos s + (if b then 1 else 0) \<and> (b \<or> gptr s1 < egptr s1)"
proof -
  let ?k = "m_chunk s" and ?c = "cs ! Suc (m_chunk s)"
  let ?next = "s\<lparr>m_firstByteInChunk := chunk_start cs (Suc ?k), m_chunk := Suc ?k\<rparr>"
  have k: "Suc ?k < length cs" using assms(3) by simp
  have c: "chunk_ok (cs ! ?k)" by (rule chunks_ok_nth [OF assms(1,3)])
  have g: "gptr s = chunk_size (cs ! ?k)" using assms(2-4) by (simp add: chunk_stream_def)
  have start: "chunk_start cs (Suc ?k) = chunk_start cs ?k + chunk_size (cs ! ?k)" using k by (simp add: chunk_start_Suc)
  have pos: "stream_pos s = chunk_start cs (Suc ?k)"
    using chunk_stream_pos(1) [OF assms(1,2)] assms(3) g start by simp
  have u: "ull (m_firstByteInChunk s + chunk_size (cs ! ?k)) = chunk_start cs (Suc ?k)"
    using chunk_start_small [OF assms(1), of "Suc ?k"] assms(2) start by (simp add: chunk_stream_def)
  show ?thesis
  proof (cases "Suc ?k < length cs - 1")
    case True
    have c1: "chunk_ok ?c" by (rule chunks_ok_nth [OF assms(1) True])
    then have z: "0 < chunk_size ?c" by (simp add: chunk_ok_def)
    have rest: "drop (stream_pos s) (chunks_bytes cs) = chunk_bytes ?c ! 0 # drop (Suc 0) (chunk_bytes ?c) @ drop (chunk_start cs (Suc (Suc ?k))) (chunks_bytes cs)"
      using rest_in_chunk [OF assms(1) True, of 0] drop_nonempty_chunk [OF c1 z] pos by simp
    define s1 where "s1 = setg (chunk_ptr ?c) (if b then 1 else 0) (chunk_size ?c) ?next"
    have "underflow_common b s = Inr (uint (chunk_bytes ?c ! 0), s1)"
      using assms(2) g k c z byte_at_chunk [OF c1 z] u
      by (simp add: underflow_common_def chunk_stream_def chunk_at_def s1_def Let_def chunk_ok_def)
    moreover have "chunk_stream cs s1" "stream_pos s1 = stream_pos s + (if b then 1 else 0)" "b \<or> gptr s1 < egptr s1"
      using assms(2) k z True pos by (auto simp: chunk_stream_def stream_pos_def s1_def setg_def)
    ultimately show ?thesis unfolding rest by auto
  next
    case False
    then have e: "Suc ?k = length cs - 1" using k by simp
    then have "drop (stream_pos s) (chunks_bytes cs) = []" using pos chunk_start_end [OF assms(1)] by simp
    moreover have "underflow_common b s = Inr (eof, ?next)"
      using assms(2) g k c u chunks_ok_end [OF assms(1)] e
      by (simp add: underflow_common_def chunk_stream_def chunk_at_def Let_def chunk_ok_def)
    moreover have "chunk_stream cs ?next" "stream_pos ?next = stream_pos s"
      using assms(2,4) k e pos by (auto simp: chunk_stream_def stream_pos_def)
    ultimately show ?thesis by auto
  qed
qed

lemma underflow_at_end:
  assumes "chunks_ok cs" "chunk_stream cs s" "\<not> m_chunk s < length cs - 1"
  shows "underflow_common b s = Inr (eof, s)" "drop (stream_pos s) (chunks_bytes cs) = []"
proof -
  have e: "m_chunk s = length cs - 1" using assms(2,3) unfolding chunk_stream_def by linarith
  then show "underflow_common b s = Inr (eof, s)"
    using chunks_ok_end [OF assms(1)] assms(2) by (simp add: underflow_common_def chunk_stream_def chunk_at_def Let_def)
  show "drop (stream_pos s) (chunks_bytes cs) = []"
    using chunk_stream_pos(1) [OF assms(1,2)] chunk_start_end [OF assms(1)] e assms(3) by simp
qed

lemma area_before_end:
  assumes "reads_on f pos s" and g: "gptr s < egptr s"
  shows "pos < length (file_bytes f)"
proof (cases "mf_ptr f")
  case None
  then have r: "chunks_ok (mf_chunks f)" "chunk_stream (mf_chunks f) s" "stream_pos s = pos" using assms by (simp_all add: reads_on_chunks)
  then have k: "m_chunk s < length (mf_chunks f) - 1" using g by (auto simp: chunk_stream_def split: if_splits)
  have "chunk_start (mf_chunks f) (Suc (m_chunk s)) \<le> length (chunks_bytes (mf_chunks f))"
    using chunk_start_mono [of "Suc (m_chunk s)" "length (mf_chunks f) - 1" "mf_chunks f"] chunk_start_end [OF r(1)] k by simp
  then show ?thesis using chunk_stream_pos(1) [OF r(1,2)] r(2,3) k g None by (auto simp: chunk_stream_def chunk_start_Suc file_bytes_def)
qed (use assms g in \<open>auto simp: reads_on_array array_stream_def file_bytes_def\<close>)

lemma underflow_reads:
  assumes "reads_on f pos s"
  shows "\<exists>s1. if pos = length (file_bytes f) then underflow_common b s = Inr (eof, s1) \<and> reads_on f pos s1
    else underflow_common b s = Inr (uint (file_bytes f ! pos), s1) \<and> reads_on f (pos + (if b then 1 else 0)) s1 \<and>
      (b \<or> gptr s1 < egptr s1)"
proof (cases "mf_ptr f")
  case None
  let ?cs = "mf_chunks f"
  have r: "chunks_ok ?cs" "chunk_stream ?cs s" "stream_pos s = pos" using assms None by (simp_all add: reads_on_chunks)
  have bytes: "file_bytes f = chunks_bytes ?cs" using None by (simp add: file_bytes_def)
  have le: "pos \<le> length (chunks_bytes ?cs)" using chunk_stream_pos(2) [OF r(1,2)] r(3) by simp
  then have hd: "pos \<noteq> length (chunks_bytes ?cs) \<Longrightarrow> hd (drop pos (chunks_bytes ?cs)) = chunks_bytes ?cs ! pos"
    "drop pos (chunks_bytes ?cs) = [] \<longleftrightarrow> pos = length (chunks_bytes ?cs)" by (auto simp: hd_drop_conv_nth)
  consider "m_chunk s < length ?cs - 1" "gptr s < egptr s" | "m_chunk s < length ?cs - 1" "gptr s = egptr s" | "\<not> m_chunk s < length ?cs - 1"
    using r(2) unfolding chunk_stream_def by fastforce
  then show ?thesis
  proof cases
    case 1
    have "pos \<noteq> length (chunks_bytes ?cs)" using area_before_end [OF assms 1(2)] bytes by simp
    then show ?thesis using underflow_chunk [OF r(1,2) 1, of b] hd r None by (auto simp: bytes reads_on_chunks)
  next
    case 2
    show ?thesis using underflow_next [OF r(1,2) 2, of b] hd r None by (auto simp: bytes reads_on_chunks split: if_splits)
  next
    case 3
    show ?thesis using underflow_at_end [OF r(1,2) 3] hd r assms by (simp add: bytes)
  qed
next
  case (Some p)
  then have r: "mf_size f \<le> length p" "array_stream p (mf_size f) s" "gptr s = pos"
    and a: "file_bytes f = take (mf_size f) p" using assms by (simp_all add: reads_on_array file_bytes_def)
  define s1 where "s1 = setg (Some p) (if b then pos + 1 else pos) (mf_size f) s"
  have "reads_on f pos s \<Longrightarrow> pos < mf_size f \<Longrightarrow> reads_on f (pos + (if b then 1 else 0)) s1"
    using Some by (auto simp: reads_on_array array_stream_def s1_def setg_def)
  moreover have "pos < mf_size f \<Longrightarrow> underflow_common b s = Inr (uint (p ! pos), s1)"
    using r by (simp add: underflow_common_def array_stream_def byte_at_def s1_def Let_def)
  moreover have "pos = mf_size f \<Longrightarrow> underflow_common b s = Inr (eof, s)" using r by (simp add: underflow_common_def array_stream_def)
  ultimately show ?thesis
    using r assms unfolding a by (cases "pos = mf_size f") (auto simp: array_stream_def s1_def setg_def)
qed

lemma fill_reads:
  assumes "reads_on f pos s"
  shows "\<exists>s1. fill s = Inr (pos < length (file_bytes f), s1) \<and> reads_on f pos s1 \<and> (pos < length (file_bytes f) \<longrightarrow> gptr s1 < egptr s1)"
proof (cases "eback s = None \<or> egptr s - gptr s = 0")
  case True
  have le: "pos \<le> length (file_bytes f)" using assms by (simp add: reads_on_def)
  have byte: "uint (x :: u8) \<noteq> eof" "eof \<noteq> uint (x :: u8)" for x using uint_nonnegative [of x] by linarith+
  from underflow_reads [OF assms, of False] True le show ?thesis by (auto simp: fill_def underflow_def byte split: if_splits)
next
  case False
  then have g: "gptr s < egptr s" by simp
  then have "pos < length (file_bytes f)" by (rule area_before_end [OF assms])
  then show ?thesis using assms False by (auto simp: fill_def)
qed

text \<open>The get area holds the next bytes of the file.\<close>

lemma area_bytes:
  assumes "reads_on f pos s" "gptr s < egptr s" "n \<le> egptr s - gptr s"
  shows "bytes_at (eback s) (gptr s) n = Inr (take n (drop pos (file_bytes f)))"
    and "gbump n s = Inr (s\<lparr>gptr := gptr s + n\<rparr>)" and "reads_on f (pos + n) (s\<lparr>gptr := gptr s + n\<rparr>)"
proof -
  have bump: "gbump n s = Inr (s\<lparr>gptr := gptr s + n\<rparr>)" if "egptr s < 2 ^ 31"
  proof -
    have "signed_take_bit 31 (int n) = int n" using that assms(3) by (intro signed_take_bit_int_eq_self) simp_all
    then show ?thesis by (simp add: gbump_def nat_add_distrib)
  qed
  have "bytes_at (eback s) (gptr s) n = Inr (take n (drop pos (file_bytes f))) \<and> egptr s < 2 ^ 31 \<and>
    reads_on f (pos + n) (s\<lparr>gptr := gptr s + n\<rparr>)"
  proof (cases "mf_ptr f")
    case None
    let ?cs = "mf_chunks f" and ?c = "mf_chunks f ! m_chunk s"
    have r: "chunks_ok ?cs" "chunk_stream ?cs s" "stream_pos s = pos" using assms None by (simp_all add: reads_on_chunks)
    then have k: "m_chunk s < length ?cs - 1" using assms(2) by (auto simp: chunk_stream_def split: if_splits)
    have e: "egptr s = chunk_size ?c" "eback s = chunk_ptr ?c" "gptr s \<le> chunk_size ?c" using r(2) k by (simp_all add: chunk_stream_def)
    have c: "chunk_ok ?c" by (rule chunks_ok_nth [OF r(1) k])
    then obtain p where p: "chunk_ptr ?c = Some p" "chunk_size ?c \<le> length p" "chunk_size ?c < 2 ^ 31"
      by (auto simp: chunk_ok_def split: option.splits)
    have "drop pos (chunks_bytes ?cs) = drop (gptr s) (chunk_bytes ?c) @ drop (chunk_start ?cs (Suc (m_chunk s))) (chunks_bytes ?cs)"
      using rest_in_chunk [OF r(1) k e(3)] chunk_stream_pos(1) [OF r(1,2)] r(3) k by simp
    then have "take n (drop pos (chunks_bytes ?cs)) = take n (drop (gptr s) p)"
      using assms(2,3) p e by (simp add: chunk_bytes_def drop_take min_absorb1)
    moreover have "stream_pos (s\<lparr>gptr := gptr s + n\<rparr>) = pos + n"
      using r k by (auto simp: stream_pos_def chunk_stream_def)
    ultimately show ?thesis
      using r(1,2) p e assms(2,3) k None by (auto simp: bytes_at_def file_bytes_def reads_on_chunks chunk_stream_def)
  next
    case (Some p)
    then show ?thesis using assms by (auto simp: reads_on_array array_stream_def bytes_at_def file_bytes_def drop_take min_absorb1)
  qed
  then show "bytes_at (eback s) (gptr s) n = Inr (take n (drop pos (file_bytes f)))"
    "gbump n s = Inr (s\<lparr>gptr := gptr s + n\<rparr>)" "reads_on f (pos + n) (s\<lparr>gptr := gptr s + n\<rparr>)"
    using bump by simp_all
qed

declare xsgetn_loop.simps [simp del]

lemma xsgetn_loop_reads:
  assumes "reads_on f pos s"
  shows "\<exists>s'. xsgetn_loop n acc s = Inr (acc @ take n (drop pos (file_bytes f)), s') \<and> reads_on f (min (pos + n) (length (file_bytes f))) s'"
  using assms
proof (induction n acc s arbitrary: pos rule: xsgetn_loop.induct)
  case (1 n acc s)
  have le: "pos \<le> length (file_bytes f)" using "1.prems" by (simp add: reads_on_def)
  obtain s1 where s1: "fill s = Inr (pos < length (file_bytes f), s1)" "reads_on f pos s1" "pos < length (file_bytes f) \<Longrightarrow> gptr s1 < egptr s1"
    using fill_reads [OF "1.prems"] by auto
  consider "n = 0" | "n \<noteq> 0" "pos = length (file_bytes f)" | "n \<noteq> 0" "pos < length (file_bytes f)" using le by linarith
  then show ?case
  proof cases
    case 1
    then show ?thesis using "1.prems" le by (simp add: xsgetn_loop.simps [of 0])
  next
    case 2
    then show ?thesis using s1 by (simp add: xsgetn_loop.simps [of n])
  next
    case 3
    define m where "m = (if egptr s1 - gptr s1 > n then n else egptr s1 - gptr s1)"
    have g: "gptr s1 < egptr s1" and m: "m \<le> egptr s1 - gptr s1" "m \<le> n" using s1(3) 3 by (auto simp: m_def)
    note a = area_bytes [OF s1(2) g m(1)]
    have f: "fill s = Inr (True, s1)" using s1(1) 3 by simp
    from "1.IH" [OF 3(1) f refl refl m_def a(1,2,3)]
    obtain s' where s': "xsgetn_loop (n - m) (acc @ take m (drop pos (file_bytes f))) (s1\<lparr>gptr := gptr s1 + m\<rparr>) =
        Inr ((acc @ take m (drop pos (file_bytes f))) @ take (n - m) (drop (pos + m) (file_bytes f)), s')"
      "reads_on f (min (pos + m + (n - m)) (length (file_bytes f))) s'" by blast
    have "take n (drop pos (file_bytes f)) = take m (drop pos (file_bytes f)) @ take (n - m) (drop (pos + m) (file_bytes f))"
      using m(2) take_add [of m "n - m" "drop pos (file_bytes f)"] by (simp add: add.commute)
    moreover have "xsgetn_loop n acc s = xsgetn_loop (n - m) (acc @ take m (drop pos (file_bytes f))) (s1\<lparr>gptr := gptr s1 + m\<rparr>)"
      using 3(1) f a(1,2) by (subst xsgetn_loop.simps) (simp add: m_def [symmetric])
    ultimately show ?thesis using s' m(2) by simp
  qed
qed

lemma sgetc_reads:
  assumes "reads_on f pos s"
  shows "\<exists>s'. sgetc s = Inr (if pos < length (file_bytes f) then uint (file_bytes f ! pos) else eof, s') \<and> reads_on f pos s'"
    and "\<exists>s'. sbumpc s = Inr (if pos < length (file_bytes f) then uint (file_bytes f ! pos) else eof, s') \<and>
      reads_on f (min (pos + 1) (length (file_bytes f))) s'"
proof -
  have le: "pos \<le> length (file_bytes f)" using assms by (simp add: reads_on_def)
  have byte: "pos < length (file_bytes f) \<and> byte_at (eback s) (gptr s) = Inr (file_bytes f ! pos) \<and> reads_on f (pos + 1) (s\<lparr>gptr := gptr s + 1\<rparr>)"
    if "gptr s < egptr s"
  proof -
    have lt: "pos < length (file_bytes f)" by (rule area_before_end [OF assms that])
    have "bytes_at (eback s) (gptr s) 1 = Inr [file_bytes f ! pos]" "reads_on f (pos + 1) (s\<lparr>gptr := gptr s + 1\<rparr>)"
      using area_bytes(1,3) [OF assms that, of 1] that lt by (simp_all add: take_Suc_conv_app_nth hd_drop_conv_nth take_Suc)
    then show ?thesis using lt by (auto simp: bytes_at_def byte_at_def take_Suc hd_drop_conv_nth split: option.splits if_splits)
  qed
  show "\<exists>s'. sgetc s = Inr (if pos < length (file_bytes f) then uint (file_bytes f ! pos) else eof, s') \<and> reads_on f pos s'"
    using byte assms underflow_reads [OF assms, of False] le
    by (cases "gptr s < egptr s") (auto simp: sgetc_def underflow_def split: if_splits)
  show "\<exists>s'. sbumpc s = Inr (if pos < length (file_bytes f) then uint (file_bytes f ! pos) else eof, s') \<and>
      reads_on f (min (pos + 1) (length (file_bytes f))) s'"
    using byte underflow_reads [OF assms, of True] le
    by (cases "gptr s < egptr s") (auto simp: sbumpc_def uflow_def min_def split: if_splits)
qed

subsection \<open>Seeking\<close>

lemma seek_loop_finds:
  assumes "chunks_ok cs" "k \<le> length cs - 1" "chunk_start cs k \<le> pos" "pos \<le> length (chunks_bytes cs)"
  shows "\<exists>k'. seek_loop pos (chunk_start cs k) k (drop k cs) = Inr (k', chunk_start cs k', cs ! k') \<and> k' \<le> length cs - 1 \<and>
    chunk_start cs k' \<le> pos \<and> pos \<le> chunk_start cs k' + chunk_size (cs ! k')"
  using assms(2,3)
proof (induction k rule: inc_induct)
  case base
  have l: "length cs - 1 < length cs" using assms(1) by (cases cs) (auto simp: chunks_ok_def)
  then show ?case
    using chunks_ok_end [OF assms(1)] chunk_start_end [OF assms(1)] assms(4) base by (simp add: Cons_nth_drop_Suc [symmetric])
next
  case (step k)
  then have k: "k < length cs" by simp
  have u: "ull (chunk_start cs k + chunk_size (cs ! k)) = chunk_start cs (Suc k)"
    using chunk_start_small [OF assms(1), of "Suc k"] k by (simp add: chunk_start_Suc)
  have "chunk_size (cs ! k) \<noteq> 0" using chunks_ok_nth [OF assms(1), of k] step by (simp add: chunk_ok_def)
  then show ?case
    using step u k by (cases "pos \<ge> chunk_start cs (Suc k)") (auto simp: Cons_nth_drop_Suc [OF k, symmetric] chunk_start_Suc)
qed

lemma seekpos_reads:
  assumes "reads_on f pos s" "p \<le> length (file_bytes f)"
  shows "\<exists>s'. seekpos (int p) s = Inr (int p, s') \<and> reads_on f p s'"
proof (cases "mf_ptr f")
  case None
  let ?cs = "mf_chunks f"
  have r: "chunks_ok ?cs" "chunk_stream ?cs s" and p: "p \<le> length (chunks_bytes ?cs)"
    using assms None by (simp_all add: reads_on_chunks file_bytes_def)
  define s1 where "s1 = (if p < m_firstByteInChunk s then s\<lparr>m_chunk := 0, m_firstByteInChunk := 0\<rparr> else s)"
  have s1: "m_ptr s1 = None" "m_chunks s1 = ?cs" "m_firstByteInChunk s1 = chunk_start ?cs (m_chunk s1)" "m_chunk s1 \<le> length ?cs - 1"
    "chunk_start ?cs (m_chunk s1) \<le> p"
    using r(2) by (auto simp: s1_def chunk_stream_def)
  obtain k where k: "seek_loop p (chunk_start ?cs (m_chunk s1)) (m_chunk s1) (drop (m_chunk s1) ?cs) = Inr (k, chunk_start ?cs k, ?cs ! k)"
    "k \<le> length ?cs - 1" "chunk_start ?cs k \<le> p" "p \<le> chunk_start ?cs k + chunk_size (?cs ! k)"
    using seek_loop_finds [OF r(1) s1(4,5) p] by blast
  define s2 where "s2 = setg (chunk_ptr (?cs ! k)) (p - chunk_start ?cs k) (chunk_size (?cs ! k)) (s1\<lparr>m_chunk := k, m_firstByteInChunk := chunk_start ?cs k\<rparr>)"
  have l: "k < length ?cs" using k(2) r(1) by (cases ?cs) (auto simp: chunks_ok_def)
  then have u: "ull (chunk_start ?cs k + chunk_size (?cs ! k)) = chunk_start ?cs k + chunk_size (?cs ! k)"
    using chunk_start_small [OF r(1), of "Suc k"] by (simp add: chunk_start_Suc)
  have m: "m_ptr s = None" using r(2) by (simp add: chunk_stream_def)
  have "seekpos (int p) s = Inr (int p, s2)"
    using s1(1,2,3) k u m unfolding seekpos_def Let_def nat_int s1_def [symmetric] by (simp add: s2_def)
  moreover have "reads_on f p s2"
    using r(1) s1 k l None chunks_ok_end [OF r(1)] by (auto simp: reads_on_chunks chunk_stream_def stream_pos_def s2_def setg_def)
  ultimately show ?thesis by blast
next
  case (Some a)
  then show ?thesis using assms by (auto simp: reads_on_array array_stream_def seekpos_def setg_def file_bytes_def)
qed

lemma streamsize_of_nat: "n < 2 ^ 63 \<Longrightarrow> unsignedToStreamsize (word_of_int (int n)) True = int n"
proof -
  assume n: "n < 2 ^ 63"
  then have "signed_take_bit 63 (int n) = int n" by (intro signed_take_bit_int_eq_self) simp_all
  then have "sint (word_of_int (int n) :: u64) = int n" by (simp add: signed_of_nat)
  then show ?thesis by (simp add: unsignedToStreamsize_def)
qed

text \<open>The origin of a relative seek, when the stream is not behind the last of several arrays.\<close>

definition origin_of :: "nat \<Rightarrow> nat \<Rightarrow> seekdir \<Rightarrow> nat" where
  "origin_of len pos way = (case way of Seek_beg \<Rightarrow> 0 | Seek_cur \<Rightarrow> pos | Seek_end \<Rightarrow> len)"

lemma seek_origin_reads:
  assumes "reads_on f pos s" "mf_ptr f \<noteq> None \<or> pos < length (file_bytes f)"
  shows "seek_origin way s = Inr (origin_of (length (file_bytes f)) pos way)" "eback s \<noteq> None" "length (file_bytes f) < 2 ^ 63"
proof -
  have "seek_origin way s = Inr (origin_of (length (file_bytes f)) pos way) \<and> eback s \<noteq> None \<and> length (file_bytes f) < 2 ^ 63"
  proof (cases "mf_ptr f")
    case None
    let ?cs = "mf_chunks f"
    have r: "chunks_ok ?cs" "chunk_stream ?cs s" "stream_pos s = pos" using assms None by (simp_all add: reads_on_chunks)
    have b: "file_bytes f = chunks_bytes ?cs" using None by (simp add: file_bytes_def)
    have k: "m_chunk s < length ?cs - 1" using underflow_at_end(2) [OF r(1,2)] assms(2) None r(3) b by fastforce
    have p: "pos = chunk_start ?cs (m_chunk s) + gptr s" using chunk_stream_pos(1) [OF r(1,2)] r(3) k by simp
    have l: "length (chunks_bytes ?cs) < 2 ^ 63"
      using chunk_start_small [OF r(1), of "length ?cs - 1"] chunk_start_end [OF r(1)] by simp
    moreover have "pos < 2 ^ 63" using l assms(2) None b by simp
    moreover have "eback s \<noteq> None" using r(2) k chunks_ok_nth [OF r(1) k] by (auto simp: chunk_stream_def chunk_ok_def split: option.splits)
    ultimately show ?thesis
      using r(2) k p b sum_sizes_from [OF r(1), of "m_chunk s"]
      by (cases way) (auto simp: seek_origin_def origin_of_def chunk_stream_def)
  next
    case (Some a)
    then show ?thesis
      using assms by (cases way) (auto simp: reads_on_array array_stream_def seek_origin_def origin_of_def file_bytes_def)
  qed
  then show "seek_origin way s = Inr (origin_of (length (file_bytes f)) pos way)" "eback s \<noteq> None" "length (file_bytes f) < 2 ^ 63" by simp_all
qed

lemma seekoff_reads:
  assumes "reads_on f pos s" "mf_ptr f \<noteq> None \<or> pos < length (file_bytes f)"
    and t: "t = int (origin_of (length (file_bytes f)) pos way) + off" "t \<le> int (length (file_bytes f))"
  shows "\<exists>s'. seekoff off way s = Inr (if t < 0 then -1 else t, s') \<and> reads_on f (if t < 0 then pos else nat t) s'"
proof (cases "t < 0")
  case True
  then show ?thesis using seek_origin_reads [OF assms(1,2)] assms(1) t(1) by (auto simp: seekoff_def)
next
  case False
  note o = seek_origin_reads [OF assms(1,2)]
  define q where "q = nat t"
  have q: "t = int q" "q \<le> length (file_bytes f)" "q < 2 ^ 63" using False t(2) o(3) by (simp_all add: q_def)
  have "seekoff off way s = seekpos (int q) s"
    using o(1,2) q t(1) streamsize_of_nat [OF q(3)] by (auto simp: seekoff_def Let_def)
  then show ?thesis using seekpos_reads [OF assms(1) q(2)] q(1) by auto
qed

subsection \<open>Sequences of operations\<close>

text \<open>
  The operations of a reader, their results, and the reference: the contents of the file and a
  position. A seek behind the end is not admitted, nor a relative one at the end of several arrays.
\<close>

datatype stream_op = Peek | Get | Read nat | Seekpos nat | Seekoff int seekdir
datatype stream_result = Char int | Bytes octets | Pos int

definition stream_exec :: "stream_op \<Rightarrow> MemIStreamBuf \<Rightarrow> mem_fault + (stream_result \<times> MemIStreamBuf)" where
  "stream_exec x s =
     (case x of
        Peek \<Rightarrow> map_sum id (apfst Char) (sgetc s)
      | Get \<Rightarrow> map_sum id (apfst Char) (sbumpc s)
      | Read n \<Rightarrow> map_sum id (apfst Bytes) (xsgetn n s)
      | Seekpos p \<Rightarrow> map_sum id (apfst Pos) (seekpos (int p) s)
      | Seekoff off way \<Rightarrow> map_sum id (apfst Pos) (seekoff off way s))"

definition seek_target :: "octets \<Rightarrow> nat \<Rightarrow> int \<Rightarrow> seekdir \<Rightarrow> int" where
  "seek_target bs pos off way = int (origin_of (length bs) pos way) + off"

definition bytes_exec :: "octets \<Rightarrow> stream_op \<Rightarrow> nat \<Rightarrow> stream_result \<times> nat" where
  "bytes_exec bs x pos =
     (case x of
        Peek \<Rightarrow> (Char (if pos < length bs then uint (bs ! pos) else eof), pos)
      | Get \<Rightarrow> (Char (if pos < length bs then uint (bs ! pos) else eof), min (pos + 1) (length bs))
      | Read n \<Rightarrow> (Bytes (take n (drop pos bs)), min (pos + n) (length bs))
      | Seekpos p \<Rightarrow> (Pos (int p), p)
      | Seekoff off way \<Rightarrow>
          (let t = seek_target bs pos off way in if t < 0 then (Pos (-1), pos) else (Pos t, nat t)))"

definition op_admitted :: "StaticMemFile \<Rightarrow> nat \<Rightarrow> stream_op \<Rightarrow> bool" where
  "op_admitted f pos x =
     (case x of
        Seekpos p \<Rightarrow> p \<le> length (file_bytes f)
      | Seekoff off way \<Rightarrow> (mf_ptr f \<noteq> None \<or> pos < length (file_bytes f)) \<and>
          seek_target (file_bytes f) pos off way \<le> int (length (file_bytes f))
      | _ \<Rightarrow> True)"

fun run_all :: "('x \<Rightarrow> 's \<Rightarrow> 'e + ('r \<times> 's)) \<Rightarrow> 'x list \<Rightarrow> 's \<Rightarrow> 'e + ('r list \<times> 's)" where
  "run_all exec [] s = Inr ([], s)"
| "run_all exec (x # xs) s = sbind (exec x s) (\<lambda>(r, s1). sbind (run_all exec xs s1) (\<lambda>(rs, s2). Inr (r # rs, s2)))"

fun ref_all :: "('x \<Rightarrow> 'a \<Rightarrow> 'r \<times> 'a) \<Rightarrow> 'x list \<Rightarrow> 'a \<Rightarrow> 'r list \<times> 'a" where
  "ref_all ref [] a = ([], a)"
| "ref_all ref (x # xs) a = (case ref x a of (r, a1) \<Rightarrow> case ref_all ref xs a1 of (rs, a2) \<Rightarrow> (r # rs, a2))"

fun admitted_all :: "('x \<Rightarrow> 'a \<Rightarrow> 'r \<times> 'a) \<Rightarrow> ('a \<Rightarrow> 'x \<Rightarrow> bool) \<Rightarrow> 'x list \<Rightarrow> 'a \<Rightarrow> bool" where
  "admitted_all ref adm [] a \<longleftrightarrow> True"
| "admitted_all ref adm (x # xs) a \<longleftrightarrow> adm a x \<and> admitted_all ref adm xs (snd (ref x a))"

text \<open>An implementation that simulates a reference gives its results, for every admitted sequence.\<close>

locale simulated =
  fixes exec :: "'x \<Rightarrow> 's \<Rightarrow> 'e + ('r \<times> 's)" and ref :: "'c \<Rightarrow> 'x \<Rightarrow> 'a \<Rightarrow> 'r \<times> 'a"
    and adm :: "'c \<Rightarrow> 'a \<Rightarrow> 'x \<Rightarrow> bool" and represents :: "'c \<Rightarrow> 'a \<Rightarrow> 's \<Rightarrow> bool"
  assumes exec_refines: "represents c a s \<Longrightarrow> adm c a x \<Longrightarrow> \<exists>s'. exec x s = Inr (fst (ref c x a), s') \<and> represents c (snd (ref c x a)) s'"
begin

lemma run_refines:
  "represents c a s \<Longrightarrow> admitted_all (ref c) (adm c) xs a \<Longrightarrow>
    \<exists>s'. run_all exec xs s = Inr (fst (ref_all (ref c) xs a), s') \<and> represents c (snd (ref_all (ref c) xs a)) s'"
proof (induction xs arbitrary: a s)
  case (Cons x xs)
  then obtain s' where "exec x s = Inr (fst (ref c x a), s')" "represents c (snd (ref c x a)) s'"
    using exec_refines [of c a s x] by auto
  moreover from Cons.IH [OF this(2)] Cons.prems(2) obtain s'' where
    "run_all exec xs s' = Inr (fst (ref_all (ref c) xs (snd (ref c x a))), s'')"
    "represents c (snd (ref_all (ref c) xs (snd (ref c x a)))) s''" by auto
  ultimately show ?case by (auto simp: split_beta)
qed simp

end

interpretation stream: simulated stream_exec "\<lambda>f. bytes_exec (file_bytes f)" op_admitted reads_on
proof
  fix f pos s x
  assume r: "reads_on f pos s" and a: "op_admitted f pos x"
  show "\<exists>s'. stream_exec x s = Inr (fst (bytes_exec (file_bytes f) x pos), s') \<and> reads_on f (snd (bytes_exec (file_bytes f) x pos)) s'"
  proof (cases x)
    case Peek
    then show ?thesis using sgetc_reads(1) [OF r] by (auto simp: stream_exec_def bytes_exec_def)
  next
    case Get
    then show ?thesis using sgetc_reads(2) [OF r] by (auto simp: stream_exec_def bytes_exec_def)
  next
    case (Read n)
    then show ?thesis using xsgetn_loop_reads [OF r, of n "[]"] by (auto simp: stream_exec_def bytes_exec_def xsgetn_def)
  next
    case (Seekpos p)
    then show ?thesis using seekpos_reads [OF r, of p] a by (auto simp: stream_exec_def bytes_exec_def op_admitted_def)
  next
    case (Seekoff off way)
    then show ?thesis
      using seekoff_reads [OF r, of "seek_target (file_bytes f) pos off way" way off] a
      by (auto simp: stream_exec_def bytes_exec_def op_admitted_def seek_target_def Let_def split: if_splits)
  qed
qed

definition read_file :: "StaticMemFile \<Rightarrow> stream_op list \<Rightarrow> mem_fault + stream_result list" where
  "read_file f xs = sbind (file_openReadonly f) (\<lambda>s. map_sum id fst (run_all stream_exec xs s))"

lemma size_of_file:
  assumes "file_ok f"
  shows "StaticMemFile_size f = Inr (length (file_bytes f))"
proof (cases "mf_ptr f")
  case None
  then have "chunks_ok (mf_chunks f)" using assms by (simp add: file_ok_def)
  from sum_sizes_from [OF this, of 0] None show ?thesis by (simp add: StaticMemFile_size_def file_bytes_def)
qed (use assms in \<open>auto simp: StaticMemFile_size_def file_bytes_def file_ok_def\<close>)

text \<open>
  Claim C21: a stream on an in-memory file reads the arrays of the file as one sequence of bytes: every
  admitted sequence of peeks, reads and seeks gives what it gives on the concatenated arrays, without
  a step outside of an array, and the size of the file is the length of the concatenation.
\<close>

theorem file_reads_as_one:
  assumes "file_ok f" "admitted_all (bytes_exec (file_bytes f)) (op_admitted f) xs 0"
  shows "read_file f xs = Inr (fst (ref_all (bytes_exec (file_bytes f)) xs 0)) \<and> StaticMemFile_size f = Inr (length (file_bytes f))"
proof -
  obtain s where "file_openReadonly f = Inr s" "reads_on f 0 s" using opened_at_start [OF assms(1)] by blast
  with stream.run_refines [of f 0 s xs] assms size_of_file [OF assms(1)] show ?thesis by (auto simp: read_file_def)
qed

definition sample_file :: StaticMemFile where
  "sample_file = StaticMemFile_chunks
     [\<lparr>chunk_ptr = Some (oct ''abc''), chunk_size = 3\<rparr>, \<lparr>chunk_ptr = Some (oct ''d''), chunk_size = 1\<rparr>, \<lparr>chunk_ptr = None, chunk_size = 0\<rparr>] (-1)"

lemma sample_file_ok: "file_ok sample_file"
  by (simp add: sample_file_def StaticMemFile_chunks_def file_ok_def chunks_ok_def chunk_ok_def)

lemma sample_file_bytes: "file_bytes sample_file = oct ''abcd''"
  by code_simp

theorem file_reads_as_one_witness:
  "read_file sample_file [Read 2, Peek, Seekoff 1 Seek_cur, Get, Peek, Seekpos 1, Read 9, Get, Seekpos 0, Seekoff (-1) Seek_end, Get] =
     Inr [Bytes (oct ''ab''), Char 99, Pos 3, Char 100, Char eof, Pos 1, Bytes (oct ''bcd''), Char eof, Pos 0, Pos 3, Char 100] \<and>
   StaticMemFile_size sample_file = Inr 4"
proof -
  let ?xs = "[Read 2, Peek, Seekoff 1 Seek_cur, Get, Peek, Seekpos 1, Read 9, Get, Seekpos 0, Seekoff (-1) Seek_end, Get]"
  have a: "admitted_all (bytes_exec (file_bytes sample_file)) (op_admitted sample_file) ?xs 0" by code_simp
  have "fst (ref_all (bytes_exec (file_bytes sample_file)) ?xs 0) =
    [Bytes (oct ''ab''), Char 99, Pos 3, Char 100, Char eof, Pos 1, Bytes (oct ''bcd''), Char eof, Pos 0, Pos 3, Char 100]" by code_simp
  with file_reads_as_one [OF sample_file_ok a] show ?thesis by (simp add: sample_file_bytes)
qed

subsection \<open>Where the buffer loses its position\<close>

lemmas stream_eval = read_file_def sample_file_def StaticMemFile_chunks_def file_openReadonly_def buf_of_chunks_def stream_exec_def
  seekoff_def seek_origin_def seekpos_def setg_def xsgetn_def xsgetn_loop.simps fill_def underflow_def underflow_common_def chunk_at_def
  byte_at_def bytes_at_def gbump_def oct_def ull_def unsignedToStreamsize_def

text \<open>
  At the end of several arrays the get area is the null pointer of the last entry, and asking for the
  position fails: the size of the file cannot be found by a seek to the end.
\<close>

lemma position_unknown_at_end: "read_file sample_file [Seekoff 0 Seek_end, Seekoff 0 Seek_cur] = Inr [Pos 4, Pos (-1)]"
  by (simp add: stream_eval)

text \<open>After a read that meets the end the used-up array is counted a second time.\<close>

lemma position_lost_after_end: "read_file sample_file [Read 9, Seekoff 0 Seek_cur] = Inr [Bytes (oct ''abcd''), Pos (-1)]"
  by (simp add: stream_eval)

text \<open>A seek behind the end fails, but has moved to the last entry already: the arrays between are skipped.\<close>

lemma failed_seek_skips_arrays: "read_file sample_file [Seekpos 9, Read 9] = Inr [Pos (-1), Bytes (oct ''abc'')]"
  by (simp add: stream_eval)

text \<open>
  Taking back a byte at the start of an array goes to the offset of the last byte of this array in
  the one before; a byte that was not read is accepted, the one that is at that offset is refused.
\<close>

definition back_at :: "nat \<Rightarrow> (MemIStreamBuf \<Rightarrow> mem_fault + (int \<times> MemIStreamBuf)) \<Rightarrow> mem_fault + (int \<times> nat)" where
  "back_at p back =
     sbind (file_openReadonly sample_file) (\<lambda>s. sbind (seekpos (int p) s) (\<lambda>(_, s1). sbind (back s1) (\<lambda>(c, s2). Inr (c, stream_pos s2))))"

lemma putback_misplaced:
  "back_at 3 sungetc = Inr (0, 0)" "back_at 3 (sputbackc (of_char CHR ''x'')) = Inr (120, 0)" "back_at 3 (sputbackc (of_char CHR ''a'')) = Inr (-1, 3)"
  by (simp_all add: back_at_def stream_eval sungetc_def sputbackc_def pbackfail_def ull_minus_def stream_pos_def)

text \<open>An array of size zero ends the file, whatever its pointer is.\<close>

lemma empty_array_ends_file:
  "read_file (StaticMemFile_chunks [\<lparr>chunk_ptr = Some (oct ''a''), chunk_size = 1\<rparr>, \<lparr>chunk_ptr = Some [], chunk_size = 0\<rparr>,
      \<lparr>chunk_ptr = Some (oct ''b''), chunk_size = 1\<rparr>, \<lparr>chunk_ptr = None, chunk_size = 0\<rparr>] 0) [Read 9] = Inr [Bytes (oct ''a'')]"
  by (simp add: stream_eval)

end
