(* ===== verification/MemFs.thy ===== *)
theory MemFs
  imports MemFileProps UriProps
begin

text \<open>
  The in-memory file system, \<^verbatim>\<open>src/core/local/util/memfs/src/OcpiUtilStaticMemFs.cxx\<close>, the name helpers
  and the copying of \<^verbatim>\<open>src/core/local/util/vfs/src/OcpiUtilVfs.cxx\<close>: a mounted file is found under its
  name and its identifier, whatever is mounted later and wherever the working directory is, and
  copying it writes its contents.
\<close>

subsection \<open>Names\<close>

datatype fs_error = Thrown string | Assertion | Fault mem_fault

definition joinNames :: "string \<Rightarrow> string \<Rightarrow> fs_error + string" where
  "joinNames dir name =
     (if length name = 0 then Inl Assertion
      else if name ! 0 = CHR ''/'' then Inr name
      else if length dir = 0 then Inl Assertion
      else Inr ((if length dir \<noteq> 1 \<or> dir ! 0 \<noteq> CHR ''/'' then dir @ ''/'' else dir) @ name))"

text \<open>The position of the last slash cuts a name; the part behind it has none.\<close>

definition after_last_slash :: "string \<Rightarrow> string" where
  "after_last_slash name = rev (takeWhile (\<lambda>c. c \<noteq> CHR ''/'') (rev name))"

definition before_last_slash :: "string \<Rightarrow> string" where
  "before_last_slash name = rev (drop 1 (dropWhile (\<lambda>c. c \<noteq> CHR ''/'') (rev name)))"

definition vfs_directoryName :: "string \<Rightarrow> fs_error + string" where
  "vfs_directoryName name =
     (if CHR ''/'' \<notin> set name then Inl (Thrown ''single path component'')
      else if before_last_slash name = [] then Inr ''/''
      else Inr (before_last_slash name))"

definition relativeName :: "string \<Rightarrow> string" where
  "relativeName name =
     (if CHR ''/'' \<notin> set name then name else if name = ''/'' then ''/'' else after_last_slash name)"

definition quoted :: "string \<Rightarrow> string" where
  "quoted s = CHR 0x22 # s @ [CHR 0x22]"

definition test_component :: "string \<Rightarrow> fs_error + unit" where
  "test_component c =
     (if length c = 0 then Inl (Thrown ''invalid file name: empty path component'')
      else if c = ''.'' \<or> c = ''..'' then Inl (Thrown (''invalid file name: '' @ quoted c @ '': invalid path component''))
      else if \<exists>x\<in>set c. x \<in> set (''<>'' @ [CHR 0x5C] @ ''|'' @ [CHR 0x22])
        then Inl (Thrown (''invalid file name: '' @ quoted c @ '': invalid character in path component''))
      else Inr ())"

function test_components :: "string \<Rightarrow> fs_error + unit" where
  "test_components s =
     (let c = takeWhile (\<lambda>x. x \<noteq> CHR ''/'') s; t = dropWhile (\<lambda>x. x \<noteq> CHR ''/'') s in
      case test_component c of Inl e \<Rightarrow> Inl e
      | Inr _ \<Rightarrow> (case t of [] \<Rightarrow> Inr () | _ # u \<Rightarrow> test_components u))"
  by pat_completeness auto
termination
proof (relation "measure length", simp)
  fix s :: string and c t x u b
  assume "t = dropWhile (\<lambda>x. x \<noteq> CHR ''/'') s" "t = x # u"
  then have "length (x # u) \<le> length s" by (metis length_dropWhile_le)
  then show "(u, s) \<in> measure length" by simp
qed

definition testFilenameForValidity :: "string \<Rightarrow> fs_error + unit" where
  "testFilenameForValidity name =
     (if length name = 0 then Inl (Thrown ''empty file name'')
      else if length name = 1 \<and> name ! 0 = CHR ''/'' then Inr ()
      else if last name = CHR ''/'' then Inl (Thrown ''file name may not end with a slash'')
      else test_components (if name ! 0 = CHR ''/'' then drop 1 name else name))"

subsection \<open>The file system\<close>

text \<open>
  The map of the contents is a list of its entries; the loop of \<^verbatim>\<open>exists\<close> is the only one over it, and
  the order does not matter there. The lock is not modelled: every operation holds it to its end.
\<close>

record INode =
  adopted :: bool
  node_file :: StaticMemFile

record StaticMemFs =
  m_cwd :: string
  m_baseURI :: string
  m_contents :: "(string \<times> INode) list"

definition StaticMemFs_init :: StaticMemFs where
  "StaticMemFs_init = \<lparr>m_cwd = ''/'', m_baseURI = ''static:///'', m_contents = []\<rparr>"

definition absoluteNameLocked :: "StaticMemFs \<Rightarrow> string \<Rightarrow> fs_error + string" where
  "absoluteNameLocked fs name = joinNames (m_cwd fs) name"

definition fs_mount :: "string \<Rightarrow> StaticMemFile \<Rightarrow> bool \<Rightarrow> StaticMemFs \<Rightarrow> fs_error + StaticMemFs" where
  "fs_mount fileName f adopt fs =
     sbind (absoluteNameLocked fs fileName) (\<lambda>absName.
       if map_of (m_contents fs) absName \<noteq> None then Inl (Thrown ''already mounted'')
       else Inr (fs\<lparr>m_contents := (absName, \<lparr>adopted = adopt, node_file = f\<rparr>) # m_contents fs\<rparr>))"

definition nameToURI :: "StaticMemFs \<Rightarrow> string \<Rightarrow> fs_error + string" where
  "nameToURI fs fileName =
     sbind (testFilenameForValidity fileName) (\<lambda>_.
       sbind (absoluteNameLocked fs fileName) (\<lambda>an. Inr (butlast (m_baseURI fs) @ encodeURI ''/'' an)))"

definition URIToName :: "StaticMemFs \<Rightarrow> string \<Rightarrow> fs_error + string" where
  "URIToName fs uri =
     (if length uri < length (m_baseURI fs) \<or> take (length (m_baseURI fs)) uri \<noteq> m_baseURI fs
      then Inl (Thrown ''URI not understood by this file system'')
      else Inr (decodeURI (drop (length (m_baseURI fs) - 1) uri)))"

definition fs_cd :: "string \<Rightarrow> StaticMemFs \<Rightarrow> fs_error + StaticMemFs" where
  "fs_cd fileName fs =
     sbind (testFilenameForValidity fileName) (\<lambda>_.
       sbind (absoluteNameLocked fs fileName) (\<lambda>nn.
         if map_of (m_contents fs) nn \<noteq> None
         then Inl (Thrown (''cannot change cwd to '' @ quoted fileName @ '': file exists as a plain file''))
         else Inr (fs\<lparr>m_cwd := nn\<rparr>)))"

definition fs_mkdir :: "string \<Rightarrow> StaticMemFs \<Rightarrow> fs_error + StaticMemFs" where
  "fs_mkdir name fs = Inl (Thrown ''mkdir not supported on StaticMemFs'')"

definition fs_rmdir :: "string \<Rightarrow> StaticMemFs \<Rightarrow> fs_error + StaticMemFs" where
  "fs_rmdir name fs = Inl (Thrown ''rmdir not supported on StaticMemFs'')"

definition fs_remove :: "string \<Rightarrow> StaticMemFs \<Rightarrow> fs_error + StaticMemFs" where
  "fs_remove name fs = Inl (Thrown ''not supported'')"

text \<open>The result with \<^verbatim>\<open>isDir\<close>, which is set only when something is found.\<close>

definition fs_exists :: "string \<Rightarrow> StaticMemFs \<Rightarrow> fs_error + (bool \<times> bool option)" where
  "fs_exists fileName fs =
     sbind (testFilenameForValidity fileName) (\<lambda>_.
       sbind (absoluteNameLocked fs fileName) (\<lambda>nn.
         if map_of (m_contents fs) nn \<noteq> None then Inr (True, Some False)
         else if \<exists>(k, _)\<in>set (m_contents fs). length k > length nn \<and> take (length nn) k = nn \<and> k ! length nn = CHR ''/''
           then Inr (True, Some True)
         else Inr (False, None)))"

definition fs_find :: "string \<Rightarrow> StaticMemFs \<Rightarrow> fs_error + StaticMemFile" where
  "fs_find fileName fs =
     sbind (testFilenameForValidity fileName) (\<lambda>_.
       sbind (absoluteNameLocked fs fileName) (\<lambda>nn.
         case map_of (m_contents fs) nn of None \<Rightarrow> Inl (Thrown ''file not found'') | Some node \<Rightarrow> Inr (node_file node)))"

definition faulty :: "mem_fault + 'a \<Rightarrow> fs_error + 'a" where
  "faulty r = map_sum Fault id r"

definition fs_size :: "string \<Rightarrow> StaticMemFs \<Rightarrow> fs_error + nat" where
  "fs_size fileName fs = sbind (fs_find fileName fs) (\<lambda>f. faulty (StaticMemFile_size f))"

definition fs_lastModified :: "string \<Rightarrow> StaticMemFs \<Rightarrow> fs_error + int" where
  "fs_lastModified fileName fs = sbind (fs_find fileName fs) (\<lambda>f. Inr (StaticMemFile_lastModified f))"

definition fs_openReadonly :: "string \<Rightarrow> StaticMemFs \<Rightarrow> fs_error + MemIStreamBuf" where
  "fs_openReadonly fileName fs = sbind (fs_find fileName fs) (\<lambda>f. faulty (file_openReadonly f))"

subsection \<open>Copying\<close>

text \<open>
  The target of a copy is a stream of another file system: what opening and closing it throws, and
  whether it is good after a block is written behind what was written before.
\<close>

record copy_target =
  target_open :: "fs_error option"
  target_accepts :: "octets \<Rightarrow> octets \<Rightarrow> bool"
  target_close :: "fs_error option"

text \<open>A read that gets less than it asks for sets the end and the failure state of the source.\<close>

partial_function (option) copy_loop :: "(octets \<Rightarrow> octets \<Rightarrow> bool) \<Rightarrow> bool \<Rightarrow> bool \<Rightarrow> MemIStreamBuf \<Rightarrow> octets \<Rightarrow> (fs_error + (bool \<times> octets)) option" where
  "copy_loop accepts src_eof dest_good s w =
     (if src_eof \<or> \<not> dest_good then Some (Inr (dest_good, w))
      else (case xsgetn 16384 s of
        Inl f \<Rightarrow> Some (Inl (Fault f))
      | Inr (bs, s1) \<Rightarrow> copy_loop accepts (length bs < 16384) (accepts w bs) s1 (w @ bs)))"

text \<open>
  The outcome is the file that was written, or the error and whether the target was removed. A step
  outside of an array is undefined and ends the model of the copy.
\<close>

definition vfs_copy :: "string \<Rightarrow> StaticMemFs \<Rightarrow> copy_target \<Rightarrow> ((fs_error \<times> bool) + octets) option" where
  "vfs_copy src fs d =
     (case fs_openReadonly src fs of
        Inl e \<Rightarrow> Some (Inl (e, False))
      | Inr s \<Rightarrow> (case target_open d of
          Some e \<Rightarrow> Some (Inl (e, False))
        | None \<Rightarrow> (case copy_loop (target_accepts d) False True s [] of
            None \<Rightarrow> None
          | Some (Inl e) \<Rightarrow> Some (Inl (e, False))
          | Some (Inr (good, w)) \<Rightarrow>
              (if \<not> good then Some (Inl (Thrown ''error writing target file'', True))
               else (case target_close d of Some e \<Rightarrow> Some (Inl (e, True)) | None \<Rightarrow> Some (Inr w))))))"

end
