(* ===== verification/MemFsProps.thy ===== *)
theory MemFsProps
  imports MemFs
begin

text \<open>
  Mounted files are found and copied: the working directory stays absolute, mounting never replaces
  a file, names and identifiers are converted into each other, and copying ends with the contents.
\<close>

subsection \<open>Reachable file systems\<close>

text \<open>An operation that throws leaves the file system as it was.\<close>

datatype fs_op = Mount string StaticMemFile bool | Cd string

definition fs_exec :: "fs_op \<Rightarrow> StaticMemFs \<Rightarrow> StaticMemFs" where
  "fs_exec x fs =
     (case (case x of Mount n f a \<Rightarrow> fs_mount n f a fs | Cd n \<Rightarrow> fs_cd n fs) of Inl _ \<Rightarrow> fs | Inr fs' \<Rightarrow> fs')"

definition fs_run :: "fs_op list \<Rightarrow> StaticMemFs \<Rightarrow> StaticMemFs" where
  "fs_run xs fs = fold fs_exec xs fs"

definition absolute :: "string \<Rightarrow> bool" where
  "absolute n \<longleftrightarrow> n \<noteq> [] \<and> hd n = CHR ''/''"

definition fs_ok :: "StaticMemFs \<Rightarrow> bool" where
  "fs_ok fs \<longleftrightarrow> m_baseURI fs = ''static:///'' \<and> absolute (m_cwd fs)"

lemma join_absolute [simp]: "absolute name \<Longrightarrow> joinNames dir name = Inr name"
  by (cases name) (auto simp: joinNames_def absolute_def)

lemma joined_absolute: "joinNames dir name = Inr an \<Longrightarrow> absolute dir \<Longrightarrow> absolute an"
  by (cases name) (auto simp: joinNames_def absolute_def split: if_splits)

lemma absolute_name_ok: "fs_ok fs \<Longrightarrow> absoluteNameLocked fs name = Inr an \<Longrightarrow> absolute an"
  by (auto simp: absoluteNameLocked_def fs_ok_def dest: joined_absolute)

lemma fs_exec_ok: "fs_ok fs \<Longrightarrow> fs_ok (fs_exec x fs)"
  by (auto simp: fs_exec_def fs_mount_def fs_cd_def fs_ok_def absoluteNameLocked_def Let_def
      intro: joined_absolute split: fs_op.splits sum.splits if_splits)

lemma fs_exec_keeps: "map_of (m_contents fs) an = Some node \<Longrightarrow> map_of (m_contents (fs_exec x fs)) an = Some node"
  by (auto simp: fs_exec_def fs_mount_def fs_cd_def split: fs_op.splits sum.splits if_splits)

lemma fs_run_ok: "fs_ok fs \<Longrightarrow> fs_ok (fs_run xs fs)"
  by (induction xs arbitrary: fs) (auto simp: fs_run_def fs_exec_ok)

lemma fs_run_keeps: "map_of (m_contents fs) an = Some node \<Longrightarrow> map_of (m_contents (fs_run xs fs)) an = Some node"
  by (induction xs arbitrary: fs) (auto simp: fs_run_def fs_exec_keeps)

lemma fs_init_ok: "fs_ok StaticMemFs_init"
  by (simp add: StaticMemFs_init_def fs_ok_def absolute_def)

lemma mounted_entry:
  assumes "fs_ok fs" "fs_mount name f adopt fs = Inr fs1" "absoluteNameLocked fs name = Inr an"
  shows "fs_ok (fs_run ys fs1)" "map_of (m_contents (fs_run ys fs1)) an = Some \<lparr>adopted = adopt, node_file = f\<rparr>" "absolute an"
proof -
  have "fs_ok fs1" "map_of (m_contents fs1) an = Some \<lparr>adopted = adopt, node_file = f\<rparr>"
    using assms by (auto simp: fs_mount_def fs_ok_def split: if_splits)
  then show "fs_ok (fs_run ys fs1)" "map_of (m_contents (fs_run ys fs1)) an = Some \<lparr>adopted = adopt, node_file = f\<rparr>"
    by (simp_all add: fs_run_ok fs_run_keeps)
  show "absolute an" by (rule absolute_name_ok [OF assms(1,3)])
qed

subsection \<open>Names and identifiers\<close>

text \<open>A name that is joined from a directory and a plain name has these as its parts.\<close>

lemma joined_parts:
  assumes "absolute dir" "last dir \<noteq> CHR ''/'' \<or> dir = ''/''" "n \<noteq> []" "CHR ''/'' \<notin> set n"
  shows "\<exists>j. joinNames dir n = Inr j \<and> vfs_directoryName j = Inr dir \<and> relativeName j = n"
proof -
  define d where "d = (if dir = ''/'' then [] else dir)"
  have j: "joinNames dir n = Inr (d @ CHR ''/'' # n)"
  proof -
    have "n ! 0 \<noteq> CHR ''/''" using assms(3,4) by (cases n) auto
    moreover have "length dir \<noteq> 1 \<or> dir ! 0 \<noteq> CHR ''/'' \<longleftrightarrow> dir \<noteq> ''/''" by (cases dir) auto
    ultimately show ?thesis using assms(1,3) by (auto simp: joinNames_def absolute_def d_def)
  qed
  have r: "rev (d @ CHR ''/'' # n) = rev n @ CHR ''/'' # rev d" by simp
  have p: "x \<noteq> CHR ''/''" if "x \<in> set (rev n)" for x using that assms(4) by auto
  have t: "takeWhile (\<lambda>c. c \<noteq> CHR ''/'') (rev n @ CHR ''/'' # rev d) = rev n"
    "dropWhile (\<lambda>c. c \<noteq> CHR ''/'') (rev n @ CHR ''/'' # rev d) = CHR ''/'' # rev d"
    using takeWhile_append2 [of "rev n" "\<lambda>c. c \<noteq> CHR ''/''", OF p] dropWhile_append2 [of "rev n" "\<lambda>c. c \<noteq> CHR ''/''", OF p] by simp_all
  have "before_last_slash (d @ CHR ''/'' # n) = d" "after_last_slash (d @ CHR ''/'' # n) = n"
    unfolding before_last_slash_def after_last_slash_def r t by simp_all
  moreover have "d = [] \<longleftrightarrow> dir = ''/''" "d \<noteq> [] \<Longrightarrow> d = dir" using assms(1) by (auto simp: d_def absolute_def)
  moreover have "d @ CHR ''/'' # n \<noteq> ''/''" using assms(3) by (cases d) auto
  ultimately show ?thesis using j by (cases "d = []") (simp_all add: vfs_directoryName_def relativeName_def)
qed

lemma encode_absolute:
  assumes "absolute an"
  shows "encodeURI ''/'' an = CHR ''/'' # encodeURI ''/'' (tl an)"
  using assms by (cases an) (simp_all add: absolute_def encodeURI_def encode_char_def)

lemma name_of_uri:
  assumes "fs_ok fs" "absolute an" "testFilenameForValidity an = Inr ()"
  shows "\<exists>u. nameToURI fs an = Inr u \<and> URIToName fs u = Inr an"
proof -
  have "decodeURI (CHR ''/'' # encodeURI ''/'' (tl an)) = an"
    using decode_encode [of "''/''" an] encode_absolute [OF assms(2)] by simp
  then show ?thesis
    using assms encode_absolute [OF assms(2)]
    by (simp add: nameToURI_def URIToName_def absoluteNameLocked_def fs_ok_def)
qed

text \<open>
  Claim C22: a file is mounted, under an absolute name or one relative to the working directory, in a
  file system that was brought about by any mounts and changes of the directory. Whatever is mounted
  and wherever the directory is changed to afterwards, its absolute name opens this file and gives its
  size, exists as a file and cannot be mounted again, and is recovered from its identifier.
\<close>

theorem mounted_file_is_found:
  assumes "fs_mount name f adopt (fs_run xs StaticMemFs_init) = Inr fs1"
    and "absoluteNameLocked (fs_run xs StaticMemFs_init) name = Inr an" "testFilenameForValidity an = Inr ()"
  shows "fs_openReadonly an (fs_run ys fs1) = faulty (file_openReadonly f) \<and> fs_size an (fs_run ys fs1) = faulty (StaticMemFile_size f) \<and>
    fs_exists an (fs_run ys fs1) = Inr (True, Some False) \<and> fs_mount an g b (fs_run ys fs1) = Inl (Thrown ''already mounted'') \<and>
    (\<exists>u. nameToURI (fs_run ys fs1) an = Inr u \<and> URIToName (fs_run ys fs1) u = Inr an)"
proof -
  note e = mounted_entry [OF fs_run_ok [OF fs_init_ok] assms(1,2)]
  show ?thesis
    using e assms(3) name_of_uri [OF e(1,3) assms(3)]
    by (simp add: fs_openReadonly_def fs_size_def fs_exists_def fs_find_def fs_mount_def absoluteNameLocked_def)
qed

definition sample_fs :: StaticMemFs where
  "sample_fs = \<lparr>m_cwd = ''/usr'', m_baseURI = ''static:///'', m_contents = [(''/usr/my file'', \<lparr>adopted = False, node_file = sample_file\<rparr>)]\<rparr>"

lemma sample_fs_mounted:
  "fs_mount ''my file'' sample_file False (fs_run [Cd ''/usr''] StaticMemFs_init) = Inr sample_fs"
  "absoluteNameLocked (fs_run [Cd ''/usr''] StaticMemFs_init) ''my file'' = Inr ''/usr/my file''"
  "testFilenameForValidity ''/usr/my file'' = Inr ()"
  by code_simp+

theorem mounted_file_is_found_witness:
  "(let fs = fs_run [Cd ''/tmp'', Mount ''my file'' (StaticMemFile_array [] 0 0) True, Mount ''/usr/my file'' (StaticMemFile_array [] 0 0) True] sample_fs in
    m_cwd fs = ''/tmp'' \<and> length (m_contents fs) = 2 \<and> fs_openReadonly ''/usr/my file'' fs = faulty (file_openReadonly sample_file) \<and>
    fs_size ''/usr/my file'' fs = Inr 4 \<and> fs_exists ''/usr/my file'' fs = Inr (True, Some False) \<and>
    (\<exists>u. nameToURI fs ''/usr/my file'' = Inr u \<and> URIToName fs u = Inr ''/usr/my file''))"
proof -
  let ?fs = "fs_run [Cd ''/tmp'', Mount ''my file'' (StaticMemFile_array [] 0 0) True, Mount ''/usr/my file'' (StaticMemFile_array [] 0 0) True] sample_fs"
  have "m_cwd ?fs = ''/tmp''" "length (m_contents ?fs) = 2" by code_simp+
  with mounted_file_is_found [OF sample_fs_mounted, of "[Cd ''/tmp'', Mount ''my file'' (StaticMemFile_array [] 0 0) True, Mount ''/usr/my file'' (StaticMemFile_array [] 0 0) True]"]
  show ?thesis by (simp add: size_of_file [OF sample_file_ok] sample_file_bytes faulty_def Let_def)
qed

text \<open>
  The root is found as a directory only when the name of a file starts with two slashes; and a name that
  no lookup accepts can be mounted.
\<close>

lemma root_not_found: "fs_exists ''/'' sample_fs = Inr (False, None)" "fs_exists ''/usr'' sample_fs = Inr (True, Some True)"
  by code_simp+

lemma mounted_but_unreachable:
  "m_contents (fs_exec (Mount ''a/'' sample_file False) StaticMemFs_init) = [(''/a/'', \<lparr>adopted = False, node_file = sample_file\<rparr>)]"
  "fs_openReadonly ''/a/'' (fs_exec (Mount ''a/'' sample_file False) StaticMemFs_init) = Inl (Thrown ''file name may not end with a slash'')"
  by code_simp+

subsection \<open>Copying\<close>

lemma copy_loop_ends:
  assumes "reads_on f pos s"
  shows "\<exists>good w'. copy_loop accepts False True s w = Some (Inr (good, w')) \<and> (good \<longrightarrow> w' = w @ drop pos (file_bytes f)) \<and>
    ((\<forall>v b. accepts v b) \<longrightarrow> good)"
  using assms
proof (induction "length (file_bytes f) - pos" arbitrary: pos s w rule: less_induct)
  case less
  let ?bs = "take 16384 (drop pos (file_bytes f))"
  obtain s1 where s1: "xsgetn 16384 s = Inr (?bs, s1)" "reads_on f (min (pos + 16384) (length (file_bytes f))) s1"
    using xsgetn_loop_reads [OF less.prems, of 16384 "[]"] by (auto simp: xsgetn_def)
  have le: "pos \<le> length (file_bytes f)" using less.prems by (simp add: reads_on_def)
  have c: "copy_loop accepts False True s w = copy_loop accepts (length ?bs < 16384) (accepts w ?bs) s1 (w @ ?bs)"
    by (subst copy_loop.simps) (simp add: s1(1))
  show ?case
  proof (cases "length ?bs < 16384 \<or> \<not> accepts w ?bs")
    case True
    have "length ?bs < 16384 \<Longrightarrow> ?bs = drop pos (file_bytes f)" by (auto simp: min_def split: if_splits)
    moreover have "copy_loop accepts (length ?bs < 16384) (accepts w ?bs) s1 (w @ ?bs) = Some (Inr (accepts w ?bs, w @ ?bs))"
      using True by (subst copy_loop.simps) simp
    ultimately show ?thesis unfolding c using True by auto
  next
    case False
    then have p: "pos + 16384 \<le> length (file_bytes f)" using le by (auto simp: min_def split: if_splits)
    then have r: "reads_on f (pos + 16384) s1" using s1(2) by (simp add: min_def)
    have d: "?bs @ drop (pos + 16384) (file_bytes f) = drop pos (file_bytes f)"
      by (metis add.commute append_take_drop_id drop_drop)
    have "copy_loop accepts (length ?bs < 16384) (accepts w ?bs) s1 (w @ ?bs) = copy_loop accepts False True s1 (w @ ?bs)"
      using False by simp
    moreover have "length (file_bytes f) - (pos + 16384) < length (file_bytes f) - pos" using p by linarith
    note less.hyps [OF this r, of "w @ ?bs"]
    ultimately show ?thesis unfolding c using d by (metis append.assoc)
  qed
qed

text \<open>
  Claim C23: copying a mounted file to another file system ends. If it ends without an error, exactly
  the contents of the file were written; it does so when the target opens, takes every block and closes,
  and when the target takes no block, the target is removed.
\<close>

theorem copy_writes_contents:
  assumes "fs_mount name f adopt (fs_run xs StaticMemFs_init) = Inr fs1" "file_ok f"
    and "absoluteNameLocked (fs_run xs StaticMemFs_init) name = Inr an" "testFilenameForValidity an = Inr ()"
  shows "\<exists>r. vfs_copy an (fs_run ys fs1) d = Some r \<and> (\<forall>w. r = Inr w \<longrightarrow> w = file_bytes f) \<and>
    ((\<forall>v b. target_accepts d v b) \<and> target_open d = None \<and> target_close d = None \<longrightarrow> r = Inr (file_bytes f)) \<and>
    (target_open d = None \<and> (\<forall>v b. \<not> target_accepts d v b) \<longrightarrow> r = Inl (Thrown ''error writing target file'', True))"
proof -
  note e = mounted_entry [OF fs_run_ok [OF fs_init_ok] assms(1,3)]
  obtain s where s: "file_openReadonly f = Inr s" "reads_on f 0 s" using opened_at_start [OF assms(2)] by blast
  have o: "fs_openReadonly an (fs_run ys fs1) = Inr s"
    using e assms(4) s(1) by (simp add: fs_openReadonly_def fs_find_def absoluteNameLocked_def faulty_def)
  obtain good w where c: "copy_loop (target_accepts d) False True s [] = Some (Inr (good, w))" "good \<Longrightarrow> w = file_bytes f"
    "(\<forall>v b. target_accepts d v b) \<Longrightarrow> good" using copy_loop_ends [OF s(2), of "target_accepts d" "[]"] by auto
  have "\<not> good" if "\<forall>v b. \<not> target_accepts d v b"
  proof -
    obtain s1 where "xsgetn 16384 s = Inr (take 16384 (file_bytes f), s1)"
      using xsgetn_loop_reads [OF s(2), of 16384 "[]"] by (auto simp: xsgetn_def)
    then show ?thesis using c(1) that by (simp add: copy_loop.simps [of _ False] copy_loop.simps [of _ _ False])
  qed
  then show ?thesis using o c by (auto simp: vfs_copy_def split: option.splits)
qed

theorem copy_writes_contents_witness:
  "vfs_copy ''/usr/my file'' (fs_run [Cd ''/tmp''] sample_fs) \<lparr>target_open = None, target_accepts = \<lambda>v b. True, target_close = None\<rparr> =
     Some (Inr (oct ''abcd'')) \<and>
   vfs_copy ''/usr/my file'' (fs_run [Cd ''/tmp''] sample_fs) \<lparr>target_open = None, target_accepts = \<lambda>v b. False, target_close = None\<rparr> =
     Some (Inl (Thrown ''error writing target file'', True))"
proof -
  note c = copy_writes_contents [OF sample_fs_mounted(1) sample_file_ok sample_fs_mounted(2,3), of "[Cd ''/tmp'']"]
  show ?thesis
    using c [of "\<lparr>target_open = None, target_accepts = \<lambda>v b. True, target_close = None\<rparr>"]
      c [of "\<lparr>target_open = None, target_accepts = \<lambda>v b. False, target_close = None\<rparr>"]
    by (auto simp: sample_file_bytes)
qed

end
