(* ===== verification/StreamFs.thy ===== *)
theory StreamFs
  imports MemFsProps "HOL-Library.Char_ord" "HOL-Library.List_Lexorder"
begin

text \<open>
  Archives of files in one stream, \<^verbatim>\<open>src/core/local/util/streamfs/src\<close>: the writer
  (\<^verbatim>\<open>OcpiUtilStreamFsWriter.cxx\<close>) puts the files one behind the other and a table of contents at the
  end, the reader (\<^verbatim>\<open>OcpiUtilStreamFsReader.cxx\<close>) finds the table and gives a stream for each file.
\<close>

subsection \<open>The streams below\<close>

text \<open>
  The stream that an archive is written to takes a number of characters, and fails when more are
  written; a stream that is not good takes nothing.
\<close>

record ostream =
  os_data :: string
  os_room :: nat
  os_good :: bool

definition os_write :: "string \<Rightarrow> ostream \<Rightarrow> ostream" where
  "os_write x s =
     (if \<not> os_good s then s
      else if length (os_data s) + length x \<le> os_room s then s\<lparr>os_data := os_data s @ x\<rparr>
      else s\<lparr>os_data := os_data s @ take (os_room s - length (os_data s)) x, os_good := False\<rparr>)"

text \<open>
  The stream that an archive is read from. Seeking behind the end is no error, reading there is; a
  seek clears the end state, and does nothing after a failure.
\<close>

record istream =
  is_data :: string
  is_pos :: nat
  is_eof :: bool
  is_fail :: bool

definition is_good :: "istream \<Rightarrow> bool" where
  "is_good s \<longleftrightarrow> \<not> is_eof s \<and> \<not> is_fail s"

definition is_rest :: "istream \<Rightarrow> string" where
  "is_rest s = drop (is_pos s) (is_data s)"

definition is_seekg :: "nat \<Rightarrow> istream \<Rightarrow> istream" where
  "is_seekg p s = (if is_fail s then s\<lparr>is_eof := False\<rparr> else s\<lparr>is_eof := False, is_pos := p\<rparr>)"

definition is_seekg_back :: "nat \<Rightarrow> istream \<Rightarrow> istream" where
  "is_seekg_back n s =
     (if is_fail s then s\<lparr>is_eof := False\<rparr>
      else if length (is_data s) < n then s\<lparr>is_eof := False, is_fail := True\<rparr>
      else s\<lparr>is_eof := False, is_pos := length (is_data s) - n\<rparr>)"

definition is_getline :: "istream \<Rightarrow> string \<times> istream" where
  "is_getline s =
     (if \<not> is_good s then ([], s\<lparr>is_fail := True\<rparr>)
      else let line = takeWhile (\<lambda>c. c \<noteq> CHR 0x0A) (is_rest s) in
        if length line < length (is_rest s) then (line, s\<lparr>is_pos := is_pos s + length line + 1\<rparr>)
        else (line, s\<lparr>is_pos := is_pos s + length line, is_eof := True, is_fail := (is_rest s = [])\<rparr>))"

definition is_get :: "istream \<Rightarrow> int \<times> istream" where
  "is_get s =
     (if \<not> is_good s then (eof, s\<lparr>is_fail := True\<rparr>)
      else case is_rest s of
        [] \<Rightarrow> (eof, s\<lparr>is_eof := True, is_fail := True\<rparr>)
      | c # _ \<Rightarrow> (int (code c), s\<lparr>is_pos := is_pos s + 1\<rparr>))"

definition is_peek :: "istream \<Rightarrow> int \<times> istream" where
  "is_peek s =
     (if \<not> is_good s then (eof, s\<lparr>is_fail := True\<rparr>)
      else case is_rest s of [] \<Rightarrow> (eof, s\<lparr>is_eof := True\<rparr>) | c # _ \<Rightarrow> (int (code c), s))"

definition is_read :: "nat \<Rightarrow> istream \<Rightarrow> string \<times> istream" where
  "is_read n s =
     (if \<not> is_good s then ([], s\<lparr>is_fail := True\<rparr>)
      else if n \<le> length (is_rest s) then (take n (is_rest s), s\<lparr>is_pos := is_pos s + n\<rparr>)
      else (is_rest s, s\<lparr>is_pos := is_pos s + length (is_rest s), is_eof := True, is_fail := True\<rparr>))"

text \<open>Putting back the character before the position, or the given one, which has to be the same.\<close>

definition is_unget :: "istream \<Rightarrow> istream" where
  "is_unget s =
     (let s1 = s\<lparr>is_eof := False\<rparr> in
      if is_fail s1 \<or> is_pos s1 = 0 then s1\<lparr>is_fail := True\<rparr> else s1\<lparr>is_pos := is_pos s1 - 1\<rparr>)"

definition is_putback :: "char \<Rightarrow> istream \<Rightarrow> istream" where
  "is_putback c s =
     (let s1 = s\<lparr>is_eof := False\<rparr> in
      if is_fail s1 \<or> is_pos s1 = 0 \<or> is_pos s1 > length (is_data s1) \<or> is_data s1 ! (is_pos s1 - 1) \<noteq> c
      then s1\<lparr>is_fail := True\<rparr> else s1\<lparr>is_pos := is_pos s1 - 1\<rparr>)"

subsection \<open>Tables of contents\<close>

text \<open>The table is a \<^verbatim>\<open>std::map\<close>: its entries in the order of their names.\<close>

record Node =
  node_pos :: nat
  node_size :: nat
  node_modified :: int

type_synonym TOC = "(string \<times> Node) list"

fun toc_set :: "string \<Rightarrow> Node \<Rightarrow> TOC \<Rightarrow> TOC" where
  "toc_set k v [] = [(k, v)]"
| "toc_set k v ((k', v') # xs) =
     (if k = k' then (k, v) # xs else if k < k' then (k, v) # (k', v') # xs else (k', v') # toc_set k v xs)"

datatype sf_error = SfThrown string | SfAssertion | Deadlock | NullPointer

definition sf_name :: "string \<Rightarrow> string \<Rightarrow> sf_error + string" where
  "sf_name cwd name = (case joinNames cwd name of Inl _ \<Rightarrow> Inl SfAssertion | Inr n \<Rightarrow> Inr n)"

subsection \<open>The writer\<close>

record StreamFsWriter =
  w_stream :: "ostream option"
  w_cwd :: string
  w_baseURI :: string
  w_pos :: nat
  w_toc :: TOC
  w_openFiles :: nat

record StreamFsWriterStream =
  ws_name :: string
  ws_payload :: nat
  ws_fail :: bool

definition StreamFsWriter_init :: StreamFsWriter where
  "StreamFsWriter_init = \<lparr>w_stream = None, w_cwd = ''/'', w_baseURI = [], w_pos = 0, w_toc = [], w_openFiles = 0\<rparr>"

text \<open>Opening does not clear the table.\<close>

definition w_openFs :: "ostream \<Rightarrow> StreamFsWriter \<Rightarrow> sf_error + StreamFsWriter" where
  "w_openFs str w =
     (if w_stream w \<noteq> None then Inl (SfThrown ''already open'')
      else Inr (w\<lparr>w_stream := Some str, w_cwd := ''/'', w_pos := 0, w_openFiles := 0, w_baseURI := ''streamfs://[somestream]/''\<rparr>))"

text \<open>The stream of another file system: the identifier of the archive there, and what opening it gives.\<close>

definition w_openFs_name :: "sf_error + string \<Rightarrow> sf_error + ostream \<Rightarrow> StreamFsWriter \<Rightarrow> sf_error + StreamFsWriter" where
  "w_openFs_name authority opened w =
     (if w_stream w \<noteq> None then Inl (SfThrown ''already open'')
      else sbind authority (\<lambda>a. sbind opened (\<lambda>str.
        Inr (w\<lparr>w_stream := Some str, w_cwd := ''/'', w_pos := 0, w_openFiles := 0, w_baseURI := ''streamfs://'' @ encodeURI [] a @ ''/''\<rparr>))))"

definition number_text :: "nat \<Rightarrow> nat \<Rightarrow> char \<Rightarrow> string" where
  "number_text n width pad = (case unsignedToString n 10 width pad of Inl _ \<Rightarrow> [] | Inr s \<Rightarrow> s)"

definition dump_entry :: "string \<times> Node \<Rightarrow> ostream \<Rightarrow> ostream" where
  "dump_entry e s =
     (if \<not> os_good s then s
      else fold os_write
        [[CHR 0x0A], fst e, [CHR 0x0A], number_text (node_pos (snd e)) 0 (CHR ''0''), [CHR 0x0A],
         number_text (node_size (snd e)) 0 (CHR ''0''), [CHR 0x0A],
         number_text (nat (node_modified (snd e) mod 2 ^ 64)) 0 (CHR ''0'')] s)"

definition dumpTOC :: "nat \<Rightarrow> TOC \<Rightarrow> ostream \<Rightarrow> (sf_error + unit) \<times> ostream" where
  "dumpTOC pos toc s =
     (let s1 = fold dump_entry toc s;
          s2 = fold os_write [CHR 0x0A # ''<End Of TOC>'' @ [CHR 0x0A], number_text pos 16 (CHR '' ''), [CHR 0x0A]] s1
      in (if \<not> os_good s2 then Inl (SfThrown ''output stream not good'') else Inr (), s2))"

text \<open>The writer that is closed, and the stream it has written.\<close>

definition w_closeFs :: "StreamFsWriter \<Rightarrow> (sf_error + unit) \<times> StreamFsWriter \<times> ostream option" where
  "w_closeFs w =
     (if w_openFiles w \<noteq> 0 then (Inl SfAssertion, w, None)
      else (case w_stream w of
        None \<Rightarrow> (Inr (), w, None)
      | Some s \<Rightarrow> (case dumpTOC (w_pos w) (w_toc w) s of (r, s1) \<Rightarrow> (r, w\<lparr>w_stream := None\<rparr>, Some s1))))"

definition w_nameToURI :: "StreamFsWriter \<Rightarrow> string \<Rightarrow> sf_error + string" where
  "w_nameToURI w fileName = sbind (sf_name (w_cwd w) fileName) (\<lambda>an. Inr (butlast (w_baseURI w) @ encodeURI ''/'' an))"

definition w_URIToName :: "StreamFsWriter \<Rightarrow> string \<Rightarrow> sf_error + string" where
  "w_URIToName w uri =
     (if length uri < length (w_baseURI w) \<or> take (length (w_baseURI w)) uri \<noteq> w_baseURI w
         \<or> take 24 (w_baseURI w) = ''streamfs://[somestream]/''
      then Inl (SfThrown ''URI not understood by this file system'')
      else Inr (decodeURI (drop (length (w_baseURI w) - 1) uri)))"

text \<open>
  \<^verbatim>\<open>cd\<close> holds the mutex of the file system while \<^verbatim>\<open>absoluteName\<close> calls \<^verbatim>\<open>cwd\<close>, which locks it again; the
  mutex is not recursive.
\<close>

definition w_cd :: "string \<Rightarrow> StreamFsWriter \<Rightarrow> sf_error + StreamFsWriter" where
  "w_cd fileName w = Inl Deadlock"

definition w_mkdir :: "string \<Rightarrow> StreamFsWriter \<Rightarrow> sf_error + StreamFsWriter" where
  "w_mkdir name w = Inr w"

definition w_openWriteonly :: "string \<Rightarrow> StreamFsWriter \<Rightarrow> sf_error + (StreamFsWriterStream \<times> StreamFsWriter)" where
  "w_openWriteonly fileName w =
     (if w_openFiles w \<noteq> 0 then Inl (SfThrown ''opening more than one file not supported'')
      else (case w_stream w of None \<Rightarrow> Inl NullPointer
      | Some s \<Rightarrow>
          if \<not> os_good s then Inl (SfThrown ''output stream is not good'')
          else sbind (sf_name (w_cwd w) fileName) (\<lambda>nn.
            if map_of (w_toc w) nn \<noteq> None then Inl (SfThrown ''file exists'')
            else Inr (\<lparr>ws_name = nn, ws_payload = 0, ws_fail = False\<rparr>,
              w\<lparr>w_toc := toc_set nn \<lparr>node_pos = w_pos w, node_size = 0, node_modified = 0\<rparr> (w_toc w), w_openFiles := w_openFiles w + 1\<rparr>))))"

text \<open>Writing to the stream of a file: \<^verbatim>\<open>ostream::write\<close> with \<^verbatim>\<open>xsputn\<close>, \<^verbatim>\<open>ostream::put\<close> with \<^verbatim>\<open>overflow\<close>.\<close>

definition xsputn :: "string \<Rightarrow> StreamFsWriterStream \<Rightarrow> ostream \<Rightarrow> nat \<times> StreamFsWriterStream \<times> ostream" where
  "xsputn x ws s =
     (if length x = 0 then (0, ws, s)
      else let s1 = os_write x s in
        if \<not> os_good s1 then (0, ws, s1) else (length x, ws\<lparr>ws_payload := ull (ws_payload ws + length x)\<rparr>, s1))"

definition ws_write :: "string \<Rightarrow> StreamFsWriterStream \<times> StreamFsWriter \<Rightarrow> StreamFsWriterStream \<times> StreamFsWriter" where
  "ws_write x = (\<lambda>(ws, w).
     case w_stream w of None \<Rightarrow> (ws, w)
     | Some s \<Rightarrow>
         if ws_fail ws then (ws, w)
         else (case xsputn x ws s of (n, ws1, s1) \<Rightarrow> (if n \<noteq> length x then ws1\<lparr>ws_fail := True\<rparr> else ws1, w\<lparr>w_stream := Some s1\<rparr>)))"

definition ws_overflow :: "int \<Rightarrow> StreamFsWriterStream \<Rightarrow> ostream \<Rightarrow> int \<times> StreamFsWriterStream \<times> ostream" where
  "ws_overflow i ws s =
     (if i = eof then (0, ws, s)
      else let s1 = os_write [char_of (nat (i mod 256))] s in
        if \<not> os_good s1 then (eof, ws, s1) else (i, ws\<lparr>ws_payload := ull (ws_payload ws + 1)\<rparr>, s1))"

definition ws_put :: "char \<Rightarrow> StreamFsWriterStream \<times> StreamFsWriter \<Rightarrow> StreamFsWriterStream \<times> StreamFsWriter" where
  "ws_put c = (\<lambda>(ws, w).
     case w_stream w of None \<Rightarrow> (ws, w)
     | Some s \<Rightarrow>
         if ws_fail ws then (ws, w)
         else (case ws_overflow (int (code c)) ws s of (r, ws1, s1) \<Rightarrow> (if r = eof then ws1\<lparr>ws_fail := True\<rparr> else ws1, w\<lparr>w_stream := Some s1\<rparr>)))"

definition ws_seekoff :: "int \<Rightarrow> seekdir \<Rightarrow> StreamFsWriterStream \<Rightarrow> int" where
  "ws_seekoff off way ws = (if way \<noteq> Seek_cur \<or> off \<noteq> 0 then -1 else unsignedToStreamsize (of_nat (ws_payload ws)) True)"

text \<open>\<^verbatim>\<open>tellp\<close> gives -1 after a failure. The time is an argument.\<close>

definition w_close :: "int \<Rightarrow> StreamFsWriterStream \<Rightarrow> StreamFsWriter \<Rightarrow> (sf_error + unit) \<times> StreamFsWriter" where
  "w_close now ws w =
     (case map_of (w_toc w) (ws_name ws) of
        None \<Rightarrow> (Inl SfAssertion, w)
      | Some node \<Rightarrow>
          let fileSize = (if ws_fail ws then -1 else ws_seekoff 0 Seek_cur ws) in
          if fileSize < 0 then (Inl SfAssertion, w)
          else (case w_stream w of None \<Rightarrow> (Inl NullPointer, w)
          | Some s \<Rightarrow>
            if \<not> os_good s then (Inl (SfThrown ''output stream is not good''), w\<lparr>w_toc := filter (\<lambda>e. fst e \<noteq> ws_name ws) (w_toc w)\<rparr>)
            else let w1 = w\<lparr>w_pos := ull (w_pos w + nat fileSize),
                            w_toc := toc_set (ws_name ws) (node\<lparr>node_size := nat fileSize, node_modified := now\<rparr>) (w_toc w)\<rparr>
              in if w_openFiles w1 \<noteq> 1 then (Inl SfAssertion, w1) else (Inr (), w1\<lparr>w_openFiles := w_openFiles w1 - 1\<rparr>)))"

subsection \<open>The reader\<close>

record StreamFsReader =
  r_stream :: "istream option"
  r_cwd :: string
  r_baseURI :: string
  r_pos :: nat
  r_toc :: TOC
  r_openFiles :: nat

record StreamFsReaderBuf =
  rb_beg :: nat
  rb_pos :: nat
  rb_size :: nat

definition StreamFsReader_init :: StreamFsReader where
  "StreamFsReader_init = \<lparr>r_stream = None, r_cwd = ''/'', r_baseURI = [], r_pos = 0, r_toc = [], r_openFiles = 0\<rparr>"

text \<open>\<^verbatim>\<open>strtoul\<close> on a line: the value, and whether the line ends where the number ends.\<close>

definition line_number :: "string \<Rightarrow> nat \<times> bool" where
  "line_number l = (let c = takeWhile (\<lambda>x. x \<noteq> CHR 0x00) l in case strtoull 10 c of (v, n, _) \<Rightarrow> (unat v, n = length c))"

lemma is_getline_mono:
  assumes "is_getline s = (l, s1)"
  shows "is_data s1 = is_data s" "is_pos s \<le> is_pos s1" "is_good s1 \<Longrightarrow> is_good s \<and> is_pos s < is_pos s1 \<and> is_pos s < length (is_data s)"
  using assms by (auto simp: is_getline_def is_good_def is_rest_def Let_def split: if_splits)

text \<open>
  The time of the last modification is not checked: the test for its end is the one for a null pointer.
  The entries that were read before an error stay in the table.
\<close>

function readTOC_loop :: "TOC \<Rightarrow> istream \<Rightarrow> sf_error option \<times> TOC \<times> istream" where
  "readTOC_loop toc s =
     (let (fileName, s1) = is_getline s in
      if \<not> is_good s1 then (Some (SfThrown ''error reading TOC''), toc, s1)
      else if fileName = ''<End Of TOC>'' then (None, toc, s1)
      else let (sPos, s2) = is_getline s1; (sSize, s3) = is_getline s2; (sLm, s4) = is_getline s3 in
        if \<not> is_good s4 then (Some (SfThrown ''error reading TOC''), toc, s4)
        else if \<not> snd (line_number sPos) \<or> \<not> snd (line_number sSize) then (Some (SfThrown ''error reading TOC''), toc, s4)
        else readTOC_loop
          (toc_set fileName \<lparr>node_pos = fst (line_number sPos), node_size = fst (line_number sSize),
            node_modified = sint (of_nat (fst (line_number sLm)) :: u64)\<rparr> toc) s4)"
  by pat_completeness auto
termination
proof (relation "measure (\<lambda>(toc, s). length (is_data s) - is_pos s)")
  fix toc s x fileName s1 y sPos s2 z sSize s3 u sLm s4
  assume g: "x = is_getline s" "(fileName, s1) = x" "y = is_getline s1" "(sPos, s2) = y" "z = is_getline s2" "(sSize, s3) = z"
    "u = is_getline s3" "(sLm, s4) = u" and good: "\<not> \<not> is_good s1"
  have m: "is_getline s = (fileName, s1)" "is_getline s1 = (sPos, s2)" "is_getline s2 = (sSize, s3)" "is_getline s3 = (sLm, s4)"
    using g by simp_all
  have "is_pos s < is_pos s4" "is_pos s < length (is_data s)" "is_data s4 = is_data s"
    using is_getline_mono [OF m(1)] is_getline_mono [OF m(2)] is_getline_mono [OF m(3)] is_getline_mono [OF m(4)] good by simp_all
  then show "((toc_set fileName \<lparr>node_pos = fst (line_number sPos), node_size = fst (line_number sSize),
            node_modified = sint (of_nat (fst (line_number sLm)) :: u64)\<rparr> toc, s4), toc, s) \<in> measure (\<lambda>(toc, s). length (is_data s) - is_pos s)"
    by simp
qed simp

definition readTOC :: "TOC \<Rightarrow> istream \<Rightarrow> sf_error option \<times> TOC \<times> istream" where
  "readTOC toc s =
     (let (sTocPos, s1) = is_getline (is_seekg_back 17 s) in
      if \<not> is_good s1 then (Some (SfThrown ''can not read TOC position''), toc, s1)
      else if length sTocPos \<noteq> 16 then (Some (SfThrown ''invalid TOC position''), toc, s1)
      else let ptTocPos = unsignedToStreamsize (of_nat (fst (line_number sTocPos))) True in
        if \<not> snd (line_number sTocPos) \<or> ptTocPos < 0 then (Some (SfThrown ''invalid TOC position''), toc, s1)
        else let s2 = is_seekg (nat ptTocPos) s1 in
          if \<not> is_good s2 then (Some (SfThrown ''error seeking TOC''), toc, s2)
          else let (c, s3) = is_get s2 in
            if c \<noteq> 10 then (Some (SfThrown ''error reading TOC''), toc, s3) else readTOC_loop toc s3)"

definition r_openFs :: "istream \<Rightarrow> StreamFsReader \<Rightarrow> (sf_error + unit) \<times> StreamFsReader" where
  "r_openFs str r =
     (if r_stream r \<noteq> None then (Inl (SfThrown ''already open''), r)
      else let r1 = r\<lparr>r_cwd := ''/'', r_pos := 2 ^ 64 - 1, r_openFiles := 0, r_baseURI := ''streamfs://[somestream]/''\<rparr> in
        (case readTOC (r_toc r) str of
          (Some e, toc, s) \<Rightarrow> (Inl e, r1\<lparr>r_stream := None, r_toc := toc\<rparr>)
        | (None, toc, s) \<Rightarrow> (Inr (), r1\<lparr>r_stream := Some s, r_toc := toc\<rparr>)))"

definition r_openFs_name :: "sf_error + string \<Rightarrow> sf_error + istream \<Rightarrow> StreamFsReader \<Rightarrow> (sf_error + unit) \<times> StreamFsReader" where
  "r_openFs_name authority opened r =
     (if r_stream r \<noteq> None then (Inl (SfThrown ''already open''), r)
      else let r1 = r\<lparr>r_cwd := ''/'', r_pos := 2 ^ 64 - 1, r_openFiles := 0\<rparr> in
        (case authority of Inl e \<Rightarrow> (Inl e, r1)
         | Inr a \<Rightarrow> let r2 = r1\<lparr>r_baseURI := ''streamfs://'' @ encodeURI [] a @ ''/''\<rparr> in
           (case opened of Inl e \<Rightarrow> (Inl e, r2)
            | Inr str \<Rightarrow> (case readTOC (r_toc r) str of
                (Some e, toc, s) \<Rightarrow> (Inl e, r2\<lparr>r_stream := None, r_toc := toc\<rparr>)
              | (None, toc, s) \<Rightarrow> (Inr (), r2\<lparr>r_stream := Some s, r_toc := toc\<rparr>)))))"

definition r_closeFs :: "StreamFsReader \<Rightarrow> (sf_error + unit) \<times> StreamFsReader" where
  "r_closeFs r = (if r_openFiles r \<noteq> 0 then (Inl SfAssertion, r) else (Inr (), r\<lparr>r_toc := [], r_stream := None\<rparr>))"

definition r_nameToURI :: "StreamFsReader \<Rightarrow> string \<Rightarrow> sf_error + string" where
  "r_nameToURI r fileName = sbind (sf_name (r_cwd r) fileName) (\<lambda>an. Inr (butlast (r_baseURI r) @ encodeURI ''/'' an))"

definition r_URIToName :: "StreamFsReader \<Rightarrow> string \<Rightarrow> sf_error + string" where
  "r_URIToName r uri =
     (if length uri < length (r_baseURI r) \<or> take (length (r_baseURI r)) uri \<noteq> r_baseURI r
         \<or> take 24 (r_baseURI r) = ''streamfs://[somestream]/''
      then Inl (SfThrown ''URI not understood by this file system'')
      else Inr (decodeURI (drop (length (r_baseURI r) - 1) uri)))"

definition r_cd :: "string \<Rightarrow> StreamFsReader \<Rightarrow> sf_error + StreamFsReader" where
  "r_cd fileName r = Inl Deadlock"

definition r_exists :: "string \<Rightarrow> StreamFsReader \<Rightarrow> sf_error + (bool \<times> bool option)" where
  "r_exists fileName r =
     sbind (sf_name (r_cwd r) fileName) (\<lambda>nn.
       if map_of (r_toc r) nn \<noteq> None then Inr (True, Some False)
       else if \<exists>(k, _)\<in>set (r_toc r). length k > length nn \<and> take (length nn) k = nn \<and> k ! length nn = CHR ''/''
         then Inr (True, Some True)
       else Inr (False, None))"

definition r_node :: "string \<Rightarrow> StreamFsReader \<Rightarrow> sf_error + Node" where
  "r_node fileName r =
     sbind (sf_name (r_cwd r) fileName) (\<lambda>nn.
       case map_of (r_toc r) nn of None \<Rightarrow> Inl (SfThrown ''file not found'') | Some n \<Rightarrow> Inr n)"

definition r_size :: "string \<Rightarrow> StreamFsReader \<Rightarrow> sf_error + nat" where
  "r_size fileName r = sbind (r_node fileName r) (\<lambda>n. Inr (node_size n))"

definition r_lastModified :: "string \<Rightarrow> StreamFsReader \<Rightarrow> sf_error + int" where
  "r_lastModified fileName r = sbind (r_node fileName r) (\<lambda>n. Inr (node_modified n))"

definition r_openReadonly :: "string \<Rightarrow> StreamFsReader \<Rightarrow> sf_error + (StreamFsReaderBuf \<times> StreamFsReader)" where
  "r_openReadonly fileName r =
     (if r_openFiles r \<noteq> 0 then Inl (SfThrown ''opening more than one file not supported'')
      else sbind (r_node fileName r) (\<lambda>n.
        case r_stream r of None \<Rightarrow> Inl NullPointer
        | Some s \<Rightarrow>
          let b = \<lparr>rb_beg = node_pos n, rb_pos = 0, rb_size = node_size n\<rparr> in
          if node_pos n \<noteq> r_pos r then
            let newpos = unsignedToStreamsize (of_nat (node_pos n)) True in
            if newpos < 0 then Inl (SfThrown ''invalid position'')
            else let s1 = is_seekg (nat newpos) s in
              if \<not> is_good s1 then Inl (SfThrown ''can not seek file'')
              else Inr (b, r\<lparr>r_stream := Some s1, r_pos := node_pos n, r_openFiles := r_openFiles r + 1\<rparr>)
          else Inr (b, r\<lparr>r_openFiles := r_openFiles r + 1\<rparr>)))"

subsection \<open>The buffer of a file that is read\<close>

definition rb_pbackfail :: "int \<Rightarrow> StreamFsReaderBuf \<Rightarrow> istream \<Rightarrow> int \<times> StreamFsReaderBuf \<times> istream" where
  "rb_pbackfail c b s =
     (if rb_pos b = 0 then (eof, b, s)
      else let s1 = (if c = eof then is_unget s else is_putback (char_of (nat (c mod 256))) s) in
        if \<not> is_good s1 then (eof, b, s1) else (if c = eof then 0 else c, b\<lparr>rb_pos := rb_pos b - 1\<rparr>, s1))"

text \<open>
  The test of the result of \<^verbatim>\<open>seekg\<close> compares a stream, as a pointer, with zero: it never fails.
\<close>

definition rb_seekpos :: "int \<Rightarrow> StreamFsReaderBuf \<Rightarrow> istream \<Rightarrow> int \<times> StreamFsReaderBuf \<times> istream" where
  "rb_seekpos pos b s =
     (if pos < 0 \<or> nat pos > rb_size b then (-1, b, s)
      else if nat pos = rb_pos b then (unsignedToStreamsize (word_of_int pos) True, b, s)
      else let ptspos = unsignedToStreamsize (of_nat (rb_beg b + nat pos)) True in
        if ptspos = -1 then (-1, b, s)
        else (unsignedToStreamsize (word_of_int pos) True, b\<lparr>rb_pos := nat pos\<rparr>, is_seekg (nat ptspos) s))"

definition rb_seekoff :: "int \<Rightarrow> seekdir \<Rightarrow> StreamFsReaderBuf \<Rightarrow> istream \<Rightarrow> int \<times> StreamFsReaderBuf \<times> istream" where
  "rb_seekoff off way b s =
     (let origin = (case way of Seek_beg \<Rightarrow> 0 | Seek_cur \<Rightarrow> rb_pos b | Seek_end \<Rightarrow> rb_size b) in
      if off < 0 \<and> nat (- off) > origin then (-1, b, s)
      else let ptpos = unsignedToStreamsize (word_of_int (int origin + off)) True in
        if ptpos = -1 then (-1, b, s) else rb_seekpos ptpos b s)"

text \<open>
  The characters that a read delivers; when it is short the position of the buffer stays behind.
\<close>

definition rb_xsgetn :: "nat \<Rightarrow> StreamFsReaderBuf \<Rightarrow> istream \<Rightarrow> string \<times> StreamFsReaderBuf \<times> istream" where
  "rb_xsgetn n b s =
     (if rb_pos b \<ge> rb_size b then ([], b, s)
      else let strem = unsignedToStreamsize (of_nat (rb_size b - rb_pos b)) True;
               amount = (if int n < strem then int n else strem);
               (x, s1) = is_read (nat amount) s in
        if int (length x) \<noteq> amount then (x, b, s1\<lparr>is_fail := True\<rparr>)
        else (x, b\<lparr>rb_pos := ull (rb_pos b + length x)\<rparr>, s1))"

definition rb_underflow :: "StreamFsReaderBuf \<Rightarrow> istream \<Rightarrow> int \<times> StreamFsReaderBuf \<times> istream" where
  "rb_underflow b s = (if rb_pos b \<ge> rb_size b then (eof, b, s) else let (c, s1) = is_peek s in (c, b, s1))"

definition rb_uflow :: "StreamFsReaderBuf \<Rightarrow> istream \<Rightarrow> int \<times> StreamFsReaderBuf \<times> istream" where
  "rb_uflow b s =
     (if rb_pos b \<ge> rb_size b then (eof, b, s)
      else let (c, s1) = is_get s in if c = eof then (eof, b, s1) else (c, b\<lparr>rb_pos := ull (rb_pos b + 1)\<rparr>, s1))"

text \<open>The state of the stream of the file is cleared first, so \<^verbatim>\<open>tellg\<close> asks the buffer.\<close>

definition r_close :: "StreamFsReaderBuf \<Rightarrow> StreamFsReader \<Rightarrow> (sf_error + unit) \<times> StreamFsReader" where
  "r_close b r =
     (case r_stream r of None \<Rightarrow> (Inl NullPointer, r)
      | Some s \<Rightarrow> (case rb_seekoff 0 Seek_cur b s of (got, b1, s1) \<Rightarrow>
          if got < 0 then (Inl SfAssertion, r\<lparr>r_stream := Some s1\<rparr>)
          else let r1 = r\<lparr>r_stream := Some s1, r_pos := ull (r_pos r + nat got)\<rparr> in
            if r_openFiles r1 \<noteq> 1 then (Inl SfAssertion, r1)
            else let r2 = r1\<lparr>r_openFiles := r_openFiles r1 - 1\<rparr> in
              (if \<not> is_good s1 then Inl (SfThrown ''input stream is not good'') else Inr (), r2)))"

end
