(* ===== verification/StreamFsProps.thy ===== *)
theory StreamFsProps
  imports StreamFs
begin

text \<open>
  What is written to an archive is read from it: the table of contents is read back, and the stream of
  each file reads the contents of this file, in any order of the files.
\<close>

subsection \<open>Numbers on lines\<close>

lemma scan_number_padded:
  assumes "s \<noteq> []" "\<not> isspace (hd s)" "scan_number b s = (neg, v, n)" "n \<noteq> 0"
  shows "scan_number b (replicate k (CHR '' '') @ s) = (neg, v, k + n)"
proof -
  have sp: "isspace (CHR '' '')" by (simp add: isspace_def)
  have "takeWhile isspace (replicate k (CHR '' '') @ s) = replicate k (CHR '' '') @ takeWhile isspace s"
    by (induction k) (simp_all add: sp)
  moreover have "takeWhile isspace s = []" using assms(1,2) by (cases s) simp_all
  ultimately show ?thesis using assms(3,4) by (auto simp: scan_number_def Let_def split: prod.splits if_splits)
qed

lemma number_text_eq: "number_text v m pad = replicate (m - length (digits 10 v)) pad @ digits 10 v"
  by (simp add: number_text_def unsignedToString_digits)

lemma decimal_digits: "c \<in> set (digits 10 v) \<Longrightarrow> digit_value c < 10"
  using digits_value [of 10 v] by simp

lemma decimal_plain: "c \<in> set (digits 10 v) \<Longrightarrow> c \<noteq> CHR 0x00 \<and> c \<noteq> CHR 0x0A \<and> \<not> isspace c"
  using decimal_digits [of c v] isspace_digit_value [of c] by (auto simp: digit_value_def isdigit_def isalpha_def isupper_def)

lemma number_text_plain:
  assumes "c \<in> set (number_text v m pad)" "pad \<noteq> CHR 0x00" "pad \<noteq> CHR 0x0A"
  shows "c \<noteq> CHR 0x00 \<and> c \<noteq> CHR 0x0A"
  using assms decimal_plain [of c v] by (auto simp: number_text_eq)

lemma line_number_text:
  assumes "v < 2 ^ 64" "pad = CHR '' '' \<or> pad = CHR ''0''"
  shows "line_number (number_text v m pad) = (v, True)"
proof -
  let ?t = "number_text v m pad"
  have "pad \<noteq> CHR 0x00" "pad \<noteq> CHR 0x0A" using assms(2) by auto
  then have z: "takeWhile (\<lambda>x. x \<noteq> CHR 0x00) ?t = ?t" using number_text_plain by (simp add: takeWhile_eq_all_conv)
  have d: "digits 10 v \<noteq> []" "\<not> isspace (hd (digits 10 v))"
    using decimal_plain [of "hd (digits 10 v)" v] hd_in_set [of "digits 10 v"] by simp_all
  have "strtoull 10 ?t = (of_nat v, length ?t, False)"
    using assms(2)
  proof
    assume p: "pad = CHR '' ''"
    have "scan_number 10 (digits 10 v) = (False, v, length (digits 10 v))"
      using scan_number_digits [of "digits 10 v" 10] digits_value [of 10 v] d(1) by simp
    from scan_number_padded [OF d this] d(1) p assms(1) show ?thesis
      by (simp add: strtoull_def number_text_eq)
  next
    assume "pad = CHR ''0''"
    then show ?thesis
      using strtoull_unsignedToString [of 10 v m ?t] assms(1) by (simp add: number_text_eq unsignedToString_digits)
  qed
  moreover have "unat (of_nat v :: u64) = v" using assms(1) by (simp add: unat_of_nat take_bit_nat_eq_self)
  ultimately show ?thesis by (simp add: line_number_def z)
qed

lemma digits_length: "0 < m \<Longrightarrow> v < 10 ^ m \<Longrightarrow> length (digits 10 v) \<le> m"
proof (induction m arbitrary: v)
  case (Suc m)
  show ?case
  proof (cases "v < 10")
    case False
    then have "digits 10 v = digits 10 (v div 10) @ [i2sDigits ! (v mod 10)]" by (subst digits.simps) simp
    moreover have "v div 10 < 10 ^ m" using Suc.prems(2) by (simp add: less_mult_imp_div_less)
    moreover have "0 < m" using False Suc.prems(2) by (cases m) auto
    ultimately show ?thesis using Suc.IH [of "v div 10"] by simp
  qed (simp add: digits_small)
qed simp

lemma time_text: "- (2 ^ 63) \<le> t \<Longrightarrow> t < 2 ^ 63 \<Longrightarrow> sint (of_nat (nat (t mod 2 ^ 64)) :: u64) = t"
proof -
  assume t: "- (2 ^ 63) \<le> t" "t < 2 ^ 63"
  have "(of_nat (nat (t mod 2 ^ 64)) :: u64) = word_of_int (int (nat (t mod 2 ^ 64)))" by simp
  also have "\<dots> = word_of_int (t mod 2 ^ 64)" by (simp only: nat_0_le pos_mod_sign zero_less_numeral zero_less_power)
  also have "\<dots> = word_of_int t" by (simp add: word_of_int_eq_iff take_bit_eq_mod)
  finally have "(of_nat (nat (t mod 2 ^ 64)) :: u64) = word_of_int t" .
  moreover have "signed_take_bit 63 t = t" using t by (intro signed_take_bit_int_eq_self) simp_all
  ultimately show ?thesis by (simp add: signed_of_int)
qed

subsection \<open>The table of contents\<close>

lemma toc_set_map: "map_of (toc_set k v xs) = (map_of xs)(k \<mapsto> v)"
  by (induction k v xs rule: toc_set.induct) (auto simp: fun_eq_iff)

lemma toc_set_keys: "fst ` set (toc_set k v xs) = insert k (fst ` set xs)"
  by (induction k v xs rule: toc_set.induct) auto

lemma toc_set_entries: "set (toc_set k v xs) \<subseteq> insert (k, v) (set xs)"
  by (induction k v xs rule: toc_set.induct) auto

lemma toc_set_sorted: "sorted_wrt (<) (map fst xs) \<Longrightarrow> sorted_wrt (<) (map fst (toc_set k v xs))"
proof (induction k v xs rule: toc_set.induct)
  case (2 k v k' v' xs)
  have "\<forall>a\<in>fst ` set (toc_set k v xs). k' < a" if "k' < k" using that 2(2) by (auto simp: toc_set_keys)
  then show ?case using 2 by (auto intro: less_trans)
qed simp

lemma toc_set_twice: "sorted_wrt (<) (map fst xs) \<Longrightarrow> toc_set k v (toc_set k v0 xs) = toc_set k v xs"
  by (induction k v0 xs rule: toc_set.induct) auto

definition toc_build :: "TOC \<Rightarrow> TOC \<Rightarrow> TOC" where
  "toc_build es toc = fold (\<lambda>(k, v). toc_set k v) es toc"

lemma toc_build_sorted: "sorted_wrt (<) (map fst toc) \<Longrightarrow> sorted_wrt (<) (map fst (toc_build es toc))"
  by (induction es arbitrary: toc) (auto simp: toc_build_def toc_set_sorted)

lemma toc_build_map: "map_of (toc_build es toc) = map_of toc ++ map_of (rev es)"
  by (induction es arbitrary: toc) (auto simp: toc_build_def toc_set_map fun_eq_iff map_add_def split: option.splits)

lemma toc_build_entries: "set (toc_build es toc) \<subseteq> set es \<union> set toc"
proof (induction es arbitrary: toc)
  case (Cons e es)
  obtain k v where "e = (k, v)" by force
  then show ?case using Cons.IH [of "toc_set k v toc"] toc_set_entries [of k v toc] by (auto simp: toc_build_def)
qed (simp add: toc_build_def)

lemma map_of_rev:
  assumes "distinct (map fst es)"
  shows "map_of (rev es) = map_of es"
  using assms map_of_inject_set [of "rev es" es] by (simp flip: rev_map)

lemma toc_build_distinct: "distinct (map fst es) \<Longrightarrow> map_of (toc_build es []) = map_of es"
  by (simp add: toc_build_map map_of_rev)

text \<open>A table read in its order is the table.\<close>

lemma toc_rebuild_map:
  assumes "sorted_wrt (<) (map fst toc)"
  shows "map_of (toc_build toc []) = map_of toc"
  using assms by (intro toc_build_distinct) (simp add: strict_sorted_iff)

definition entry_ok :: "string \<times> Node \<Rightarrow> bool" where
  "entry_ok e \<longleftrightarrow> CHR 0x0A \<notin> set (fst e) \<and> fst e \<noteq> ''<End Of TOC>'' \<and> node_pos (snd e) < 2 ^ 64 \<and> node_size (snd e) < 2 ^ 64 \<and>
     - (2 ^ 63) \<le> node_modified (snd e) \<and> node_modified (snd e) < 2 ^ 63"

text \<open>The lines of an entry, without the line end before them and with the one behind.\<close>

definition entry_texts :: "string \<times> Node \<Rightarrow> string list" where
  "entry_texts e = [fst e, number_text (node_pos (snd e)) 0 (CHR ''0''), number_text (node_size (snd e)) 0 (CHR ''0''),
     number_text (nat (node_modified (snd e) mod 2 ^ 64)) 0 (CHR ''0'')]"

definition entry_lines :: "string \<times> Node \<Rightarrow> string" where
  "entry_lines e = concat (map (\<lambda>t. t @ [CHR 0x0A]) (entry_texts e))"

lemma getline_found:
  assumes "is_good s" "is_rest s = l @ CHR 0x0A # t" "CHR 0x0A \<notin> set l"
  shows "is_getline s = (l, s\<lparr>is_pos := is_pos s + length l + 1\<rparr>)" "is_rest (s\<lparr>is_pos := is_pos s + length l + 1\<rparr>) = t"
    "is_good (s\<lparr>is_pos := is_pos s + length l + 1\<rparr>)"
proof -
  have "takeWhile (\<lambda>c. c \<noteq> CHR 0x0A) (l @ CHR 0x0A # t) = l" using assms(3) by (subst takeWhile_append2) auto
  then show "is_getline s = (l, s\<lparr>is_pos := is_pos s + length l + 1\<rparr>)" using assms by (simp add: is_getline_def)
  have "drop (length l + 1) (is_rest s) = t" by (simp add: assms(2))
  then show "is_rest (s\<lparr>is_pos := is_pos s + length l + 1\<rparr>) = t" by (simp add: is_rest_def add.commute add.left_commute)
  show "is_good (s\<lparr>is_pos := is_pos s + length l + 1\<rparr>)" using assms(1) by (simp add: is_good_def)
qed

lemma readTOC_loop_lines:
  assumes "is_good s" "is_rest s = concat (map entry_lines es) @ ''<End Of TOC>'' @ CHR 0x0A # t" "list_all entry_ok es"
  shows "\<exists>p. readTOC_loop toc s = (None, toc_build es toc, s\<lparr>is_pos := p\<rparr>)"
  using assms
proof (induction es arbitrary: toc s)
  case Nil
  then have "is_rest s = ''<End Of TOC>'' @ CHR 0x0A # t" by simp
  from getline_found [OF Nil.prems(1) this] show ?case
    by (subst readTOC_loop.simps) (auto simp: toc_build_def)
next
  case (Cons e es)
  let ?n = "snd e"
  have ok: "entry_ok e" "list_all entry_ok es" using Cons.prems(3) by simp_all
  define z where "z = concat (map entry_lines es) @ ''<End Of TOC>'' @ CHR 0x0A # t"
  define a where "a = number_text (node_pos ?n) 0 (CHR ''0'')"
  define b where "b = number_text (node_size ?n) 0 (CHR ''0'')"
  define c where "c = number_text (nat (node_modified ?n mod 2 ^ 64)) 0 (CHR ''0'')"
  have nl: "CHR 0x0A \<notin> set a" "CHR 0x0A \<notin> set b" "CHR 0x0A \<notin> set c"
    using number_text_plain unfolding a_def b_def c_def by fastforce+
  have num: "line_number a = (node_pos ?n, True)" "line_number b = (node_size ?n, True)"
    "line_number c = (nat (node_modified ?n mod 2 ^ 64), True)"
    using ok(1) unfolding a_def b_def c_def by (intro line_number_text; simp add: entry_ok_def nat_less_iff)+
  have line: "entry_lines e = fst e @ CHR 0x0A # a @ CHR 0x0A # b @ CHR 0x0A # c @ [CHR 0x0A]"
    by (simp add: entry_lines_def entry_texts_def a_def b_def c_def)
  have r: "is_rest s = fst e @ CHR 0x0A # a @ CHR 0x0A # b @ CHR 0x0A # c @ CHR 0x0A # z"
    using Cons.prems(2) by (simp add: line z_def)
  have f: "CHR 0x0A \<notin> set (fst e)" "fst e \<noteq> ''<End Of TOC>''" using ok(1) by (simp_all add: entry_ok_def)
  define s1 where "s1 = s\<lparr>is_pos := is_pos s + length (fst e) + 1\<rparr>"
  define s2 where "s2 = s1\<lparr>is_pos := is_pos s1 + length a + 1\<rparr>"
  define s3 where "s3 = s2\<lparr>is_pos := is_pos s2 + length b + 1\<rparr>"
  define s4 where "s4 = s3\<lparr>is_pos := is_pos s3 + length c + 1\<rparr>"
  note g1 = getline_found [OF Cons.prems(1) r f(1), folded s1_def]
  note g2 = getline_found [OF g1(3,2) nl(1), folded s2_def]
  note g3 = getline_found [OF g2(3,2) nl(2), folded s3_def]
  note g4 = getline_found [OF g3(3,2) nl(3), folded s4_def]
  have node: "\<lparr>node_pos = node_pos ?n, node_size = node_size ?n, node_modified = sint (of_nat (nat (node_modified ?n mod 2 ^ 64)) :: u64)\<rparr> = ?n"
    using time_text [of "node_modified ?n"] ok(1) by (simp only: entry_ok_def) (cases ?n, simp)
  have "readTOC_loop toc s = readTOC_loop (toc_set (fst e) ?n toc) s4"
    using g1 g2 g3 g4 f(2) by (subst readTOC_loop.simps) (simp only: num node Let_def split fst_conv snd_conv if_False if_True not_not simp_thms)
  moreover obtain p where "readTOC_loop (toc_set (fst e) ?n toc) s4 = (None, toc_build es (toc_set (fst e) ?n toc), s4\<lparr>is_pos := p\<rparr>)"
    using Cons.IH [OF g4(3) g4(2) [unfolded z_def] ok(2), of "toc_set (fst e) ?n toc"] by blast
  moreover have "s4\<lparr>is_pos := p\<rparr> = s\<lparr>is_pos := p\<rparr>" by (simp add: s4_def s3_def s2_def s1_def)
  moreover have "toc_build es (toc_set (fst e) ?n toc) = toc_build (e # es) toc" by (simp add: toc_build_def split_beta)
  ultimately show ?case by auto
qed

subsection \<open>Writing an archive\<close>

lemma os_writes:
  "os_good s \<Longrightarrow> length (os_data s) + length (concat xs) \<le> os_room s \<Longrightarrow> fold os_write xs s = s\<lparr>os_data := os_data s @ concat xs\<rparr>"
  by (induction xs arbitrary: s) (simp_all add: os_write_def)

definition entry_dump :: "string \<times> Node \<Rightarrow> string" where
  "entry_dump e = concat (map (\<lambda>t. CHR 0x0A # t) (entry_texts e))"

lemma dump_entry_text:
  assumes "os_good s" "length (os_data s) + length (entry_dump e) \<le> os_room s"
  shows "dump_entry e s = s\<lparr>os_data := os_data s @ entry_dump e\<rparr>"
  unfolding dump_entry_def using assms by (subst os_writes) (simp_all add: entry_dump_def entry_texts_def)

lemma dump_entries_text:
  "os_good s \<Longrightarrow> length (os_data s) + length (concat (map entry_dump toc)) \<le> os_room s \<Longrightarrow>
    fold dump_entry toc s = s\<lparr>os_data := os_data s @ concat (map entry_dump toc)\<rparr>"
  by (induction toc arbitrary: s) (simp_all add: dump_entry_text)

definition archive_text :: "string \<Rightarrow> TOC \<Rightarrow> string" where
  "archive_text body toc =
     body @ concat (map entry_dump toc) @ CHR 0x0A # ''<End Of TOC>'' @ CHR 0x0A # number_text (length body) 16 (CHR '' '') @ [CHR 0x0A]"

lemma dumpTOC_text:
  assumes "os_good s" "length (archive_text (os_data s) toc) \<le> os_room s"
  shows "dumpTOC (length (os_data s)) toc s = (Inr (), s\<lparr>os_data := archive_text (os_data s) toc\<rparr>)"
proof -
  let ?s1 = "s\<lparr>os_data := os_data s @ concat (map entry_dump toc)\<rparr>"
  have l: "length (os_data s) + length (concat (map entry_dump toc)) \<le> os_room s" using assms(2) by (simp add: archive_text_def)
  have "fold os_write [CHR 0x0A # ''<End Of TOC>'' @ [CHR 0x0A], number_text (length (os_data s)) 16 (CHR '' ''), [CHR 0x0A]] ?s1 =
      s\<lparr>os_data := archive_text (os_data s) toc\<rparr>"
    using assms by (subst os_writes) (simp_all add: archive_text_def)
  then show ?thesis using dump_entries_text [OF assms(1) l] assms(1) by (simp add: dumpTOC_def Let_def)
qed

lemma entries_shifted: "concat (map entry_dump toc) @ [CHR 0x0A] = CHR 0x0A # concat (map entry_lines toc)"
proof (induction toc)
  case (Cons e toc)
  have e: "entry_dump e @ [CHR 0x0A] = CHR 0x0A # entry_lines e" by (simp add: entry_dump_def entry_lines_def entry_texts_def)
  have "concat (map entry_dump (e # toc)) @ [CHR 0x0A] = entry_dump e @ (concat (map entry_dump toc) @ [CHR 0x0A])" by simp
  also have "\<dots> = (entry_dump e @ [CHR 0x0A]) @ concat (map entry_lines toc)" unfolding Cons by simp
  also have "\<dots> = CHR 0x0A # concat (map entry_lines (e # toc))" unfolding e by simp
  finally show ?case .
qed simp

text \<open>The table at the end of the text is found and read.\<close>

lemma readTOC_archive:
  assumes "is_good s" "is_data s = archive_text body toc" "length body < 10 ^ 16" "list_all entry_ok toc"
  shows "\<exists>p. readTOC toc0 s = (None, toc_build toc toc0, s\<lparr>is_pos := p\<rparr>)"
proof -
  let ?t = "number_text (length body) 16 (CHR '' '')"
  have l: "length ?t = 16" using digits_length [of 16 "length body"] assms(3) by (simp add: number_text_eq)
  have nl: "CHR 0x0A \<notin> set ?t" using number_text_plain [of "CHR 0x0A" "length body" 16 "CHR '' ''"] by auto
  have tail: "is_data s = (body @ concat (map entry_dump toc) @ CHR 0x0A # ''<End Of TOC>'' @ [CHR 0x0A]) @ ?t @ [CHR 0x0A]"
    by (simp add: assms(2) archive_text_def)
  define s0 where "s0 = is_seekg_back 17 s"
  have s0: "s0 = s\<lparr>is_pos := length (is_data s) - 17\<rparr>"
    using assms(1) tail l by (simp add: s0_def is_seekg_back_def is_good_def)
  have "is_rest s0 = ?t @ CHR 0x0A # []" by (simp add: s0 is_rest_def tail l)
  note g = getline_found [OF _ this nl]
  have good: "is_good s0" using assms(1) by (simp add: s0 is_good_def)
  define s1 where "s1 = s0\<lparr>is_pos := is_pos s0 + length ?t + 1\<rparr>"
  note g = g [OF good, folded s1_def]
  have num: "line_number ?t = (length body, True)" using assms(3) by (intro line_number_text) simp_all
  have pt: "unsignedToStreamsize (of_nat (length body)) True = int (length body)"
    using streamsize_of_nat [of "length body"] assms(3) by simp
  define s2 where "s2 = s\<lparr>is_pos := length body\<rparr>"
  have s2: "is_seekg (nat (int (length body))) s1 = s2" "is_good s2"
    using assms(1) by (simp_all add: is_seekg_def s1_def s0 s2_def is_good_def)
  define z where "z = concat (map entry_lines toc) @ ''<End Of TOC>'' @ CHR 0x0A # ?t @ [CHR 0x0A]"
  have "is_data s = body @ CHR 0x0A # z"
  proof -
    have "archive_text body toc = body @ (concat (map entry_dump toc) @ [CHR 0x0A]) @ ''<End Of TOC>'' @ CHR 0x0A # ?t @ [CHR 0x0A]"
      by (simp add: archive_text_def)
    then show ?thesis unfolding entries_shifted by (simp add: assms(2) z_def)
  qed
  then have "is_rest s2 = CHR 0x0A # z" by (simp add: s2_def is_rest_def)
  moreover define s3 where "s3 = s2\<lparr>is_pos := is_pos s2 + 1\<rparr>"
  moreover have "is_rest s3 = tl (is_rest s2)" by (simp add: s3_def is_rest_def tl_drop drop_Suc)
  ultimately have s3: "is_get s2 = (10, s3)" "is_good s3" "is_rest s3 = z"
    using s2(2) by (simp_all add: is_get_def is_good_def)
  obtain p where p: "readTOC_loop toc0 s3 = (None, toc_build toc toc0, s3\<lparr>is_pos := p\<rparr>)"
    using readTOC_loop_lines [OF s3(2) s3(3) [unfolded z_def] assms(4)] by blast
  have "readTOC toc0 s = readTOC_loop toc0 s3"
    unfolding readTOC_def s0_def [symmetric] g(1) using g(3) l num pt s2 s3(1) by simp
  then show ?thesis using p by (auto simp: s3_def s2_def)
qed

text \<open>A file that is written: its name, the pieces of its contents, and the time it is closed.\<close>

type_synonym archive_file = "string \<times> string list \<times> int"

definition write_file :: "archive_file \<Rightarrow> StreamFsWriter \<Rightarrow> sf_error + StreamFsWriter" where
  "write_file = (\<lambda>(name, pieces, now) w.
     sbind (w_openWriteonly name w) (\<lambda>x.
       let (ws, w1) = fold ws_write pieces x in case w_close now ws w1 of (Inl e, _) \<Rightarrow> Inl e | (Inr _, w2) \<Rightarrow> Inr w2))"

fun write_files :: "archive_file list \<Rightarrow> StreamFsWriter \<Rightarrow> sf_error + StreamFsWriter" where
  "write_files [] w = Inr w"
| "write_files (f # fs) w = sbind (write_file f w) (write_files fs)"

definition write_archive :: "archive_file list \<Rightarrow> nat \<Rightarrow> sf_error + string" where
  "write_archive fs room =
     sbind (w_openFs \<lparr>os_data = [], os_room = room, os_good = True\<rparr> StreamFsWriter_init) (\<lambda>w.
       sbind (write_files fs w) (\<lambda>w1.
         case w_closeFs w1 of (Inr _, _, Some s) \<Rightarrow> Inr (os_data s) | (Inl e, _) \<Rightarrow> Inl e | _ \<Rightarrow> Inl NullPointer))"

abbreviation file_text :: "archive_file \<Rightarrow> string" where
  "file_text f \<equiv> concat (fst (snd f))"

definition file_name :: "archive_file \<Rightarrow> string" where
  "file_name f = (if hd (fst f) = CHR ''/'' then fst f else CHR ''/'' # fst f)"

fun file_entries :: "nat \<Rightarrow> archive_file list \<Rightarrow> TOC" where
  "file_entries pos [] = []"
| "file_entries pos (f # fs) =
     (file_name f, \<lparr>node_pos = pos, node_size = length (file_text f), node_modified = snd (snd f)\<rparr>) # file_entries (pos + length (file_text f)) fs"

lemma file_entries_append:
  "file_entries pos (fs @ gs) = file_entries pos fs @ file_entries (pos + length (concat (map file_text fs))) gs"
  by (induction fs arbitrary: pos) (simp_all add: add.assoc)

lemma file_entries_keys: "map fst (file_entries pos fs) = map file_name fs"
  by (induction fs arbitrary: pos) simp_all

lemma sf_name_root: "n \<noteq> [] \<Longrightarrow> sf_name ''/'' n = Inr (file_name (n, x))"
  by (cases n) (auto simp: sf_name_def joinNames_def file_name_def)

lemma ws_writes:
  assumes "\<not> ws_fail ws" "w_stream w = Some s" "os_good s" "length (os_data s) + length (concat ps) \<le> os_room s"
    "ws_payload ws + length (concat ps) < 2 ^ 63"
  shows "fold ws_write ps (ws, w) = (ws\<lparr>ws_payload := ws_payload ws + length (concat ps)\<rparr>,
    w\<lparr>w_stream := Some (s\<lparr>os_data := os_data s @ concat ps\<rparr>)\<rparr>)"
  using assms
proof (induction ps arbitrary: ws w s)
  case (Cons x ps)
  let ?ws = "ws\<lparr>ws_payload := ws_payload ws + length x\<rparr>" and ?s = "s\<lparr>os_data := os_data s @ x\<rparr>"
  have "ws_write x (ws, w) = (?ws, w\<lparr>w_stream := Some ?s\<rparr>)"
    using Cons.prems by (auto simp: ws_write_def xsputn_def os_write_def Let_def)
  moreover have "fold ws_write ps (?ws, w\<lparr>w_stream := Some ?s\<rparr>) = (?ws\<lparr>ws_payload := ws_payload ?ws + length (concat ps)\<rparr>,
      w\<lparr>w_stream := Some ?s\<rparr>\<lparr>w_stream := Some (?s\<lparr>os_data := os_data ?s @ concat ps\<rparr>)\<rparr>)"
    using Cons.prems by (intro Cons.IH) simp_all
  ultimately show ?case by (simp add: add.assoc)
qed simp

text \<open>The writer after some files.\<close>

definition written :: "nat \<Rightarrow> archive_file list \<Rightarrow> StreamFsWriter \<Rightarrow> bool" where
  "written room fs w \<longleftrightarrow> w_stream w = Some \<lparr>os_data = concat (map file_text fs), os_room = room, os_good = True\<rparr> \<and> w_cwd w = ''/'' \<and>
     w_pos w = length (concat (map file_text fs)) \<and> w_toc w = toc_build (file_entries 0 fs) [] \<and> w_openFiles w = 0"

lemma write_file_written:
  assumes "written room fs w" "fst f \<noteq> []" "file_name f \<notin> file_name ` set fs"
    "length (concat (map file_text (fs @ [f]))) \<le> room" "length (concat (map file_text (fs @ [f]))) < 2 ^ 63"
  shows "\<exists>w'. write_file f w = Inr w' \<and> written room (fs @ [f]) w'"
proof -
  obtain name pieces now where f: "f = (name, pieces, now)" by (cases f)
  let ?toc = "toc_build (file_entries 0 fs) []" and ?pos = "length (concat (map file_text fs))" and ?n = "file_name f"
  have sorted: "sorted_wrt (<) (map fst ?toc)" by (intro toc_build_sorted) simp
  have new: "map_of ?toc ?n = None"
    using assms(3) by (simp add: toc_build_map map_of_eq_None_iff flip: set_map)  (simp add: file_entries_keys)
  define node where "node = \<lparr>node_pos = ?pos, node_size = 0, node_modified = 0\<rparr>"
  define w1 where "w1 = w\<lparr>w_toc := toc_set ?n node ?toc, w_openFiles := 1\<rparr>"
  have o: "w_openWriteonly name w = Inr (\<lparr>ws_name = ?n, ws_payload = 0, ws_fail = False\<rparr>, w1)"
    using assms(1,2) new sf_name_root [of name "(pieces, now)"]
    by (simp add: w_openWriteonly_def written_def f w1_def node_def)
  define s1 where "s1 = \<lparr>os_data = concat (map file_text fs) @ concat pieces, os_room = room, os_good = True\<rparr>"
  have ws: "fold ws_write pieces (\<lparr>ws_name = ?n, ws_payload = 0, ws_fail = False\<rparr>, w1) =
      (\<lparr>ws_name = ?n, ws_payload = length (concat pieces), ws_fail = False\<rparr>, w1\<lparr>w_stream := Some s1\<rparr>)"
    using assms(1,4,5) ws_writes [of "\<lparr>ws_name = ?n, ws_payload = 0, ws_fail = False\<rparr>" w1
        "\<lparr>os_data = concat (map file_text fs), os_room = room, os_good = True\<rparr>" pieces]
    by (simp add: w1_def written_def f s1_def)
  have pos: "ull (?pos + length (concat pieces)) = ?pos + length (concat pieces)" using assms(5) by (simp add: f)
  have size: "unsignedToStreamsize (of_nat (length (concat pieces))) True = int (length (concat pieces))"
    using streamsize_of_nat [of "length (concat pieces)"] assms(5) by (simp add: f)
  define w2 where "w2 = w\<lparr>w_stream := Some s1, w_pos := ?pos + length (concat pieces),
    w_toc := toc_set ?n (node\<lparr>node_size := length (concat pieces), node_modified := now\<rparr>) ?toc, w_openFiles := 0\<rparr>"
  have "w_close now \<lparr>ws_name = ?n, ws_payload = length (concat pieces), ws_fail = False\<rparr> (w1\<lparr>w_stream := Some s1\<rparr>) = (Inr (), w2)"
    using assms(1) size pos toc_set_twice [OF sorted]
    by (simp add: w_close_def ws_seekoff_def toc_set_map w1_def w2_def s1_def written_def Let_def)
  then have "write_file f w = Inr w2" using o ws by (simp add: write_file_def f)
  moreover have "written room (fs @ [f]) w2"
    using assms(1) by (simp add: written_def w2_def s1_def f node_def file_entries_append toc_build_def)
  ultimately show ?thesis by blast
qed

lemma write_files_written:
  assumes "written room fs w" "\<forall>f\<in>set gs. fst f \<noteq> []" "distinct (map file_name (fs @ gs))"
    "length (concat (map file_text (fs @ gs))) \<le> room" "length (concat (map file_text (fs @ gs))) < 2 ^ 63"
  shows "\<exists>w'. write_files gs w = Inr w' \<and> written room (fs @ gs) w'"
  using assms
proof (induction gs arbitrary: fs w)
  case (Cons g gs)
  have "file_name g \<notin> file_name ` set fs" using Cons.prems(3) by auto
  then obtain w1 where w1: "write_file g w = Inr w1" "written room (fs @ [g]) w1"
    using write_file_written [OF Cons.prems(1), of g] Cons.prems(2,4,5) by auto
  then show ?case using Cons.IH [OF w1(2)] Cons.prems by auto
qed simp

definition archive_ok :: "archive_file list \<Rightarrow> nat \<Rightarrow> bool" where
  "archive_ok fs room \<longleftrightarrow> distinct (map file_name fs) \<and>
     list_all (\<lambda>f. fst f \<noteq> [] \<and> CHR 0x0A \<notin> set (fst f) \<and> - (2 ^ 63) \<le> snd (snd f) \<and> snd (snd f) < 2 ^ 63) fs \<and>
     length (concat (map file_text fs)) < 10 ^ 16 \<and>
     length (archive_text (concat (map file_text fs)) (toc_build (file_entries 0 fs) [])) \<le> room"

lemma archive_written:
  assumes "archive_ok fs room"
  shows "write_archive fs room = Inr (archive_text (concat (map file_text fs)) (toc_build (file_entries 0 fs) []))"
proof -
  let ?body = "concat (map file_text fs)" and ?toc = "toc_build (file_entries 0 fs) []"
  define w where "w = StreamFsWriter_init\<lparr>w_stream := Some \<lparr>os_data = [], os_room = room, os_good = True\<rparr>, w_baseURI := ''streamfs://[somestream]/''\<rparr>"
  have o: "w_openFs \<lparr>os_data = [], os_room = room, os_good = True\<rparr> StreamFsWriter_init = Inr w"
    by (simp add: w_openFs_def StreamFsWriter_init_def w_def)
  have init: "written room [] w" by (simp add: written_def w_def StreamFsWriter_init_def toc_build_def)
  have "length ?body \<le> room" using assms by (simp add: archive_ok_def archive_text_def)
  then obtain w1 where w1: "write_files fs w = Inr w1" "written room fs w1"
    using write_files_written [OF init, of fs] assms by (auto simp: archive_ok_def list_all_iff)
  have "dumpTOC (length ?body) ?toc \<lparr>os_data = ?body, os_room = room, os_good = True\<rparr> =
      (Inr (), \<lparr>os_data = archive_text ?body ?toc, os_room = room, os_good = True\<rparr>)"
    using dumpTOC_text [of "\<lparr>os_data = ?body, os_room = room, os_good = True\<rparr>" ?toc] assms by (simp add: archive_ok_def)
  then show ?thesis using o w1 by (simp add: write_archive_def written_def w_closeFs_def)
qed

lemma file_entry_in: "e \<in> set (file_entries pos fs) \<Longrightarrow>
    \<exists>f\<in>set fs. fst e = file_name f \<and> node_modified (snd e) = snd (snd f) \<and>
      pos \<le> node_pos (snd e) \<and> node_pos (snd e) + node_size (snd e) \<le> pos + length (concat (map file_text fs))"
proof (induction fs arbitrary: pos)
  case (Cons f fs)
  show ?case
  proof (cases "e \<in> set (file_entries (pos + length (file_text f)) fs)")
    case True
    from Cons.IH [OF this] show ?thesis by auto
  qed (use Cons.prems in auto)
qed simp

lemma entries_ok:
  assumes "archive_ok fs room"
  shows "list_all entry_ok (toc_build (file_entries 0 fs) [])"
proof -
  have "entry_ok e" if e: "e \<in> set (toc_build (file_entries 0 fs) [])" for e
  proof -
    have "e \<in> set (file_entries 0 fs)" using e toc_build_entries [of "file_entries 0 fs" "[]"] by auto
    from file_entry_in [OF this] obtain f where f: "f \<in> set fs" "fst e = file_name f" "node_modified (snd e) = snd (snd f)"
      "node_pos (snd e) + node_size (snd e) \<le> length (concat (map file_text fs))" by auto
    have a: "CHR 0x0A \<notin> set (fst f)" "- (2 ^ 63) \<le> snd (snd f)" "snd (snd f) < 2 ^ 63" "length (concat (map file_text fs)) < 10 ^ 16" "fst f \<noteq> []"
      using assms f(1) by (auto simp: archive_ok_def list_all_iff)
    have "node_pos (snd e) < 2 ^ 64" "node_size (snd e) < 2 ^ 64" using f(4) a(4) by simp_all
    moreover have "file_name f \<noteq> ''<End Of TOC>''" using a(5) by (cases "fst f") (auto simp: file_name_def)
    ultimately show ?thesis using a f(2,3) by (simp add: entry_ok_def file_name_def)
  qed
  then show ?thesis by (simp add: list_all_iff)
qed

subsection \<open>Reading one file\<close>

definition rb_exec :: "stream_op \<Rightarrow> StreamFsReaderBuf \<times> istream \<Rightarrow> sf_error + (stream_result \<times> (StreamFsReaderBuf \<times> istream))" where
  "rb_exec x = (\<lambda>(b, s). Inr
     (case x of
        Peek \<Rightarrow> apfst Char (rb_underflow b s)
      | Get \<Rightarrow> apfst Char (rb_uflow b s)
      | Read n \<Rightarrow> apfst (Bytes \<circ> oct) (rb_xsgetn n b s)
      | Seekpos p \<Rightarrow> apfst Pos (rb_seekpos (int p) b s)
      | Seekoff off way \<Rightarrow> apfst Pos (rb_seekoff off way b s)))"

text \<open>The text of a file at a position of the archive, and a buffer that reads it.\<close>

type_synonym located = "string \<times> nat \<times> string"

definition buf_reads :: "located \<Rightarrow> nat \<Rightarrow> StreamFsReaderBuf \<times> istream \<Rightarrow> bool" where
  "buf_reads = (\<lambda>(data, beg, t) pos (b, s).
     is_good s \<and> is_data s = data \<and> length data < 2 ^ 63 \<and> beg + length t \<le> length data \<and> take (length t) (drop beg data) = t \<and>
     rb_beg b = beg \<and> rb_size b = length t \<and> rb_pos b = pos \<and> pos \<le> length t \<and> is_pos s = beg + pos)"

definition text_exec :: "located \<Rightarrow> stream_op \<Rightarrow> nat \<Rightarrow> stream_result \<times> nat" where
  "text_exec = (\<lambda>(data, beg, t). bytes_exec (oct t))"

definition text_admitted :: "located \<Rightarrow> nat \<Rightarrow> stream_op \<Rightarrow> bool" where
  "text_admitted = (\<lambda>(data, beg, t) pos x.
     case x of Seekpos p \<Rightarrow> p \<le> length t | Seekoff off way \<Rightarrow> seek_target (oct t) pos off way \<le> int (length t) | _ \<Rightarrow> True)"

lemma uint_of_char: "uint (of_char c :: u8) = int (code c)"
proof -
  have "(of_char c :: u8) = of_nat (code c)" by (rule of_nat_of_char [symmetric])
  then show ?thesis using code_bound [of c] by (simp add: uint_nat unat_of_nat take_bit_nat_eq_self)
qed

lemma streamsize_of_word: "n < 2 ^ 63 \<Longrightarrow> unsignedToStreamsize (of_nat n) True = int n"
  using streamsize_of_nat [of n] by simp

lemma located_rest:
  assumes "buf_reads (data, beg, t) pos (b, s)"
  shows "take (length t - pos) (is_rest s) = drop pos t"
proof -
  have "drop pos (take (length t) (drop beg data)) = take (length t - pos) (drop (pos + beg) data)" by (simp add: drop_take)
  then show ?thesis using assms by (simp add: buf_reads_def is_rest_def add.commute)
qed

lemma located_next:
  assumes "buf_reads (data, beg, t) pos (b, s)" "pos < length t"
  shows "\<exists>u. is_rest s = t ! pos # u"
proof -
  have "take (length t - pos) (is_rest s) = t ! pos # drop (Suc pos) t"
    using located_rest [OF assms(1)] assms(2) by (simp add: Cons_nth_drop_Suc)
  then show ?thesis by (cases "is_rest s") (auto simp: take_Cons' split: if_splits)
qed

lemma buf_seekpos:
  assumes "buf_reads (data, beg, t) pos (b, s)" "p \<le> length t"
  shows "\<exists>b' s'. rb_seekpos (int p) b s = (int p, b', s') \<and> buf_reads (data, beg, t) p (b', s')"
proof -
  have p: "p < 2 ^ 63" "beg + p < 2 ^ 63" using assms by (simp_all add: buf_reads_def)
  show ?thesis
    using assms streamsize_of_nat [OF p(1)] streamsize_of_nat [OF p(2)]
    by (cases "p = pos") (auto simp: rb_seekpos_def buf_reads_def is_seekg_def is_good_def Let_def)
qed

lemma buf_xsgetn:
  assumes "buf_reads (data, beg, t) pos (b, s)"
  shows "\<exists>b' s'. rb_xsgetn n b s = (take n (drop pos t), b', s') \<and> buf_reads (data, beg, t) (min (pos + n) (length t)) (b', s')"
proof (cases "pos < length t")
  case True
  let ?m = "min n (length t - pos)"
  have len0: "length t < 2 ^ 63" using assms by (simp add: buf_reads_def)
  have st: "unsignedToStreamsize (of_nat (length t - pos)) True = int (length t - pos)"
    using len0 by (intro streamsize_of_word) linarith
  have x: "take ?m (is_rest s) = take n (drop pos t)"
    using arg_cong [OF located_rest [OF assms], of "take n"] by simp
  have "length t - pos \<le> length (is_rest s)" using assms by (auto simp: buf_reads_def is_rest_def)
  then have len: "?m \<le> length (is_rest s)" by simp
  have u: "ull (pos + ?m) = pos + ?m" using len0 True by (intro ull_eq) linarith
  have am: "(if int n < int (length t - pos) then int n else int (length t - pos)) = int ?m" by simp
  have b: "rb_pos b = pos" "rb_size b = length t" "\<not> rb_pos b \<ge> rb_size b" using assms True by (simp_all add: buf_reads_def)
  have "is_read ?m s = (take n (drop pos t), s\<lparr>is_pos := is_pos s + ?m\<rparr>)" using assms len x by (simp add: is_read_def buf_reads_def)
  moreover have "length (take n (drop pos t)) = ?m" by (simp add: min.commute)
  ultimately have "rb_xsgetn n b s = (take n (drop pos t), b\<lparr>rb_pos := pos + ?m\<rparr>, s\<lparr>is_pos := is_pos s + ?m\<rparr>)"
    using True u by (simp only: rb_xsgetn_def Let_def b(1,2) st am nat_int split simp_thms if_False) simp
  moreover have "buf_reads (data, beg, t) (min (pos + n) (length t)) (b\<lparr>rb_pos := pos + ?m\<rparr>, s\<lparr>is_pos := is_pos s + ?m\<rparr>)"
    using assms True by (auto simp: buf_reads_def is_good_def min_def)
  ultimately show ?thesis by blast
next
  case False
  then show ?thesis using assms by (auto simp: rb_xsgetn_def buf_reads_def min_def)
qed

interpretation archived: simulated rb_exec text_exec text_admitted buf_reads
proof
  fix c pos bs x
  assume r: "buf_reads c pos bs" and a: "text_admitted c pos x"
  obtain data beg t where c: "c = (data, beg, t)" by (cases c)
  obtain b s where bs: "bs = (b, s)" by (cases bs)
  note r = r [unfolded c bs]
  have char: "oct t ! pos = of_char (t ! pos)" if "pos < length t" using that by (simp add: oct_def)
  have le: "pos \<le> length t" "rb_pos b = pos" "rb_size b = length t" "is_good s" using r by (simp_all add: buf_reads_def)
  show "\<exists>s'. rb_exec x bs = Inr (fst (text_exec c x pos), s') \<and> buf_reads c (snd (text_exec c x pos)) s'"
  proof (cases x)
    case Peek
    then show ?thesis
      using r le located_next [OF r] by (cases "pos < length t")
        (auto simp: c bs rb_exec_def text_exec_def bytes_exec_def rb_underflow_def is_peek_def char uint_of_char)
  next
    case Get
    have "buf_reads (data, beg, t) (Suc pos) (b\<lparr>rb_pos := ull (Suc pos)\<rparr>, s\<lparr>is_pos := Suc (is_pos s)\<rparr>)" if "pos < length t"
    proof -
      have "ull (Suc pos) = Suc pos" using r that by (intro ull_eq) (simp add: buf_reads_def)
      then show ?thesis using r that by (simp add: buf_reads_def is_good_def)
    qed
    then show ?thesis
      using r le located_next [OF r] Get by (cases "pos < length t")
        (auto simp: c bs rb_exec_def text_exec_def bytes_exec_def rb_uflow_def is_get_def char uint_of_char min_def)
  next
    case (Read n)
    have "oct (take n (drop pos t)) = take n (drop pos (oct t))" by (simp add: oct_def take_map drop_map)
    then show ?thesis using buf_xsgetn [OF r, of n] Read by (auto simp: c bs rb_exec_def text_exec_def bytes_exec_def)
  next
    case (Seekpos p)
    then show ?thesis using buf_seekpos [OF r, of p] a by (auto simp: c bs rb_exec_def text_exec_def bytes_exec_def text_admitted_def)
  next
    case (Seekoff off way)
    define q where "q = seek_target (oct t) pos off way"
    have q: "q = int (origin_of (length t) pos way) + off" "q \<le> int (length t)"
      using a Seekoff by (simp_all add: q_def seek_target_def c text_admitted_def)
    have o: "(case way of Seek_beg \<Rightarrow> 0 | Seek_cur \<Rightarrow> rb_pos b | Seek_end \<Rightarrow> rb_size b) = origin_of (length t) pos way"
      using le by (simp add: origin_of_def split: seekdir.splits)
    show ?thesis
    proof (cases "q < 0")
      case True
      then have "off < 0" "nat (- off) > origin_of (length t) pos way" using q(1) by linarith+
      then have "rb_seekoff off way b s = (-1, b, s)" by (simp add: rb_seekoff_def o Let_def)
      then show ?thesis using r True Seekoff by (simp add: c bs rb_exec_def text_exec_def bytes_exec_def q_def Let_def)
    next
      case False
      then have n: "nat q \<le> length t" "q = int (nat q)" using q(2) by simp_all
      have fwd: "\<not> (off < 0 \<and> nat (- off) > origin_of (length t) pos way)" using False q(1) by linarith
      have "unsignedToStreamsize (word_of_int (int (nat q))) True = int (nat q)"
        using r n(1) by (intro streamsize_of_nat) (simp add: buf_reads_def)
      then have "rb_seekoff off way b s = rb_seekpos (int (nat q)) b s"
        using fwd False unfolding n(2) [symmetric] rb_seekoff_def o Let_def q(1) by auto
      then show ?thesis
        using buf_seekpos [OF r n(1)] False Seekoff by (auto simp: c bs rb_exec_def text_exec_def bytes_exec_def q_def Let_def)
    qed
  qed
qed

subsection \<open>Reading an archive\<close>

text \<open>A query opens a file, reads and seeks in it, and closes it.\<close>

type_synonym archive_query = "string \<times> stream_op list"

definition read_query :: "archive_query \<Rightarrow> StreamFsReader \<Rightarrow> sf_error + (stream_result list \<times> StreamFsReader)" where
  "read_query = (\<lambda>(name, ops) r.
     sbind (r_openReadonly name r) (\<lambda>(b, r1).
       case r_stream r1 of None \<Rightarrow> Inl NullPointer
       | Some s \<Rightarrow> sbind (run_all rb_exec ops (b, s)) (\<lambda>(rs, b1, s1).
           case r_close b1 (r1\<lparr>r_stream := Some s1\<rparr>) of (Inl e, _) \<Rightarrow> Inl e | (Inr _, r2) \<Rightarrow> Inr (rs, r2))))"

definition find_file :: "archive_file list \<Rightarrow> string \<Rightarrow> archive_file option" where
  "find_file fs name = (if name = [] then None else find (\<lambda>f. file_name f = file_name (name, [], 0)) fs)"

text \<open>The answer to a query is what its operations give on the contents of the file.\<close>

definition query_answer :: "archive_file list \<Rightarrow> archive_query \<Rightarrow> unit \<Rightarrow> stream_result list \<times> unit" where
  "query_answer fs = (\<lambda>(name, ops) _.
     (case find_file fs name of None \<Rightarrow> [] | Some f \<Rightarrow> fst (ref_all (bytes_exec (oct (file_text f))) ops 0), ()))"

definition query_admitted :: "archive_file list \<Rightarrow> unit \<Rightarrow> archive_query \<Rightarrow> bool" where
  "query_admitted fs _ = (\<lambda>(name, ops).
     case find_file fs name of None \<Rightarrow> False
     | Some f \<Rightarrow> admitted_all (bytes_exec (oct (file_text f))) (text_admitted ([], 0, file_text f)) ops 0)"

abbreviation archive_of :: "archive_file list \<Rightarrow> string" where
  "archive_of fs \<equiv> archive_text (concat (map file_text fs)) (toc_build (file_entries 0 fs) [])"

definition archive_fits :: "archive_file list \<Rightarrow> bool" where
  "archive_fits fs \<longleftrightarrow> distinct (map file_name fs) \<and> length (archive_of fs) < 2 ^ 63 \<and> length (concat (map file_text fs)) < 10 ^ 16"

definition reader_ok :: "archive_file list \<Rightarrow> unit \<Rightarrow> StreamFsReader \<Rightarrow> bool" where
  "reader_ok fs _ r \<longleftrightarrow> archive_fits fs \<and> r_cwd r = ''/'' \<and> r_openFiles r = 0 \<and> map_of (r_toc r) = map_of (file_entries 0 fs) \<and>
     (case r_stream r of None \<Rightarrow> False
      | Some s \<Rightarrow> is_good s \<and> is_data s = archive_of fs \<and> (r_pos r = is_pos s \<or> r_pos r = 2 ^ 64 - 1))"

lemma entry_located:
  assumes "distinct (map file_name fs)" "f \<in> set fs"
  shows "\<exists>p. map_of (file_entries pos fs) (file_name f) = Some \<lparr>node_pos = pos + p, node_size = length (file_text f), node_modified = snd (snd f)\<rparr> \<and>
    p + length (file_text f) \<le> length (concat (map file_text fs)) \<and> take (length (file_text f)) (drop p (concat (map file_text fs))) = file_text f"
  using assms
proof (induction fs arbitrary: pos)
  case (Cons g fs)
  show ?case
  proof (cases "f = g")
    case True
    then show ?thesis by (intro exI [of _ 0]) simp
  next
    case False
    then have n: "f \<in> set fs" using Cons.prems by auto
    then have "file_name f \<in> set (map file_name fs)" by simp
    then have n': "file_name f \<noteq> file_name g" using Cons.prems(1) by auto
    from Cons.IH [of "pos + length (file_text g)"] Cons.prems(1) n obtain p where
      "map_of (file_entries (pos + length (file_text g)) fs) (file_name f) =
        Some \<lparr>node_pos = pos + length (file_text g) + p, node_size = length (file_text f), node_modified = snd (snd f)\<rparr>"
      "p + length (file_text f) \<le> length (concat (map file_text fs))" "take (length (file_text f)) (drop p (concat (map file_text fs))) = file_text f"
      by auto
    then show ?thesis using n' by (intro exI [of _ "length (file_text g) + p"]) (simp add: add.assoc)
  qed
qed simp

lemma opened_located:
  assumes "reader_ok fs () r" "find_file fs name = Some f"
  shows "\<exists>p b r1 s. r_openReadonly name r = Inr (b, r1) \<and> r_stream r1 = Some s \<and> buf_reads (archive_of fs, p, file_text f) 0 (b, s) \<and>
    r1 = r\<lparr>r_stream := Some s, r_pos := p, r_openFiles := 1\<rparr>"
proof -
  obtain s where s: "r_stream r = Some s" "is_good s" "is_data s = archive_of fs" "r_pos r = is_pos s \<or> r_pos r = 2 ^ 64 - 1"
    using assms(1) by (auto simp: reader_ok_def split: option.splits)
  have n: "name \<noteq> []" "f \<in> set fs" "file_name f = file_name (name, [], 0)"
    using assms(2) by (auto simp: find_file_def find_Some_iff split: if_splits)
  obtain p where p: "map_of (file_entries 0 fs) (file_name f) = Some \<lparr>node_pos = p, node_size = length (file_text f), node_modified = snd (snd f)\<rparr>"
    "p + length (file_text f) \<le> length (concat (map file_text fs))" "take (length (file_text f)) (drop p (concat (map file_text fs))) = file_text f"
    using entry_located [OF _ n(2), of 0] assms(1) by (auto simp: reader_ok_def archive_fits_def)
  define s1 where "s1 = s\<lparr>is_pos := p\<rparr>"
  define b where "b = \<lparr>rb_beg = p, rb_pos = 0, rb_size = length (file_text f)\<rparr>"
  have l: "p < 10 ^ 16" "length (archive_of fs) < 2 ^ 63" using p(2) assms(1) by (auto simp: reader_ok_def archive_fits_def)
  have pt: "unsignedToStreamsize (of_nat p) True = int p" using l(1) by (intro streamsize_of_word) simp
  have node: "r_node name r = Inr \<lparr>node_pos = p, node_size = length (file_text f), node_modified = snd (snd f)\<rparr>"
    using assms(1) p(1) n(3) sf_name_root [OF n(1), of "([], 0)"] by (simp add: r_node_def reader_ok_def)
  have eq: "is_pos s = p" if "p = r_pos r" using s(4) l(1) that by auto
  have "r_openReadonly name r = Inr (b, r\<lparr>r_stream := Some s1, r_pos := p, r_openFiles := 1\<rparr>)"
  proof (cases "p = r_pos r")
    case True
    then have "s1 = s" "r\<lparr>r_stream := Some s1, r_pos := p, r_openFiles := 1\<rparr> = r\<lparr>r_openFiles := 1\<rparr>"
      using eq s(1) by (simp_all add: s1_def)
    then show ?thesis using assms(1) s(1) node True by (simp add: r_openReadonly_def reader_ok_def b_def)
  next
    case False
    then show ?thesis
      using assms(1) s(1,2) node pt by (simp add: r_openReadonly_def reader_ok_def b_def is_seekg_def is_good_def s1_def)
  qed
  moreover have "buf_reads (archive_of fs, p, file_text f) 0 (b, s1)"
    using s(2,3) p(2,3) l(2) by (auto simp: buf_reads_def b_def s1_def is_good_def archive_text_def)
  ultimately show ?thesis by auto
qed

interpretation archive: simulated read_query query_answer query_admitted reader_ok
proof
  fix fs u r q
  assume r: "reader_ok fs u r" and a: "query_admitted fs u q"
  obtain name ops where q: "q = (name, ops)" by (cases q)
  from a obtain f where f: "find_file fs name = Some f" "admitted_all (bytes_exec (oct (file_text f))) (text_admitted ([], 0, file_text f)) ops 0"
    by (auto simp: query_admitted_def q split: option.splits)
  obtain p b r1 s where o: "r_openReadonly name r = Inr (b, r1)" "r_stream r1 = Some s" "buf_reads (archive_of fs, p, file_text f) 0 (b, s)"
    "r1 = r\<lparr>r_stream := Some s, r_pos := p, r_openFiles := 1\<rparr>"
    using opened_located [of fs r name f] r f(1) by auto
  let ?c = "(archive_of fs, p, file_text f)"
  have adm: "admitted_all (text_exec ?c) (text_admitted ?c) ops 0" using f(2) by (simp add: text_exec_def text_admitted_def)
  obtain b1 s1 where run: "run_all rb_exec ops (b, s) = Inr (fst (ref_all (text_exec ?c) ops 0), (b1, s1))"
    "buf_reads ?c (snd (ref_all (text_exec ?c) ops 0)) (b1, s1)"
    using archived.run_refines [OF o(3) adm] by auto
  define pos where "pos = rb_pos b1"
  have b1: "is_good s1" "is_data s1 = archive_of fs" "is_pos s1 = p + pos" "pos \<le> rb_size b1" "p + pos < 2 ^ 63"
    using run(2) by (auto simp: buf_reads_def pos_def)
  have "rb_seekoff 0 Seek_cur b1 s1 = (int pos, b1, s1)"
    using b1 streamsize_of_word [of pos] by (simp add: rb_seekoff_def rb_seekpos_def pos_def Let_def)
  moreover have "ull (p + pos) = p + pos" by (rule ull_eq [OF b1(5)])
  ultimately have close: "r_close b1 (r1\<lparr>r_stream := Some s1\<rparr>) = (Inr (), r\<lparr>r_stream := Some s1, r_pos := p + pos, r_openFiles := 0\<rparr>)"
    using b1(1) o(4) by (simp add: r_close_def)
  have "read_query q r = Inr (fst (ref_all (text_exec ?c) ops 0), r\<lparr>r_stream := Some s1, r_pos := p + pos, r_openFiles := 0\<rparr>)"
    using o(1,2) run(1) close by (simp add: read_query_def q)
  moreover have "fst (ref_all (text_exec ?c) ops 0) = fst (query_answer fs q u)" using f(1) by (simp add: query_answer_def q text_exec_def)
  moreover have "reader_ok fs (snd (query_answer fs q u)) (r\<lparr>r_stream := Some s1, r_pos := p + pos, r_openFiles := 0\<rparr>)"
    using r b1 by (simp add: reader_ok_def)
  ultimately show "\<exists>r'. read_query q r = Inr (fst (query_answer fs q u), r') \<and> reader_ok fs (snd (query_answer fs q u)) r'" by auto
qed

lemma query_answers: "ref_all (query_answer fs) qs () = (map (\<lambda>q. fst (query_answer fs q ())) qs, ())"
  by (induction qs) (simp_all add: query_answer_def split_beta)

lemma queries_admitted: "admitted_all (query_answer fs) (query_admitted fs) qs () \<longleftrightarrow> (\<forall>q\<in>set qs. query_admitted fs () q)"
  by (induction qs) (simp_all add: query_answer_def split_beta)

lemma opened_archive:
  assumes "archive_ok fs room" "room < 2 ^ 63" "is_good s" "is_data s = archive_of fs"
  shows "\<exists>r. r_openFs s StreamFsReader_init = (Inr (), r) \<and> reader_ok fs () r"
proof -
  let ?toc = "toc_build (file_entries 0 fs) []"
  obtain p where p: "readTOC [] s = (None, toc_build ?toc [], s\<lparr>is_pos := p\<rparr>)"
    using readTOC_archive [OF assms(3,4) _ entries_ok [OF assms(1)]] assms(1) by (auto simp: archive_ok_def)
  have "sorted_wrt (<) (map fst ?toc)" by (intro toc_build_sorted) simp
  then have "map_of (toc_build ?toc []) = map_of (file_entries 0 fs)"
    using assms(1) by (simp add: toc_rebuild_map toc_build_distinct file_entries_keys archive_ok_def)
  moreover have "archive_fits fs" using assms(1,2) by (simp add: archive_ok_def archive_fits_def)
  ultimately show ?thesis
    using p assms(3,4) by (simp add: r_openFs_def StreamFsReader_init_def reader_ok_def is_good_def)
qed

lemma archived_entry:
  assumes "reader_ok fs () r" "f \<in> set fs" "fst f \<noteq> []"
  shows "r_size (fst f) r = Inr (length (file_text f))" "r_lastModified (fst f) r = Inr (snd (snd f))"
proof -
  have "sf_name ''/'' (fst f) = Inr (file_name f)" using sf_name_root [OF assms(3), of "snd f"] by simp
  moreover obtain p where "map_of (file_entries 0 fs) (file_name f) = Some \<lparr>node_pos = p, node_size = length (file_text f), node_modified = snd (snd f)\<rparr>"
    using entry_located [OF _ assms(2), of 0] assms(1) by (auto simp: reader_ok_def archive_fits_def)
  ultimately show "r_size (fst f) r = Inr (length (file_text f))" "r_lastModified (fst f) r = Inr (snd (snd f))"
    using assms(1) by (simp_all add: r_size_def r_lastModified_def r_node_def reader_ok_def)
qed

text \<open>
  Claim C20: files with distinct names without line ends are written to an archive in any pieces and
  the archive is closed. A reader opens the archive, has the size and the time of each file, and any
  sequence of queries, each of which opens one of the files, reads and seeks in it and closes it, gives
  what the reads and seeks give on the contents of the file.
\<close>

theorem archive_roundtrip:
  assumes "archive_ok fs room" "room < 2 ^ 63" "\<forall>q\<in>set qs. query_admitted fs () q"
  shows "\<exists>data r r'. write_archive fs room = Inr data \<and>
    r_openFs \<lparr>is_data = data, is_pos = 0, is_eof = False, is_fail = False\<rparr> StreamFsReader_init = (Inr (), r) \<and>
    run_all read_query qs r = Inr (map (\<lambda>q. fst (query_answer fs q ())) qs, r') \<and>
    (\<forall>f\<in>set fs. r_size (fst f) r = Inr (length (file_text f)) \<and> r_lastModified (fst f) r = Inr (snd (snd f)))"
proof -
  obtain r where r: "r_openFs \<lparr>is_data = archive_of fs, is_pos = 0, is_eof = False, is_fail = False\<rparr> StreamFsReader_init = (Inr (), r)"
    "reader_ok fs () r" using opened_archive [OF assms(1,2)] by (force simp: is_good_def)
  moreover obtain r' where "run_all read_query qs r = Inr (map (\<lambda>q. fst (query_answer fs q ())) qs, r')"
    using archive.run_refines [OF r(2), of qs] assms(3) by (auto simp: queries_admitted query_answers)
  moreover have "fst f \<noteq> []" if "f \<in> set fs" for f using assms(1) that by (auto simp: archive_ok_def list_all_iff)
  ultimately show ?thesis using archive_written [OF assms(1)] archived_entry by blast
qed

definition sample_files :: "archive_file list" where
  "sample_files = [(''b'', [''wor'', [], ''ld''], 7), (''/a/x'', [''hello''], 12)]"

definition sample_queries :: "archive_query list" where
  "sample_queries = [(''a/x'', [Read 4, Peek]), (''/b'', [Seekoff (-2) Seek_end, Read 9, Get]), (''/a/x'', [Get])]"

lemma sample_archive_ok: "archive_ok sample_files 100" "\<forall>q\<in>set sample_queries. query_admitted sample_files () q"
proof -
  have "length (archive_of sample_files) \<le> 100" "distinct (map file_name sample_files)" by code_simp+
  then show "archive_ok sample_files 100" by (simp add: archive_ok_def sample_files_def)
  show "\<forall>q\<in>set sample_queries. query_admitted sample_files () q" by code_simp
qed

theorem archive_roundtrip_witness:
  "\<exists>data r r'. write_archive sample_files 100 = Inr data \<and>
    r_openFs \<lparr>is_data = data, is_pos = 0, is_eof = False, is_fail = False\<rparr> StreamFsReader_init = (Inr (), r) \<and>
    run_all read_query sample_queries r =
      Inr ([[Bytes (oct ''hell''), Char 111], [Pos 3, Bytes (oct ''ld''), Char eof], [Char 104]], r') \<and>
    (\<forall>f\<in>set sample_files. r_size (fst f) r = Inr (length (file_text f)) \<and> r_lastModified (fst f) r = Inr (snd (snd f)))"
proof -
  have "map (\<lambda>q. fst (query_answer sample_files q ())) sample_queries = [[Bytes (oct ''hell''), Char 111], [Pos 3, Bytes (oct ''ld''), Char eof], [Char 104]]"
    by code_simp
  with archive_roundtrip [OF sample_archive_ok(1) _ sample_archive_ok(2)] show ?thesis by auto
qed

subsection \<open>Faults of the archives\<close>

text \<open>A writer that is opened again lists the files of the archive before.\<close>

definition reopened :: "sf_error + string" where
  "reopened =
     sbind (w_openFs \<lparr>os_data = [], os_room = 60, os_good = True\<rparr> StreamFsWriter_init) (\<lambda>w.
       sbind (write_files [(''b'', [''x''], 7)] w) (\<lambda>w1.
         sbind (w_openFs \<lparr>os_data = [], os_room = 60, os_good = True\<rparr> (fst (snd (w_closeFs w1)))) (\<lambda>w2.
           case w_closeFs w2 of (Inr _, _, Some s) \<Rightarrow> Inr (os_data s) | _ \<Rightarrow> Inl NullPointer)))"

lemma reopened_writer_keeps_table:
  "map_sum id (take 7) reopened = Inr (CHR 0x0A # ''/b'' @ CHR 0x0A # ''0'' @ CHR 0x0A # ''1'')"
  by code_simp

text \<open>After a failed write, closing the file violates an assertion; the error it would report is not reached.\<close>

lemma failed_write_asserts: "map_of (w_toc w) (ws_name ws) = Some n \<Longrightarrow> ws_fail ws \<Longrightarrow> w_close now ws w = (Inl SfAssertion, w)"
  by (simp add: w_close_def)

text \<open>A name with a line end is written, and the table cannot be read.\<close>

lemma line_end_in_name:
  "map_sum id (\<lambda>d. fst (readTOC [] \<lparr>is_data = d, is_pos = 0, is_eof = False, is_fail = False\<rparr>))
     (write_archive [([CHR ''a'', CHR 0x0A, CHR ''b''], [''x''], 7)] 60) = Inr (Some (SfThrown ''error reading TOC''))"
  by code_simp

text \<open>Anything is accepted as the time of the last modification.\<close>

lemma time_not_checked:
  "fst (readTOC [] \<lparr>is_data = ''x'' @ [CHR 0x0A] @ ''/b'' @ [CHR 0x0A] @ ''0'' @ [CHR 0x0A] @ ''1'' @ [CHR 0x0A] @ ''yesterday'' @
     [CHR 0x0A] @ ''<End Of TOC>'' @ [CHR 0x0A] @ ''               1'' @ [CHR 0x0A], is_pos = 0, is_eof = False, is_fail = False\<rparr>) = None"
  by code_simp

end
