(* ===== verification/Spec2Isabelle.thy ===== *)
theory Spec2Isabelle
  imports Prelude CLib UtilMisc Uris UriProps DataTypes Messages MessageSize ValueText ValueRoundtrip Metadata MetadataProps ExprEval ExprSemantics Cdr Iop PValues Ports Workers WorkerProps PropLayout HdlControl ResPools VLists Datagram DatagramDelivery DatagramPost DatagramAcks DatagramTransfer DatagramFaults MemFile MemFileProps MemFs MemFsProps StreamFs StreamFsProps
begin

text \<open>
  \<^bold>\<open>A verification of the core of the OpenCPI runtime.\<close>

  OpenCPI runs applications made of workers that are connected by ports. A \<^emph>\<open>container\<close> holds the
  workers of one kind of device (software workers of the RCC model, workers on an FPGA); it drives
  each worker through its life cycle, gives access to its properties, and connects its ports. Two
  ports are connected by exchanging descriptors of their buffers, locally or marshalled in the
  common data representation of CORBA (CDR), after a negotiation of transfer roles and buffer
  sizes. The messages on a connection follow a protocol: operations with typed arguments whose
  layout in the buffer is computed from the types. Property values are written as text in XML
  files and command lines and read back by the same library.

  \<^bold>\<open>The theories and the sources they model\<close> (paths below \<^verbatim>\<open>src/core\<close> unless given in full).

  \<^item> \<open>Prelude\<close>: machine integers, results with errors (\<open>sbind\<close>), integers in memory, list lemmas.
  \<^item> \<open>CLib\<close>: the functions of the C library that the sources call on text (character classes,
    \<^verbatim>\<open>strtoull\<close>, \<^verbatim>\<open>strtoll\<close>, decimal printing).
  \<^item> \<open>UtilMisc\<close>: \<^verbatim>\<open>local/util/misc/src/OcpiUtilMisc.cxx\<close>: number and text conversion, case
    insensitive comparison, patterns.
  \<^item> \<open>Uris\<close>, \<open>UriProps\<close>: \<^verbatim>\<open>local/util/misc/src/OcpiUtilUri.cxx\<close>: identifiers of resources, their
    escapes, parts, paths and resolution.
  \<^item> \<open>Cdr\<close>: \<^verbatim>\<open>local/util/ior/src/OcpiUtilCDR.cxx\<close>: the encoder and the decoder as a buffer of
    bytes with a position and a byte order.
  \<^item> \<open>Iop\<close>: \<^verbatim>\<open>local/util/ior/src/OcpiUtilIOP.cxx\<close> and \<^verbatim>\<open>OcpiUtilIIOP.cxx\<close>: object references,
    profiles, their stringified and corbaloc forms.
  \<^item> \<open>PValues\<close>: \<^verbatim>\<open>local/util/property/src/OcpiUtilPValue.cxx\<close>: parameter lists.
  \<^item> \<open>DataTypes\<close>: \<^verbatim>\<open>local/util/property/src/OcpiUtilDataTypes.cxx\<close> and \<^verbatim>\<open>OcpiUtilProperty.cxx\<close>:
    value types, the layout of members (\<^verbatim>\<open>Member::offset\<close>, \<^verbatim>\<open>alignMembers\<close>) and of properties.
  \<^item> \<open>Messages\<close>, \<open>MessageSize\<close>: \<^verbatim>\<open>Member::read\<close>, \<^verbatim>\<open>Member::write\<close> and the operations and
    protocols of \<^verbatim>\<open>OcpiUtilProtocol.cxx\<close> that call them. A buffer is a list of bytes with a cursor;
    the abstract classes \<^verbatim>\<open>Reader\<close> and \<^verbatim>\<open>Writer\<close> are the list of items that a reader delivers and the
    list of calls that a writer receives.
  \<^item> \<open>ValueText\<close>, \<open>ValueRoundtrip\<close>: \<^verbatim>\<open>local/util/property/src/OcpiUtilValue.cxx\<close>: property values
    as text.
  \<^item> \<open>Metadata\<close>, \<open>MetadataProps\<close>: \<^verbatim>\<open>local/util/ezxml/src/OcpiUtilEzxml.cxx\<close> and the parsing of
    \<^verbatim>\<open>Member\<close>, \<^verbatim>\<open>Operation\<close>, \<^verbatim>\<open>Protocol\<close>, \<^verbatim>\<open>Property\<close>, \<^verbatim>\<open>Port\<close>, \<^verbatim>\<open>Memory\<close> and \<^verbatim>\<open>Implementation\<close> in
    \<^verbatim>\<open>local/util/property/src\<close>, from documents as trees of elements with attributes.
  \<^item> \<open>ExprEval\<close>, \<open>ExprSemantics\<close>: \<^verbatim>\<open>local/util/misc/src/OcpiExprEvaluator.cxx\<close>: the lexer and the
    evaluator of expressions, and a reference semantics of expression trees.
  \<^item> \<open>Ports\<close>: \<^verbatim>\<open>container/interfaces/src/OcpiContainerPort.cxx\<close>: port descriptors, role
    negotiation, local and remote connection.
  \<^item> \<open>Workers\<close>: \<^verbatim>\<open>container/interfaces/src/OcpiWorker.cxx\<close> and
    \<^verbatim>\<open>container/rcc/src/OcpiRccWorker.cxx\<close>: the life cycle of workers and the run loop.
  \<^item> \<open>WorkerProps\<close>, \<open>PropLayout\<close>: property access in the memory of an RCC worker, and its
    composition with the layout of properties.
  \<^item> \<open>HdlControl\<close>: \<^verbatim>\<open>container/hdl/src/HdlWciControl.cxx\<close>: control and property access of workers
    behind a register window.
  \<^item> \<open>ResPools\<close>: \<^verbatim>\<open>local/util/res/src/OcpiAlloc.cxx\<close>: the allocator of address ranges.
  \<^item> \<open>VLists\<close>: \<^verbatim>\<open>local/util/list/src/OcpiList.cxx\<close>: growable lists of pointers.
  \<^item> \<open>Datagram\<close>: \<^verbatim>\<open>dataplane/rdma_drivers/datagram/src/DtDataGramXfer.cxx\<close>: requests, messages and
    frames, acknowledgement, retransmission and delivery. The network is a list of packets; a
    receiver may get any of them, in any order and more than once.
  \<^item> \<open>DatagramPost\<close>, \<open>DatagramAcks\<close>, \<open>DatagramDelivery\<close>, \<open>DatagramTransfer\<close>: the sender, its waiting
    for acknowledgements, the receiver, and a transfer from one end to the other; \<open>DatagramFaults\<close>:
    what the layer does outside of their hypotheses.
  \<^item> \<open>MemFile\<close>, \<open>MemFs\<close>: \<^verbatim>\<open>local/util/memfs/src\<close>, the names and the copying of
    \<^verbatim>\<open>local/util/vfs/src/OcpiUtilVfs.cxx\<close>: files in memory, their stream buffers, and the file system
    they are mounted in. \<open>MemFileProps\<close> and \<open>MemFsProps\<close> hold the properties.
  \<^item> \<open>StreamFs\<close>, \<open>StreamFsProps\<close>: \<^verbatim>\<open>local/util/streamfs/src\<close>: archives of files in one stream, the
    writer and the reader. The streams below them are texts with a position and their state bits.

  Structures and classes are records, exceptions and error strings are the left side of a sum, and
  reads and writes outside of an object are explicit errors. Machine integers keep their width.
  Definitions carry the names of the functions they translate.

  \<^bold>\<open>What is shown.\<close> Round trips: CDR streams, references, profile bodies, port descriptors,
  messages, property values in memory and as text, numbers in any base, identifiers of resources. Layout: members are placed
  disjoint and aligned, messages of bounded operations fit the computed size, properties do not
  overlap. Connection: the negotiated roles are complementary and respect mandates, the remote
  handshake gives what the local one gives. Life cycle: reachable workers keep the invariant of the
  state machine. Metadata: an accepted property has a well-formed type with bounds, and the default
  buffer of a parsed protocol holds its messages. Expressions: the evaluator stays within its tokens
  and agrees with the reference semantics on expressions with all parentheses. Datagrams: a request is
  packed into frames in order, every frame is acknowledged or sent again, and a transfer arrives
  whatever the order, the repetitions and the losses of its frames. Files: a file of several arrays
  reads as one, a mounted file is found and copied, what is written to an archive is read from it. Containers of memory: the pool stays a partition, the pointer list refines a
  plain list. Where the code does not do what it means to do, a theorem states what it does.

  \<^bold>\<open>Interfaces.\<close> The locale \<open>codec\<close> is the contract of an encoder and a decoder, interpreted for the
  CDR types and for profiles; \<open>tagged_store\<close> that of the stores of profiles and components;
  \<open>worker_container\<close> that between the generic control operation and a container, interpreted for RCC
  and HDL workers; \<open>property_memory\<close> that of the memory of properties; \<open>allocator\<close> that of the pool;
  \<open>element_text\<close> that of printing and parsing elements of values; \<open>any_order\<close> that of a handler whose
  state depends only on what it has handled, interpreted for frames that arrive and for acknowledgements;
  \<open>simulated\<close> that of an implementation that gives the results of a reference, interpreted for the
  streams of in-memory files, for those of archived files and for the reader of an archive.

  \<^bold>\<open>Bounds, parameters and fuel.\<close> Code outside of the sources is a parameter: the dispatch table of an
  RCC worker, the registers of a device, the conversions of floating point numbers. Loops are
  structural recursions or have a measure; \<open>count_elements\<close> and \<open>parseStruct\<close> take the length of
  the text as fuel, which suffices because every pass consumes a character.
  \<open>copy_loop\<close> may not end on an arbitrary stream and is a partial function; it is proved to end on the
  streams of files.

  The hypotheses on datagram transfers (several messages, none of four bytes, a payload that is not 3
  modulo 8, at most 256 frames, an identifier without bit 9, no other transaction open) are those
  without which the code loses data; each has a lemma in \<open>DatagramFaults\<close> or a bound of the arrays.

  \<^bold>\<open>Not modelled.\<close> Threads, sockets, host files and the operating system layer, which wrap the host; zip and HTTP file
  systems, which wrap zlib and sockets; the
  OpenCL container, which calls the OpenCL library; the circuits and buffers of the data transport;
  the drivers for shared memory, stream sockets and DMA; the XML parser, which is third-party code; the
  offline code generator.
\<close>

end
